(* ===== verification/Prelude.thy ===== *)
theory Prelude
  imports "HOL-Library.Word"
begin

text \<open>
  What the components share: the machine types, the faults a C function can run into, bounded reads and
  writes of byte buffers, NUL-terminated strings and the string functions of the C library the sources
  call, and the byte order of the host.

  A buffer is the list of its bytes (\<open>bytes\<close>), with the length the object has in memory. A read or a
  write outside it is undefined behaviour in C: the model returns \<open>Inl OutOfBounds\<close> for it, so a theorem
  that a function returns \<open>Inr\<close> also says that it stays inside its buffers.
\<close>

unbundle bit_operations_syntax

type_synonym u8 = "8 word"
type_synonym u16 = "16 word"
type_synonym u32 = "32 word"
type_synonym u64 = "64 word"
type_synonym bytes = "u8 list"

named_theorems buf_simps \<open>lengths and elements of buffers\<close>
named_theorems fault_simps \<open>results of operations that can fault\<close>
named_theorems byteorder_simps \<open>byte-order conversions\<close>

section \<open>Faults\<close>

text \<open>
  \<open>Undefined\<close> is any other undefined operation, such as the conversion of a floating-point number that
  does not fit; \<open>Diverged\<close> is not a fault of the program but a loop that has used up the fuel it was given.
\<close>

datatype fault =
    OutOfBounds
  | NullDeref
  | UseAfterFree
  | Unterminated
  | Undefined
  | Diverged

type_synonym 'a cres = "fault + 'a"

definition cbind :: "'a cres \<Rightarrow> ('a \<Rightarrow> 'b cres) \<Rightarrow> 'b cres" where
  "cbind r f = (case r of Inl e \<Rightarrow> Inl e | Inr x \<Rightarrow> f x)"

lemma cbind_simps [simp]:
  "cbind (Inl e) f = Inl e"
  "cbind (Inr x) f = f x"
  by (simp_all add: cbind_def)

lemma cbind_cong [fundef_cong]:
  "r = r' \<Longrightarrow> (\<And>x. r' = Inr x \<Longrightarrow> f x = g x) \<Longrightarrow> cbind r f = cbind r' g"
  by (cases r') auto

lemma cbind_eq_Inr: "cbind r f = Inr y \<longleftrightarrow> (\<exists>x. r = Inr x \<and> f x = Inr y)"
  by (cases r) auto

lemma cbind_assoc: "cbind (cbind r f) g = cbind r (\<lambda>x. cbind (f x) g)"
  by (cases r) auto

section \<open>Bounded reads and writes\<close>

definition byte_at :: "bytes \<Rightarrow> nat \<Rightarrow> u8 cres" where
  "byte_at buf i = (if i < length buf then Inr (buf ! i) else Inl OutOfBounds)"

lemma byte_at_Inr [simp]: "i < length buf \<Longrightarrow> byte_at buf i = Inr (buf ! i)"
  by (simp add: byte_at_def)

lemma byte_at_Inl [simp]: "length buf \<le> i \<Longrightarrow> byte_at buf i = Inl OutOfBounds"
  by (simp add: byte_at_def)

lemma byte_at_eq_Inr: "byte_at buf i = Inr b \<longleftrightarrow> i < length buf \<and> buf ! i = b"
  by (auto simp: byte_at_def)

definition put_byte :: "bytes \<Rightarrow> nat \<Rightarrow> u8 \<Rightarrow> bytes cres" where
  "put_byte buf i b = (if i < length buf then Inr (buf[i := b]) else Inl OutOfBounds)"

lemma put_byte_Inr [simp]: "i < length buf \<Longrightarrow> put_byte buf i b = Inr (buf[i := b])"
  by (simp add: put_byte_def)

lemma put_byte_eq_Inr: "put_byte buf i b = Inr buf' \<longleftrightarrow> i < length buf \<and> buf' = buf[i := b]"
  by (auto simp: put_byte_def)

text \<open>\<open>overlay off src dst\<close> is \<open>dst\<close> after \<open>src\<close> has been copied over it from offset \<open>off\<close> on.\<close>

definition overlay :: "nat \<Rightarrow> bytes \<Rightarrow> bytes \<Rightarrow> bytes" where
  "overlay off src dst = take off dst @ src @ drop (off + length src) dst"

definition memcpy_at :: "bytes \<Rightarrow> nat \<Rightarrow> bytes \<Rightarrow> nat \<Rightarrow> nat \<Rightarrow> bytes cres" where
  "memcpy_at dst doff src soff n =
     (if doff + n \<le> length dst \<and> soff + n \<le> length src
      then Inr (overlay doff (take n (drop soff src)) dst)
      else Inl OutOfBounds)"

lemma length_overlay [buf_simps]:
  "off + length src \<le> length dst \<Longrightarrow> length (overlay off src dst) = length dst"
  by (simp add: overlay_def)

lemma overlay_all [buf_simps]: "length src = length dst \<Longrightarrow> overlay 0 src dst = src"
  by (simp add: overlay_def)

lemma take_overlay [buf_simps]:
  "off \<le> length dst \<Longrightarrow> n \<le> off \<Longrightarrow> take n (overlay off src dst) = take n dst"
  by (simp add: overlay_def min_def)

lemma take_overlay0 [buf_simps]:
  "n \<le> length src \<Longrightarrow> take n (overlay 0 src dst) = take n src"
  by (simp add: overlay_def)

lemma slice_overlay [buf_simps]:
  "off + length src \<le> length dst \<Longrightarrow> take (length src) (drop off (overlay off src dst)) = src"
  by (simp add: overlay_def min_def)

lemma drop_overlay [buf_simps]:
  "off + length src \<le> length dst \<Longrightarrow> off + length src \<le> n \<Longrightarrow>
     drop n (overlay off src dst) = drop n dst"
  by (simp add: overlay_def min_def)

section \<open>C strings\<close>

text \<open>
  \<open>c_str buf\<close> is the string a buffer holds: its bytes up to the first NUL. \<open>terminated buf\<close> says that
  there is one; \<open>strlen\<close> of a buffer without one reads past its end.
\<close>

definition c_str :: "bytes \<Rightarrow> bytes" where
  "c_str buf = takeWhile (\<lambda>b. b \<noteq> 0) buf"

definition terminated :: "bytes \<Rightarrow> bool" where
  "terminated buf \<longleftrightarrow> 0 \<in> set buf"

definition strlen :: "bytes \<Rightarrow> nat cres" where
  "strlen buf = (if terminated buf then Inr (length (c_str buf)) else Inl Unterminated)"

text \<open>\<open>nul_free s\<close>: the bytes of a string proper, as the terminator ends it.\<close>

definition nul_free :: "bytes \<Rightarrow> bool" where
  "nul_free s \<longleftrightarrow> 0 \<notin> set s"

lemma nul_free_simps [simp]:
  "nul_free []" "nul_free (b # s) \<longleftrightarrow> b \<noteq> 0 \<and> nul_free s"
  "nul_free (s @ t) \<longleftrightarrow> nul_free s \<and> nul_free t"
  by (auto simp: nul_free_def)

lemma nul_free_c_str [simp]: "nul_free (c_str buf)"
  by (auto simp: nul_free_def c_str_def dest: set_takeWhileD)

lemma c_str_nul_free: "nul_free s \<Longrightarrow> c_str (s @ 0 # rest) = s"
  unfolding c_str_def nul_free_def by (subst takeWhile_append2) auto

lemma c_str_nul_free_all: "nul_free s \<Longrightarrow> c_str s = s"
  unfolding c_str_def nul_free_def by (rule takeWhile_eq_all_conv [THEN iffD2]) auto

lemma strlen_nul_free [fault_simps]: "nul_free s \<Longrightarrow> strlen (s @ 0 # rest) = Inr (length s)"
  by (simp add: strlen_def terminated_def c_str_nul_free)

text \<open>
  \<open>strncpy(dst, src, n)\<close> copies at most \<open>n\<close> bytes of the string, pads with NUL up to \<open>n\<close>, and leaves the
  rest of \<open>dst\<close> as it was: with \<open>n\<close> the size of \<open>dst\<close> less one, the last byte is the caller's business.
\<close>

definition strncpy_bytes :: "bytes \<Rightarrow> nat \<Rightarrow> bytes" where
  "strncpy_bytes src n = take n (c_str src) @ replicate (n - length (c_str src)) 0"

definition strncpy :: "bytes \<Rightarrow> bytes \<Rightarrow> nat \<Rightarrow> bytes cres" where
  "strncpy dst src n =
     (if n \<le> length dst \<and> (terminated src \<or> n \<le> length src)
      then Inr (overlay 0 (strncpy_bytes src n) dst)
      else Inl OutOfBounds)"

lemma length_strncpy_bytes [simp]: "length (strncpy_bytes src n) = n"
  by (simp add: strncpy_bytes_def)

lemma length_c_str_le: "length (c_str buf) \<le> length buf"
  by (simp add: c_str_def length_takeWhile_le)

lemma c_str_zeros: "c_str (replicate n 0 @ rest) = (if n = 0 then c_str rest else [])"
  by (cases n) (simp_all add: c_str_def)

lemma c_str_append_nul_free: "nul_free s \<Longrightarrow> c_str (s @ t) = s @ c_str t"
  unfolding c_str_def nul_free_def by (subst takeWhile_append2) auto

lemma nul_free_take: "nul_free s \<Longrightarrow> nul_free (take n s)"
  by (auto simp: nul_free_def dest: in_set_takeD)

lemma c_str_strncpy_bytes:
  "c_str (strncpy_bytes src n @ 0 # rest) = take n (c_str src)"
proof -
  have "c_str (replicate k 0 @ 0 # rest) = []" for k
    by (cases k) (simp_all add: c_str_def)
  then show ?thesis
    by (simp add: strncpy_bytes_def c_str_append_nul_free nul_free_take)
qed

text \<open>The optional sign the number scanners of the library accept: whether it is a minus, and the rest.\<close>

definition strip_sign :: "bytes \<Rightarrow> bool \<times> bytes" where
  "strip_sign s = (case s of [] \<Rightarrow> (False, [])
     | b # r \<Rightarrow> if b = 0x2D then (True, r) else if b = 0x2B then (False, r) else (False, s))"

section \<open>Words\<close>

lemma xor_right_cancel [simp]: "a XOR c = b XOR c \<longleftrightarrow> a = (b :: 'a::len word)"
  by (metis xor.assoc xor.right_neutral xor_self_eq)

lemma xor_left_cancel [simp]: "c XOR a = c XOR b \<longleftrightarrow> a = (b :: 'a::len word)"
  by (simp add: xor.commute [of c])

lemma not_bit_beyond: "8 \<le> n \<Longrightarrow> \<not> bit (b :: u8) n"
  using bit_imp_le_length [of b n] by auto

lemma ucast_u8_inject [simp]: "(ucast b :: 'a::len word) = ucast c \<longleftrightarrow> b = (c :: u8)"
  if "8 \<le> LENGTH('a)"
proof
  assume eq: "(ucast b :: 'a word) = ucast c"
  have "bit b n = bit c n" for n
  proof (cases "n < 8")
    case True
    then show ?thesis
      using that arg_cong [OF eq, of "\<lambda>w. bit w n"] by (simp add: bit_simps)
  qed (simp add: not_bit_beyond)
  then show "b = c"
    by (simp add: bit_eq_iff)
qed simp

lemma nibble_cases: "(n :: u8) < 16 \<Longrightarrow> n \<in> {0,1,2,3,4,5,6,7,8,9,10,11,12,13,14,15}"
proof -
  assume "n < 16"
  then have "unat n < 16"
    by (simp add: word_less_nat_alt)
  then have "unat n \<in> {0,1,2,3,4,5,6,7,8,9,10,11,12,13,14,15}"
    by (simp, presburger)
  then show ?thesis
    by (simp add: word_unat_eq_iff)
qed

lemma nibble_bounds: "drop_bit 4 (b :: u8) < 16" "(b :: u8) AND 0xF < 16"
proof -
  show "(b :: u8) AND 0xF < 16"
    using word_and_le1 [of b "0xF"] by (simp add: word_less_nat_alt word_le_nat_alt)
  have "unat b < 256"
    using unsigned_less [of b, where ?'a = nat] by simp
  then show "drop_bit 4 (b :: u8) < 16"
    unfolding word_less_nat_alt unat_drop_bit_eq by (simp add: drop_bit_eq_div)
qed

section \<open>Byte order\<close>

text \<open>
  \<open>be\<close> is the byte order of the host: \<open>True\<close> for a big-endian machine. \<open>htonl\<close> swaps the bytes on a
  little-endian host only, and an integer is stored in memory in the order of the host.
\<close>

text \<open>The bytes of an integer, most significant first, and back.\<close>

definition be16 :: "u16 \<Rightarrow> bytes" where
  "be16 x = [ucast (drop_bit 8 x), ucast x]"

definition be32 :: "u32 \<Rightarrow> bytes" where
  "be32 x = [ucast (drop_bit 24 x), ucast (drop_bit 16 x), ucast (drop_bit 8 x), ucast x]"

definition be64 :: "u64 \<Rightarrow> bytes" where
  "be64 x = be32 (ucast (drop_bit 32 x)) @ be32 (ucast x)"

fun rd_be16 :: "bytes \<Rightarrow> u16" where
  "rd_be16 (a # b # _) = push_bit 8 (ucast a) OR ucast b"
| "rd_be16 _ = 0"

fun rd_be32 :: "bytes \<Rightarrow> u32" where
  "rd_be32 (a # b # c # d # _) =
     push_bit 24 (ucast a) OR push_bit 16 (ucast b) OR push_bit 8 (ucast c) OR ucast d"
| "rd_be32 _ = 0"

definition rd_be64 :: "bytes \<Rightarrow> u64" where
  "rd_be64 bs = push_bit 32 (ucast (rd_be32 (take 4 bs))) OR ucast (rd_be32 (take 4 (drop 4 bs)))"

definition bswap16 :: "u16 \<Rightarrow> u16" where
  "bswap16 x = rd_be16 (rev (be16 x))"

definition bswap32 :: "u32 \<Rightarrow> u32" where
  "bswap32 x = rd_be32 (rev (be32 x))"

definition htons :: "bool \<Rightarrow> u16 \<Rightarrow> u16" where
  "htons be x = (if be then x else bswap16 x)"

definition ntohs :: "bool \<Rightarrow> u16 \<Rightarrow> u16" where
  "ntohs be x = (if be then x else bswap16 x)"

definition htonl :: "bool \<Rightarrow> u32 \<Rightarrow> u32" where
  "htonl be x = (if be then x else bswap32 x)"

definition ntohl :: "bool \<Rightarrow> u32 \<Rightarrow> u32" where
  "ntohl be x = (if be then x else bswap32 x)"

text \<open>Memory images: the bytes an object of the type occupies on the host.\<close>

definition mem16 :: "bool \<Rightarrow> u16 \<Rightarrow> bytes" where
  "mem16 be x = (if be then be16 x else rev (be16 x))"

definition mem32 :: "bool \<Rightarrow> u32 \<Rightarrow> bytes" where
  "mem32 be x = (if be then be32 x else rev (be32 x))"

definition mem64 :: "bool \<Rightarrow> u64 \<Rightarrow> bytes" where
  "mem64 be x = (if be then be64 x else rev (be64 x))"

definition ld16 :: "bool \<Rightarrow> bytes \<Rightarrow> u16" where
  "ld16 be bs = rd_be16 (if be then take 2 bs else rev (take 2 bs))"

definition ld32 :: "bool \<Rightarrow> bytes \<Rightarrow> u32" where
  "ld32 be bs = rd_be32 (if be then take 4 bs else rev (take 4 bs))"

definition ld64 :: "bool \<Rightarrow> bytes \<Rightarrow> u64" where
  "ld64 be bs = rd_be64 (if be then take 8 bs else rev (take 8 bs))"

lemma length_be [simp]:
  "length (be16 x) = 2" "length (be32 y) = 4" "length (be64 z) = 8"
  by (simp_all add: be16_def be32_def be64_def)

lemma length_mem [simp]:
  "length (mem16 be x) = 2" "length (mem32 be y) = 4" "length (mem64 be z) = 8"
  by (simp_all add: mem16_def mem32_def mem64_def)

lemma rd_be16_be16 [byteorder_simps]: "rd_be16 (be16 x) = x"
  unfolding be16_def rd_be16.simps
  by (rule bit_word_eqI) (auto simp: bit_simps not_less)

lemma rd_be32_be32 [byteorder_simps]: "rd_be32 (be32 x) = x"
proof (rule bit_word_eqI)
  fix n :: nat
  consider "n < 8" | "8 \<le> n" "n < 16" | "16 \<le> n" "n < 24" | "24 \<le> n"
    by linarith
  then show "bit (rd_be32 (be32 x)) n = bit x n" if "n < LENGTH(32)"
    using that by cases (auto simp: be32_def bit_simps)
qed

lemma rd_be64_be64 [byteorder_simps]: "rd_be64 (be64 x) = x"
  unfolding be64_def rd_be64_def
  by (simp add: byteorder_simps) (rule bit_word_eqI, auto simp: bit_simps not_less)

text \<open>Network order is the same sequence of bytes on every host.\<close>

lemma be32_rd_be32: "be32 (rd_be32 [a, b, c, d]) = [a, b, c, d]"
  by (auto simp: be32_def bit_simps not_bit_beyond intro!: bit_word_eqI)

lemma be16_rd_be16: "be16 (rd_be16 [a, b]) = [a, b]"
  by (auto simp: be16_def bit_simps not_bit_beyond intro!: bit_word_eqI)

lemma bswap32_be32: "be32 (bswap32 x) = rev (be32 x)"
  by (simp add: bswap32_def be32_def [of x] be32_rd_be32 del: rd_be32.simps)

lemma bswap16_be16: "be16 (bswap16 x) = rev (be16 x)"
  by (simp add: bswap16_def be16_def [of x] be16_rd_be16 del: rd_be16.simps)

lemma mem32_htonl [byteorder_simps]: "mem32 be (htonl be x) = be32 x"
  by (simp add: mem32_def htonl_def bswap32_be32)

lemma mem16_htons [byteorder_simps]: "mem16 be (htons be x) = be16 x"
  by (simp add: mem16_def htons_def bswap16_be16)

lemma bswap32_bswap32 [simp]: "bswap32 (bswap32 x) = x"
  by (metis bswap32_be32 rd_be32_be32 rev_rev_ident)

lemma bswap16_bswap16 [simp]: "bswap16 (bswap16 x) = x"
  by (metis bswap16_be16 rd_be16_be16 rev_rev_ident)

lemma ntohl_htonl [byteorder_simps]: "ntohl be (htonl be x) = x" "htonl be (ntohl be x) = x"
  by (simp_all add: ntohl_def htonl_def)

lemma ntohs_htons [byteorder_simps]: "ntohs be (htons be x) = x" "htons be (ntohs be x) = x"
  by (simp_all add: ntohs_def htons_def)

lemma ld32_mem32 [byteorder_simps]: "ld32 be (mem32 be x @ rest) = x"
  by (simp add: ld32_def mem32_def byteorder_simps)

lemma ld16_mem16 [byteorder_simps]: "ld16 be (mem16 be x @ rest) = x"
  by (simp add: ld16_def mem16_def byteorder_simps)

lemma ld64_mem64 [byteorder_simps]: "ld64 be (mem64 be x @ rest) = x"
  by (simp add: ld64_def mem64_def byteorder_simps)

text \<open>Reading a network-order field on any host gives the value whose big-endian bytes are there.\<close>

lemma ntohl_ld32 [byteorder_simps]: "ntohl be (ld32 be (be32 x @ rest)) = x"
  by (metis ld32_mem32 mem32_htonl ntohl_htonl(1))

lemma ntohs_ld16 [byteorder_simps]: "ntohs be (ld16 be (be16 x @ rest)) = x"
  by (metis ld16_mem16 mem16_htons ntohs_htons(1))

end
