(* ===== verification/Crc32.thy ===== *)
theory Crc32
  imports Prelude
begin

text \<open>
  \<open>crc/crc32.c\<close>: the table-driven CRC-32, the bit-by-bit CRC-32 (reflected, polynomial 0xEDB88320) and
  CRC-32/MPEG-2 (not reflected, polynomial 0x04C11DB7). The static \<open>crc_table\<close> is an argument, because
  the caller has to fill it with \<open>init_crc_table\<close> first. The lengths are \<open>uint16_t\<close>, as in the code.
\<close>

section \<open>The code\<close>

text \<open>One round of the inner loop of \<open>init_crc_table\<close> and of \<open>crc32\<close>: they compute the same.\<close>

definition crc_bit :: "u32 \<Rightarrow> u32" where
  "crc_bit c = (if c AND 1 \<noteq> 0 then 0xedb88320 XOR drop_bit 1 c else drop_bit 1 c)"

fun crc_bits :: "nat \<Rightarrow> u32 \<Rightarrow> u32" where
  "crc_bits 0 c = c"
| "crc_bits (Suc j) c = crc_bits j (crc_bit c)"

definition init_crc_table :: "u32 list" where
  "init_crc_table = map (\<lambda>i. crc_bits 8 (of_nat i)) [0..<256]"

definition table_step :: "u32 list \<Rightarrow> u32 \<Rightarrow> u8 \<Rightarrow> u32" where
  "table_step tbl crc b = tbl ! unat ((crc XOR ucast b) AND 0xff) XOR drop_bit 8 crc"

function crc32_table_loop :: "u32 list \<Rightarrow> bytes \<Rightarrow> nat \<Rightarrow> nat \<Rightarrow> u32 \<Rightarrow> u32 cres" where
  "crc32_table_loop tbl buf len i crc =
     (if i < len
      then cbind (byte_at buf i) (\<lambda>b. crc32_table_loop tbl buf len (Suc i) (table_step tbl crc b))
      else Inr crc)"
  by pat_completeness auto
termination
  by (relation "measure (\<lambda>(tbl, buf, len, i, crc). len - i)") auto

declare crc32_table_loop.simps [simp del]

definition crc32_table :: "u32 list \<Rightarrow> bytes \<Rightarrow> u16 \<Rightarrow> u32 cres" where
  "crc32_table tbl buf len =
     cbind (crc32_table_loop tbl buf (unat len) 0 0xffffffff) (\<lambda>crc. Inr (NOT crc))"

text \<open>
  \<open>while (len--)\<close> with a moving pointer: the pointer is the index \<open>i\<close>, and \<open>len\<close> counts down to 0.
\<close>

definition crc32_step :: "u32 \<Rightarrow> u8 \<Rightarrow> u32" where
  "crc32_step crc b = crc_bits 8 (crc XOR ucast b)"

fun crc32_loop :: "bytes \<Rightarrow> nat \<Rightarrow> nat \<Rightarrow> u32 \<Rightarrow> u32 cres" where
  "crc32_loop buf i 0 crc = Inr crc"
| "crc32_loop buf i (Suc len) crc =
     cbind (byte_at buf i) (\<lambda>b. crc32_loop buf (Suc i) len (crc32_step crc b))"

definition crc32 :: "bytes \<Rightarrow> u16 \<Rightarrow> u32 cres" where
  "crc32 data len = cbind (crc32_loop data 0 (unat len) 0xffffffff) (\<lambda>crc. Inr (NOT crc))"

definition mpeg_bit :: "u32 \<Rightarrow> u32" where
  "mpeg_bit crc =
     (if crc AND 0x80000000 \<noteq> 0 then push_bit 1 crc XOR 0x04C11DB7 else push_bit 1 crc)"

fun mpeg_bits :: "nat \<Rightarrow> u32 \<Rightarrow> u32" where
  "mpeg_bits 0 crc = crc"
| "mpeg_bits (Suc j) crc = mpeg_bits j (mpeg_bit crc)"

definition mpeg_step :: "u32 \<Rightarrow> u8 \<Rightarrow> u32" where
  "mpeg_step crc b = mpeg_bits 8 (crc XOR push_bit 24 (ucast b))"

fun crc32_mpeg_2_loop :: "bytes \<Rightarrow> nat \<Rightarrow> nat \<Rightarrow> u32 \<Rightarrow> u32 cres" where
  "crc32_mpeg_2_loop buf i 0 crc = Inr crc"
| "crc32_mpeg_2_loop buf i (Suc len) crc =
     cbind (byte_at buf i) (\<lambda>b. crc32_mpeg_2_loop buf (Suc i) len (mpeg_step crc b))"

definition crc32_mpeg_2 :: "bytes \<Rightarrow> u16 \<Rightarrow> u32 cres" where
  "crc32_mpeg_2 data len = crc32_mpeg_2_loop data 0 (unat len) 0xffffffff"

text \<open>
  \<open>main\<close> prints the three checksums of \<open>argv[1]\<close>; its \<open>strlen\<close> is converted to \<open>uint16_t\<close> by the
  calls. \<open>None\<close> is a missing argument, \<open>Some s\<close> the string.
\<close>

definition crc_main :: "bytes option \<Rightarrow> (u32 \<times> u32 \<times> u32) cres" where
  "crc_main arg =
     (case arg of
        None \<Rightarrow> Inl NullDeref
      | Some s \<Rightarrow>
          let buf = s @ [0] in
          cbind (strlen buf) (\<lambda>n.
          cbind (crc32_table init_crc_table buf (of_nat n)) (\<lambda>a.
          cbind (crc32 buf (of_nat n)) (\<lambda>b.
          cbind (crc32_mpeg_2 buf (of_nat n)) (\<lambda>c. Inr (a, b, c))))))"

section \<open>Loops as folds\<close>

lemma crc32_table_loop_fold:
  "i \<le> len \<Longrightarrow> len \<le> length buf \<Longrightarrow>
     crc32_table_loop tbl buf len i crc = Inr (foldl (table_step tbl) crc (drop i (take len buf)))"
proof (induction tbl buf len i crc rule: crc32_table_loop.induct)
  case (1 tbl buf len i crc)
  show ?case
  proof (cases "i < len")
    case True
    then have "drop i (take len buf) = buf ! i # drop (Suc i) (take len buf)"
      using "1.prems" by (simp add: Cons_nth_drop_Suc [symmetric])
    with True "1.prems" "1.IH" [of "buf ! i"] show ?thesis
      by (simp add: crc32_table_loop.simps [of tbl buf len i crc])
  qed (use "1.prems" in \<open>simp add: crc32_table_loop.simps [of tbl buf len len crc]\<close>)
qed

lemma crc32_loop_fold:
  "i + len \<le> length buf \<Longrightarrow>
     crc32_loop buf i len crc = Inr (foldl crc32_step crc (take len (drop i buf)))"
  by (induction len arbitrary: i crc) (simp_all add: Cons_nth_drop_Suc [symmetric])

lemma crc32_mpeg_2_loop_fold:
  "i + len \<le> length buf \<Longrightarrow>
     crc32_mpeg_2_loop buf i len crc = Inr (foldl mpeg_step crc (take len (drop i buf)))"
  by (induction len arbitrary: i crc) (simp_all add: Cons_nth_drop_Suc [symmetric])

lemma crc32_fold:
  "unat len \<le> length buf \<Longrightarrow>
     crc32 buf len = Inr (NOT (foldl crc32_step 0xffffffff (take (unat len) buf)))"
  by (simp add: crc32_def crc32_loop_fold)

lemma crc32_table_fold:
  "unat len \<le> length buf \<Longrightarrow>
     crc32_table tbl buf len = Inr (NOT (foldl (table_step tbl) 0xffffffff (take (unat len) buf)))"
  by (simp add: crc32_table_def crc32_table_loop_fold)

lemma crc32_mpeg_2_fold:
  "unat len \<le> length buf \<Longrightarrow>
     crc32_mpeg_2 buf len = Inr (foldl mpeg_step 0xffffffff (take (unat len) buf))"
  by (simp add: crc32_mpeg_2_def crc32_mpeg_2_loop_fold)

text \<open>Reading past the buffer is a fault, in all three.\<close>

lemma crc32_loop_overrun: "length buf < i + len \<Longrightarrow> i \<le> length buf \<Longrightarrow>
    crc32_loop buf i len crc = Inl OutOfBounds"
proof (induction len arbitrary: i crc)
  case (Suc len)
  then show ?case by (cases "i < length buf") simp_all
qed simp

lemma crc32_table_loop_overrun: "length buf < len \<Longrightarrow> i \<le> length buf \<Longrightarrow>
    crc32_table_loop tbl buf len i crc = Inl OutOfBounds"
proof (induction tbl buf len i crc rule: crc32_table_loop.induct)
  case (1 tbl buf len i crc)
  then show ?case
    by (cases "i < length buf")
      (auto simp: crc32_table_loop.simps [of tbl buf len i crc]
        crc32_table_loop.simps [of tbl buf len "length buf" crc])
qed

section \<open>The bit step is linear and invertible\<close>

lemma bit_crc_bit:
  "bit (crc_bit c) n \<longleftrightarrow> (bit c 0 \<and> bit (0xedb88320 :: u32) n) \<noteq> bit c (Suc n)"
proof -
  have "c AND 1 \<noteq> 0 \<longleftrightarrow> bit c 0"
    by (simp add: and_one_eq mod_2_eq_odd bit_0)
  then show ?thesis
    by (auto simp: crc_bit_def bit_xor_iff bit_drop_bit_eq)
qed

lemma crc_bit_xor: "crc_bit (a XOR b) = crc_bit a XOR crc_bit b"
  by (rule bit_word_eqI) (auto simp: bit_crc_bit bit_xor_iff)

lemma crc_bit_zero [simp]: "crc_bit 0 = 0"
  by (simp add: crc_bit_def)

lemma crc_bits_xor: "crc_bits k (a XOR b) = crc_bits k a XOR crc_bits k b"
  by (induction k arbitrary: a b) (simp_all add: crc_bit_xor)

lemma crc_bits_add: "crc_bits (j + k) c = crc_bits k (crc_bits j c)"
  by (induction j arbitrary: c) simp_all


text \<open>
  Bit 31 of the polynomial is set, so the top bit of the result tells which branch was taken: the step
  can be undone.
\<close>

lemma inj_crc_bit: "inj crc_bit"
proof (rule injI)
  fix a b :: u32
  assume eq: "crc_bit a = crc_bit b"
  have b31: "bit (0xedb88320 :: u32) 31"
    by (simp add: bit_numeral_rec)
  have top: "\<not> bit (x :: u32) 32" for x
    using bit_imp_le_length [of x 32] by auto
  have low: "bit a 0 = bit b 0"
    using bit_crc_bit [of a 31] bit_crc_bit [of b 31] eq b31 top by auto
  show "a = b"
  proof (rule bit_word_eqI)
    fix n
    show "bit a n = bit b n"
    proof (cases n)
      case 0
      with low show ?thesis by simp
    next
      case (Suc m)
      with bit_crc_bit [of a m] bit_crc_bit [of b m] eq low show ?thesis by auto
    qed
  qed
qed

lemma crc_bits_inject: "crc_bits k a = crc_bits k b \<Longrightarrow> a = b"
  by (induction k arbitrary: a b) (auto dest: injD [OF inj_crc_bit])

text \<open>Where the low bits are clear, the step is a plain shift.\<close>

lemma crc_bits_push:
  "(\<And>n. 32 - k \<le> n \<Longrightarrow> \<not> bit z n) \<Longrightarrow> k \<le> 32 \<Longrightarrow> crc_bits k (push_bit k z) = z"
proof (induction k)
  case (Suc k)
  have pb: "bit (push_bit m z) j \<longleftrightarrow> m \<le> j \<and> j < 32 \<and> bit z (j - m)" for m j
    by (auto simp: bit_simps)
  have "crc_bit (push_bit (Suc k) z) = push_bit k z"
  proof (rule bit_word_eqI)
    fix n
    assume "n < LENGTH(32)"
    then show "bit (crc_bit (push_bit (Suc k) z)) n = bit (push_bit k z) n"
      using Suc.prems(1) [of "n - k"] Suc.prems(2)
      by (cases "n = 31") (auto simp: bit_crc_bit pb simp del: push_bit_Suc)
  qed
  with Suc show ?case
    by (simp del: push_bit_Suc)
qed simp

section \<open>Table-driven and bitwise agree\<close>

lemma init_crc_table_nth: "init_crc_table ! unat (x AND 0xff) = crc_bits 8 (x AND 0xff)"
proof -
  have "x AND 0xff \<le> 0xff"
    by (rule word_and_le1)
  then have "unat (x AND 0xff) \<le> 255"
    by (simp add: word_le_nat_alt)
  then show ?thesis
    by (simp add: init_crc_table_def nth_append)
qed

lemma table_step_eq: "table_step init_crc_table crc b = crc32_step crc b"
proof -
  let ?x = "crc XOR ucast b" and ?z = "drop_bit 8 crc"
  have split: "?x = (?x AND 0xff) XOR push_bit 8 ?z"
  proof (rule bit_word_eqI)
    fix n :: nat
    have "bit (0xff :: u32) n \<longleftrightarrow> n < 8"
      using bit_mask_iff [where ?'a = "32 word", of 8 n] by (auto simp: mask_eq_exp_minus_1)
    then show "bit ?x n = bit ((?x AND 0xff) XOR push_bit 8 ?z) n" if "n < LENGTH(32)"
      using that by (auto simp: bit_simps not_bit_beyond)
  qed
  have "\<not> bit ?z n" if "32 - 8 \<le> n" for n
    using that bit_imp_le_length [of crc "8 + n"] by (auto simp: bit_drop_bit_eq)
  then have "crc_bits 8 (push_bit 8 ?z) = ?z"
    by (rule crc_bits_push) simp_all
  then have "crc_bits 8 ?x = crc_bits 8 (?x AND 0xff) XOR ?z"
    by (subst split) (simp only: crc_bits_xor)
  then show ?thesis
    by (simp only: table_step_def crc32_step_def init_crc_table_nth)
qed

lemma crc_main_fold:
  assumes "nul_free s" and n: "n = length s mod 2 ^ 16"
  shows "crc_main (Some s) =
     Inr (let c = NOT (foldl crc32_step 0xffffffff (take n s)) in
          (c, c, foldl mpeg_step 0xffffffff (take n s)))"
proof -
  have un: "unat (of_nat (length s) :: u16) = n"
    by (simp add: n unat_of_nat)
  have le: "n \<le> length s"
    by (simp add: n)
  show ?thesis
    using assms(1) le
    by (simp add: crc_main_def fault_simps crc32_fold crc32_table_fold crc32_mpeg_2_fold un
        table_step_eq [abs_def] Let_def)
qed

section \<open>Detection of errors\<close>

text \<open>
  The contract of a checksum register: \<open>inject\<close> feeds a byte in; for every byte it is injective in the
  register, and for every register it is injective in the byte. A message that differs from another of
  the same length in one byte then leaves another register.
\<close>

locale checksum_register =
  fixes inject :: "'s \<Rightarrow> 'b \<Rightarrow> 's"
  assumes inject_register: "inject s b = inject t b \<Longrightarrow> s = t"
    and inject_byte: "inject s b = inject s c \<Longrightarrow> b = c"
begin

lemma foldl_register: "foldl inject s bs = foldl inject t bs \<Longrightarrow> s = t"
  by (induction bs arbitrary: s t) (auto dest: inject_register)

lemma one_byte:
  assumes "foldl inject s (xs @ b # ys) = foldl inject s (xs @ c # ys)"
  shows "b = c"
  using assms by (auto dest!: foldl_register inject_byte)

end

lemma crc32_step_inject_register: "crc32_step s b = crc32_step t b \<Longrightarrow> s = t"
  unfolding crc32_step_def by (auto dest!: crc_bits_inject)

lemma crc32_step_inject_byte: "crc32_step s b = crc32_step s c \<Longrightarrow> b = c"
  unfolding crc32_step_def by (auto dest!: crc_bits_inject)

interpretation crc: checksum_register crc32_step
  by unfold_locales (auto dest: crc32_step_inject_register crc32_step_inject_byte)

interpretation crc_tab: checksum_register "table_step init_crc_table"
  by unfold_locales (auto simp: table_step_eq dest: crc32_step_inject_register crc32_step_inject_byte)

text \<open>
  Up to four bytes enter the register as one word: after them the register is the image of the old one,
  with the bytes added in little-endian order, under as many bit steps.
\<close>

fun le_word :: "bytes \<Rightarrow> u32" where
  "le_word [] = 0"
| "le_word (b # bs) = ucast b XOR push_bit 8 (le_word bs)"

lemma bit_le_word_beyond: "8 * length bs \<le> n \<Longrightarrow> \<not> bit (le_word bs) n"
proof (induction bs arbitrary: n)
  case (Cons b bs)
  then have "8 \<le> n" "8 * length bs \<le> n - 8"
    by auto
  with Cons.IH [of "n - 8"] show ?case
    by (simp add: bit_simps not_bit_beyond)
qed simp

lemma foldl_crc32_step_word:
  "length bs \<le> 4 \<Longrightarrow> foldl crc32_step c bs = crc_bits (8 * length bs) (c XOR le_word bs)"
proof (induction bs arbitrary: c)
  case (Cons b bs)
  have "\<not> bit (le_word bs) n" if "32 - 8 \<le> n" for n
    using Cons.prems that by (intro bit_le_word_beyond) simp
  then have "crc_bits 8 (push_bit 8 (le_word bs)) = le_word bs"
    by (rule crc_bits_push) simp_all
  then have "crc32_step c b XOR le_word bs = crc_bits 8 (c XOR le_word (b # bs))"
    unfolding crc32_step_def le_word.simps by (metis crc_bits_xor xor.assoc)
  with Cons show ?case
    by (simp add: crc_bits_add del: crc_bits.simps le_word.simps)
qed simp

lemma ucast_le_word: "ucast (le_word (b # bs)) = b"
  by (rule bit_word_eqI) (simp add: bit_simps)

lemma drop_bit_le_word: "length bs \<le> 3 \<Longrightarrow> drop_bit 8 (le_word (b # bs)) = le_word bs"
proof (rule bit_word_eqI)
  fix n
  assume "length bs \<le> 3" "n < LENGTH(32)"
  then show "bit (drop_bit 8 (le_word (b # bs))) n = bit (le_word bs) n"
    using bit_le_word_beyond [of bs n]
    by (cases "n < 24") (simp_all add: bit_simps not_bit_beyond)
qed

lemma le_word_inject:
  "le_word xs = le_word ys \<Longrightarrow> length xs = length ys \<Longrightarrow> length xs \<le> 4 \<Longrightarrow> xs = ys"
proof (induction xs ys rule: list_induct2')
  case (4 x xs y ys)
  have "x = y"
    using arg_cong [OF "4.prems"(1), of "ucast :: u32 \<Rightarrow> u8"] by (simp only: ucast_le_word)
  moreover have "le_word xs = le_word ys"
    using arg_cong [OF "4.prems"(1), of "drop_bit 8"] "4.prems"(2,3)
    by (simp add: drop_bit_le_word del: le_word.simps)
  ultimately show ?case
    using 4 by simp
qed simp_all

lemma burst_register:
  assumes "foldl crc32_step s (xs @ us @ ys) = foldl crc32_step s (xs @ vs @ ys)"
    and "length us = length vs" "length us \<le> 4"
  shows "us = vs"
proof -
  have "foldl crc32_step c us = foldl crc32_step c vs" if "c = foldl crc32_step s xs" for c
    using assms(1) that by (auto dest: crc.foldl_register)
  then have "crc_bits (8 * length us) (foldl crc32_step s xs XOR le_word us)
      = crc_bits (8 * length us) (foldl crc32_step s xs XOR le_word vs)"
    using assms(2,3) by (simp add: foldl_crc32_step_word)
  then have "le_word us = le_word vs"
    by (auto dest!: crc_bits_inject)
  then show ?thesis
    using assms(2,3) by (rule le_word_inject)
qed

section \<open>Bit order\<close>

lemma poly_reverse: "word_reverse (0xedb88320 :: u32) = 0x04C11DB7"
  by code_simp

lemma word_reverse_xor: "word_reverse (a XOR b) = word_reverse a XOR word_reverse (b :: 'a::len word)"
  by (rule bit_word_eqI) (auto simp: bit_simps)

lemma word_reverse_crc_bit: "word_reverse (crc_bit c) = mpeg_bit (word_reverse c)"
proof -
  have "c AND 1 \<noteq> 0 \<longleftrightarrow> bit c 0"
    by (simp add: and_one_eq mod_2_eq_odd bit_0)
  moreover have "word_reverse c AND 0x80000000 \<noteq> 0 \<longleftrightarrow> bit c 0"
  proof -
    have "(0x80000000 :: u32) = push_bit 31 1"
      by simp
    then have "bit (w AND 0x80000000) n \<longleftrightarrow> n = 31 \<and> bit w 31" for w :: u32 and n
      unfolding \<open>0x80000000 = push_bit 31 1\<close>
      by (auto simp: bit_and_iff bit_push_bit_iff bit_1_iff simp del: push_bit_numeral push_bit_of_1)
    then have "w AND 0x80000000 \<noteq> 0 \<longleftrightarrow> bit w 31" for w :: u32
      by (metis bit_eqI bit_0_eq zero_neq_one bot_apply bot_bool_def)
    then show ?thesis
      by (simp add: bit_word_reverse_iff)
  qed
  moreover have "word_reverse (drop_bit 1 c) = push_bit 1 (word_reverse c)"
  proof (rule bit_word_eqI)
    fix n
    assume "n < LENGTH(32)"
    then show "bit (word_reverse (drop_bit 1 c)) n = bit (push_bit 1 (word_reverse c)) n"
      using bit_imp_le_length [of c 32]
      by (cases n) (auto simp: bit_word_reverse_iff bit_drop_bit_eq bit_push_bit_iff Suc_diff_Suc
          simp del: push_bit_Suc One_nat_def)
  qed
  ultimately show ?thesis
    by (simp add: crc_bit_def mpeg_bit_def word_reverse_xor poly_reverse xor.commute
        del: push_bit_numeral)
qed

lemma word_reverse_crc_bits: "word_reverse (crc_bits k c) = mpeg_bits k (word_reverse c)"
  by (induction k arbitrary: c) (simp_all add: word_reverse_crc_bit)

lemma word_reverse_ucast: "word_reverse (ucast (b :: u8) :: u32) = push_bit 24 (ucast (word_reverse b))"
proof (rule bit_word_eqI)
  fix n
  assume "n < LENGTH(32)"
  then show "bit (word_reverse (ucast b :: u32)) n = bit (push_bit 24 (ucast (word_reverse b)) :: u32) n"
    by (cases "n < 24") (auto simp: bit_simps not_bit_beyond diff_diff_left Suc_diff_le)
qed

lemma word_reverse_crc32_step:
  "word_reverse (crc32_step c b) = mpeg_step (word_reverse c) (word_reverse b)"
  by (simp add: crc32_step_def mpeg_step_def word_reverse_crc_bits word_reverse_xor
      word_reverse_ucast del: crc_bits.simps mpeg_bits.simps)

lemma mpeg_step_reflect: "mpeg_step s b = word_reverse (crc32_step (word_reverse s) (word_reverse b))"
  by (simp add: word_reverse_crc32_step)

lemma word_reverse_foldl:
  "word_reverse (foldl crc32_step c bs) = foldl mpeg_step (word_reverse c) (map word_reverse bs)"
  by (induction bs arbitrary: c) (simp_all add: word_reverse_crc32_step)

interpretation mpeg: checksum_register mpeg_step
  by unfold_locales
    (auto simp: mpeg_step_reflect dest!: word_eq_reverseI crc32_step_inject_register crc32_step_inject_byte)

lemma crc32_mpeg_2_loop_overrun: "length buf < i + len \<Longrightarrow> i \<le> length buf \<Longrightarrow>
    crc32_mpeg_2_loop buf i len crc = Inl OutOfBounds"
proof (induction len arbitrary: i crc)
  case (Suc len)
  then show ?case by (cases "i < length buf") simp_all
qed simp

lemma crc32_table_run: "crc32_table init_crc_table buf len = crc32 buf len"
proof (cases "unat len \<le> length buf")
  case True
  have "table_step init_crc_table = crc32_step"
    by (intro ext) (rule table_step_eq)
  with True show ?thesis
    by (simp add: crc32_fold crc32_table_fold)
next
  case False
  then show ?thesis
    by (simp add: crc32_def crc32_table_def crc32_loop_overrun crc32_table_loop_overrun)
qed

section \<open>Properties\<close>

text \<open>
  C23: The table-driven routine with the table of \<open>init_crc_table\<close> and the bit-by-bit routine return the
  same, for every buffer and length, including a length that overruns the buffer.
\<close>

theorem crc32_table_eq_crc32: "crc32_table init_crc_table buf len = crc32 buf len"
  by (rule crc32_table_run)

text \<open>
  C24: A burst of errors confined to four consecutive bytes changes the checksum of a message of any
  length, whichever of the two routines computes it.
\<close>

theorem crc32_detects_burst:
  assumes "length us = length vs" and "length us \<le> 4" and "us \<noteq> vs"
    and "unat len = length (xs @ us @ ys)"
  shows "crc32 (xs @ us @ ys) len \<noteq> crc32 (xs @ vs @ ys) len \<and>
    crc32_table init_crc_table (xs @ us @ ys) len \<noteq> crc32_table init_crc_table (xs @ vs @ ys) len"
proof -
  have "foldl crc32_step 0xffffffff (xs @ us @ ys) \<noteq> foldl crc32_step 0xffffffff (xs @ vs @ ys)"
    using burst_register assms(1-3) by blast
  then have "crc32 (xs @ us @ ys) len \<noteq> crc32 (xs @ vs @ ys) len"
    using assms(1,4) by (simp add: crc32_fold del: foldl_append)
  then show ?thesis
    by (simp add: crc32_table_run)
qed

theorem crc32_detects_burst_witness:
  "crc32 [1, 2, 3, 4, 5] 5 \<noteq> crc32 [1, 9, 9, 9, 5] 5 \<and>
   crc32_table init_crc_table [1, 2, 3, 4, 5] 5 \<noteq> crc32_table init_crc_table [1, 9, 9, 9, 5] 5"
  using crc32_detects_burst [of "[2, 3, 4]" "[9, 9, 9]" 5 "[1]" "[5]"] by simp

text \<open>
  The MPEG-2 routine is the reflected routine read backwards: on the bytes with their bits reversed
  it returns the bit-reversed complement of \<open>crc32\<close>, and it faults where \<open>crc32\<close> faults.
\<close>

theorem crc32_mpeg_2_reflects:
  "crc32_mpeg_2 (map word_reverse buf) len =
     (case crc32 buf len of Inl f \<Rightarrow> Inl f | Inr c \<Rightarrow> Inr (word_reverse (NOT c)))"
proof (cases "unat len \<le> length buf")
  case True
  have "word_reverse (0xffffffff :: u32) = 0xffffffff"
    by code_simp
  with True show ?thesis
    by (simp add: crc32_fold crc32_mpeg_2_fold word_reverse_foldl take_map)
next
  case False
  then show ?thesis
    by (simp add: crc32_def crc32_loop_overrun crc32_mpeg_2_def crc32_mpeg_2_loop_overrun)
qed

text \<open>
  \<open>main\<close> passes a \<open>strlen\<close> through a \<open>uint16_t\<close>: of a string of \<open>n\<close> bytes only the first
  \<open>n mod 65536\<close> are checked, so a string of 65536 bytes has the checksums of the empty one.
\<close>

theorem crc_main_uint16:
  assumes "nul_free s"
  shows "crc_main (Some s) = crc_main (Some (take (length s mod 65536) s))"
proof -
  have "nul_free (take (length s mod 65536) s)"
    using assms by (rule nul_free_take)
  moreover have "length (take (length s mod 65536) s) mod 2 ^ 16 = length s mod 65536"
    by simp
  ultimately show ?thesis
    using assms by (simp add: crc_main_fold)
qed

theorem crc_main_uint16_witness:
  "crc_main (Some (replicate 65536 0x61)) = crc_main (Some [])"
  using crc_main_uint16 [of "replicate 65536 0x61"] by (simp add: nul_free_def)

lemma crc_bits_8:
  "crc_bits 8 c = crc_bit (crc_bit (crc_bit (crc_bit (crc_bit (crc_bit (crc_bit (crc_bit c)))))))"
  "mpeg_bits 8 c = mpeg_bit (mpeg_bit (mpeg_bit (mpeg_bit (mpeg_bit (mpeg_bit (mpeg_bit (mpeg_bit c)))))))"
  by (simp_all add: eval_nat_numeral)

text \<open>The catalogue's check values for \<open>123456789\<close>.\<close>

lemma crc32_check:
  "crc32 [0x31, 0x32, 0x33, 0x34, 0x35, 0x36, 0x37, 0x38, 0x39] 9 = Inr 0xcbf43926"
  by (simp add: crc32_fold crc32_step_def crc_bits_8 crc_bit_def)

lemma crc32_mpeg_2_check:
  "crc32_mpeg_2 [0x31, 0x32, 0x33, 0x34, 0x35, 0x36, 0x37, 0x38, 0x39] 9 = Inr 0x0376e6e7"
  by (simp add: crc32_mpeg_2_fold mpeg_step_def crc_bits_8 mpeg_bit_def)

end
