(* ===== verification/Stdio.thy ===== *)
theory Stdio
  imports Prelude
begin

text \<open>
  The part of the C library's streams and allocator the tools use, on a map from paths to contents. What
  the environment decides is in the state: which paths can be opened for reading and writing, how many
  bytes the disk still takes (\<open>room\<close>), and which allocations succeed. \<open>open_files\<close> and \<open>live_blocks\<close>
  count the streams and heap blocks that have not been given back.

  A write reaches the disk at once: a full disk shows in the result of \<open>fwrite\<close>. With a buffer in between it may show
  later, at the latest in the result of \<open>fclose\<close>, which none of the tools looks at.
\<close>

record cenv =
  files :: "bytes \<Rightarrow> bytes option"
  readable :: "bytes \<Rightarrow> bool"
  writable :: "bytes \<Rightarrow> bool"
  room :: nat
  malloc_ok :: "nat \<Rightarrow> bool"
  open_files :: nat
  live_blocks :: nat

record cfile =
  fpath :: bytes
  fpos :: nat
  at_eof :: bool

definition content :: "cenv \<Rightarrow> bytes \<Rightarrow> bytes" where
  "content env p = (case files env p of None \<Rightarrow> [] | Some c \<Rightarrow> c)"

section \<open>Streams\<close>

definition fopen_r :: "bytes \<Rightarrow> cenv \<Rightarrow> cfile option \<times> cenv" where
  "fopen_r p env =
     (if files env p \<noteq> None \<and> readable env p
      then (Some \<lparr>fpath = p, fpos = 0, at_eof = False\<rparr>, env\<lparr>open_files := Suc (open_files env)\<rparr>)
      else (None, env))"

definition fopen_w :: "bytes \<Rightarrow> cenv \<Rightarrow> cfile option \<times> cenv" where
  "fopen_w p env =
     (if writable env p
      then (Some \<lparr>fpath = p, fpos = 0, at_eof = False\<rparr>,
            env\<lparr>files := (files env)(p \<mapsto> []), open_files := Suc (open_files env)\<rparr>)
      else (None, env))"

definition fopen_a :: "bytes \<Rightarrow> cenv \<Rightarrow> cfile option \<times> cenv" where
  "fopen_a p env =
     (if writable env p
      then (Some \<lparr>fpath = p, fpos = length (content env p), at_eof = False\<rparr>,
            env\<lparr>files := (files env)(p \<mapsto> content env p), open_files := Suc (open_files env)\<rparr>)
      else (None, env))"

definition fclose :: "cfile \<Rightarrow> cenv \<Rightarrow> cenv" where
  "fclose f env = env\<lparr>open_files := open_files env - 1\<rparr>"

text \<open>\<open>fread(buf, 1, n, f)\<close>: the end-of-file indicator is set when fewer than \<open>n\<close> bytes were left.\<close>

definition fread :: "nat \<Rightarrow> cfile \<Rightarrow> cenv \<Rightarrow> bytes \<times> cfile" where
  "fread n f env =
     (let got = take n (drop (fpos f) (content env (fpath f)))
      in (got, f\<lparr>fpos := fpos f + length got, at_eof := at_eof f \<or> length got < n\<rparr>))"

text \<open>\<open>fwrite(buf, 1, n, f)\<close>: as much as the disk takes.\<close>

definition fwrite :: "bytes \<Rightarrow> cfile \<Rightarrow> cenv \<Rightarrow> nat \<times> cfile \<times> cenv" where
  "fwrite bs f env =
     (let n = min (length bs) (room env);
          c = content env (fpath f)
      in (n, f\<lparr>fpos := fpos f + n\<rparr>,
          env\<lparr>files := (files env)(fpath f \<mapsto>
                 take (fpos f) c @ take n bs @ drop (fpos f + n) c),
               room := room env - n\<rparr>))"

text \<open>\<open>fseek(f, 0, SEEK_END); ftell(f)\<close> gives the size; \<open>rewind\<close> goes back to the start.\<close>

definition fsize :: "cfile \<Rightarrow> cenv \<Rightarrow> nat" where
  "fsize f env = length (content env (fpath f))"

definition rewind :: "cfile \<Rightarrow> cfile" where
  "rewind f = f\<lparr>fpos := 0, at_eof := False\<rparr>"

section \<open>Heap blocks\<close>

definition malloc :: "nat \<Rightarrow> cenv \<Rightarrow> bool \<times> cenv" where
  "malloc n env =
     (if malloc_ok env n then (True, env\<lparr>live_blocks := Suc (live_blocks env)\<rparr>) else (False, env))"

definition free_block :: "cenv \<Rightarrow> cenv" where
  "free_block env = env\<lparr>live_blocks := live_blocks env - 1\<rparr>"

lemmas stdio_defs = fopen_r_def fopen_w_def fclose_def malloc_def free_block_def rewind_def fsize_def

lemma length_fread: "length (fst (fread n f env)) \<le> n"
  by (simp add: fread_def Let_def)

lemma content_upd [simp]:
  "content (env\<lparr>files := fs\<rparr>) p = (case fs p of None \<Rightarrow> [] | Some c \<Rightarrow> c)"
  "content (env\<lparr>open_files := n\<rparr>) p = content env p"
  "content (env\<lparr>live_blocks := n\<rparr>) p = content env p"
  "content (env\<lparr>room := n\<rparr>) p = content env p"
  by (simp_all add: content_def)

end
