(* ===== verification/Str2Hex.thy ===== *)
theory Str2Hex
  imports Stdio
begin

text \<open>
  \<open>str2hex/str2hex.c\<close>: a text of hexadecimal digits into bytes, and the tool that converts a file. The
  characters are bytes; \<open>char\<close> may be signed, but every comparison is against an ASCII range and every
  difference is masked to four bits, so the sign does not matter.
\<close>

section \<open>The code\<close>

definition get_base_value :: "u8 \<Rightarrow> u8" where
  "get_base_value c =
     (if c \<ge> 0x30 \<and> c \<le> 0x39 then 48
      else if c \<ge> 0x61 \<and> c \<le> 0x66 then 87
      else if c \<ge> 0x41 \<and> c \<le> 0x46 then 55
      else 255)"

definition high_nibble :: "u8 \<Rightarrow> u8" where
  "high_nibble c = push_bit 4 ((c - get_base_value c) AND 0xF)"

definition low_nibble :: "u8 \<Rightarrow> u8" where
  "low_nibble c = (c - get_base_value c) AND 0xF"

text \<open>
  The loop of \<open>str_to_hex\<close>: the body adds one to \<open>i\<close> and so does the loop, and \<open>str[i + 1]\<close> is read even
  when it is the last round of an odd length.
\<close>

function str_to_hex_loop :: "bytes \<Rightarrow> nat \<Rightarrow> nat \<Rightarrow> bytes \<Rightarrow> bytes cres" where
  "str_to_hex_loop str len i data =
     (if i < len
      then cbind (byte_at str i) (\<lambda>a.
           cbind (byte_at str (i + 1)) (\<lambda>b.
           cbind (put_byte data (i div 2) (high_nibble a OR low_nibble b)) (\<lambda>data'.
           str_to_hex_loop str len (i + 2) data')))
      else Inr data)"
  by pat_completeness auto
termination
  by (relation "measure (\<lambda>(str, len, i, data). len - i)") auto

declare str_to_hex_loop.simps [simp del]

definition str_to_hex :: "bytes \<Rightarrow> nat \<Rightarrow> bytes \<Rightarrow> bytes cres" where
  "str_to_hex str len data = str_to_hex_loop str len 0 data"

text \<open>
  \<open>create_binary_file\<close>, with the exits in the order of the code. \<open>quit_files\<close> and \<open>quit_blocks\<close> are
  what its label \<open>quit\<close> does: it closes the streams and frees the buffers that exist.
\<close>

definition quit_files :: "cfile option \<Rightarrow> cfile option \<Rightarrow> cenv \<Rightarrow> cenv" where
  "quit_files fr fw env =
     (let env1 = (case fr of None \<Rightarrow> env | Some f \<Rightarrow> fclose f env)
      in case fw of None \<Rightarrow> env1 | Some f \<Rightarrow> fclose f env1)"

definition quit_blocks :: "bool \<Rightarrow> bool \<Rightarrow> cenv \<Rightarrow> cenv" where
  "quit_blocks strbuf binbuf env =
     (let env1 = (if strbuf then free_block env else env)
      in if binbuf then free_block env1 else env1)"

definition create_binary_file :: "bytes \<Rightarrow> bytes \<Rightarrow> cenv \<Rightarrow> (int \<times> cenv) cres" where
  "create_binary_file src dst env =
     (case fopen_r src env of
        (None, env1) \<Rightarrow> Inr (-1, env1)
      | (Some fr, env1) \<Rightarrow>
     (case fopen_w dst env1 of
        (None, env2) \<Rightarrow> Inr (-1, quit_files (Some fr) None env2)
      | (Some fw, env2) \<Rightarrow>
     let file_size = fsize fr env2;
         fr1 = rewind fr;
         str_len = file_size;
         bin_len = file_size div 2 + file_size mod 2
     in case malloc (str_len + 1) env2 of
        (False, env3) \<Rightarrow> Inr (-1, quit_files (Some fr1) (Some fw) env3)
      | (True, env3) \<Rightarrow>
     (case malloc bin_len env3 of
        (False, env4) \<Rightarrow> Inr (-1, quit_blocks True False (quit_files (Some fr1) (Some fw) env4))
      | (True, env4) \<Rightarrow>
     let strbuf = replicate (str_len + 1) 0;
         binbuf = replicate bin_len 0;
         (got, fr2) = fread str_len fr1 env4
     in if length got \<noteq> str_len
        then Inr (-1, quit_blocks True True (quit_files (Some fr2) (Some fw) env4))
        else cbind (str_to_hex (overlay 0 got strbuf) str_len binbuf) (\<lambda>bin.
          (case fwrite bin fw env4 of (n, fw1, env5) \<Rightarrow>
             if n \<noteq> bin_len
             then Inr (-1, quit_blocks True True (quit_files (Some fr2) (Some fw1) env5))
             else Inr (0, quit_blocks True True (quit_files (Some fr2) (Some fw1) env5)))))))"

text \<open>\<open>main\<close>: the five bytes of the example it prints, then the conversion when there are two arguments.\<close>

definition sample_text :: bytes where
  "sample_text = map of_char ''1b5050508af890ef50'' @ [0]"

definition str2hex_main :: "bytes list \<Rightarrow> cenv \<Rightarrow> (bytes \<times> int \<times> cenv) cres" where
  "str2hex_main argv env =
     cbind (str_to_hex sample_text 10 (replicate 10 0)) (\<lambda>buf.
       if length argv < 3 then Inr (take 5 buf, -1, env)
       else cbind (create_binary_file (argv ! 1) (argv ! 2) env) (\<lambda>(ret, env').
         Inr (take 5 buf, ret, env')))"

section \<open>The pairs of a text\<close>

text \<open>What the loop computes, on the list of the characters: one byte per pair, NUL after an odd end.\<close>

fun hex_pairs :: "bytes \<Rightarrow> bytes" where
  "hex_pairs [] = []"
| "hex_pairs [a] = [high_nibble a OR low_nibble 0]"
| "hex_pairs (a # b # s) = (high_nibble a OR low_nibble b) # hex_pairs s"

lemma length_hex_pairs: "length (hex_pairs s) = length s div 2 + length s mod 2"
  by (induction s rule: hex_pairs.induct) simp_all

lemma drop_2_Cons:
  assumes "i + 1 < length s"
  shows "drop i s = s ! i # s ! (i + 1) # drop (i + 2) s"
  using assms by (simp add: Cons_nth_drop_Suc)

lemma str_to_hex_loop_pairs:
  assumes "even i" and "i \<le> length s" and "length data = length s div 2 + length s mod 2"
  shows "str_to_hex_loop (s @ 0 # rest) (length s) i data =
     Inr (take (i div 2) data @ hex_pairs (drop i s))"
  using assms
proof (induction "length s - i" arbitrary: i data rule: less_induct)
  case less
  consider "i = length s" | "i + 1 = length s" | "i + 1 < length s"
    using less.prems(2) by linarith
  then show ?case
  proof cases
    case 1
    with less.prems show ?thesis
      by (simp add: str_to_hex_loop.simps [of _ _ "length s"])
  next
    case 2
    let ?b = "high_nibble (s ! i) OR low_nibble 0"
    have data: "length data = Suc (i div 2)"
      using 2 less.prems(1,3) by (auto simp flip: 2 elim!: evenE)
    have "drop i s = [s ! i]"
      using 2 by (simp add: Cons_nth_drop_Suc [symmetric])
    moreover have "data[i div 2 := ?b] = take (i div 2) data @ [?b]"
      using data by (simp add: upd_conv_take_nth_drop)
    ultimately show ?thesis
      using 2 data
      by (simp add: str_to_hex_loop.simps [of _ _ i] str_to_hex_loop.simps [of _ _ "Suc (length s)"]
          nth_append)
  next
    case 3
    let ?b = "high_nibble (s ! i) OR low_nibble (s ! (i + 1))"
    have lt: "i div 2 < length data"
      using 3 less.prems(3) by linarith
    have "str_to_hex_loop (s @ 0 # rest) (length s) i data =
        str_to_hex_loop (s @ 0 # rest) (length s) (i + 2) (data[i div 2 := ?b])"
      using 3 lt by (simp add: str_to_hex_loop.simps [of _ _ i] nth_append)
    also have "\<dots> = Inr (take (Suc (i div 2)) (data[i div 2 := ?b]) @ hex_pairs (drop (i + 2) s))"
      using less.hyps [of "i + 2" "data[i div 2 := ?b]"] 3 less.prems by simp
    also have "\<dots> = Inr (take (i div 2) data @ hex_pairs (drop i s))"
      using 3 lt by (simp add: drop_2_Cons take_Suc_conv_app_nth del: drop_Suc_Cons)
    finally show ?thesis .
  qed
qed

lemma str_to_hex_pairs:
  assumes "length data = length s div 2 + length s mod 2"
  shows "str_to_hex (s @ 0 # rest) (length s) data = Inr (hex_pairs s)"
  using str_to_hex_loop_pairs [of 0 s data rest] assms by (simp add: str_to_hex_def)

text \<open>The buffer the tool fills: the text, and NUL in its last byte.\<close>

lemma overlay_strbuf: "overlay 0 got (0 # replicate (length got) 0) = got @ [0]"
proof -
  have "drop (length got) (0 # replicate (length got) 0) = [0 :: u8]"
    unfolding replicate_append_same [symmetric] by simp
  then show ?thesis
    by (simp add: overlay_def)
qed

lemma fread_all: "fst (fread (length (content env p)) (rewind f) env) = content env p"
  if "fpath f = p"
  using that by (simp add: fread_def rewind_def Let_def)

section \<open>Hexadecimal text\<close>

definition hex_digit :: "bool \<Rightarrow> u8 \<Rightarrow> u8" where
  "hex_digit upper n =
     map of_char (if upper then ''0123456789ABCDEF'' else ''0123456789abcdef'') ! unat n"

text \<open>A byte as two digits, each in either case.\<close>

fun hex_byte :: "bool \<times> bool \<times> u8 \<Rightarrow> bytes" where
  "hex_byte (u, v, b) = [hex_digit u (drop_bit 4 b), hex_digit v (b AND 0xF)]"

lemma nibbles_hex_digit:
  assumes "n < 16"
  shows "low_nibble (hex_digit u n) = n" and "high_nibble (hex_digit u n) = push_bit 4 n"
proof -
  have "low_nibble (hex_digit u n) = n \<and> high_nibble (hex_digit u n) = push_bit 4 n"
    using nibble_cases [OF assms]
    by (cases u; elim insertE emptyE)
      (simp_all add: low_nibble_def high_nibble_def get_base_value_def hex_digit_def)
  then show "low_nibble (hex_digit u n) = n" and "high_nibble (hex_digit u n) = push_bit 4 n"
    by simp_all
qed

lemma nibbles_join: "push_bit 4 (drop_bit 4 b) OR (b AND 0xF) = (b :: u8)"
proof (rule bit_word_eqI)
  fix n :: nat
  have "bit (0xF :: u8) n \<longleftrightarrow> n < 4"
    using bit_mask_iff [where ?'a = "8 word", of 4 n] by (auto simp: mask_eq_exp_minus_1)
  then show "bit (push_bit 4 (drop_bit 4 b) OR (b AND 0xF)) n = bit b n" if "n < LENGTH(8)"
    using that by (auto simp: bit_simps)
qed

lemma hex_pairs_hex_byte: "hex_pairs (concat (map hex_byte ubs)) = map (snd \<circ> snd) ubs"
proof (induction ubs)
  case (Cons x ubs)
  then show ?case
    by (cases x) (simp add: nibbles_hex_digit nibble_bounds nibbles_join)
qed simp

lemma length_hex_bytes: "length (concat (map hex_byte ubs)) = 2 * length ubs"
  by (induction ubs) auto

section \<open>Properties\<close>

text \<open>
  Decoding undoes encoding: for any bytes, written as two digits each in upper or lower case,
  \<open>str_to_hex\<close> gives the bytes back.
\<close>

theorem str_to_hex_roundtrip:
  "str_to_hex (concat (map hex_byte ubs) @ 0 # rest) (2 * length ubs) (replicate (length ubs) 0) =
     Inr (map (snd \<circ> snd) ubs)"
  using str_to_hex_pairs [of "replicate (length ubs) 0" "concat (map hex_byte ubs)" rest]
  by (simp add: length_hex_bytes hex_pairs_hex_byte)

lemma create_binary_file_run:
  assumes "files env src \<noteq> None" "readable env src" "writable env dst"
    and "s = content (snd (fopen_w dst (snd (fopen_r src env)))) src"
    and "malloc_ok env (length s + 1)" "malloc_ok env (length s div 2 + length s mod 2)"
  shows "\<exists>ret env'. create_binary_file src dst env = Inr (ret, env') \<and>
     open_files env' = open_files env \<and> live_blocks env' = live_blocks env \<and>
     ret = (if length s div 2 + length s mod 2 \<le> room env then 0 else -1) \<and>
     files env' = (files env)(dst \<mapsto> take (room env) (hex_pairs s))"
proof -
  let ?env = "snd (fopen_w dst (snd (fopen_r src env)))"
  have pairs: "str_to_hex (s @ [0]) (length s) (replicate (length s div 2 + length s mod 2) 0)
      = Inr (hex_pairs s)"
    using str_to_hex_pairs [of _ s "[]"] by simp
  show ?thesis
    using assms pairs
    by (auto simp: create_binary_file_def stdio_defs fread_def fwrite_def quit_files_def Let_def
        quit_blocks_def overlay_strbuf length_hex_pairs content_def split: option.splits)
qed

lemma create_binary_file_no_read:
  "files env src = None \<or> \<not> readable env src \<Longrightarrow> create_binary_file src dst env = Inr (-1, env)"
  by (auto simp: create_binary_file_def stdio_defs)

lemma create_binary_file_no_write:
  "files env src \<noteq> None \<Longrightarrow> readable env src \<Longrightarrow> \<not> writable env dst \<Longrightarrow>
     create_binary_file src dst env = Inr (-1, env)"
  by (auto simp: create_binary_file_def stdio_defs quit_files_def)

lemma create_binary_file_no_memory:
  assumes "files env src \<noteq> None" "readable env src" "writable env dst"
    and "s = content (snd (fopen_w dst (snd (fopen_r src env)))) src"
    and "\<not> malloc_ok env (length s + 1) \<or> \<not> malloc_ok env (length s div 2 + length s mod 2)"
  shows "create_binary_file src dst env = Inr (-1, env\<lparr>files := (files env)(dst \<mapsto> [])\<rparr>)"
  using assms
  by (auto simp: create_binary_file_def stdio_defs quit_files_def quit_blocks_def Let_def content_def
      split: option.splits)


text \<open>
  C33: When the streams open, the memory is there and the disk takes the output, converting a file of
  hexadecimal text into another file returns 0, leaves the text as it was and writes its bytes.
\<close>

theorem create_binary_file_correct:
  assumes "files env src = Some (concat (map hex_byte ubs))" "src \<noteq> dst"
    and "readable env src" "writable env dst" "\<And>n. malloc_ok env n" "length ubs \<le> room env"
  shows "\<exists>env'. create_binary_file src dst env = Inr (0, env') \<and>
     files env' = (files env)(dst \<mapsto> map (snd \<circ> snd) ubs)"
proof -
  let ?s = "concat (map hex_byte ubs)"
  have s: "?s = content (snd (fopen_w dst (snd (fopen_r src env)))) src"
    using assms(1-4) by (simp add: stdio_defs content_def)
  have src: "files env src \<noteq> None"
    using assms(1) by simp
  have len: "length ?s div 2 + length ?s mod 2 = length ubs"
    by (simp add: length_hex_bytes)
  have out: "take (room env) (hex_pairs ?s) = map (snd \<circ> snd) ubs"
    using assms(6) by (simp add: hex_pairs_hex_byte)
  show ?thesis
    using create_binary_file_run [OF src assms(3,4) s assms(5) assms(5)] assms(6)
    unfolding len out by auto
qed

definition demo_env :: "bytes \<Rightarrow> cenv" where
  "demo_env c = \<lparr>files = [[1] \<mapsto> c], readable = \<lambda>_. True, writable = \<lambda>_. True, room = 1000,
     malloc_ok = \<lambda>_. True, open_files = 0, live_blocks = 0\<rparr>"

theorem create_binary_file_correct_witness:
  "\<exists>env'. create_binary_file [1] [2] (demo_env [0x31, 0x62]) = Inr (0, env') \<and>
     files env' [2] = Some [0x1b]"
proof -
  have bytes: "concat (map hex_byte [(False, False, 0x1b)]) = [0x31, 0x62]"
    by (simp add: hex_digit_def)
  have "files (demo_env [0x31, 0x62]) [1] = Some (concat (map hex_byte [(False, False, 0x1b)]))"
    unfolding bytes by (simp add: demo_env_def)
  from create_binary_file_correct [OF this, of "[2]"] show ?thesis
    by (auto simp: demo_env_def)
qed

text \<open>
  A text that ends in a newline, as text files do, gets one byte more: the newline and the NUL after
  it are not digits, are decoded all the same, and give 0xB1. The conversion reports success.
\<close>

theorem create_binary_file_newline:
  assumes "files env src = Some (concat (map hex_byte ubs) @ [0x0A])" "src \<noteq> dst"
    and "readable env src" "writable env dst" "\<And>n. malloc_ok env n" "length ubs < room env"
  shows "\<exists>env'. create_binary_file src dst env = Inr (0, env') \<and>
     files env' dst = Some (map (snd \<circ> snd) ubs @ [0xB1])"
proof -
  let ?s = "concat (map hex_byte ubs) @ [0x0A]"
  have "hex_pairs (concat (map hex_byte ubs) @ [0x0A]) = map (snd \<circ> snd) ubs @ [0xB1]" for ubs
  proof (induction ubs)
    case Nil
    show ?case
      by (simp add: high_nibble_def low_nibble_def get_base_value_def)
  next
    case (Cons x ubs)
    then show ?case
      by (cases x) (simp add: nibbles_hex_digit nibble_bounds nibbles_join)
  qed
  then have out: "take (room env) (hex_pairs ?s) = map (snd \<circ> snd) ubs @ [0xB1]"
    using assms(6) by simp
  have s: "?s = content (snd (fopen_w dst (snd (fopen_r src env)))) src"
    using assms(1-4) by (simp add: stdio_defs content_def)
  have src: "files env src \<noteq> None"
    using assms(1) by simp
  have len: "length ?s div 2 + length ?s mod 2 = Suc (length ubs)"
    using length_hex_bytes [of ubs] by simp
  show ?thesis
    using create_binary_file_run [OF src assms(3,4) s assms(5) assms(5)] assms(6)
    unfolding len out by auto
qed

theorem create_binary_file_newline_witness:
  "\<exists>env'. create_binary_file [1] [2] (demo_env [0x31, 0x62, 0x0A]) = Inr (0, env') \<and>
     files env' [2] = Some [0x1b, 0xB1]"
proof -
  have bytes: "concat (map hex_byte [(False, False, 0x1b)]) = [0x31, 0x62]"
    by (simp add: hex_digit_def)
  have "files (demo_env [0x31, 0x62, 0x0A]) [1] = Some (concat (map hex_byte [(False, False, 0x1b)]) @ [0x0A])"
    unfolding bytes by (simp add: demo_env_def)
  from create_binary_file_newline [OF this, of "[2]"] show ?thesis
    by (auto simp: demo_env_def)
qed

text \<open>
  With one path for both arguments the file is truncated before it is measured: the text is lost, an
  empty file is left, and the conversion reports success.
\<close>

theorem create_binary_file_in_place:
  assumes "files env p \<noteq> None" "readable env p" "writable env p" "\<And>n. malloc_ok env n"
  shows "\<exists>env'. create_binary_file p p env = Inr (0, env') \<and> files env' p = Some []"
  using create_binary_file_run [of env p p "[]"] assms
  by (auto simp: stdio_defs content_def)

theorem create_binary_file_in_place_witness:
  "\<exists>env'. create_binary_file [1] [1] (demo_env [0x31, 0x62]) = Inr (0, env') \<and> files env' [1] = Some []"
  using create_binary_file_in_place [of "demo_env [0x31, 0x62]" "[1]"] by (simp add: demo_env_def)

text \<open>The five bytes \<open>main\<close> prints first.\<close>

lemma str2hex_main_sample:
  "length argv < 3 \<Longrightarrow> str2hex_main argv env = Inr ([0x1b, 0x50, 0x50, 0x50, 0x8a], -1, env)"
proof -
  have "str_to_hex sample_text 10 (replicate 10 0) = Inr [0x1b, 0x50, 0x50, 0x50, 0x8a, 0, 0, 0, 0, 0]"
    by code_simp
  then show "length argv < 3 \<Longrightarrow> ?thesis"
    by (simp add: str2hex_main_def)
qed

end
