(* ===== verification/Posix.thy ===== *)
theory Posix
  imports Prelude
begin

text \<open>
  File descriptors and network interfaces, as far as the tools use them. The kernel hands out the lowest
  free descriptor while fewer than \<open>max_fds\<close> are open; \<open>ifaces\<close> gives the index and the hardware address
  of an interface by its name, and \<open>bind_ok\<close> the interface indices a packet socket can be bound to.
\<close>

record kernel =
  open_fds :: "int list"
  max_fds :: nat
  ifaces :: "bytes \<Rightarrow> (int \<times> bytes) option"
  bind_ok :: "int \<Rightarrow> bool"

text \<open>The lowest descriptor that is not in use: one of \<open>0 .. n\<close> is free when \<open>n\<close> are open.\<close>

definition lowest_free :: "int list \<Rightarrow> int" where
  "lowest_free fds = (case filter (\<lambda>d. d \<notin> set fds) (map int [0..<Suc (length fds)]) of
     [] \<Rightarrow> int (length fds) | d # _ \<Rightarrow> d)"

definition fd_open :: "kernel \<Rightarrow> int \<times> kernel" where
  "fd_open k =
     (if length (open_fds k) < max_fds k
      then (let d = lowest_free (open_fds k) in (d, k\<lparr>open_fds := d # open_fds k\<rparr>))
      else (-1, k))"

definition fd_close :: "int \<Rightarrow> kernel \<Rightarrow> kernel" where
  "fd_close d k = k\<lparr>open_fds := remove1 d (open_fds k)\<rparr>"

lemma lowest_free_fresh: "lowest_free fds \<notin> set fds" and lowest_free_nonneg: "0 \<le> lowest_free fds"
proof -
  let ?c = "map int [0..<Suc (length fds)]"
  have "\<exists>d \<in> set ?c. d \<notin> set fds"
  proof (rule ccontr)
    assume "\<not> ?thesis"
    then have "set ?c \<subseteq> set fds"
      by blast
    then have "card (set ?c) \<le> card (set fds)"
      by (simp add: card_mono)
    also have "\<dots> \<le> length fds"
      by (rule card_length)
    finally show False
      by (simp add: distinct_card distinct_map del: upt_Suc set_map set_upt)
  qed
  then have "filter (\<lambda>d. d \<notin> set fds) ?c \<noteq> []"
    by (auto simp: filter_empty_conv simp del: upt_Suc)
  then obtain d ds where f: "filter (\<lambda>d. d \<notin> set fds) ?c = d # ds"
    by (meson neq_Nil_conv)
  then have "d \<in> set (filter (\<lambda>d. d \<notin> set fds) ?c)"
    by (simp only: list.set_intros)
  then have "d \<notin> set fds" "0 \<le> d"
    by (auto simp del: upt_Suc)
  then show "lowest_free fds \<notin> set fds" and "0 \<le> lowest_free fds"
    using f by (simp_all add: lowest_free_def del: upt_Suc)
qed

lemma fd_open_cases:
  obtains (full) "fd_open k = (-1, k)"
  | (fd) d where "fd_open k = (d, k\<lparr>open_fds := d # open_fds k\<rparr>)" "0 \<le> d" "d \<notin> set (open_fds k)"
  using lowest_free_fresh lowest_free_nonneg
  by (cases "length (open_fds k) < max_fds k") (auto simp: fd_open_def Let_def)

lemma fd_close_open [simp]: "fd_close d (k\<lparr>open_fds := d # fds\<rparr>) = k\<lparr>open_fds := fds\<rparr>"
  by (simp add: fd_close_def)

end
