(* ===== verification/EtherFrame.thy ===== *)
theory EtherFrame
  imports Posix Stdio
begin

text \<open>
  \<open>fileTransmit/ethernet.c\<close> and \<open>ethernet.h\<close>: the frame, sending and receiving it, and the addresses.

  The network is a state of type \<open>'n\<close> with the two system calls the code makes on its socket:
  \<open>send n pkt\<close> is \<open>sendto\<close> and gives its return value, \<open>recv n\<close> is \<open>recvfrom\<close> and gives the bytes of a
  packet or \<open>None\<close> for an error. Local objects the code does not initialise are arguments, with the
  contents the stack happens to have.
\<close>

section \<open>The frame\<close>

definition MAX_ETHERNET_DATA_SIZE :: nat where "MAX_ETHERNET_DATA_SIZE = 1500"
definition ETHERNET_HEADER_SIZE :: nat where "ETHERNET_HEADER_SIZE = 14"
definition MAC_BYTES :: nat where "MAC_BYTES = 6"

lemmas ether_consts [simp] =
  MAX_ETHERNET_DATA_SIZE_def ETHERNET_HEADER_SIZE_def MAC_BYTES_def

record ethernet_frame =
  dst_addr :: bytes
  src_addr :: bytes
  etype :: u16
  fdata :: bytes

definition frame_wf :: "ethernet_frame \<Rightarrow> bool" where
  "frame_wf fr \<longleftrightarrow> length (dst_addr fr) = 6 \<and> length (src_addr fr) = 6 \<and> length (fdata fr) = 1500"

text \<open>The object in memory: its members without padding; \<open>etype\<close> is in the order of the host.\<close>

definition frame_image :: "bool \<Rightarrow> ethernet_frame \<Rightarrow> bytes" where
  "frame_image be fr = dst_addr fr @ src_addr fr @ mem16 be (etype fr) @ fdata fr"

definition frame_of_image :: "bool \<Rightarrow> bytes \<Rightarrow> ethernet_frame" where
  "frame_of_image be img =
     \<lparr>dst_addr = take 6 img, src_addr = take 6 (drop 6 img),
      etype = ld16 be (drop 12 img), fdata = drop 14 img\<rparr>"

lemma length_frame_image: "frame_wf fr \<Longrightarrow> length (frame_image be fr) = 1514"
  by (simp add: frame_image_def frame_wf_def)

lemma frame_of_image_image: "frame_wf fr \<Longrightarrow> frame_of_image be (frame_image be fr) = fr"
  by (simp add: frame_image_def frame_of_image_def frame_wf_def byteorder_simps)

section \<open>Sending and receiving\<close>

definition sendEtherData ::
    "bool \<Rightarrow> ('n \<Rightarrow> bytes \<Rightarrow> int \<times> 'n) \<Rightarrow> ethernet_frame \<Rightarrow> bytes \<Rightarrow> bytes \<Rightarrow> u16 \<Rightarrow> bytes \<Rightarrow> int \<Rightarrow> 'n
      \<Rightarrow> (int \<times> 'n) cres" where
  "sendEtherData be send frame to from type data data_size n =
     cbind (memcpy_at (dst_addr frame) 0 to 0 MAC_BYTES) (\<lambda>d.
     cbind (memcpy_at (src_addr frame) 0 from 0 MAC_BYTES) (\<lambda>s.
     cbind (if data_size < 0 then Inl OutOfBounds
            else memcpy_at (fdata frame) 0 data 0 (nat data_size)) (\<lambda>dat.
       let frame' = frame\<lparr>dst_addr := d, src_addr := s, etype := htons be type, fdata := dat\<rparr>;
           size' = (if data_size > int MAX_ETHERNET_DATA_SIZE then int MAX_ETHERNET_DATA_SIZE
                    else data_size);
           frame_size = ETHERNET_HEADER_SIZE + nat size'
       in case send n (take frame_size (frame_image be frame')) of
            (ret, n') \<Rightarrow> if ret = -1 then Inr (-1, n') else Inr (0, n'))))"

text \<open>What goes out: header and data in network order, whatever the stack held and whatever the host.\<close>

definition wire_frame :: "bytes \<Rightarrow> bytes \<Rightarrow> u16 \<Rightarrow> bytes \<Rightarrow> bytes" where
  "wire_frame to from type data = to @ from @ be16 type @ data"

lemma sendEtherData_wire:
  assumes "frame_wf frame" "length to = 6" "length from = 6" "length data \<le> 1500"
  shows "sendEtherData be send frame to from type data (int (length data)) n =
     (case send n (wire_frame to from type data) of (ret, n') \<Rightarrow> Inr (if ret = -1 then -1 else 0, n'))"
  using assms
  by (auto simp: sendEtherData_def memcpy_at_def frame_wf_def frame_image_def wire_frame_def
      overlay_def byteorder_simps Let_def split: prod.splits)

text \<open>
  The length is cut to 1500 only after the copy: data that is longer has already been written past the
  frame.
\<close>

lemma sendEtherData_long:
  assumes "frame_wf frame" "1500 < data_size"
  shows "sendEtherData be send frame to from type data data_size n = Inl OutOfBounds"
  using assms by (auto simp: sendEtherData_def memcpy_at_def frame_wf_def cbind_def)

text \<open>
  \<open>recvEtherFrame\<close> of \<open>fileTransmit.c\<close>. A packet shorter than a frame leaves the rest of the buffer as it
  was; a longer one is cut. The result is the return value, the buffer and the network.
\<close>

definition FILETRANSMIT :: u16 where "FILETRANSMIT = 0x1024"

definition recvEtherFrame ::
    "bool \<Rightarrow> ('n \<Rightarrow> bytes option \<times> 'n) \<Rightarrow> ethernet_frame \<Rightarrow> 'n \<Rightarrow> int \<times> ethernet_frame \<times> 'n" where
  "recvEtherFrame be recv frame n =
     (case recv n of
        (None, n') \<Rightarrow> (-1, frame, n')
      | (Some pkt, n') \<Rightarrow>
          let frame' = frame_of_image be (overlay 0 (take 1514 pkt) (frame_image be frame));
              type = ntohs be (etype frame')
          in if type \<noteq> FILETRANSMIT then (-1, frame', n') else (0, frame', n'))"

lemma frame_wf_overlay:
  assumes "frame_wf frame" "length pkt \<le> 1514"
  shows "frame_wf (frame_of_image be (overlay 0 pkt (frame_image be frame)))"
  using assms length_frame_image [of frame be]
  by (simp add: frame_wf_def frame_of_image_def length_overlay)

lemma recvEtherFrame_wf:
  "frame_wf frame \<Longrightarrow> recvEtherFrame be recv frame n = (ret, frame', n') \<Longrightarrow> frame_wf frame'"
  by (auto simp: recvEtherFrame_def Let_def frame_wf_overlay split: prod.splits option.splits if_splits)

lemma frame_of_wire:
  assumes "frame_wf frame" "length to = 6" "length from = 6" "length data \<le> 1500"
  shows "frame_of_image be (overlay 0 (wire_frame to from type data) (frame_image be frame)) =
     \<lparr>dst_addr = to, src_addr = from, etype = htons be type, fdata = data @ drop (length data) (fdata frame)\<rparr>"
proof -
  have "ld16 be (be16 type @ rest) = htons be type" for rest
    by (metis ntohs_ld16 ntohs_htons(2))
  then show ?thesis
    using assms
    by (simp add: frame_of_image_def wire_frame_def overlay_def frame_image_def frame_wf_def)
qed

lemma recvEtherFrame_wire:
  assumes "frame_wf frame" "length to = 6" "length from = 6" "length data \<le> 1500"
    and "recv n = (Some (wire_frame to from FILETRANSMIT data), n')"
  shows "recvEtherFrame be recv frame n =
     (0, \<lparr>dst_addr = to, src_addr = from, etype = htons be FILETRANSMIT,
          fdata = data @ drop (length data) (fdata frame)\<rparr>, n')"
proof -
  have "length (wire_frame to from FILETRANSMIT data) \<le> 1514"
    using assms(2-4) by (simp add: wire_frame_def)
  then show ?thesis
    using assms by (simp add: recvEtherFrame_def frame_of_wire byteorder_simps)
qed

end
