(* ===== verification/EtherAddr.thy ===== *)
theory EtherAddr
  imports EtherFrame Str2Hex
begin

text \<open>
  The addresses of \<open>fileTransmit/ethernet.c\<close>: reading a MAC address from text, looking an IP address up in
  the kernel's ARP table, and asking the kernel for the index and address of an interface. \<open>sscanf\<close> and
  \<open>fscanf\<close> are written out for the conversions the code uses.
\<close>

section \<open>Scanning\<close>

definition is_space :: "u8 \<Rightarrow> bool" where
  "is_space b \<longleftrightarrow> b = 0x20 \<or> (0x09 \<le> b \<and> b \<le> 0x0D)"

definition hex_value :: "u8 \<Rightarrow> nat option" where
  "hex_value b =
     (if 0x30 \<le> b \<and> b \<le> 0x39 then Some (unat (b - 0x30))
      else if 0x61 \<le> b \<and> b \<le> 0x66 then Some (unat (b - 0x57))
      else if 0x41 \<le> b \<and> b \<le> 0x46 then Some (unat (b - 0x37))
      else None)"

definition is_hex :: "u8 \<Rightarrow> bool" where
  "is_hex b \<longleftrightarrow> hex_value b \<noteq> None"

definition hex_number :: "bytes \<Rightarrow> nat" where
  "hex_number ds = foldl (\<lambda>v d. 16 * v + (case hex_value d of None \<Rightarrow> 0 | Some n \<Rightarrow> n)) 0 ds"

text \<open>
  \<open>%hhx\<close>: white space, an optional sign, an optional \<open>0x\<close>, digits; the value is that of \<open>strtoul\<close>, which
  saturates, and the low byte is stored.
\<close>

definition strip_0x :: "bytes \<Rightarrow> bytes" where
  "strip_0x s = (case s of a # b # r \<Rightarrow> if a = 0x30 \<and> (b = 0x78 \<or> b = 0x58) then r else s | _ \<Rightarrow> s)"

definition scan_hhx :: "bytes \<Rightarrow> (u8 \<times> bytes) option" where
  "scan_hhx s =
     (let (neg, s1) = strip_sign (dropWhile is_space s);
          s2 = strip_0x s1;
          ds = takeWhile is_hex s2;
          v = min (hex_number ds) (2 ^ 64 - 1)
      in if ds = [] then None
         else Some (if neg then - of_nat v else of_nat v, dropWhile is_hex s2))"

text \<open>\<open>"%hhx:%hhx:%hhx:%hhx:%hhx:%hhx"\<close>, with \<open>k\<close> conversions to go: the bytes that were matched.\<close>

fun scan_mac :: "nat \<Rightarrow> bytes \<Rightarrow> bytes" where
  "scan_mac 0 s = []"
| "scan_mac (Suc k) s =
     (case scan_hhx s of
        None \<Rightarrow> []
      | Some (b, r) \<Rightarrow>
          b # (case r of [] \<Rightarrow> [] | c # r' \<Rightarrow> if c = 0x3A then scan_mac k r' else []))"

definition macAton :: "bytes \<Rightarrow> bytes \<Rightarrow> int \<times> bytes" where
  "macAton a n =
     (let matched = scan_mac 6 (c_str a)
      in (if length matched = 6 then 0 else -1, overlay 0 matched n))"

section \<open>The ARP table\<close>

text \<open>\<open>%15[0-9.]\<close> and \<open>%17[A-Fa-f0-9:]\<close>: at least one and at most \<open>w\<close> bytes of the set.\<close>

definition scan_set :: "nat \<Rightarrow> (u8 \<Rightarrow> bool) \<Rightarrow> bytes \<Rightarrow> (bytes \<times> bytes) option" where
  "scan_set w P s =
     (let m = take w (takeWhile P s) in if m = [] then None else Some (m, drop (length m) s))"

text \<open>\<open>%*s\<close>: a word, skipped.\<close>

definition skip_word :: "bytes \<Rightarrow> bytes option" where
  "skip_word s =
     (let s1 = dropWhile is_space s
      in if s1 = [] then None else Some (dropWhile (\<lambda>b. \<not> is_space b) s1))"

definition ip_char :: "u8 \<Rightarrow> bool" where
  "ip_char b \<longleftrightarrow> (0x30 \<le> b \<and> b \<le> 0x39) \<or> b = 0x2E"

definition mac_char :: "u8 \<Rightarrow> bool" where
  "mac_char b \<longleftrightarrow> is_hex b \<or> b = 0x3A"

text \<open>
  One call of \<open>fscanf\<close>: \<open>Some (ip, mac, rest)\<close> when it returns 2. Once \<open>mac\<close> is assigned the two last
  words cannot lower the count; they fail at the end of the file only.
\<close>

definition scan_arp_line :: "bytes \<Rightarrow> (bytes \<times> bytes \<times> bytes) option" where
  "scan_arp_line s =
     (case scan_set 15 ip_char (dropWhile is_space s) of None \<Rightarrow> None | Some (ip, s1) \<Rightarrow>
     (case skip_word s1 of None \<Rightarrow> None | Some s2 \<Rightarrow>
     (case skip_word s2 of None \<Rightarrow> None | Some s3 \<Rightarrow>
     (case scan_set 17 mac_char (dropWhile is_space s3) of None \<Rightarrow> None | Some (mac, s4) \<Rightarrow>
      Some (ip, mac,
        case skip_word s4 of None \<Rightarrow> [] | Some s5 \<Rightarrow>
        (case skip_word s5 of None \<Rightarrow> [] | Some s6 \<Rightarrow> s6))))))"

lemma length_skip_word: "skip_word s = Some r \<Longrightarrow> length r \<le> length s"
  by (auto simp: skip_word_def Let_def split: if_splits intro: le_trans length_dropWhile_le)

lemma length_scan_set: "scan_set w P s = Some (m, r) \<Longrightarrow> length r < length s"
  by (cases s) (auto simp: scan_set_def Let_def min_def split: if_splits)

lemma length_scan_set_ws: "scan_set w P (dropWhile Q s) = Some (m, r) \<Longrightarrow> length r < length s"
  by (meson length_scan_set length_dropWhile_le order_less_le_trans)

lemma length_scan_arp_line: "scan_arp_line s = Some (ip, mac, rest) \<Longrightarrow> length rest < length s"
  by (auto simp: scan_arp_line_def split: option.splits dest!: length_skip_word length_scan_set_ws)

text \<open>
  The loop: \<open>!feof\<close> adds nothing to the test of \<open>fscanf\<close>, which fails on an empty rest. The result is
  the address that is copied to \<open>macStr\<close>, if there is one.
\<close>

function arp_loop :: "bytes \<Rightarrow> bytes \<Rightarrow> bytes option" where
  "arp_loop req s =
     (case scan_arp_line s of
        None \<Rightarrow> None
      | Some (ip, mac, rest) \<Rightarrow> if ip = req then Some mac else arp_loop req rest)"
  by pat_completeness auto
termination
  by (relation "measure (\<lambda>(req, s). length s)") (auto dest: length_scan_arp_line)

declare arp_loop.simps [simp del]

definition arp_path :: bytes where
  "arp_path = map of_char ''/proc/net/arp''"

definition skip_line :: "bytes \<Rightarrow> bytes" where
  "skip_line s = drop 1 (dropWhile (\<lambda>b. b \<noteq> 0x0A) s)"

definition getMacFromArp :: "cenv \<Rightarrow> bytes \<Rightarrow> bytes \<Rightarrow> (int \<times> bytes \<times> cenv) cres" where
  "getMacFromArp env req_ip macStr =
     (case fopen_r arp_path env of
        (None, env') \<Rightarrow> Inr (-1, macStr, env')
      | (Some f, env') \<Rightarrow>
         (case arp_loop (c_str req_ip) (skip_line (content env' arp_path)) of
            None \<Rightarrow> Inr (0, macStr, fclose f env')
          | Some mac \<Rightarrow>
              cbind (memcpy_at macStr 0 (mac @ [0]) 0 (length mac + 1)) (\<lambda>m. Inr (0, m, fclose f env'))))"

section \<open>The kernel's view of an interface\<close>

text \<open>The kernel reads at most 15 bytes of the name.\<close>

definition ifr_name :: "bytes \<Rightarrow> bytes" where
  "ifr_name iface = take 15 (c_str iface)"

definition getIfindex :: "bytes \<Rightarrow> kernel \<Rightarrow> int \<times> int option \<times> kernel" where
  "getIfindex iface k =
     (case fd_open k of (fd, k1) \<Rightarrow>
        if fd < 0 then (-1, None, k1)
        else (case ifaces k1 (ifr_name iface) of
                None \<Rightarrow> (-1, None, fd_close fd k1)
              | Some (idx, _) \<Rightarrow> (0, Some idx, fd_close fd k1)))"

definition getLocalMacAddr :: "bytes \<Rightarrow> bytes \<Rightarrow> kernel \<Rightarrow> int \<times> bytes \<times> kernel" where
  "getLocalMacAddr iface mac k =
     (case fd_open k of (fd, k1) \<Rightarrow>
        if fd < 0 then (-1, mac, k1)
        else (case ifaces k1 (ifr_name iface) of
                None \<Rightarrow> (-1, mac, fd_close fd k1)
              | Some (_, hw) \<Rightarrow> (0, overlay 0 (take MAC_BYTES hw) mac, fd_close fd k1)))"

definition createEtherSocket :: "bytes \<Rightarrow> kernel \<Rightarrow> int \<times> kernel" where
  "createEtherSocket iface k =
     (case fd_open k of (sfd, k1) \<Rightarrow>
        if sfd = -1 then (-1, k1)
        else (case getIfindex iface k1 of (r, idx, k2) \<Rightarrow>
          if r < 0 then (-1, k2)
          else (case idx of
              None \<Rightarrow> (-1, k2)
            | Some i \<Rightarrow> if bind_ok k2 i then (sfd, k2) else (-1, k2))))"

section \<open>Reading addresses back\<close>

fun mac_text :: "(bool \<times> bool \<times> u8) list \<Rightarrow> bytes" where
  "mac_text [] = []"
| "mac_text [b] = hex_byte b"
| "mac_text (b # bs) = hex_byte b @ 0x3A # mac_text bs"

lemma is_hex_hex_digit: "n < 16 \<Longrightarrow> is_hex (hex_digit u n)"
  and hex_value_hex_digit: "n < 16 \<Longrightarrow> hex_value (hex_digit u n) = Some (unat n)"
proof -
  assume n: "n < 16"
  show "hex_value (hex_digit u n) = Some (unat n)"
    using nibble_cases [OF n]
    by (cases u; elim insertE emptyE) (simp_all add: hex_value_def hex_digit_def)
  then show "is_hex (hex_digit u n)"
    by (simp add: is_hex_def)
qed

lemma hex_digit_plain:
  assumes "n < 16"
  shows "\<not> is_space (hex_digit u n)" and "hex_digit u n \<notin> {0x2D, 0x2B, 0x78, 0x58, 0, 0x3A}"
proof -
  have "\<not> is_space (hex_digit u n) \<and> hex_digit u n \<notin> {0x2D, 0x2B, 0x78, 0x58, 0, 0x3A}"
    using nibble_cases [OF assms]
    by (cases u; elim insertE emptyE) (simp_all add: is_space_def hex_digit_def)
  then show "\<not> is_space (hex_digit u n)" and "hex_digit u n \<notin> {0x2D, 0x2B, 0x78, 0x58, 0, 0x3A}"
    by simp_all
qed

lemma unat_nibbles: "16 * unat (drop_bit 4 b) + unat (b AND 0xF) = unat (b :: u8)"
proof -
  have and_take: "b AND 0xF = take_bit 4 b"
    by (simp add: take_bit_eq_mask mask_eq_exp_minus_1)
  have "unat (b AND 0xF) = unat b mod 16" and "unat (drop_bit 4 b) = unat b div 16"
    unfolding and_take unsigned_take_bit_eq unat_drop_bit_eq
    by (simp_all add: drop_bit_eq_div take_bit_eq_mod)
  then show ?thesis
    by simp
qed

lemma scan_hhx_hex_byte:
  assumes "r = [] \<or> \<not> is_hex (hd r)"
  shows "scan_hhx (hex_byte (u, v, b) @ r) = Some (b, r)"
proof -
  let ?h = "hex_digit u (drop_bit 4 b)" and ?l = "hex_digit v (b AND 0xF)"
  have nb: "drop_bit 4 b < 16" "b AND 0xF < 16"
    by (rule nibble_bounds)+
  note facts = hex_digit_plain [OF nb(1), of u] hex_digit_plain [OF nb(2), of v]
    is_hex_hex_digit [OF nb(1), of u] is_hex_hex_digit [OF nb(2), of v]
    hex_value_hex_digit [OF nb(1), of u] hex_value_hex_digit [OF nb(2), of v]
  have tw: "takeWhile is_hex (?h # ?l # r) = [?h, ?l]" "dropWhile is_hex (?h # ?l # r) = r"
    using facts assms by (cases r; simp)+
  have num: "hex_number [?h, ?l] = unat b"
    using facts unat_nibbles [of b] by (simp add: hex_number_def)
  have le: "unat b \<le> 2 ^ 64 - 1"
    using unsigned_less [of b, where ?'a = nat] by simp
  show ?thesis
    using facts tw num le
    by (simp add: scan_hhx_def strip_sign_def strip_0x_def min_def Let_def)
qed

lemma scan_mac_text: "ubs \<noteq> [] \<Longrightarrow> scan_mac (length ubs) (mac_text ubs) = map (snd \<circ> snd) ubs"
proof (induction ubs rule: mac_text.induct)
  case (2 x)
  then show ?case
    using scan_hhx_hex_byte [of "[]"] by (cases x) (simp del: hex_byte.simps)
next
  case (3 x y ubs)
  have "\<not> is_hex 0x3A"
    by (simp add: is_hex_def hex_value_def)
  then have "scan_hhx (hex_byte x @ 0x3A # mac_text (y # ubs)) =
      Some (snd (snd x), 0x3A # mac_text (y # ubs))"
    by (cases x) (simp only: scan_hhx_hex_byte list.sel simp_thms snd_conv)
  with 3 show ?case
    by simp
qed simp

lemma nul_free_mac_text: "nul_free (mac_text ubs)"
proof (induction ubs rule: mac_text.induct)
  case (2 x)
  then show ?case
    using hex_digit_plain(2) [OF nibble_bounds(1)] hex_digit_plain(2) [OF nibble_bounds(2)]
    by (cases x) auto
next
  case (3 x y ubs)
  then show ?case
    using hex_digit_plain(2) [OF nibble_bounds(1)] hex_digit_plain(2) [OF nibble_bounds(2)]
    by (cases x) auto
qed simp

lemma macAton_mac_text:
  assumes "length ubs = 6"
  shows "macAton (mac_text ubs @ [0]) n = (0, overlay 0 (map (snd \<circ> snd) ubs) n)"
proof -
  have "ubs \<noteq> []"
    using assms by auto
  then have "scan_mac 6 (mac_text ubs) = map (snd \<circ> snd) ubs"
    using scan_mac_text [of ubs] assms by simp
  with assms show ?thesis
    by (simp add: macAton_def c_str_nul_free nul_free_mac_text)
qed

section \<open>Properties\<close>

text \<open>
  Reading a MAC address back: six bytes written as pairs of digits with colons between them, in
  either case, are accepted by \<open>macAton\<close> and stored as they were.
\<close>

theorem macAton_roundtrip:
  assumes "length ubs = 6" "length n = 6"
  shows "macAton (mac_text ubs @ [0]) n = (0, map (snd \<circ> snd) ubs)"
  using assms by (simp add: macAton_mac_text overlay_all)

theorem macAton_roundtrip_witness:
  "macAton (mac_text (map (\<lambda>b. (False, True, b)) [0, 1, 0x2a, 0xff, 0xb0, 9]) @ [0]) (replicate 6 7) =
     (0, [0, 1, 0x2a, 0xff, 0xb0, 9])"
  using macAton_roundtrip [of "map (\<lambda>b. (False, True, b)) [0, 1, 0x2a, 0xff, 0xb0, 9]" "replicate 6 7"]
  by simp

text \<open>
  When the table has no entry for the address, \<open>getMacFromArp\<close> returns 0, as it does when there is
  one, and leaves the caller's buffer as it was; the caller learns nothing from the result. It gives the
  stream back on every path.
\<close>

theorem getMacFromArp_silent:
  assumes "files env arp_path = Some table" "readable env arp_path"
  shows "getMacFromArp env req macStr =
     (case arp_loop (c_str req) (skip_line table) of
        None \<Rightarrow> Inr (0, macStr, env)
      | Some mac \<Rightarrow> if length mac < length macStr
                   then Inr (0, overlay 0 (mac @ [0]) macStr, env) else Inl OutOfBounds)"
  using assms
  by (auto simp: getMacFromArp_def fopen_r_def fclose_def content_def memcpy_at_def
      split: option.splits)

theorem getMacFromArp_silent_witness:
  "getMacFromArp (demo_env []\<lparr>files := [arp_path \<mapsto> []]\<rparr>) [0x31, 0] [0, 0] =
     Inr (0, [0, 0], demo_env []\<lparr>files := [arp_path \<mapsto> []]\<rparr>)"
proof -
  have "arp_loop [0x31] [] = None"
    by (simp add: arp_loop.simps scan_arp_line_def scan_set_def)
  then show ?thesis
    using getMacFromArp_silent [of "demo_env []\<lparr>files := [arp_path \<mapsto> []]\<rparr>" "[]" "[0x31, 0]" "[0, 0]"]
    by (simp add: demo_env_def skip_line_def c_str_def)
qed

text \<open>The buffers of the scan are large enough: a MAC address of the table has at most 17 bytes.\<close>

lemma arp_loop_length: "arp_loop req s = Some mac \<Longrightarrow> length mac \<le> 17"
proof (induction req s rule: arp_loop.induct)
  case (1 req s)
  show ?case
  proof (cases "scan_arp_line s")
    case None
    with "1.prems" show ?thesis
      by (simp add: arp_loop.simps [of req s])
  next
    case (Some x)
    obtain ip m rest where x: "x = (ip, m, rest)"
      by (cases x)
    have "length m \<le> 17"
      using Some x
      by (auto simp: scan_arp_line_def scan_set_def Let_def split: option.splits if_splits)
    with Some x "1" show ?thesis
      by (auto simp: arp_loop.simps [of req s] split: if_splits)
  qed
qed

text \<open>
  The sockets that only carry an \<open>ioctl\<close> are closed again on every path, but when
  \<open>createEtherSocket\<close> fails after it got its socket, that descriptor stays open.
\<close>

theorem createEtherSocket_descriptors:
  "(\<exists>r idx. getIfindex iface k = (r, idx, k)) \<and>
   (\<exists>r m. getLocalMacAddr iface mac k = (r, m, k)) \<and>
   (case createEtherSocket iface k of (sfd, k') \<Rightarrow>
      open_fds k' = (if length (open_fds k) < max_fds k
                     then lowest_free (open_fds k) # open_fds k else open_fds k))"
proof -
  have idx: "\<exists>r i. getIfindex iface k = (r, i, k)" for k
    by (cases k rule: fd_open_cases) (auto simp: getIfindex_def split: option.splits)
  have mac: "\<exists>r m. getLocalMacAddr iface mac k = (r, m, k)"
    by (cases k rule: fd_open_cases) (auto simp: getLocalMacAddr_def split: option.splits)
  obtain sfd k1 where o: "fd_open k = (sfd, k1)"
    by (cases "fd_open k")
  obtain r i where i: "getIfindex iface k1 = (r, i, k1)"
    using idx by blast
  have "open_fds k1 = (if length (open_fds k) < max_fds k
      then lowest_free (open_fds k) # open_fds k else open_fds k)"
    using o by (auto simp: fd_open_def Let_def split: if_splits)
  then have "case createEtherSocket iface k of (sfd, k') \<Rightarrow>
      open_fds k' = (if length (open_fds k) < max_fds k
                     then lowest_free (open_fds k) # open_fds k else open_fds k)"
    using o i by (auto simp: createEtherSocket_def split: option.splits)
  with idx mac show ?thesis
    by blast
qed

end
