(* ===== verification/FileTransmit.thy ===== *)
theory FileTransmit
  imports EtherAddr
begin

text \<open>
  \<open>fileTransmit/fileTransmit.c\<close>: a file sent in Ethernet frames, every one acknowledged before the next.
  The global variables of the program are the record \<open>globals\<close>; the sender and the receiver are two
  processes with one each. \<open>be\<close> is the byte order of a host, so the two may differ. Objects on the stack
  that the code does not initialise are the arguments named \<open>junk\<close>.
\<close>

section \<open>Constants and messages\<close>

definition MAXLEN :: nat where "MAXLEN = 128"
definition TRANSMITSIZE :: nat where "TRANSMITSIZE = 1488"
definition START :: u32 where "START = 0x05"
definition END :: u32 where "END = 0x0A"
definition ING :: u32 where "ING = 0x5A"
definition SUCCESS :: u32 where "SUCCESS = 0xE0"
definition FAIL :: u32 where "FAIL = 0xEE"

lemmas ft_consts [simp] = MAXLEN_def TRANSMITSIZE_def START_def END_def ING_def SUCCESS_def FAIL_def

record globals =
  filename :: bytes
  filepath :: bytes
  fileSize :: u64
  fp :: "cfile option"
  fileCount :: u32
  recvCount :: u32
  env :: cenv

text \<open>
  \<open>fileAttr_t\<close>: \<open>status\<close> at 0, four bytes of padding, \<open>fileSize\<close> at 8, \<open>dstpath\<close> at 16, \<open>dstfileName\<close>
  at 144, 272 bytes. \<open>fileData_t\<close>: \<open>status\<close>, \<open>len\<close> and \<open>sum\<close> at 0, 4 and 8, \<open>context\<close> at 12, 1500 bytes.
\<close>

definition checksum :: "bytes \<Rightarrow> nat \<Rightarrow> u32 cres" where
  "checksum p data_len =
     (if data_len \<le> length p then Inr (foldl (\<lambda>s b. s + ucast b) 0 (take data_len p))
      else Inl OutOfBounds)"

definition htonll :: "bool \<Rightarrow> u64 \<Rightarrow> u64" where
  "htonll be val =
     (if htonl be 1 = 1 then val
      else push_bit 32 (ucast (htonl be (ucast val))) + ucast (htonl be (ucast (drop_bit 32 val))))"

definition ntohll :: "bool \<Rightarrow> u64 \<Rightarrow> u64" where
  "ntohll be val =
     (if htonl be 1 = 1 then val
      else push_bit 32 (ucast (ntohl be (ucast val))) + ucast (ntohl be (ucast (drop_bit 32 val))))"

text \<open>\<open>basename\<close> of \<open>libgen.h\<close>: what follows the last slash, trailing slashes aside.\<close>

definition basename :: "bytes \<Rightarrow> bytes" where
  "basename s =
     (let s1 = rev (dropWhile (\<lambda>b. b = 0x2F) (rev s))
      in if s = [] then [0x2E]
         else if s1 = [] then [0x2F]
         else rev (takeWhile (\<lambda>b. b \<noteq> 0x2F) (rev s1)))"

section \<open>The sender\<close>

text \<open>\<open>recvAck\<close>: the status of the frame that came, or -1; \<open>junk\<close> is the frame on its stack.\<close>

definition recvAck ::
    "bool \<Rightarrow> ('n \<Rightarrow> bytes option \<times> 'n) \<Rightarrow> ethernet_frame \<Rightarrow> 'n \<Rightarrow> int \<times> 'n" where
  "recvAck be recv junk n =
     (case recvEtherFrame be recv junk n of (ret, frame, n') \<Rightarrow>
        if ret < 0 then (-1, n') else (sint (ntohl be (ld32 be (fdata frame))), n'))"

definition attr_image :: "bool \<Rightarrow> globals \<Rightarrow> bytes \<Rightarrow> bytes" where
  "attr_image be g junk =
     overlay 144 (strncpy_bytes (basename (c_str (filename g))) (MAXLEN - 1))
       (overlay 16 (strncpy_bytes (filepath g) (MAXLEN - 1))
         (overlay 8 (mem64 be (htonll be (fileSize g)))
           (overlay 0 (mem32 be (htonl be START)) junk)))"

definition sendReq ::
    "bool \<Rightarrow> ('n \<Rightarrow> bytes \<Rightarrow> int \<times> 'n) \<Rightarrow> ethernet_frame \<Rightarrow> bytes \<Rightarrow> bytes \<Rightarrow> bytes \<Rightarrow> globals \<Rightarrow> 'n
      \<Rightarrow> (int \<times> 'n) cres" where
  "sendReq be send junk_frame junk to from g n =
     sendEtherData be send junk_frame to from FILETRANSMIT (attr_image be g junk) 272 n"

text \<open>The \<open>fileData_t\<close> of a chunk; the object is cleared first, so nothing of the stack is in it.\<close>

definition data_image :: "bool \<Rightarrow> bytes \<Rightarrow> u32 \<Rightarrow> bytes" where
  "data_image be chunk csum =
     mem32 be (htonl be ING) @ mem32 be (htonl be (of_nat (length chunk))) @ mem32 be (htonl be csum)
       @ chunk @ replicate (TRANSMITSIZE - length chunk) 0"

text \<open>
  The loop of \<open>sendFileData\<close>. The stream is a regular file without read errors, so the end-of-file
  indicator ends it; \<open>count\<close> is the number of packets it prints.
\<close>

function send_loop ::
    "bool \<Rightarrow> ('n \<Rightarrow> bytes \<Rightarrow> int \<times> 'n) \<Rightarrow> ('n \<Rightarrow> bytes option \<times> 'n) \<Rightarrow> ethernet_frame
      \<Rightarrow> bytes \<Rightarrow> bytes \<Rightarrow> cenv \<Rightarrow> cfile \<Rightarrow> u32 \<Rightarrow> 'n \<Rightarrow> (int \<times> u32 \<times> cfile \<times> 'n) cres" where
  "send_loop be send recv junk to from ce f count n =
     (if at_eof f then Inr (0, count, f, n)
      else (case fread TRANSMITSIZE f ce of (chunk, f') \<Rightarrow>
        cbind (checksum chunk (length chunk)) (\<lambda>csum.
        cbind (sendEtherData be send junk to from FILETRANSMIT (data_image be chunk csum) 1500 n)
          (\<lambda>(ret, n1).
           if ret < 0 then Inr (-1, count, f', n1)
           else (case recvAck be recv junk n1 of (ack, n2) \<Rightarrow>
             if ack \<noteq> uint SUCCESS then Inr (-1, count, f', n2)
             else send_loop be send recv junk to from ce f' (count + 1) n2)))))"
  by pat_completeness auto
termination
  by (relation "measure (\<lambda>(be, send, recv, junk, to, from, ce, f, count, n).
        if at_eof f then 0 else Suc (length (content ce (fpath f)) - fpos f))")
    (auto simp: fread_def Let_def)

declare send_loop.simps [simp del]

definition sendFileData ::
    "bool \<Rightarrow> ('n \<Rightarrow> bytes \<Rightarrow> int \<times> 'n) \<Rightarrow> ('n \<Rightarrow> bytes option \<times> 'n) \<Rightarrow> ethernet_frame
      \<Rightarrow> bytes \<Rightarrow> bytes \<Rightarrow> cenv \<Rightarrow> cfile \<Rightarrow> 'n \<Rightarrow> (int \<times> u32 \<times> cfile \<times> 'n) cres" where
  "sendFileData be send recv junk to from ce f n = send_loop be send recv junk to from ce f 0 n"

text \<open>
  The transfer proper, from the opened file on: the return value of the last call, \<open>SUCCESS\<close> when all
  went well. \<open>fclose\<close> at \<open>quit\<close> is in \<open>fileSend\<close>.
\<close>

definition send_transfer ::
    "bool \<Rightarrow> ('n \<Rightarrow> bytes \<Rightarrow> int \<times> 'n) \<Rightarrow> ('n \<Rightarrow> bytes option \<times> 'n) \<Rightarrow> ethernet_frame \<Rightarrow> bytes
      \<Rightarrow> bytes \<Rightarrow> bytes \<Rightarrow> globals \<Rightarrow> cfile \<Rightarrow> 'n \<Rightarrow> (int \<times> 'n) cres" where
  "send_transfer be send recv junk_frame junk to from g f n =
     cbind (sendReq be send junk_frame junk to from g n) (\<lambda>(ret, n1).
     if ret < 0 then Inr (ret, n1)
     else (case recvAck be recv junk_frame n1 of (ret, n2) \<Rightarrow>
     if ret \<noteq> uint SUCCESS then Inr (ret, n2)
     else cbind (sendFileData be send recv junk_frame to from (env g) f n2) (\<lambda>(ret, count, f', n3).
     if ret < 0 then Inr (ret, n3)
     else cbind (sendEtherData be send junk_frame to from FILETRANSMIT (mem32 be (htonl be END)) 4 n3)
       (\<lambda>(ret, n4).
     if ret < 0 then Inr (ret, n4)
     else Inr (recvAck be recv junk_frame n4)))))"

definition fileSend ::
    "bool \<Rightarrow> ('n \<Rightarrow> bytes \<Rightarrow> int \<times> 'n) \<Rightarrow> ('n \<Rightarrow> bytes option \<times> 'n) \<Rightarrow> ethernet_frame \<Rightarrow> bytes
      \<Rightarrow> bytes \<Rightarrow> bytes \<Rightarrow> kernel \<Rightarrow> globals \<Rightarrow> 'n \<Rightarrow> (int \<times> globals \<times> 'n) cres" where
  "fileSend be send recv junk_frame junk iface dstIp k g n =
     (case getLocalMacAddr iface (replicate 6 0) k of (r, from, _) \<Rightarrow>
     if r < 0 then Inr (-1, g, n)
     else cbind (getMacFromArp (env g) dstIp (replicate 18 0)) (\<lambda>(r, dstMac, e1).
     if r < 0 then Inr (-1, g\<lparr>env := e1\<rparr>, n)
     else (case macAton dstMac (replicate 6 0) of (r, to) \<Rightarrow>
     if r \<noteq> 0 then Inr (-1, g\<lparr>env := e1\<rparr>, n)
     else (case fopen_r (c_str (filename g)) e1 of
         (None, e2) \<Rightarrow> Inr (-1, g\<lparr>env := e2, fp := None\<rparr>, n)
       | (Some f, e2) \<Rightarrow>
           let g' = g\<lparr>env := e2, fp := Some (rewind f), fileSize := of_nat (fsize f e2),
                      fileCount := of_nat (fsize f e2 div TRANSMITSIZE + 1)\<rparr>
           in cbind (send_transfer be send recv junk_frame junk to from g' (rewind f) n) (\<lambda>(ret, n').
              Inr (ret, g'\<lparr>env := fclose f e2\<rparr>, n'))))))"

section \<open>The receiver\<close>

definition sendAck ::
    "bool \<Rightarrow> ('n \<Rightarrow> bytes \<Rightarrow> int \<times> 'n) \<Rightarrow> ethernet_frame \<Rightarrow> ethernet_frame \<Rightarrow> u32 \<Rightarrow> 'n \<Rightarrow> (int \<times> 'n) cres" where
  "sendAck be send junk frame stat n =
     sendEtherData be send junk (src_addr frame) (dst_addr frame) FILETRANSMIT (mem32 be stat) 4 n"

text \<open>
  \<open>createFile\<close>. \<open>filepath\<close> is written by \<open>strncpy\<close> up to its last byte but one; \<open>snprintf\<close> cuts the name
  to \<open>MAXLEN - 2\<close> bytes. The stream of an earlier transfer is overwritten, not closed.
\<close>

definition attr_globals :: "bool \<Rightarrow> bytes \<Rightarrow> globals \<Rightarrow> globals" where
  "attr_globals be fAttr g =
     (let size = ntohll be (ld64 be (drop 8 fAttr));
          path' = overlay 0 (strncpy_bytes (take 128 (drop 16 fAttr)) (MAXLEN - 1)) (filepath g);
          fName = strncpy_bytes (take 128 (drop 144 fAttr)) (MAXLEN - 1) @ [0];
          printed = take (MAXLEN - 2) (c_str path' @ c_str fName)
      in g\<lparr>fileSize := size, fileCount := ucast (size div of_nat TRANSMITSIZE + 1),
           filepath := path', filename := overlay 0 (printed @ [0]) (filename g)\<rparr>)"

definition createFile :: "bool \<Rightarrow> ethernet_frame \<Rightarrow> globals \<Rightarrow> int \<times> globals" where
  "createFile be frame g =
     (let g' = attr_globals be (take 272 (fdata frame)) g
      in case fopen_w (c_str (filename g')) (env g') of
           (None, e) \<Rightarrow> (-1, g'\<lparr>fp := None, env := e\<rparr>)
         | (Some f, e) \<Rightarrow> (0, g'\<lparr>fp := Some f, env := e\<rparr>))"

text \<open>
  \<open>recvFileData\<close>. \<open>len\<close> comes from the packet; the copy into \<open>buf\<close> is not bounded by its size. A stream
  that was never opened is a null pointer for \<open>fwrite\<close>.
\<close>

definition recvFileData :: "bool \<Rightarrow> ethernet_frame \<Rightarrow> globals \<Rightarrow> (int \<times> globals) cres" where
  "recvFileData be frame g =
     (let hdr = take 12 (fdata frame);
          csum = ntohl be (ld32 be (drop 8 hdr));
          len = unat (ntohl be (ld32 be (drop 4 hdr)))
      in cbind (memcpy_at (replicate TRANSMITSIZE 0) 0 (fdata frame) 12 len) (\<lambda>buf.
         cbind (checksum buf len) (\<lambda>sumCalc.
           if csum \<noteq> sumCalc then Inr (-1, g)
           else (case fp g of
               None \<Rightarrow> Inl NullDeref
             | Some f \<Rightarrow>
                 (case fwrite (take len buf) f (env g) of (w, f', e') \<Rightarrow>
                   let g' = g\<lparr>fp := Some f', env := e'\<rparr>
                   in if w \<noteq> len then Inr (-1, g')
                      else Inr (0, g'\<lparr>recvCount := recvCount g + 1\<rparr>))))))"

text \<open>
  One round of the loop of \<open>fileRecv\<close>: the buffer, the globals, the network, and the value the function
  returns when the round ends it. \<open>Returned\<close> leaves the stream open, \<open>Quit\<close> closes it.
\<close>

datatype round_end = Again | Returned int | Quit int

definition rx_dispatch :: "bool \<Rightarrow> ethernet_frame \<Rightarrow> globals \<Rightarrow> (int \<times> bool \<times> globals) cres" where
  "rx_dispatch be frame g =
     (let status = ntohl be (ld32 be (fdata frame))
      in if status = START then (case createFile be frame g of (ret, g') \<Rightarrow> Inr (ret, True, g'))
         else if status = ING then cbind (recvFileData be frame g) (\<lambda>(ret, g'). Inr (ret, True, g'))
         else if status = END then Inr (0, False, g)
         else Inr (0, True, g))"

definition rx_round ::
    "bool \<Rightarrow> ('n \<Rightarrow> bytes \<Rightarrow> int \<times> 'n) \<Rightarrow> ('n \<Rightarrow> bytes option \<times> 'n) \<Rightarrow> ethernet_frame
      \<Rightarrow> ethernet_frame \<Rightarrow> globals \<Rightarrow> 'n \<Rightarrow> (ethernet_frame \<times> globals \<times> 'n \<times> round_end) cres" where
  "rx_round be send recv junk frame g n =
     (case recvEtherFrame be recv frame n of (ret, frame', n1) \<Rightarrow>
        if ret < 0 then Inr (frame', g, n1, Returned (-1))
        else cbind (rx_dispatch be frame' g) (\<lambda>(ret, flag, g').
          if ret < 0
          then cbind (sendAck be send junk frame' (htonl be FAIL) n1) (\<lambda>(_, n2).
            Inr (frame', g', n2, Quit 0))
          else cbind (sendAck be send junk frame' (htonl be SUCCESS) n1) (\<lambda>(_, n2).
            Inr (frame', g', n2, if flag then Again else Quit 0))))"

text \<open>
  \<open>fileRecv\<close>: the loop may wait for packets for ever, so it is bounded by the number of rounds; \<open>None\<close> is
  a receiver that is still in the loop.
\<close>

definition rx_quit :: "globals \<Rightarrow> globals" where
  "rx_quit g = (case fp g of None \<Rightarrow> g | Some f \<Rightarrow> g\<lparr>env := fclose f (env g)\<rparr>)"

fun fileRecv ::
    "nat \<Rightarrow> bool \<Rightarrow> ('n \<Rightarrow> bytes \<Rightarrow> int \<times> 'n) \<Rightarrow> ('n \<Rightarrow> bytes option \<times> 'n) \<Rightarrow> ethernet_frame
      \<Rightarrow> ethernet_frame \<Rightarrow> globals \<Rightarrow> 'n \<Rightarrow> (int \<times> globals \<times> 'n) cres option" where
  "fileRecv 0 be send recv junk frame g n = None"
| "fileRecv (Suc k) be send recv junk frame g n =
     (case rx_round be send recv junk frame g n of
        Inl e \<Rightarrow> Some (Inl e)
      | Inr (frame', g', n', Again) \<Rightarrow> fileRecv k be send recv junk frame' g' n'
      | Inr (frame', g', n', Returned r) \<Rightarrow> Some (Inr (r, g', n'))
      | Inr (frame', g', n', Quit r) \<Rightarrow> Some (Inr (r, rx_quit g', n')))"

section \<open>Byte order of the messages\<close>

lemma bswap32_one: "bswap32 1 \<noteq> 1"
  by (simp add: bswap32_def be32_def)

lemma htonl_one: "htonl be 1 = 1 \<longleftrightarrow> be"
  by (simp add: htonl_def bswap32_one)

lemma join_halves:
  fixes a b :: u32
  defines "w \<equiv> push_bit 32 (ucast a) + ucast b :: u64"
  shows "ucast (drop_bit 32 w) = a" and "ucast w = b"
proof -
  have "push_bit 32 (ucast a) AND ucast b = (0 :: u64)"
    by (rule bit_word_eqI) (auto simp: bit_simps dest: bit_imp_le_length)
  then have w: "w = push_bit 32 (ucast a) OR ucast b"
    unfolding w_def by (rule disjunctive_add_eq_or)
  show "ucast (drop_bit 32 w) = a"
    unfolding w by (rule bit_word_eqI) (auto simp: bit_simps dest: bit_imp_le_length)
  show "ucast w = b"
    unfolding w by (rule bit_word_eqI) (auto simp: bit_simps)
qed

lemma mem64_htonll [byteorder_simps]: "mem64 be (htonll be v) = be64 v"
  by (simp add: mem64_def htonll_def htonl_one be64_def join_halves htonl_def bswap32_one bswap32_be32)

lemma split_halves:
  "push_bit 32 (ucast (ucast (drop_bit 32 v) :: u32)) + ucast (ucast v :: u32) = (v :: u64)"
proof -
  have "push_bit 32 (ucast (ucast (drop_bit 32 v) :: u32)) AND ucast (ucast v :: u32) = (0 :: u64)"
    by (rule bit_word_eqI) (auto simp: bit_simps dest: bit_imp_le_length)
  then have "push_bit 32 (ucast (ucast (drop_bit 32 v) :: u32)) + ucast (ucast v :: u32)
      = (push_bit 32 (ucast (ucast (drop_bit 32 v) :: u32)) OR ucast (ucast v :: u32) :: u64)"
    by (rule disjunctive_add_eq_or)
  also have "\<dots> = v"
    by (rule bit_word_eqI) (auto simp: bit_simps not_less)
  finally show ?thesis .
qed

lemma ntohll_htonll: "ntohll be (htonll be v) = v"
  by (simp add: ntohll_def htonll_def htonl_one join_halves byteorder_simps split_halves)

lemma ntohll_ld64 [byteorder_simps]: "ntohll be (ld64 be (be64 v @ rest)) = v"
  by (metis ld64_mem64 mem64_htonll ntohll_htonll)

end
