(* ===== verification/FileTransfer.thy ===== *)
theory FileTransfer
  imports FileTransmit
begin

text \<open>
  The protocol of \<open>fileTransmit.c\<close> as a whole: what the sender needs of its peer is the locale
  \<open>acked_peer\<close>, the program's own receiver is an instance of it, and with it a transfer stores the file.
\<close>

section \<open>What the sender relies on\<close>

text \<open>The bytes of an acknowledgement and of a data packet.\<close>

definition ack_frame :: "bytes \<Rightarrow> bytes \<Rightarrow> u32 \<Rightarrow> bytes" where
  "ack_frame to from stat = wire_frame from to FILETRANSMIT (be32 stat)"

definition data_packet :: "bytes \<Rightarrow> bytes" where
  "data_packet chunk =
     be32 ING @ be32 (of_nat (length chunk)) @ be32 (foldl (\<lambda>s b. s + ucast b) 0 chunk)
       @ chunk @ replicate (TRANSMITSIZE - length chunk) 0"

lemma data_image_packet:
  "data_image be chunk (foldl (\<lambda>s b. s + ucast b) 0 chunk) = data_packet chunk"
  by (simp add: data_image_def data_packet_def byteorder_simps)

lemma length_data_packet: "length chunk \<le> 1488 \<Longrightarrow> length (data_packet chunk) = 1500"
  by (simp add: data_packet_def)

lemma recvAck_ack:
  assumes "frame_wf junk" "length to = 6" "length from = 6"
    and "recv n = (Some (ack_frame to from stat), n')"
  shows "recvAck be recv junk n = (sint stat, n')"
  using recvEtherFrame_wire [of junk "from" to "be32 stat" recv n n' be] assms
  by (simp add: recvAck_def ack_frame_def byteorder_simps)

locale acked_peer =
  fixes send :: "'n \<Rightarrow> bytes \<Rightarrow> int \<times> 'n" and recv :: "'n \<Rightarrow> bytes option \<times> 'n"
    and idle :: "'n \<Rightarrow> bytes \<Rightarrow> nat \<Rightarrow> bool"
    and stored :: "'n \<Rightarrow> bytes \<Rightarrow> nat \<Rightarrow> bytes \<Rightarrow> bool"
    and finished :: "'n \<Rightarrow> bytes \<Rightarrow> bytes \<Rightarrow> bool"
  assumes start: "idle n a cap \<Longrightarrow> length a = 272 \<Longrightarrow> take 4 a = be32 START
      \<Longrightarrow> length to = 6 \<Longrightarrow> length from = 6
      \<Longrightarrow> \<exists>r n1 n2. send n (wire_frame to from FILETRANSMIT a) = (r, n1) \<and> r \<noteq> -1 \<and>
            recv n1 = (Some (ack_frame to from SUCCESS), n2) \<and> stored n2 a cap []"
    and data: "stored n a cap done \<Longrightarrow> length chunk \<le> 1488 \<Longrightarrow> length (done @ chunk) \<le> cap
      \<Longrightarrow> length to = 6 \<Longrightarrow> length from = 6
      \<Longrightarrow> \<exists>r n1 n2. send n (wire_frame to from FILETRANSMIT (data_packet chunk)) = (r, n1) \<and> r \<noteq> -1 \<and>
            recv n1 = (Some (ack_frame to from SUCCESS), n2) \<and> stored n2 a cap (done @ chunk)"
    and fin: "stored n a cap done \<Longrightarrow> length to = 6 \<Longrightarrow> length from = 6
      \<Longrightarrow> \<exists>r n1 n2. send n (wire_frame to from FILETRANSMIT (be32 END)) = (r, n1) \<and> r \<noteq> -1 \<and>
            recv n1 = (Some (ack_frame to from SUCCESS), n2) \<and> finished n2 a done"
begin

lemma exchange:
  assumes "send n (wire_frame to from FILETRANSMIT pkt) = (r, n1)" "r \<noteq> -1"
    and "recv n1 = (Some (ack_frame to from SUCCESS), n2)"
    and "frame_wf junk" "length to = 6" "length from = 6" "length pkt \<le> 1500"
  shows "sendEtherData be send junk to from FILETRANSMIT pkt (int (length pkt)) n = Inr (0, n1)"
    and "recvAck be recv junk n1 = (uint SUCCESS, n2)"
  using assms sendEtherData_wire [of junk to "from" pkt be send FILETRANSMIT n]
    recvAck_ack [of junk to "from" recv n1 SUCCESS n2 be] by simp_all

lemma send_loop_stores:
  assumes "frame_wf junk" "length to = 6" "length from = 6"
    and "stored n a cap (take (fpos f) (content ce (fpath f)))"
    and "at_eof f \<longrightarrow> length (content ce (fpath f)) \<le> fpos f"
    and "length (content ce (fpath f)) \<le> cap"
  shows "\<exists>count' f' n'. send_loop be send recv junk to from ce f count n = Inr (0, count', f', n') \<and>
           stored n' a cap (content ce (fpath f))"
  using assms(4-6)
proof (induction "if at_eof f then 0 else Suc (length (content ce (fpath f)) - fpos f)"
    arbitrary: f count n rule: less_induct)
  case less
  let ?c = "content ce (fpath f)"
  define chunk where "chunk = take 1488 (drop (fpos f) ?c)"
  define f' where "f' = f\<lparr>fpos := fpos f + length chunk, at_eof := at_eof f \<or> length chunk < 1488\<rparr>"
  show ?case
  proof (cases "at_eof f")
    case True
    then show ?thesis
      using less.prems by (simp add: send_loop.simps [of _ _ _ _ _ _ _ f])
  next
    case False
    have rd: "fread 1488 f ce = (chunk, f')"
      by (simp add: fread_def chunk_def f'_def Let_def)
    have ext: "take (fpos f) ?c @ chunk = take (fpos f') ?c"
      by (simp add: chunk_def f'_def take_add [symmetric] min_def)
    have len: "length chunk \<le> 1488" "length (take (fpos f) ?c @ chunk) \<le> cap"
      unfolding ext using less.prems(3) by (simp_all add: chunk_def)
    obtain r n1 n2 where s: "send n (wire_frame to from FILETRANSMIT (data_packet chunk)) = (r, n1)"
      "r \<noteq> -1" "recv n1 = (Some (ack_frame to from SUCCESS), n2)"
      and st: "stored n2 a cap (take (fpos f) ?c @ chunk)"
      using data [OF less.prems(1) len assms(2,3)] by blast
    note ex = exchange [OF s assms(1-3), of be]
    have step: "send_loop be send recv junk to from ce f count n =
        send_loop be send recv junk to from ce f' (count + 1) n2"
      using False ex len by (subst send_loop.simps) (simp add: rd checksum_def data_image_packet length_data_packet)
    have "(if at_eof f' then 0 else Suc (length (content ce (fpath f')) - fpos f'))
        < (if at_eof f then 0 else Suc (length ?c - fpos f))"
      using False by (auto simp: f'_def chunk_def)
    moreover have same: "content ce (fpath f') = ?c"
      by (simp add: f'_def)
    moreover have "at_eof f' \<longrightarrow> length ?c \<le> fpos f'"
      using False by (auto simp: f'_def chunk_def)
    ultimately have "\<exists>count' f'' n'. send_loop be send recv junk to from ce f' (count + 1) n2 =
        Inr (0, count', f'', n') \<and> stored n' a cap (content ce (fpath f'))"
      using less.hyps [of f' n2 "count + 1"] st less.prems(3) ext by simp
    then show ?thesis
      by (simp add: step same)
  qed
qed

text \<open>The whole exchange: request, data packets and the final message, each acknowledged.\<close>

theorem send_transfer_stores:
  assumes "frame_wf junk" "length to = 6" "length from = 6" "length stack = 272"
    and "length (filename g) = 128" "length (filepath g) = 128"
    and "idle n (attr_image be g stack) cap" "length (content (env g) (fpath f)) \<le> cap"
    and "fpos f = 0" "\<not> at_eof f"
  shows "\<exists>n'. send_transfer be send recv junk stack to from g f n = Inr (uint SUCCESS, n') \<and>
           finished n' (attr_image be g stack) (content (env g) (fpath f))"
proof -
  let ?a = "attr_image be g stack" and ?c = "content (env g) (fpath f)"
  have a: "length ?a = 272" "take 4 ?a = be32 START"
    using assms(4) by (simp_all add: attr_image_def overlay_def byteorder_simps)
  obtain r n1 n2 where s: "send n (wire_frame to from FILETRANSMIT ?a) = (r, n1)" "r \<noteq> -1"
    "recv n1 = (Some (ack_frame to from SUCCESS), n2)" and st: "stored n2 ?a cap []"
    using start [OF assms(7) a assms(2,3)] by blast
  note ex = exchange [OF s assms(1-3), of be]
  obtain count f' n3 where loop: "sendFileData be send recv junk to from (env g) f n2 = Inr (0, count, f', n3)"
    and st3: "stored n3 ?a cap ?c"
    using send_loop_stores [OF assms(1-3), of n2 ?a cap f "env g" be 0] st assms(8-10)
    by (auto simp: sendFileData_def)
  obtain r' n4 n5 where s': "send n3 (wire_frame to from FILETRANSMIT (be32 END)) = (r', n4)" "r' \<noteq> -1"
    "recv n4 = (Some (ack_frame to from SUCCESS), n5)" and fn: "finished n5 ?a ?c"
    using fin [OF st3 assms(2,3)] by blast
  note ex' = exchange [OF s' assms(1-3), of be]
  show ?thesis
    using ex ex' loop fn a by (simp add: send_transfer_def sendReq_def byteorder_simps)
qed

end

section \<open>The receiver as the peer\<close>

text \<open>
  The receiver's end of the link: packets that wait for \<open>recvfrom\<close> and packets it sent. The peer of the
  sender is the process in the loop of \<open>fileRecv\<close>: a packet makes it run one round.
\<close>

record rwire =
  inbox :: "bytes list"
  outbox :: "bytes list"

definition rsend :: "rwire \<Rightarrow> bytes \<Rightarrow> int \<times> rwire" where
  "rsend w pkt = (int (length pkt), w\<lparr>outbox := outbox w @ [pkt]\<rparr>)"

definition rrecv :: "rwire \<Rightarrow> bytes option \<times> rwire" where
  "rrecv w = (case inbox w of [] \<Rightarrow> (None, w) | p # ps \<Rightarrow> (Some p, w\<lparr>inbox := ps\<rparr>))"

record rproc =
  pg :: globals
  pframe :: ethernet_frame
  pout :: "bytes list"
  pend :: round_end
  pfault :: "fault option"

definition peer_send :: "bool \<Rightarrow> ethernet_frame \<Rightarrow> rproc \<Rightarrow> bytes \<Rightarrow> int \<times> rproc" where
  "peer_send be junk p pkt =
     (int (length pkt),
      if pend p \<noteq> Again \<or> pfault p \<noteq> None then p
      else (case rx_round be rsend rrecv junk (pframe p) (pg p) \<lparr>inbox = [pkt], outbox = pout p\<rparr> of
          Inl e \<Rightarrow> p\<lparr>pfault := Some e\<rparr>
        | Inr (frame, g, w, e) \<Rightarrow>
            p\<lparr>pg := (case e of Quit _ \<Rightarrow> rx_quit g | _ \<Rightarrow> g), pframe := frame, pout := outbox w, pend := e\<rparr>))"

definition peer_recv :: "rproc \<Rightarrow> bytes option \<times> rproc" where
  "peer_recv p = (case pout p of [] \<Rightarrow> (None, p) | q # qs \<Rightarrow> (Some q, p\<lparr>pout := qs\<rparr>))"

text \<open>The path a request names: the two strings, joined and cut to 126 bytes.\<close>

definition target_of :: "bytes \<Rightarrow> bytes" where
  "target_of a = take 126 (take 127 (c_str (take 128 (drop 16 a))) @ take 127 (c_str (take 128 (drop 144 a))))"

definition rx_ready :: "ethernet_frame \<Rightarrow> rproc \<Rightarrow> bool" where
  "rx_ready junk p \<longleftrightarrow> frame_wf junk \<and> frame_wf (pframe p) \<and> pend p = Again \<and> pfault p = None \<and> pout p = []"

definition rx_idle :: "ethernet_frame \<Rightarrow> rproc \<Rightarrow> bytes \<Rightarrow> nat \<Rightarrow> bool" where
  "rx_idle junk p a cap \<longleftrightarrow> rx_ready junk p \<and> cap \<le> room (env (pg p)) \<and>
     writable (env (pg p)) (target_of a) \<and>
     length (filename (pg p)) = 128 \<and> length (filepath (pg p)) = 128 \<and> filepath (pg p) ! 127 = 0"

definition rx_stored :: "ethernet_frame \<Rightarrow> rproc \<Rightarrow> bytes \<Rightarrow> nat \<Rightarrow> bytes \<Rightarrow> bool" where
  "rx_stored junk p a cap done \<longleftrightarrow> rx_ready junk p \<and>
     cap \<le> length done + room (env (pg p)) \<and> files (env (pg p)) (target_of a) = Some done \<and>
     (case fp (pg p) of None \<Rightarrow> False | Some f \<Rightarrow> fpath f = target_of a \<and> fpos f = length done)"

definition rx_finished :: "rproc \<Rightarrow> bytes \<Rightarrow> bytes \<Rightarrow> bool" where
  "rx_finished p a done \<longleftrightarrow> pend p = Quit 0 \<and> files (env (pg p)) (target_of a) = Some done"

definition rx_frame :: "bool \<Rightarrow> bytes \<Rightarrow> bytes \<Rightarrow> bytes \<Rightarrow> ethernet_frame \<Rightarrow> ethernet_frame" where
  "rx_frame be to from pkt frame =
     \<lparr>dst_addr = to, src_addr = from, etype = htons be FILETRANSMIT, fdata = pkt @ drop (length pkt) (fdata frame)\<rparr>"

lemma rx_round_wire:
  assumes "frame_wf junk" "frame_wf frame" "length to = 6" "length from = 6" "length pkt \<le> 1500"
    and "rx_dispatch be (rx_frame be to from pkt frame) g = Inr (ret, flag, g')" "0 \<le> ret"
  shows "rx_round be rsend rrecv junk frame g \<lparr>inbox = [wire_frame to from FILETRANSMIT pkt], outbox = out\<rparr> =
     Inr (rx_frame be to from pkt frame, g', \<lparr>inbox = [], outbox = out @ [ack_frame to from SUCCESS]\<rparr>,
          if flag then Again else Quit 0)"
proof -
  let ?w = "\<lparr>inbox = [], outbox = out\<rparr>"
  have rx: "recvEtherFrame be rrecv frame \<lparr>inbox = [wire_frame to from FILETRANSMIT pkt], outbox = out\<rparr> =
      (0, rx_frame be to from pkt frame, ?w)"
    unfolding rx_frame_def using assms(2-5) by (intro recvEtherFrame_wire) (simp_all add: rrecv_def)
  have "sendAck be rsend junk (rx_frame be to from pkt frame) (htonl be SUCCESS) ?w =
      Inr (0, \<lparr>inbox = [], outbox = out @ [ack_frame to from SUCCESS]\<rparr>)"
    using sendEtherData_wire [of junk "from" to "be32 SUCCESS" be rsend FILETRANSMIT ?w] assms(1,3,4)
    by (simp add: sendAck_def rx_frame_def byteorder_simps rsend_def ack_frame_def)
  then show ?thesis
    using assms(6,7) by (simp add: rx_round_def rx)
qed

lemma peer_exchange:
  assumes "rx_ready junk p" "length to = 6" "length from = 6" "length pkt \<le> 1500"
    and "rx_dispatch be (rx_frame be to from pkt (pframe p)) (pg p) = Inr (ret, flag, g')" "0 \<le> ret"
  defines "e \<equiv> if flag then Again else Quit 0"
  defines "p' \<equiv> p\<lparr>pg := (if flag then g' else rx_quit g'), pframe := rx_frame be to from pkt (pframe p),
                  pend := e\<rparr>"
  shows "\<exists>r n1 n2. peer_send be junk p (wire_frame to from FILETRANSMIT pkt) = (r, n1) \<and> r \<noteq> -1 \<and>
           peer_recv n1 = (Some (ack_frame to from SUCCESS), n2) \<and> n2 = p'"
    and "flag \<Longrightarrow> rx_ready junk p'"
proof -
  have wf: "frame_wf junk" "frame_wf (pframe p)"
    using assms(1) by (simp_all add: rx_ready_def)
  note rx_round_wire [OF wf assms(2-6), of "[]"]
  then show "\<exists>r n1 n2. peer_send be junk p (wire_frame to from FILETRANSMIT pkt) = (r, n1) \<and> r \<noteq> -1 \<and>
           peer_recv n1 = (Some (ack_frame to from SUCCESS), n2) \<and> n2 = p'"
    using assms(1) by (simp add: peer_send_def peer_recv_def rx_ready_def p'_def e_def)
  show "rx_ready junk p'" if flag
    using that assms(1-4) by (simp add: rx_ready_def p'_def e_def rx_frame_def frame_wf_def)
qed

lemma c_str_zero_end: "nul_free s \<Longrightarrow> c_str (s @ [0]) = s"
  using c_str_nul_free [of s "[]"] by simp

lemma c_str_strncpy_end: "c_str (strncpy_bytes s n @ [0]) = take n (c_str s)"
  using c_str_strncpy_bytes [of s n "[]"] by simp

lemma status_of:
  "fdata fr = be32 s @ rest \<Longrightarrow> ntohl be (ld32 be (fdata fr)) = s"
  by (simp add: byteorder_simps)

lemma attr_globals_target:
  assumes "length (filepath g) = 128" "filepath g ! 127 = 0" "length (filename g) = 128"
  shows "c_str (filename (attr_globals be a g)) = target_of a"
proof -
  have "drop 127 (filepath g) = [0]"
    using assms(1,2) by (simp add: Cons_nth_drop_Suc [symmetric])
  then have path: "c_str (overlay 0 (strncpy_bytes X 127) (filepath g)) = take 127 (c_str X)" for X
    by (simp add: overlay_def c_str_strncpy_end)
  have "c_str (overlay 0 (s @ [0]) F) = s" if "nul_free s" for s F
    using that by (simp add: overlay_def c_str_nul_free)
  then show ?thesis
    by (simp add: attr_globals_def Let_def target_of_def path c_str_strncpy_end nul_free_take del: take_append)
qed

lemma rx_start:
  assumes "rx_idle junk p a cap" "length a = 272" "take 4 a = be32 START" "length to = 6" "length from = 6"
  shows "\<exists>r n1 n2. peer_send be junk p (wire_frame to from FILETRANSMIT a) = (r, n1) \<and> r \<noteq> -1 \<and>
           peer_recv n1 = (Some (ack_frame to from SUCCESS), n2) \<and> rx_stored junk n2 a cap []"
proof -
  let ?fr = "rx_frame be to from a (pframe p)" and ?g = "attr_globals be a (pg p)"
  let ?f = "\<lparr>fpath = target_of a, fpos = 0, at_eof = False\<rparr>" and ?e = "env (pg p)"
  let ?g' = "?g\<lparr>fp := Some ?f, env := ?e\<lparr>files := (files ?e)(target_of a \<mapsto> []), open_files := Suc (open_files ?e)\<rparr>\<rparr>"
  have ready: "rx_ready junk p" and room: "cap \<le> room ?e" and wr: "writable ?e (target_of a)"
    and sz: "length (filename (pg p)) = 128" "length (filepath (pg p)) = 128" "filepath (pg p) ! 127 = 0"
    using assms(1) by (simp_all add: rx_idle_def)
  have fd: "take 272 (fdata ?fr) = a" "fdata ?fr = be32 START @ drop 4 (fdata ?fr)"
    using assms(2,3) append_take_drop_id [of 4 "fdata ?fr"] by (simp_all add: rx_frame_def)
  have "createFile be ?fr (pg p) = (0, ?g')"
    unfolding createFile_def Let_def fd(1) attr_globals_target [OF sz(2,3,1)]
    using wr by (simp add: fopen_w_def attr_globals_def Let_def)
  then have "rx_dispatch be ?fr (pg p) = Inr (0, True, ?g')"
    using status_of [OF fd(2)] by (simp add: rx_dispatch_def)
  from peer_exchange [OF ready assms(4,5) _ this] assms(2) show ?thesis
    using room by (auto simp: rx_stored_def)
qed

lemma rx_data:
  assumes "rx_stored junk p a cap done" "length chunk \<le> 1488" "length (done @ chunk) \<le> cap"
    and "length to = 6" "length from = 6"
  shows "\<exists>r n1 n2. peer_send be junk p (wire_frame to from FILETRANSMIT (data_packet chunk)) = (r, n1) \<and>
           r \<noteq> -1 \<and> peer_recv n1 = (Some (ack_frame to from SUCCESS), n2) \<and>
           rx_stored junk n2 a cap (done @ chunk)"
proof -
  let ?fr = "rx_frame be to from (data_packet chunk) (pframe p)"
  let ?s = "be32 (foldl (\<lambda>s b. s + ucast b) 0 chunk)" and ?l = "be32 (of_nat (length chunk))"
  let ?z = "replicate (1488 - length chunk) 0" and ?e = "env (pg p)"
  obtain f where ready: "rx_ready junk p" and room: "cap \<le> length done + room ?e"
    and st: "files ?e (target_of a) = Some done"
    and f: "fp (pg p) = Some f" "fpath f = target_of a" "fpos f = length done"
    using assms(1) by (auto simp: rx_stored_def split: option.splits)
  have "length (fdata (pframe p)) = 1500"
    using ready by (simp add: rx_ready_def frame_wf_def)
  then have fd: "fdata ?fr = be32 ING @ ?l @ ?s @ chunk @ ?z"
    using assms(2) by (simp add: rx_frame_def data_packet_def)
  have unat: "unat (of_nat (length chunk) :: u32) = length chunk"
    using assms(2) by (simp add: unat_of_nat)
  have cont: "content ?e (target_of a) = done"
    using st by (simp add: content_def)
  have n: "min (length chunk) (room ?e) = length chunk"
    using assms(3) room by simp
  let ?e' = "?e\<lparr>files := (files ?e)(target_of a \<mapsto> done @ chunk), room := room ?e - length chunk\<rparr>"
  let ?g' = "(pg p)\<lparr>fp := Some (f\<lparr>fpos := length done + length chunk\<rparr>), env := ?e',
               recvCount := recvCount (pg p) + 1\<rparr>"
  have hdr: "take 12 (be32 ING @ ?l @ ?s @ chunk @ ?z) = be32 ING @ ?l @ ?s"
    "drop 4 (be32 ING @ ?l @ ?s) = ?l @ ?s" "drop 8 (be32 ING @ ?l @ ?s) = ?s @ []"
    "drop 12 (be32 ING @ ?l @ ?s @ chunk @ ?z) = chunk @ ?z"
    by simp_all
  have cp: "memcpy_at (replicate 1488 0) 0 (be32 ING @ ?l @ ?s @ chunk @ ?z) 12 (length chunk) =
      Inr (chunk @ ?z)"
    unfolding memcpy_at_def hdr(4) using assms(2) by (simp add: overlay_def)
  have wr: "fwrite chunk f ?e = (length chunk, f\<lparr>fpos := length done + length chunk\<rparr>, ?e')"
    using f cont n by (simp add: fwrite_def Let_def)
  have "recvFileData be ?fr (pg p) = Inr (0, ?g')"
    unfolding recvFileData_def Let_def fd hdr TRANSMITSIZE_def ntohl_ld32 unat cp
    using f(1) wr by (simp add: checksum_def)
  then have "rx_dispatch be ?fr (pg p) = Inr (0, True, ?g')"
    using status_of [OF fd] by (simp add: rx_dispatch_def)
  from peer_exchange [OF ready assms(4,5) _ this] assms(2,3) show ?thesis
    using room f n by (auto simp: rx_stored_def length_data_packet)
qed

lemma rx_fin:
  assumes "rx_stored junk p a cap done" "length to = 6" "length from = 6"
  shows "\<exists>r n1 n2. peer_send be junk p (wire_frame to from FILETRANSMIT (be32 END)) = (r, n1) \<and> r \<noteq> -1 \<and>
           peer_recv n1 = (Some (ack_frame to from SUCCESS), n2) \<and> rx_finished n2 a done"
proof -
  let ?fr = "rx_frame be to from (be32 END) (pframe p)"
  have ready: "rx_ready junk p"
    using assms(1) by (simp add: rx_stored_def)
  have "rx_dispatch be ?fr (pg p) = Inr (0, False, pg p)"
    using status_of [of ?fr END] by (simp add: rx_dispatch_def rx_frame_def)
  from peer_exchange [OF ready assms(2,3) _ this] assms(1) show ?thesis
    by (auto simp: rx_stored_def rx_finished_def rx_quit_def fclose_def split: option.splits)
qed

interpretation rx: acked_peer "peer_send beR junkR" peer_recv "rx_idle junkR" "rx_stored junkR" rx_finished
  for beR junkR
  by unfold_locales (blast intro: rx_start rx_data rx_fin)+

section \<open>The program\<close>

text \<open>
  \<open>main\<close>: the options as \<open>getopt\<close> delivers them, a letter and its argument each (\<open>'?'\<close> for anything
  else). \<open>realpath\<close> is the C library's, \<open>None\<close> for a path that does not exist. The result \<open>None\<close> of the
  two first parts is a call of \<open>usage\<close> and \<open>exit(-1)\<close>.
\<close>

record ft_opts =
  isclent :: int
  iface :: bytes
  ip :: bytes

fun ft_options ::
    "(bytes \<Rightarrow> bytes option) \<Rightarrow> (char \<times> bytes) list \<Rightarrow> ft_opts \<Rightarrow> globals \<Rightarrow> (ft_opts \<times> globals) option" where
  "ft_options realpath [] op g = Some (op, g)"
| "ft_options realpath ((opt, optarg) # opts) op g =
     (if opt = CHR ''s'' then ft_options realpath opts (op\<lparr>isclent := 0\<rparr>) g
      else if opt = CHR ''c'' then ft_options realpath opts (op\<lparr>isclent := 1\<rparr>) g
      else if opt = CHR ''i''
        then ft_options realpath opts (op\<lparr>iface := overlay 0 (strncpy_bytes optarg 9) (iface op)\<rparr>) g
      else if opt = CHR ''t''
        then ft_options realpath opts (op\<lparr>ip := overlay 0 (strncpy_bytes optarg 15) (ip op)\<rparr>) g
      else if opt = CHR ''f''
        then (case realpath optarg of None \<Rightarrow> None
              | Some str \<Rightarrow>
                  ft_options realpath opts op (g\<lparr>filename := overlay 0 (strncpy_bytes str 127) (filename g)\<rparr>))
      else if opt = CHR ''p''
        then ft_options realpath opts op (g\<lparr>filepath := overlay 0 (strncpy_bytes optarg 127) (filepath g)\<rparr>)
      else None)"

definition ft_prepare :: "ft_opts \<Rightarrow> globals \<Rightarrow> globals option" where
  "ft_prepare op g =
     (if isclent op = -1 \<or> c_str (iface op) = [] then None
      else if isclent op \<noteq> 0 then
        (if c_str (filename g) = [] \<or> c_str (ip op) = [] then None
         else if c_str (filepath g) = []
           then Some (g\<lparr>filepath := overlay 0 (strncpy_bytes (filename g) 127) (filepath g)\<rparr>)
         else Some g)
      else Some g)"

definition ft_main ::
    "nat \<Rightarrow> bool \<Rightarrow> ('n \<Rightarrow> bytes \<Rightarrow> int \<times> 'n) \<Rightarrow> ('n \<Rightarrow> bytes option \<times> 'n) \<Rightarrow> ethernet_frame \<Rightarrow> ethernet_frame
      \<Rightarrow> bytes \<Rightarrow> (bytes \<Rightarrow> bytes option) \<Rightarrow> (char \<times> bytes) list \<Rightarrow> kernel \<Rightarrow> globals \<Rightarrow> 'n
      \<Rightarrow> (int \<times> kernel \<times> globals \<times> 'n) cres option" where
  "ft_main fuel be send recv junk_frame frame junk realpath opts k g n =
     (case ft_options realpath opts \<lparr>isclent = -1, iface = replicate 10 0, ip = replicate 16 0\<rparr> g of
        None \<Rightarrow> Some (Inr (-1, k, g, n))
      | Some (op, g1) \<Rightarrow>
          (if opts = [] then Some (Inr (-1, k, g, n)) else
          case ft_prepare op g1 of None \<Rightarrow> Some (Inr (-1, k, g1, n))
          | Some g2 \<Rightarrow>
          (case createEtherSocket (iface op) k of (sfd, k1) \<Rightarrow>
             if sfd < 0 then Some (Inr (-1, k1, g2, n))
             else if isclent op \<noteq> 0
               then Some (cbind (fileSend be send recv junk_frame junk (iface op) (ip op) k1 g2 n)
                      (\<lambda>(ret, g3, n'). Inr (ret, fd_close sfd k1, g3, n')))
               else map_option (\<lambda>r. cbind r (\<lambda>(ret, g3, n'). Inr (ret, fd_close sfd k1, g3, n')))
                      (fileRecv fuel be send recv junk_frame frame g2 n))))"

section \<open>Properties\<close>

text \<open>
  C5: A transfer over a link that loses nothing, between two hosts of any byte order and whatever the
  uninitialised stack objects hold: the sender ends with \<open>SUCCESS\<close>, the receiver has left its loop, and the
  file the request names on the receiver's side holds exactly the bytes of the sender's file, provided the
  disk has room for them.
\<close>

theorem file_transfer_end_to_end:
  assumes "frame_wf junkS" "length stack = 272" "length to = 6" "length from = 6"
    and "length (filename g) = 128" "length (filepath g) = 128" "fpos f = 0" "\<not> at_eof f"
    and "rx_idle junkR p (attr_image beS g stack) (length (content (env g) (fpath f)))"
  shows "\<exists>p'. send_transfer beS (peer_send beR junkR) peer_recv junkS stack to from g f p = Inr (0xE0, p') \<and>
           pend p' = Quit 0 \<and>
           files (env (pg p')) (target_of (attr_image beS g stack)) = Some (content (env g) (fpath f))"
proof -
  have "\<exists>p'. send_transfer beS (peer_send beR junkR) peer_recv junkS stack to from g f p = Inr (uint SUCCESS, p') \<and>
      rx_finished p' (attr_image beS g stack) (content (env g) (fpath f))"
    by (rule rx.send_transfer_stores [OF assms(1,3,4,2,5,6,9) order_refl assms(7,8)])
  then show ?thesis
    by (auto simp: rx_finished_def)
qed

definition demo_globals :: "bytes \<Rightarrow> globals" where
  "demo_globals whole =
     \<lparr>filename = overlay 0 (map of_char ''/d/a'') (replicate 128 0),
      filepath = overlay 0 (map of_char ''/u/'') (replicate 128 0), fileSize = 0, fp = None, fileCount = 0,
      recvCount = 0, env = (demo_env whole)\<lparr>room := 5000, writable := \<lambda>_. True\<rparr>\<rparr>"

definition demo_frame :: ethernet_frame where
  "demo_frame = \<lparr>dst_addr = replicate 6 1, src_addr = replicate 6 2, etype = 3, fdata = replicate 1500 4\<rparr>"

definition demo_proc :: rproc where
  "demo_proc = \<lparr>pg = demo_globals [], pframe = demo_frame, pout = [], pend = Again, pfault = None\<rparr>"

text \<open>A transfer of 1489 bytes, two packets, from a little-endian to a big-endian host.\<close>

lemma demo_attr:
  "rx_idle demo_frame demo_proc (attr_image False (demo_globals w) (replicate 272 9)) 1489"
  by (simp add: rx_idle_def rx_ready_def demo_proc_def demo_frame_def demo_globals_def frame_wf_def
      length_overlay overlay_def demo_env_def)

theorem file_transfer_end_to_end_witness:
  "\<exists>p'. send_transfer False (peer_send True demo_frame) peer_recv demo_frame (replicate 272 9)
          (replicate 6 1) (replicate 6 2) (demo_globals (replicate 1489 7))
          \<lparr>fpath = [1], fpos = 0, at_eof = False\<rparr> demo_proc = Inr (0xE0, p') \<and>
        pend p' = Quit 0 \<and>
        files (env (pg p')) (target_of (attr_image False (demo_globals (replicate 1489 7)) (replicate 272 9))) =
          Some (replicate 1489 7)"
proof -
  have c: "content (env (demo_globals (replicate 1489 7))) [1] = replicate 1489 7"
    by (simp add: demo_globals_def content_def demo_env_def)
  have len: "length (filename (demo_globals w)) = 128" "length (filepath (demo_globals w)) = 128"
    "frame_wf demo_frame" for w
    by (simp_all add: demo_globals_def overlay_def demo_frame_def frame_wf_def)
  show ?thesis
    using file_transfer_end_to_end [of demo_frame "replicate 272 9" "replicate 6 1" "replicate 6 2"
        "demo_globals (replicate 1489 7)" "\<lparr>fpath = [1], fpos = 0, at_eof = False\<rparr>" demo_frame
        demo_proc False True] demo_attr len c
    by simp
qed

lemma take_c_str_strncpy: "take n (c_str (strncpy_bytes s n @ rest)) = take n (c_str s)"
proof (cases "n \<le> length (c_str s)")
  case True
  then show ?thesis
    by (simp add: strncpy_bytes_def c_str_append_nul_free nul_free_take)
next
  case False
  then have "strncpy_bytes s n @ rest = c_str s @ 0 # replicate (n - length (c_str s) - 1) 0 @ rest"
    by (simp add: strncpy_bytes_def replicate_Suc [symmetric] Suc_diff_Suc del: replicate_Suc)
  then show ?thesis
    by (simp add: c_str_nul_free)
qed

lemma target_of_attr_image:
  assumes "length stack = 272"
  shows "target_of (attr_image be g stack) =
     take 126 (take 127 (c_str (filepath g)) @ take 127 (c_str (basename (c_str (filename g)))))"
proof -
  let ?p = "strncpy_bytes (filepath g) 127" and ?n = "strncpy_bytes (basename (c_str (filename g))) 127"
  have img: "attr_image be g stack = mem32 be (htonl be START) @ take 4 (drop 4 stack) @
      mem64 be (htonll be (fileSize g)) @ ?p @ take 1 (drop 143 stack) @ ?n @ drop 271 stack"
    using assms by (simp add: attr_image_def overlay_def min_def take_drop)
  have "take 128 (drop 16 (attr_image be g stack)) = ?p @ take 1 (drop 143 stack)"
    "take 128 (drop 144 (attr_image be g stack)) = ?n @ drop 271 stack"
    unfolding img using assms by simp_all
  then show ?thesis
    by (simp add: target_of_def take_c_str_strncpy)
qed

lemma length_c_str_append: "length (c_str (s @ 0 # rest)) \<le> length s"
  by (induction s) (simp_all add: c_str_def)

text \<open>
  Without \<open>-p\<close>, \<open>main\<close> copies the name of the file to the destination path; the receiver appends the
  base name to it, so the file does not arrive under its own path but under the path with the base name
  added once more.
\<close>

theorem default_destination:
  assumes "ft_prepare op g = Some g'" "isclent op \<noteq> 0" "c_str (filepath g) = []" "length stack = 272"
    and "length (filename g) = 128" "length (filepath g) = 128" "filename g ! 127 = 0" "filepath g ! 127 = 0"
  shows "target_of (attr_image be g' stack) =
     take 126 (c_str (filename g) @ take 127 (c_str (basename (c_str (filename g)))))"
proof -
  let ?path = "overlay 0 (strncpy_bytes (filename g) 127) (filepath g)"
  have g': "filepath g' = ?path" "filename g' = filename g"
    using assms(1-3) by (auto simp: ft_prepare_def split: if_splits)
  have "drop 127 (filepath g) = [0]"
    using assms(6,8) by (simp add: Cons_nth_drop_Suc [symmetric])
  then have "c_str ?path = take 127 (c_str (filename g))"
    by (simp add: overlay_def c_str_strncpy_end)
  moreover have "length (c_str (filename g)) \<le> 127"
  proof -
    have "take 127 (filename g) @ [0] = filename g"
      using take_Suc_conv_app_nth [of 127 "filename g"] assms(5,7) by simp
    then show ?thesis
      using length_c_str_append [of "take 127 (filename g)" "[]"] assms(5) by simp
  qed
  ultimately show ?thesis
    by (simp add: target_of_attr_image [OF assms(4)] g')
qed

lemma recvFileData_cases_aux:
  assumes "length (fdata frame) = 1500"
  shows "recvFileData be frame g =
     (let len = unat (ntohl be (ld32 be (drop 4 (fdata frame))));
          csum = ntohl be (ld32 be (drop 8 (fdata frame)));
          chunk = take len (drop 12 (fdata frame))
      in if 1488 < len then Inl OutOfBounds
         else if csum \<noteq> foldl (\<lambda>s b. s + ucast b) 0 chunk then Inr (-1, g)
         else (case fp g of None \<Rightarrow> Inl NullDeref
           | Some f \<Rightarrow> (case fwrite chunk f (env g) of (w, f', e) \<Rightarrow>
               if w \<noteq> len then Inr (-1, g\<lparr>fp := Some f', env := e\<rparr>)
               else Inr (0, g\<lparr>fp := Some f', env := e, recvCount := recvCount g + 1\<rparr>))))"
proof -
  have ld: "ld32 be (drop k (take 12 (fdata frame))) = ld32 be (drop k (fdata frame))" if "k \<le> 8" for k
    using that by (simp add: ld32_def drop_take min_def)
  show ?thesis
    using assms
    by (auto simp: recvFileData_def Let_def ld memcpy_at_def overlay_def checksum_def min_def
        split: option.splits prod.splits)
qed

text \<open>
  What \<open>recvFileData\<close> does with a data packet, on every branch. The length is the sender's word for
  it: one beyond 1488 makes the copy run past the buffer and the frame. Data before any request is
  written to a null stream. A wrong checksum is refused and nothing changes.
\<close>

theorem recvFileData_cases:
  assumes "length (fdata frame) = 1500"
  shows "recvFileData be frame g =
     (let len = unat (ntohl be (ld32 be (drop 4 (fdata frame))));
          csum = ntohl be (ld32 be (drop 8 (fdata frame)));
          chunk = take len (drop 12 (fdata frame))
      in if 1488 < len then Inl OutOfBounds
         else if csum \<noteq> foldl (\<lambda>s b. s + ucast b) 0 chunk then Inr (-1, g)
         else (case fp g of None \<Rightarrow> Inl NullDeref
           | Some f \<Rightarrow> (case fwrite chunk f (env g) of (w, f', e) \<Rightarrow>
               if w \<noteq> len then Inr (-1, g\<lparr>fp := Some f', env := e\<rparr>)
               else Inr (0, g\<lparr>fp := Some f', env := e, recvCount := recvCount g + 1\<rparr>))))"
  by (rule recvFileData_cases_aux [OF assms])

theorem recvFileData_cases_witness:
  "recvFileData True (demo_frame\<lparr>fdata := be32 ING @ be32 1489 @ replicate 1492 0\<rparr>) (demo_globals []) =
     Inl OutOfBounds"
  using recvFileData_cases [of "demo_frame\<lparr>fdata := be32 ING @ be32 1489 @ replicate 1492 0\<rparr>" True
      "demo_globals []"]
  by (simp add: byteorder_simps)

theorem default_destination_witness:
  "target_of (attr_image True ((demo_globals [])\<lparr>filepath := overlay 0 (strncpy_bytes (filename (demo_globals [])) 127) (replicate 128 0)\<rparr>)
     (replicate 272 9)) = map of_char ''/d/aa''"
proof -
  let ?g = "(demo_globals [])\<lparr>filepath := replicate 128 0\<rparr>"
  let ?op = "\<lparr>isclent = 1, iface = [0x65, 0], ip = [0x31, 0]\<rparr>"
  have c: "c_str (filename ?g) = map of_char ''/d/a''" "c_str (replicate 128 0) = []"
    by (simp_all add: demo_globals_def overlay_def c_str_def c_str_zeros [of _ "[]", simplified])
  have "basename (c_str (filename ?g)) = [0x61]"
    unfolding c(1) by (simp add: basename_def)
  moreover have "ft_prepare ?op ?g =
      Some (?g\<lparr>filepath := overlay 0 (strncpy_bytes (filename ?g) 127) (filepath ?g)\<rparr>)"
    using c by (simp add: ft_prepare_def c_str_def)
  ultimately show ?thesis
    using default_destination [of ?op ?g "?g\<lparr>filepath := overlay 0 (strncpy_bytes (filename ?g) 127) (filepath ?g)\<rparr>" "replicate 272 9" True]
    using c by (simp add: demo_globals_def overlay_def c_str_def)
qed

lemma sum_bytes: "foldl (\<lambda>s b. s + ucast b) x bs = x + sum_list (map (ucast :: u8 \<Rightarrow> u32) bs)"
  by (induction bs arbitrary: x) (simp_all add: add.assoc)

lemma recv_packet:
  fixes csum :: u32
  assumes "fdata frame = be32 ING @ be32 (of_nat (length chunk)) @ be32 csum @ chunk @ pad"
    and "length chunk \<le> 1488" "length (fdata frame) = 1500"
  shows "recvFileData be frame g =
     (if csum \<noteq> sum_list (map ucast chunk) then Inr (-1, g)
      else (case fp g of None \<Rightarrow> Inl NullDeref
        | Some f \<Rightarrow> (case fwrite chunk f (env g) of (w, f', e) \<Rightarrow>
            if w \<noteq> length chunk then Inr (-1, g\<lparr>fp := Some f', env := e\<rparr>)
            else Inr (0, g\<lparr>fp := Some f', env := e, recvCount := recvCount g + 1\<rparr>))))"
proof -
  have unat: "unat (of_nat (length chunk) :: u32) = length chunk"
    using assms(2) by (simp add: unat_of_nat)
  have "drop 4 (fdata frame) = be32 (of_nat (length chunk)) @ be32 csum @ chunk @ pad"
    "drop 8 (fdata frame) = be32 csum @ chunk @ pad" "take (length chunk) (drop 12 (fdata frame)) = chunk"
    by (simp_all add: assms(1))
  then show ?thesis
    using assms(2) by (simp add: recvFileData_cases_aux [OF assms(3)] byteorder_simps unat sum_bytes Let_def
        split: option.split)
qed



text \<open>
  \<open>htonll\<close> puts a 64-bit value into network order on every host, and \<open>ntohll\<close> on any other host reads
  it back.
\<close>

theorem htonll_network_order:
  "mem64 be (htonll be v) = be64 v \<and> ntohll be' (ld64 be' (mem64 be (htonll be v) @ rest)) = v"
  by (simp add: byteorder_simps)

text \<open>
  \<open>fileSend\<close> gives back every stream it opened, on every path on which it returns; it ends with a
  negative value before anything is sent when one of the addresses cannot be found or the file cannot be
  opened.
\<close>

theorem fileSend_gives_back:
  assumes "fileSend be send recv junk_frame junk name dstIp k g n = Inr (ret, g', n')"
  shows "open_files (env g') = open_files (env g) \<and>
     (files (env g) (c_str (filename g)) = None \<longrightarrow> ret = -1 \<and> n' = n)"
proof -
  have arp: "e1 = env g" if "getMacFromArp (env g) dstIp (replicate 18 0) = Inr (r, m, e1)" for r m e1
    using that by (auto simp: getMacFromArp_def fopen_r_def fclose_def cbind_eq_Inr split: if_splits option.splits)
  obtain r m k' where mac: "getLocalMacAddr name (replicate 6 0) k = (r, m, k')"
    by (cases "getLocalMacAddr name (replicate 6 0) k")
  show ?thesis
  proof (cases "getMacFromArp (env g) dstIp (replicate 18 0)")
    case (Inl e)
    then show ?thesis
      using assms by (simp add: fileSend_def mac split: if_splits)
  next
    case (Inr x)
    obtain r2 dm where x: "getMacFromArp (env g) dstIp (replicate 18 0) = Inr (r2, dm, env g)"
      using Inr arp by (cases x) simp
    obtain r3 to where aton: "macAton dm (replicate 6 0) = (r3, to)"
      by (cases "macAton dm (replicate 6 0)")
    show ?thesis
      using assms
      by (simp add: fileSend_def mac x aton Let_def fopen_r_def split: if_splits)
        (auto simp: fclose_def cbind_eq_Inr)
  qed
qed

theorem fileSend_gives_back_witness:
  "open_files (env (demo_globals [])) = open_files (env (demo_globals [])) \<and>
     fileSend True (peer_send True demo_frame) peer_recv demo_frame (replicate 272 9) [0x65, 0] [0x31, 0]
       \<lparr>open_fds = [0], max_fds = 9, ifaces = \<lambda>_. Some (1, replicate 6 1), bind_ok = \<lambda>_. True\<rparr>
       (demo_globals []) demo_proc = Inr (-1, demo_globals [], demo_proc)"
proof -
  have run: "fileSend True (peer_send True demo_frame) peer_recv demo_frame (replicate 272 9) [0x65, 0] [0x31, 0]
       \<lparr>open_fds = [0], max_fds = 9, ifaces = \<lambda>_. Some (1, replicate 6 1), bind_ok = \<lambda>_. True\<rparr>
       (demo_globals []) demo_proc = Inr (-1, demo_globals [], demo_proc)"
    by (simp add: fileSend_def getLocalMacAddr_def fd_open_def getMacFromArp_def fopen_r_def
        demo_globals_def demo_env_def arp_path_def split: prod.split)
  show ?thesis
    using fileSend_gives_back [OF run] run by simp
qed

end
