(* ===== verification/Binary64.thy ===== *)
theory Binary64
  imports Prelude
begin

text \<open>
  Double-precision numbers as the C programs use them: the values, the conversion from decimal text that
  \<open>strtod\<close> and \<open>sscanf("%lg")\<close> make, the conversion to decimal text that \<open>printf("%.Pg")\<close> makes, both
  rounded to nearest and ties to even, and the truncation to \<open>int\<close>. All of it is exact arithmetic on
  natural numbers.

  The last section bounds the length of the text. That 17 digits are enough is shown in \<open>Decimal\<close>.
\<close>

section \<open>Values\<close>

text \<open>\<open>Fin s m e\<close> is \<open>m * 2 ^ e\<close>, negated if \<open>s\<close>.\<close>

datatype dbl = Fin bool nat int | Inf bool | NaN

definition canonical :: "dbl \<Rightarrow> bool" where
  "canonical d \<longleftrightarrow>
     (case d of Fin s m e \<Rightarrow> m < 2 ^ 53 \<and> -1074 \<le> e \<and> e \<le> 971 \<and> (m < 2 ^ 52 \<longrightarrow> e = -1074) | _ \<Rightarrow> True)"

definition dzero :: dbl where
  "dzero = Fin False 0 (-1074)"

definition finite_dbl :: "dbl \<Rightarrow> bool" where
  "finite_dbl d \<longleftrightarrow> (case d of Fin s m e \<Rightarrow> True | _ \<Rightarrow> False)"

text \<open>\<open>==\<close> on doubles: the zeros are equal, \<open>NaN\<close> is equal to nothing. Canonical numbers are equal when
  their parts are.\<close>

definition dbl_eq :: "dbl \<Rightarrow> dbl \<Rightarrow> bool" where
  "dbl_eq a b \<longleftrightarrow>
     (case (a, b) of
        (Fin s m e, Fin s' m' e') \<Rightarrow> (m = 0 \<and> m' = 0) \<or> (s = s' \<and> m = m' \<and> e = e')
      | (Inf s, Inf s') \<Rightarrow> s = s'
      | _ \<Rightarrow> False)"

section \<open>Rounding\<close>

fun bitlen :: "nat \<Rightarrow> nat" where
  "bitlen n = (if n = 0 then 0 else Suc (bitlen (n div 2)))"

declare bitlen.simps [simp del]

lemma bitlen_bounds: "0 < n \<Longrightarrow> 2 ^ (bitlen n - 1) \<le> n \<and> n < 2 ^ bitlen n \<and> 0 < bitlen n"
proof (induction n rule: bitlen.induct)
  case (1 n)
  show ?case
  proof (cases "n div 2 = 0")
    case True
    with "1.prems" have "n = 1"
      by auto
    then show ?thesis
      by (simp add: bitlen.simps)
  next
    case False
    then have ih: "2 ^ (bitlen (n div 2) - 1) \<le> n div 2" "n div 2 < 2 ^ bitlen (n div 2)" "0 < bitlen (n div 2)"
      using 1 by auto
    have b: "bitlen n = Suc (bitlen (n div 2))"
      using "1.prems" by (simp add: bitlen.simps [of n])
    obtain k where k: "bitlen (n div 2) = Suc k"
      using ih(3) by (cases "bitlen (n div 2)") auto
    show ?thesis
      using ih k unfolding b by auto
  qed
qed

text \<open>\<open>n / d\<close> rounded to the nearest integer, ties to even.\<close>

definition rhe :: "nat \<Rightarrow> nat \<Rightarrow> nat" where
  "rhe n d =
     (let q = n div d; r = n mod d in if d < 2 * r \<or> (2 * r = d \<and> odd q) then Suc q else q)"

text \<open>\<open>n / d\<close> divided by \<open>b ^ e\<close>, as a fraction again.\<close>

definition scale :: "nat \<Rightarrow> int \<Rightarrow> nat \<Rightarrow> nat \<Rightarrow> nat \<times> nat" where
  "scale b e n d = (if 0 \<le> e then (n, d * b ^ nat e) else (n * b ^ nat (- e), d))"

definition exp_of :: "nat \<Rightarrow> nat \<Rightarrow> int" where
  "exp_of n d =
     (let e0 = int (bitlen n) - int (bitlen d) - 53;
          (n', d') = scale 2 e0 n d
      in max (-1074) (if n' < d' * 2 ^ 53 then e0 else e0 + 1))"

text \<open>The double nearest to \<open>n / d\<close>.\<close>

definition round64 :: "bool \<Rightarrow> nat \<Rightarrow> nat \<Rightarrow> dbl" where
  "round64 s n d =
     (if n = 0 then Fin s 0 (-1074)
      else (let e = exp_of n d;
                m = (case scale 2 e n d of (n', d') \<Rightarrow> rhe n' d');
                (m', e') = (if m = 2 ^ 53 then (2 ^ 52, e + 1) else (m, e))
            in if 971 < e' then Inf s else Fin s m' e'))"

section \<open>Reading decimal text\<close>

definition is_digit :: "u8 \<Rightarrow> bool" where
  "is_digit b \<longleftrightarrow> 0x30 \<le> b \<and> b \<le> 0x39"

definition digit_val :: "u8 \<Rightarrow> nat" where
  "digit_val b = unat b - 48"

definition digits_val :: "bytes \<Rightarrow> nat" where
  "digits_val ds = foldl (\<lambda>v b. 10 * v + digit_val b) 0 ds"

text \<open>An exponent part, if there is one: its value and what follows it.\<close>

definition exponent_part :: "bytes \<Rightarrow> int \<times> bytes" where
  "exponent_part s =
     (case s of
        [] \<Rightarrow> (0, s)
      | b # r \<Rightarrow>
          if b = 0x65 \<or> b = 0x45
          then (let (neg, r1) = strip_sign r; ds = takeWhile is_digit r1
                in if ds = [] then (0, s)
                   else (if neg then - int (digits_val ds) else int (digits_val ds), dropWhile is_digit r1))
          else (0, s))"

text \<open>The decimal point with the digits behind it; it needs a digit on one side.\<close>

definition fraction_part :: "bytes \<Rightarrow> bytes \<Rightarrow> bytes \<times> bytes" where
  "fraction_part ip s =
     (case s of
        [] \<Rightarrow> ([], [])
      | b # r \<Rightarrow> if b = 0x2E \<and> (ip \<noteq> [] \<or> (r \<noteq> [] \<and> is_digit (hd r)))
                 then (takeWhile is_digit r, dropWhile is_digit r) else ([], s))"

text \<open>
  \<open>strtod\<close> on a text without leading white space in decimal form: the value and what follows the number;
  \<open>None\<close> if there is no number (the C function returns 0 and the start of the text).
\<close>

definition strtod :: "bytes \<Rightarrow> (dbl \<times> bytes) option" where
  "strtod s =
     (let (neg, s1) = strip_sign s;
          ip = takeWhile is_digit s1;
          s2 = dropWhile is_digit s1;
          (fp, s3) = fraction_part ip s2
      in if ip = [] \<and> fp = [] then None
         else (case exponent_part s3 of (x, rest) \<Rightarrow>
           let (n, d) = scale 10 (int (length fp) - x) (digits_val (ip @ fp)) 1
           in Some (round64 neg n d, rest)))"

section \<open>Writing decimal text\<close>

fun dec_digits :: "nat \<Rightarrow> nat \<Rightarrow> bytes" where
  "dec_digits 0 n = []"
| "dec_digits (Suc k) n = dec_digits k (n div 10) @ [of_nat (48 + n mod 10)]"

fun declen :: "nat \<Rightarrow> nat" where
  "declen n = (if n = 0 then 0 else Suc (declen (n div 10)))"

declare declen.simps [simp del]

text \<open>\<open>n / d\<close> lies between \<open>10 ^ k\<close> and \<open>10 ^ (k + 1)\<close>.\<close>

definition dec_exp :: "nat \<Rightarrow> nat \<Rightarrow> int" where
  "dec_exp n d =
     (if d \<le> n then int (declen (n div d)) - 1
      else (let l = declen (d div n) in if d \<le> n * 10 ^ (l - 1) then - int (l - 1) else - int l))"

text \<open>\<open>P\<close> significant digits of \<open>n / d\<close> as a number, and the exponent of the first.\<close>

definition dec_round :: "nat \<Rightarrow> nat \<Rightarrow> nat \<Rightarrow> nat \<times> int" where
  "dec_round P n d =
     (let k = dec_exp n d;
          D = (case scale 10 (k - int P + 1) n d of (n', d') \<Rightarrow> rhe n' d')
      in if D = 10 ^ P then (10 ^ (P - 1), k + 1) else (D, k))"

definition strip_zeros :: "bytes \<Rightarrow> bytes" where
  "strip_zeros ds = rev (dropWhile (\<lambda>b. b = 0x30) (rev ds))"

definition fraction :: "bytes \<Rightarrow> bytes" where
  "fraction ds = (if ds = [] then [] else 0x2E # ds)"

definition exp_text :: "int \<Rightarrow> bytes" where
  "exp_text x =
     [0x65, if x < 0 then 0x2D else 0x2B] @ dec_digits (max 2 (declen (nat \<bar>x\<bar>))) (nat \<bar>x\<bar>)"

text \<open>The text of the digits \<open>ds\<close>, the first of which has the weight \<open>10 ^ x\<close>, as \<open>%.Pg\<close> lays it out.\<close>

definition layout_g :: "nat \<Rightarrow> bytes \<Rightarrow> int \<Rightarrow> bytes" where
  "layout_g P ds x =
     (if -4 \<le> x \<and> x < int P then
        (if 0 \<le> x then take (nat x + 1) ds @ fraction (strip_zeros (drop (nat x + 1) ds))
         else [0x30] @ fraction (replicate (nat (- x) - 1) 0x30 @ strip_zeros ds))
      else take 1 ds @ fraction (strip_zeros (drop 1 ds)) @ exp_text x)"

text \<open>\<open>printf("%.Pg")\<close> of a finite number.\<close>

definition fmt_g :: "nat \<Rightarrow> dbl \<Rightarrow> bytes" where
  "fmt_g P d =
     (case d of
        Fin s m e \<Rightarrow>
          (if s then [0x2D] else []) @
          (if m = 0 then [0x30]
           else (case scale 2 (- e) m 1 of (n, den) \<Rightarrow>
             case dec_round P n den of (D, x) \<Rightarrow> layout_g P (dec_digits P D) x))
      | Inf s \<Rightarrow> (if s then [0x2D] else []) @ map of_char ''inf''
      | NaN \<Rightarrow> map of_char ''nan'')"

section \<open>Truncation\<close>

definition trunc :: "bool \<Rightarrow> nat \<Rightarrow> int \<Rightarrow> int" where
  "trunc s m e =
     (let a = (if 0 \<le> e then int (m * 2 ^ nat e) else int (m div 2 ^ nat (- e))) in if s then - a else a)"

section \<open>The printed text fits\<close>

text \<open>
  No number needs more than 24 characters with 17 digits: a sign, the digits, the point, and an exponent
  of at most three digits. None of them is a NUL.
\<close>

lemma declen_bound: "n < 10 ^ k \<Longrightarrow> declen n \<le> k"
proof (induction n arbitrary: k rule: declen.induct)
  case (1 n)
  show ?case
  proof (cases "n = 0")
    case False
    with "1.prems" obtain k' where k: "k = Suc k'"
      by (cases k) simp_all
    then have "n div 10 < 10 ^ k'"
      using "1.prems" by (simp add: div_less_iff_less_mult mult.commute)
    then show ?thesis
      using "1.IH" [OF False] False k by (simp add: declen.simps [of n])
  qed (simp add: declen.simps)
qed

lemma length_dec_digits [simp]: "length (dec_digits k n) = k"
  by (induction k n rule: dec_digits.induct) simp_all

lemma digit_byte_nonzero: "(of_nat (48 + n mod 10) :: u8) \<noteq> 0"
proof -
  have "unat (of_nat (48 + n mod 10) :: u8) = 48 + n mod 10"
    using mod_less_divisor [of 10 n] by (simp only: unat_of_nat) simp
  then show ?thesis
    by (metis add_is_0 unat_0 zero_neq_numeral)
qed

lemma nul_free_dec_digits: "nul_free (dec_digits k n)"
  by (induction k n rule: dec_digits.induct) (simp_all add: digit_byte_nonzero del: of_nat_add)

lemma length_strip_zeros: "length (strip_zeros ds) \<le> length ds"
  using length_dropWhile_le [of "\<lambda>b. b = 0x30" "rev ds"] by (simp add: strip_zeros_def)

lemma nul_free_strip_zeros: "nul_free ds \<Longrightarrow> nul_free (strip_zeros ds)"
  by (auto simp: nul_free_def strip_zeros_def dest: set_dropWhileD)

lemma length_fraction: "length (fraction ds) \<le> length ds + 1"
  by (simp add: fraction_def)

lemma nul_free_fraction: "nul_free ds \<Longrightarrow> nul_free (fraction ds)"
  by (simp add: fraction_def)

lemma nul_free_layout:
  assumes "nul_free ds"
  shows "nul_free (layout_g P ds x)"
proof -
  have "nul_free (drop k ds)" "nul_free (take k ds)" for k
    using assms by (auto simp: nul_free_def dest: in_set_dropD in_set_takeD)
  then show ?thesis
    using assms by (auto simp: layout_g_def exp_text_def nul_free_dec_digits nul_free_def [of "replicate _ _"]
        intro!: nul_free_fraction nul_free_strip_zeros)
qed

lemma length_layout:
  assumes "length ds = P" "0 < P" "\<bar>x\<bar> < 1000"
  shows "length (layout_g P ds x) \<le> P + 6"
proof -
  have e: "length (exp_text x) \<le> 5"
    using declen_bound [of "nat \<bar>x\<bar>" 3] assms(3) by (simp add: exp_text_def)
  have s: "length (fraction (strip_zeros us)) \<le> length us + 1" for us
    using length_fraction [of "strip_zeros us"] length_strip_zeros [of us] by linarith
  consider "-4 \<le> x" "x < int P" "0 \<le> x" | "-4 \<le> x" "x < int P" "x < 0" | "\<not> (-4 \<le> x \<and> x < int P)"
    by linarith
  then show ?thesis
  proof cases
    case 1
    then show ?thesis
      using s [of "drop (nat x + 1) ds"] assms by (simp add: layout_g_def)
  next
    case 2
    then show ?thesis
      using length_fraction [of "replicate (nat (- x) - 1) 0x30 @ strip_zeros ds"] length_strip_zeros [of ds] assms
      by (simp add: layout_g_def)
  next
    case 3
    then show ?thesis
      using s [of "drop 1 ds"] e assms by (auto simp: layout_g_def)
  qed
qed

lemma dec_exp_bound:
  assumes "n < 10 ^ k" "d < 10 ^ k"
  shows "\<bar>dec_exp n d\<bar> \<le> int k + 1"
proof -
  have "n div d < 10 ^ k" "d div n < 10 ^ k"
    using assms by (auto intro: le_less_trans [OF div_le_dividend])
  then have "declen (n div d) \<le> k" "declen (d div n) \<le> k"
    by (simp_all add: declen_bound)
  then show ?thesis
    by (auto simp: dec_exp_def Let_def)
qed

lemma canonical_fraction_bound:
  assumes "canonical (Fin s m e)" "scale 2 (- e) m 1 = (n, d)"
  shows "n < 10 ^ 537" and "d < 10 ^ 537"
proof -
  have m: "m < 2 ^ 53" and e: "-1074 \<le> e" "e \<le> 971"
    using assms(1) by (auto simp: canonical_def)
  have "(2 :: nat) ^ (2 * 537) < 10 ^ 537"
    unfolding power_mult by (rule power_strict_mono) simp_all
  then have big: "(2 :: nat) ^ 1074 < 10 ^ 537"
    by (simp only: mult_numeral_left mult_1_right numeral_mult [symmetric] num.simps arith_simps)
  have "m * 2 ^ nat e \<le> 2 ^ 53 * 2 ^ 971"
    using m e by (intro mult_mono power_increasing) auto
  also have "\<dots> \<le> (2 :: nat) ^ 1074"
    unfolding power_add [symmetric] by (intro power_increasing) auto
  finally have up: "m * 2 ^ nat e < 10 ^ 537"
    using big by (rule le_less_trans)
  have "(2 :: nat) ^ nat (- e) \<le> 2 ^ 1074"
    using e by (intro power_increasing) auto
  then have down: "(2 :: nat) ^ nat (- e) < 10 ^ 537"
    using big by (rule le_less_trans)
  have "m < 10 ^ 537"
  proof -
    have "(2 :: nat) ^ 53 \<le> 2 ^ 1074"
      by (intro power_increasing) auto
    with m have "m < 2 ^ 1074"
      by (rule less_le_trans)
    then show ?thesis
      using big by (rule less_trans)
  qed
  moreover have "(1 :: nat) < 10 ^ 537"
    by (rule one_less_power) auto
  ultimately have small: "m < 10 ^ 537" "(1 :: nat) < 10 ^ 537" .
  show "n < 10 ^ 537" "d < 10 ^ 537"
    using assms(2) up down small unfolding scale_def by (metis mult_1 neg_equal_iff_equal minus_minus prod.inject)+
qed

lemma length_fmt_g:
  assumes "canonical d" "finite_dbl d" "0 < P"
  shows "length (fmt_g P d) \<le> P + 7"
proof (cases d)
  case (Fin s m e)
  obtain n den where nd: "scale 2 (- e) m 1 = (n, den)"
    by (cases "scale 2 (- e) m 1")
  obtain D x where Dx: "dec_round P n den = (D, x)"
    by (cases "dec_round P n den")
  have c: "canonical (Fin s m e)"
    using assms(1) Fin by simp
  have "\<bar>dec_exp n den\<bar> \<le> int 537 + 1"
    by (rule dec_exp_bound [OF canonical_fraction_bound [OF c nd]])
  then have "\<bar>x\<bar> < 1000"
    using Dx by (auto simp: dec_round_def Let_def split: if_splits)
  then have "length (layout_g P (dec_digits P D) x) \<le> P + 6"
    using assms(3) by (intro length_layout) simp_all
  then show ?thesis
    using assms(3) by (simp add: fmt_g_def Fin nd Dx del: One_nat_def)
qed (use assms(2) in \<open>simp_all add: finite_dbl_def\<close>)

lemma nul_free_fmt_g: "finite_dbl d \<Longrightarrow> nul_free (fmt_g P d)"
  by (auto simp: fmt_g_def finite_dbl_def nul_free_layout nul_free_dec_digits split: dbl.splits prod.splits)

end
