(* ===== verification/CJsonBase.thy ===== *)
theory CJsonBase
  imports Binary64
begin

text \<open>
  \<open>jsonRead/cJSON.c\<close> and \<open>cJSON.h\<close>: the items, the memory hooks and the helpers everything else uses.

  An item is a value of the datatype \<open>cJSON\<close>: the members of the C structure, with the list of the
  children in place of the chain \<open>child\<close>/\<open>next\<close>/\<open>prev\<close> (the chains themselves, with their pointers, are in
  the theory \<open>CJsonStore\<close>). Strings are the buffers they were written to, so a string can hold bytes
  behind its terminator; \<open>None\<close> is the null pointer.

  The heap is what the hooks see of it: the number of calls so far, the number of blocks that are in use,
  which calls succeed and what a fresh block is filled with.
\<close>

section \<open>Items\<close>

definition cJSON_Invalid :: u32 where "cJSON_Invalid = 0"
definition cJSON_False :: u32 where "cJSON_False = 1"
definition cJSON_True :: u32 where "cJSON_True = 2"
definition cJSON_NULL :: u32 where "cJSON_NULL = 4"
definition cJSON_Number :: u32 where "cJSON_Number = 8"
definition cJSON_String :: u32 where "cJSON_String = 16"
definition cJSON_Array :: u32 where "cJSON_Array = 32"
definition cJSON_Object :: u32 where "cJSON_Object = 64"
definition cJSON_Raw :: u32 where "cJSON_Raw = 128"
definition cJSON_IsReference :: u32 where "cJSON_IsReference = 256"
definition cJSON_StringIsConst :: u32 where "cJSON_StringIsConst = 512"

lemmas cJSON_types = cJSON_Invalid_def cJSON_False_def cJSON_True_def cJSON_NULL_def cJSON_Number_def
  cJSON_String_def cJSON_Array_def cJSON_Object_def cJSON_Raw_def
lemmas cJSON_flags = cJSON_IsReference_def cJSON_StringIsConst_def

definition CJSON_NESTING_LIMIT :: nat where "CJSON_NESTING_LIMIT = 1000"

datatype cJSON =
  Item (itype: u32) (valuestring: "bytes option") (valueint: int) (valuedouble: dbl)
    (istring: "bytes option") (children: "cJSON list")

definition INT_MAX :: int where "INT_MAX = 2147483647"
definition INT_MIN :: int where "INT_MIN = -2147483648"

section \<open>Memory\<close>

record heap =
  calls :: nat
  live :: int
  grant :: "nat \<Rightarrow> nat \<Rightarrow> bool"
  fill :: u8
  has_realloc :: bool

definition allocate :: "nat \<Rightarrow> heap \<Rightarrow> bytes option \<times> heap" where
  "allocate n h =
     (if grant h (calls h) n
      then (Some (replicate n (fill h)), h\<lparr>calls := Suc (calls h), live := live h + 1\<rparr>)
      else (None, h\<lparr>calls := Suc (calls h)\<rparr>))"

definition deallocate :: "heap \<Rightarrow> heap" where
  "deallocate h = h\<lparr>live := live h - 1\<rparr>"

text \<open>\<open>realloc\<close> keeps the contents; when it fails the old block is still there.\<close>

definition reallocate :: "bytes \<Rightarrow> nat \<Rightarrow> heap \<Rightarrow> bytes option \<times> heap" where
  "reallocate old n h =
     (if grant h (calls h) n
      then (Some (take n old @ replicate (n - length old) (fill h)), h\<lparr>calls := Suc (calls h)\<rparr>)
      else (None, h\<lparr>calls := Suc (calls h)\<rparr>))"

text \<open>The hooks: \<open>realloc\<close> is used only while both other functions are those of the C library.\<close>

datatype hook_fn = Libc | Custom nat

record internal_hooks =
  hk_allocate :: hook_fn
  hk_deallocate :: hook_fn
  hk_reallocate :: "hook_fn option"

definition cJSON_InitHooks :: "(hook_fn option \<times> hook_fn option) option \<Rightarrow> internal_hooks" where
  "cJSON_InitHooks hooks =
     (case hooks of
        None \<Rightarrow> \<lparr>hk_allocate = Libc, hk_deallocate = Libc, hk_reallocate = Some Libc\<rparr>
      | Some (malloc_fn, free_fn) \<Rightarrow>
          let a = (case malloc_fn of None \<Rightarrow> Libc | Some f \<Rightarrow> f);
              d = (case free_fn of None \<Rightarrow> Libc | Some f \<Rightarrow> f)
          in \<lparr>hk_allocate = a, hk_deallocate = d,
              hk_reallocate = (if a = Libc \<and> d = Libc then Some Libc else None)\<rparr>)"

definition cJSON_strdup :: "bytes option \<Rightarrow> heap \<Rightarrow> bytes option \<times> heap" where
  "cJSON_strdup s h =
     (case s of None \<Rightarrow> (None, h)
      | Some b \<Rightarrow>
          (case allocate (length (c_str b) + 1) h of
             (None, h') \<Rightarrow> (None, h')
           | (Some _, h') \<Rightarrow> (Some (c_str b @ [0]), h')))"

definition new_item :: cJSON where
  "new_item = Item 0 None 0 (Fin False 0 (-1074)) None []"

text \<open>The size of the structure on a 64-bit machine.\<close>

definition cJSON_New_Item :: "heap \<Rightarrow> cJSON option \<times> heap" where
  "cJSON_New_Item h =
     (case allocate 64 h of (None, h') \<Rightarrow> (None, h') | (Some _, h') \<Rightarrow> (Some new_item, h'))"

text \<open>\<open>cJSON_Delete\<close>: the number of blocks it gives back, for an item and for a chain of items.\<close>

definition some1 :: "'a option \<Rightarrow> int" where
  "some1 x = (case x of None \<Rightarrow> 0 | Some _ \<Rightarrow> 1)"

fun freed :: "cJSON \<Rightarrow> int" where
  "freed (Item ty vs vi vd nm ks) =
     (if ty AND cJSON_IsReference = 0 then sum_list (map freed ks) + some1 vs else 0) +
     (if ty AND cJSON_StringIsConst = 0 then some1 nm else 0) + 1"

definition cJSON_Delete :: "cJSON list \<Rightarrow> heap \<Rightarrow> heap" where
  "cJSON_Delete items h = h\<lparr>live := live h - sum_list (map freed items)\<rparr>"

lemma some1_simps [simp]: "some1 None = 0" "some1 (Some x) = 1" "0 \<le> some1 y"
  by (simp_all add: some1_def split: option.split)

section \<open>Comparing strings\<close>

definition tolower :: "u8 \<Rightarrow> u8" where
  "tolower b = (if 0x41 \<le> b \<and> b \<le> 0x5A then b + 0x20 else b)"

text \<open>
  The loop of \<open>case_insensitive_strcmp\<close> on the strings proper: the terminators end them. The result is
  the difference of the first bytes that differ.
\<close>

fun strcmp_lower :: "bytes \<Rightarrow> bytes \<Rightarrow> int" where
  "strcmp_lower [] [] = 0"
| "strcmp_lower [] (b # t) = - uint (tolower b)"
| "strcmp_lower (a # s) [] = uint (tolower a)"
| "strcmp_lower (a # s) (b # t) =
     (if tolower a = tolower b then strcmp_lower s t else uint (tolower a) - uint (tolower b))"

definition case_insensitive_strcmp :: "bytes option \<Rightarrow> bytes option \<Rightarrow> int" where
  "case_insensitive_strcmp string1 string2 =
     (case (string1, string2) of (Some s, Some t) \<Rightarrow> strcmp_lower (c_str s) (c_str t) | _ \<Rightarrow> 1)"

lemma tolower_nonzero: "b \<noteq> 0 \<Longrightarrow> tolower b \<noteq> 0"
  by (auto simp: tolower_def word_less_nat_alt word_le_nat_alt unat_word_ariths word_unat_eq_iff)

lemma strcmp_lower_eq: "nul_free s \<Longrightarrow> nul_free t \<Longrightarrow> strcmp_lower s t = 0 \<longleftrightarrow> map tolower s = map tolower t"
proof (induction s t rule: strcmp_lower.induct)
  case (2 b t)
  then show ?case
    using tolower_nonzero [of b] by (simp add: word_uint_eq_iff [of _ 0])
next
  case (3 a s)
  then show ?case
    using tolower_nonzero [of a] by (simp add: word_uint_eq_iff [of _ 0])
next
  case (4 a s b t)
  then show ?case
    by (auto simp: word_uint_eq_iff [of "tolower a"])
qed simp

end
