(* ===== verification/CJsonString.thy ===== *)
theory CJsonString
  imports CJsonBase
begin

text \<open>
  The parse buffer of \<open>cJSON.c\<close> and the parsing of strings: \<open>parse_hex4\<close>, \<open>utf16_literal_to_utf8\<close> and
  \<open>parse_string\<close>. Every read of the text and every write of the output is checked against the size of the
  object, so a result \<open>Inr\<close> is a run without a read or write out of bounds. \<open>parse_string_safe\<close> is the
  contract of the routine: it cannot fault, and it accounts for its block of memory.
\<close>

section \<open>The parse buffer\<close>

record parse_buffer =
  pb_content :: bytes
  pb_length :: nat
  pb_offset :: nat
  pb_depth :: nat

definition can_read :: "parse_buffer \<Rightarrow> nat \<Rightarrow> bool" where
  "can_read pb n \<longleftrightarrow> pb_offset pb + n \<le> pb_length pb"

definition can_access_at_index :: "parse_buffer \<Rightarrow> nat \<Rightarrow> bool" where
  "can_access_at_index pb index \<longleftrightarrow> pb_offset pb + index < pb_length pb"

definition buffer_at :: "parse_buffer \<Rightarrow> nat \<Rightarrow> u8 cres" where
  "buffer_at pb i = byte_at (pb_content pb) (pb_offset pb + i)"

text \<open>What every parsing routine relies on: the length is that of the text with its terminator.\<close>

definition pb_wf :: "parse_buffer \<Rightarrow> bool" where
  "pb_wf pb \<longleftrightarrow> pb_length pb = length (pb_content pb) \<and> pb_content pb \<noteq> [] \<and>
     last (pb_content pb) = 0 \<and> pb_offset pb < pb_length pb"

section \<open>Unicode escapes\<close>

definition hex4_digit :: "u8 \<Rightarrow> u32 option" where
  "hex4_digit b =
     (if 0x30 \<le> b \<and> b \<le> 0x39 then Some (ucast b - 0x30)
      else if 0x41 \<le> b \<and> b \<le> 0x46 then Some (10 + ucast b - 0x41)
      else if 0x61 \<le> b \<and> b \<le> 0x66 then Some (10 + ucast b - 0x61)
      else None)"

function parse_hex4_loop :: "bytes \<Rightarrow> nat \<Rightarrow> nat \<Rightarrow> u32 \<Rightarrow> u32 cres" where
  "parse_hex4_loop input p i h =
     (if i < 4 then
        cbind (byte_at input (p + i)) (\<lambda>b.
          case hex4_digit b of
            None \<Rightarrow> Inr 0
          | Some v \<Rightarrow> parse_hex4_loop input p (Suc i) (if i < 3 then push_bit 4 (h + v) else h + v))
      else Inr h)"
  by pat_completeness auto
termination
  by (relation "measure (\<lambda>(_, _, i, _). 4 - i)") auto

declare parse_hex4_loop.simps [simp del]

definition parse_hex4 :: "bytes \<Rightarrow> nat \<Rightarrow> u32 cres" where
  "parse_hex4 input p = parse_hex4_loop input p 0 0"

text \<open>The bytes behind the first one, written from the last one backwards, and what is left for the first.\<close>

fun utf8_tail :: "nat \<Rightarrow> u64 \<Rightarrow> bytes \<Rightarrow> u64 \<times> bytes" where
  "utf8_tail 0 codepoint acc = (codepoint, acc)"
| "utf8_tail (Suc k) codepoint acc =
     utf8_tail k (drop_bit 6 codepoint) (ucast ((codepoint OR 0x80) AND 0xBF) # acc)"

definition utf8_encode :: "u64 \<Rightarrow> bytes option" where
  "utf8_encode codepoint =
     (let enc = (\<lambda>len mark.
            case utf8_tail (len - 1) codepoint [] of (cp, rest) \<Rightarrow>
              Some ((if 1 < len then ucast ((cp OR mark) AND 0xFF) else ucast (cp AND 0x7F)) # rest))
      in if codepoint < 0x80 then enc 1 0
         else if codepoint < 0x800 then enc 2 0xC0
         else if codepoint < 0x10000 then enc 3 0xE0
         else if codepoint \<le> 0x10FFFF then enc 4 0xF0
         else None)"

text \<open>
  The length of the sequence, 0 for a failure, and the bytes it stands for. \<open>p\<close> and \<open>input_end\<close> are
  positions in the text.
\<close>

definition utf16_literal_to_utf8 :: "bytes \<Rightarrow> nat \<Rightarrow> nat \<Rightarrow> (nat \<times> bytes) cres" where
  "utf16_literal_to_utf8 input p input_end =
     (if input_end < p + 6 then Inr (0, [])
      else cbind (parse_hex4 input (p + 2)) (\<lambda>first_code.
        if 0xDC00 \<le> first_code \<and> first_code \<le> 0xDFFF then Inr (0, [])
        else if 0xD800 \<le> first_code \<and> first_code \<le> 0xDBFF then
          (if input_end < p + 6 + 6 then Inr (0, [])
           else cbind (byte_at input (p + 6)) (\<lambda>b0. cbind (byte_at input (p + 7)) (\<lambda>b1.
             if b0 \<noteq> 0x5C \<or> b1 \<noteq> 0x75 then Inr (0, [])
             else cbind (parse_hex4 input (p + 8)) (\<lambda>second_code.
               if second_code < 0xDC00 \<or> 0xDFFF < second_code then Inr (0, [])
               else (case utf8_encode (0x10000 + (push_bit 10 (ucast first_code AND 0x3FF) OR (ucast second_code AND 0x3FF)))
                     of None \<Rightarrow> Inr (0, []) | Some bs \<Rightarrow> Inr (12, bs))))))
        else (case utf8_encode (ucast first_code) of None \<Rightarrow> Inr (0, []) | Some bs \<Rightarrow> Inr (6, bs))))"

section \<open>Strings\<close>

text \<open>
  The first loop of \<open>parse_string\<close>: the position of the closing quote and the number of backslashes
  before it, or \<open>None\<close> when the text ends first.
\<close>

function parse_string_scan :: "bytes \<Rightarrow> nat \<Rightarrow> nat \<Rightarrow> nat \<Rightarrow> (nat \<times> nat) option cres" where
  "parse_string_scan c len input_end skipped =
     (if input_end < len then
        cbind (byte_at c input_end) (\<lambda>b.
          if b = 0x22 then Inr (Some (input_end, skipped))
          else if b = 0x5C then
            (if len \<le> input_end + 1 then Inr None else parse_string_scan c len (input_end + 2) (skipped + 1))
          else parse_string_scan c len (input_end + 1) skipped)
      else Inr None)"
  by pat_completeness auto
termination
  by (relation "measure (\<lambda>(_, len, i, _). len - i)") auto

declare parse_string_scan.simps [simp del]

definition simple_escape :: "u8 \<Rightarrow> u8 option" where
  "simple_escape b =
     (if b = 0x62 then Some 0x08 else if b = 0x66 then Some 0x0C else if b = 0x6E then Some 0x0A
      else if b = 0x72 then Some 0x0D else if b = 0x74 then Some 0x09
      else if b = 0x22 \<or> b = 0x5C \<or> b = 0x2F then Some b else None)"

fun put_bytes :: "bytes \<Rightarrow> nat \<Rightarrow> bytes \<Rightarrow> bytes cres" where
  "put_bytes out op [] = Inr out"
| "put_bytes out op (b # bs) = cbind (put_byte out op b) (\<lambda>out'. put_bytes out' (Suc op) bs)"

text \<open>
  The second loop: \<open>p\<close> is \<open>input_pointer\<close> and \<open>op\<close> is \<open>output_pointer\<close>. The result has the position
  where it ended, and the output if it got to the end.
\<close>

function parse_string_copy ::
    "bytes \<Rightarrow> nat \<Rightarrow> nat \<Rightarrow> bytes \<Rightarrow> nat \<Rightarrow> (nat \<times> (bytes \<times> nat) option) cres" where
  "parse_string_copy c input_end p out op =
     (if p < input_end then
        cbind (byte_at c p) (\<lambda>b.
          if b \<noteq> 0x5C then
            cbind (put_byte out op b) (\<lambda>out'. parse_string_copy c input_end (p + 1) out' (op + 1))
          else cbind (byte_at c (p + 1)) (\<lambda>e.
            case simple_escape e of
              Some x \<Rightarrow> cbind (put_byte out op x) (\<lambda>out'. parse_string_copy c input_end (p + 2) out' (op + 1))
            | None \<Rightarrow>
                if e = 0x75 then
                  cbind (utf16_literal_to_utf8 c p input_end) (\<lambda>(n, bs).
                    if n = 0 then Inr (p, None)
                    else cbind (put_bytes out op bs) (\<lambda>out'.
                      parse_string_copy c input_end (p + n) out' (op + length bs)))
                else Inr (p, None)))
      else Inr (p, Some (out, op)))"
  by pat_completeness auto
termination
  by (relation "measure (\<lambda>(c, input_end, p, out, op). input_end - p)") auto

declare parse_string_copy.simps [simp del]

definition parse_string ::
    "cJSON \<Rightarrow> parse_buffer \<Rightarrow> heap \<Rightarrow> (bool \<times> cJSON \<times> parse_buffer \<times> heap) cres" where
  "parse_string item pb h =
     (let start = pb_offset pb + 1;
          fail = (\<lambda>p h. Inr (False, item, pb\<lparr>pb_offset := p\<rparr>, h))
      in cbind (buffer_at pb 0) (\<lambda>q.
         if q \<noteq> 0x22 then fail start h
         else cbind (parse_string_scan (pb_content pb) (pb_length pb) start 0) (\<lambda>scanned.
           case scanned of
             None \<Rightarrow> fail start h
           | Some (input_end, skipped) \<Rightarrow>
               (case allocate (input_end - pb_offset pb - skipped + 1) h of
                  (None, h1) \<Rightarrow> fail start h1
                | (Some output, h1) \<Rightarrow>
                    cbind (parse_string_copy (pb_content pb) input_end start output 0) (\<lambda>(p, copied).
                      case copied of
                        None \<Rightarrow> fail p (deallocate h1)
                      | Some (out, op) \<Rightarrow>
                          cbind (put_byte out op 0) (\<lambda>out'.
                            Inr (True,
                                 Item cJSON_String (Some out') (valueint item) (valuedouble item)
                                   (istring item) (children item),
                                 pb\<lparr>pb_offset := input_end + 1\<rparr>, h1)))))))"

section \<open>No escape leaves the buffers\<close>

lemma unat_ucast_up_simp:
  "unat (ucast (x :: 'a::len word) :: 'b::len word) = unat x" if "LENGTH('a) \<le> LENGTH('b)"
proof -
  have "unat x < 2 ^ LENGTH('b)"
    using unsigned_less [of x, where ?'a = nat] that
    by (meson one_le_numeral order_less_le_trans power_increasing)
  then show ?thesis
    by (simp add: unsigned_ucast_eq take_bit_nat_eq_self)
qed

lemma hex4_digit_less: "hex4_digit b = Some v \<Longrightarrow> unat v < 16"
proof -
  assume "hex4_digit b = Some v"
  moreover have "unat (ucast b :: u32) = unat b"
    by (simp add: unat_ucast_up_simp)
  ultimately show ?thesis
    by (auto simp: hex4_digit_def word_le_nat_alt unat_sub_if_size unat_word_ariths word_size split: if_splits)
qed

lemma parse_hex4_loop_Inr:
  assumes "i \<le> 4" "p + 4 \<le> length input"
    and "if i < 4 then unat h + 16 \<le> 16 ^ Suc i else unat h < 0x10000"
  shows "\<exists>h'. parse_hex4_loop input p i h = Inr h' \<and> unat h' < 0x10000"
  using assms
proof (induction input p i h rule: parse_hex4_loop.induct)
  case (1 input p i h)
  show ?case
  proof (cases "i < 4")
    case False
    with 1 show ?thesis
      by (simp add: parse_hex4_loop.simps)
  next
    case True
    have b: "byte_at input (p + i) = Inr (input ! (p + i))"
      using True "1.prems"(2) by simp
    show ?thesis
    proof (cases "hex4_digit (input ! (p + i))")
      case None
      with True b show ?thesis
        by (simp add: parse_hex4_loop.simps [of input p i])
    next
      case (Some v)
      have i: "i = 0 \<or> i = 1 \<or> i = 2 \<or> i = 3"
        using True by linarith
      have v: "unat v < 16"
        using Some by (rule hex4_digit_less)
      have hv: "unat (h + v) = unat h + unat v"
        using "1.prems"(3) v i by (auto simp: unat_word_ariths)
      have sh: "unat (push_bit 4 (h + v)) = 16 * (unat h + unat v)" if "i < 3"
        using "1.prems"(3) v i that
        by (auto simp: push_bit_eq_mult hv unat_word_ariths)
      have "\<exists>h'. parse_hex4_loop input p (Suc i) (if i < 3 then push_bit 4 (h + v) else h + v) = Inr h' \<and>
          unat h' < 0x10000"
        by (rule "1.IH" [OF True b Some]) (use "1.prems" True v hv sh i in \<open>auto\<close>)
      with True b Some show ?thesis
        by (simp add: parse_hex4_loop.simps [of input p i])
    qed
  qed
qed

lemma parse_hex4_Inr:
  "p + 4 \<le> length input \<Longrightarrow> \<exists>h. parse_hex4 input p = Inr h \<and> unat h < 0x10000"
  unfolding parse_hex4_def by (rule parse_hex4_loop_Inr) simp_all

lemma length_utf8_tail: "utf8_tail k cp acc = (cp', bs) \<Longrightarrow> length bs = k + length acc"
  by (induction k cp acc rule: utf8_tail.induct) auto

lemma length_utf8_encode:
  "utf8_encode cp = Some bs \<Longrightarrow> bs \<noteq> [] \<and> length bs \<le> 4 \<and> (cp < 0x10000 \<longrightarrow> length bs \<le> 3)"
  by (auto simp: utf8_encode_def Let_def split: prod.splits if_splits dest!: length_utf8_tail)

lemma utf16_literal_Inr:
  assumes "input_end \<le> length input"
  shows "\<exists>n bs. utf16_literal_to_utf8 input p input_end = Inr (n, bs) \<and>
     (n = 0 \<or> n = 6 \<and> p + 6 \<le> input_end \<and> length bs \<le> 3 \<or> n = 12 \<and> p + 12 \<le> input_end \<and> length bs \<le> 4)"
proof (cases "input_end < p + 6")
  case True
  then show ?thesis
    by (simp add: utf16_literal_to_utf8_def)
next
  case False
  then obtain h1 where h1: "parse_hex4 input (p + 2) = Inr h1" "unat h1 < 0x10000"
    using parse_hex4_Inr [of "p + 2" input] assms by auto
  have small: "(ucast h1 :: u64) < 0x10000"
    using h1(2) by (simp add: word_less_nat_alt unat_ucast_up_simp)
  show ?thesis
  proof (cases "0xD800 \<le> h1 \<and> h1 \<le> 0xDBFF \<and> p + 12 \<le> input_end")
    case True
    then obtain h2 where h2: "parse_hex4 input (p + 8) = Inr h2"
      using parse_hex4_Inr [of "p + 8" input] assms by auto
    show ?thesis
      using True False h1(1) h2 assms
      by (auto simp: utf16_literal_to_utf8_def split: option.split dest!: length_utf8_encode)
  next
    case no: False
    then show ?thesis
      using False h1(1) small
      by (auto simp: utf16_literal_to_utf8_def split: option.split dest!: length_utf8_encode)
  qed
qed

text \<open>The backslashes the first loop counts, in a prefix of the text.\<close>

fun skips :: "bytes \<Rightarrow> nat" where
  "skips [] = 0"
| "skips [b] = (if b = 0x5C then 1 else 0)"
| "skips (b # e # bs) = (if b = 0x5C then Suc (skips bs) else skips (e # bs))"

lemma skips_Cons: "b \<noteq> 0x5C \<Longrightarrow> skips (b # bs) = skips bs"
  by (cases bs) auto

lemma skips_append: "skips (xs @ ys) = skips xs + skips ys \<or> skips (xs @ ys) = skips xs + skips (tl ys)"
proof (induction xs rule: skips.induct)
  case (2 b)
  then show ?case
    by (cases ys) (auto simp: skips_Cons)
qed auto

lemma skips_half: "2 * skips ys \<le> length ys + 1"
  by (induction ys rule: skips.induct) auto

lemma skips_le: "skips ys \<le> length ys"
  by (induction ys rule: skips.induct) auto

lemma skips_window:
  assumes "length ys \<le> 2 * k"
  shows "skips (xs @ ys) \<le> skips xs + k"
  using skips_append [of xs ys] skips_half [of ys] skips_half [of "tl ys"] assms by auto

lemma skips_take_window: "skips (take (n + 2 * k) xs) \<le> skips (take n xs) + k"
  using skips_window [of "take (2 * k) (drop n xs)" k "take n xs"] by (simp add: take_add)

lemma skips_take_plain:
  assumes "n < length xs" "xs ! n \<noteq> 0x5C"
  shows "skips (take (Suc n) xs) \<le> skips (take n xs)"
  using skips_append [of "take n xs" "[xs ! n]"] assms by (simp add: take_Suc_conv_app_nth)

lemma skips_split_bound: "skips xs \<le> skips (take k xs) + (length xs - k + 1) div 2"
proof -
  have bound: "skips (as @ bs) \<le> skips as + (length bs + 1) div 2" for as bs
    using skips_window [of bs "(length bs + 1) div 2" as] by simp
  show ?thesis
    using bound [of "take k xs" "drop k xs"] by (simp only: append_take_drop_id length_drop)
qed

lemma parse_string_scan_Inr:
  assumes "len = length c" "start \<le> len"
  shows "\<exists>r. parse_string_scan c len start k = Inr r \<and>
     (case r of None \<Rightarrow> True
      | Some (e, s) \<Rightarrow> start \<le> e \<and> e < len \<and> c ! e = 0x22 \<and> s = k + skips (take (e - start) (drop start c)))"
  using assms
proof (induction c len start k rule: parse_string_scan.induct)
  case (1 c len i k)
  show ?case
  proof (cases "i < len")
    case False
    then show ?thesis
      by (simp add: parse_string_scan.simps)
  next
    case True
    note unf = parse_string_scan.simps [of c len i]
    have b: "byte_at c i = Inr (c ! i)"
      using True "1.prems" by simp
    consider "c ! i = 0x22" | "c ! i = 0x5C" "len \<le> i + 1" | "c ! i = 0x5C" "\<not> len \<le> i + 1"
      | "c ! i \<noteq> 0x22" "c ! i \<noteq> 0x5C"
      by blast
    then show ?thesis
    proof cases
      case 3
      then obtain r where r: "parse_string_scan c len (i + 2) (k + 1) = Inr r"
        and ok: "case r of None \<Rightarrow> True | Some (e, s) \<Rightarrow> i + 2 \<le> e \<and> e < len \<and> c ! e = 0x22 \<and>
          s = k + 1 + skips (take (e - (i + 2)) (drop (i + 2) c))"
        using "1.IH"(1) [OF True b] "1.prems" by auto
      have "skips (take (e - i) (drop i c)) = 1 + skips (take (e - (i + 2)) (drop (i + 2) c))"
        if "i + 2 \<le> e" "e < len" for e
      proof -
        have "drop i c = c ! i # c ! Suc i # drop (i + 2) c"
          using that "1.prems" by (simp add: Cons_nth_drop_Suc)
        moreover have "e - i = Suc (Suc (e - (i + 2)))"
          using that by simp
        ultimately show ?thesis
          using 3 by simp
      qed
      with ok show ?thesis
        using True b 3 r by (auto simp: unf split: option.splits)
    next
      case 4
      then obtain r where r: "parse_string_scan c len (i + 1) k = Inr r"
        and ok: "case r of None \<Rightarrow> True | Some (e, s) \<Rightarrow> i + 1 \<le> e \<and> e < len \<and> c ! e = 0x22 \<and>
          s = k + skips (take (e - (i + 1)) (drop (i + 1) c))"
        using "1.IH"(2) [OF True b] "1.prems" True by auto
      have "skips (take (e - i) (drop i c)) = skips (take (e - (i + 1)) (drop (i + 1) c))"
        if "i + 1 \<le> e" "e < len" for e
      proof -
        have "drop i c = c ! i # drop (i + 1) c"
          using that "1.prems" by (simp add: Cons_nth_drop_Suc)
        moreover have "e - i = Suc (e - (i + 1))"
          using that by simp
        ultimately show ?thesis
          using 4 by (simp add: skips_Cons)
      qed
      with ok show ?thesis
        using True b 4 r by (auto simp: unf split: option.splits)
    qed (use True b in \<open>simp_all add: unf\<close>)
  qed
qed

lemma put_bytes_Inr:
  "op + length bs \<le> length out \<Longrightarrow> \<exists>out'. put_bytes out op bs = Inr out' \<and> length out' = length out"
proof (induction out op bs rule: put_bytes.induct)
  case (2 out op b bs)
  then show ?case
    by simp
qed simp

text \<open>
  The second loop stays inside the output: after any number of steps it has written no more bytes than it
  has read, less the backslashes among them that the first loop has counted.
\<close>

lemma parse_string_copy_Inr:
  assumes "e < length c" "start \<le> p" "p \<le> e + 1"
  defines "xs \<equiv> take (e - start) (drop start c)"
  assumes "op + skips (take (p - start) xs) \<le> p - start"
    and "length out + skips xs = e - start + 2"
  shows "\<exists>p' r. parse_string_copy c e p out op = Inr (p', r) \<and> p' \<le> e + 1 \<and>
     (case r of None \<Rightarrow> True | Some (out', op') \<Rightarrow> op' < length out' \<and> length out' = length out)"
  using assms(1-3,5-6) unfolding xs_def
proof (induction c e p out op rule: parse_string_copy.induct)
  case (1 c e p out op)
  let ?xs = "take (e - start) (drop start c)"
  note unf = parse_string_copy.simps [of c e p out op]
  have len: "length ?xs = e - start"
    using "1.prems" by simp
  show ?case
  proof (cases "p < e")
    case False
    then have "take (p - start) ?xs = ?xs"
      using len by simp
    then have "op + skips ?xs \<le> p - start"
      using "1.prems"(4) by simp
    then have "op < length out"
      using "1.prems"(2,3,5) by linarith
    then show ?thesis
      using False "1.prems" by (simp add: unf)
  next
    case True
    define k where "k = p - start"
    have p: "p = start + k" and k: "k < length ?xs"
      using True "1.prems"(1,2) by (simp_all add: k_def; linarith)+
    have nth: "?xs ! k = c ! p"
      using True k "1.prems"(1) by (simp add: p)
    have b: "byte_at c p = Inr (c ! p)" "byte_at c (p + 1) = Inr (c ! (p + 1))"
      using True "1.prems"(1) by simp_all
    have w: "skips (take (k + 2 * j) ?xs) \<le> skips (take k ?xs) + j" for j
      by (rule skips_take_window)
    have tot: "skips ?xs \<le> skips (take k ?xs) + (length ?xs - k + 1) div 2"
      by (rule skips_split_bound)
    have room: "op < length out"
      using "1.prems"(4,5) tot k len unfolding k_def [symmetric] by linarith
    show ?thesis
    proof (cases "c ! p = 0x5C")
      case False
      have "skips (take (Suc k) ?xs) \<le> skips (take k ?xs)"
        using k False nth by (intro skips_take_plain) simp_all
      then have "\<exists>p' r. parse_string_copy c e (p + 1) (out[op := c ! p]) (op + 1) = Inr (p', r) \<and> p' \<le> e + 1 \<and>
          (case r of None \<Rightarrow> True | Some (out', op') \<Rightarrow> op' < length out' \<and> length out' = length (out[op := c ! p]))"
        using "1.prems" True False room
        by (intro "1.IH"(1) [OF True b(1)]) (simp_all add: k_def [symmetric] p)
      then show ?thesis
        using True False b room by (simp add: unf cong: option.case_cong)
    next
      case bs: True
      show ?thesis
      proof (cases "simple_escape (c ! (p + 1))")
        case (Some x)
        have "\<exists>p' r. parse_string_copy c e (p + 2) (out[op := x]) (op + 1) = Inr (p', r) \<and> p' \<le> e + 1 \<and>
            (case r of None \<Rightarrow> True | Some (out', op') \<Rightarrow> op' < length out' \<and> length out' = length (out[op := x]))"
          using "1.prems" True bs room w [of 1] Some b
          by (intro "1.IH"(3) [OF True b(1) _ b(2) Some]) (simp_all add: k_def [symmetric] p)
        then show ?thesis
          using True bs b room Some by (simp add: unf cong: option.case_cong)
      next
        case None
        obtain n cs where u: "utf16_literal_to_utf8 c p e = Inr (n, cs)"
          and n: "n = 0 \<or> n = 6 \<and> p + 6 \<le> e \<and> length cs \<le> 3 \<or> n = 12 \<and> p + 12 \<le> e \<and> length cs \<le> 4"
          using utf16_literal_Inr [of e c p] "1.prems"(1) by auto
        show ?thesis
        proof (cases "c ! (p + 1) = 0x75 \<and> n \<noteq> 0")
          case False
          then show ?thesis
            using True bs b None u "1.prems" by (auto simp: unf)
        next
          case yes: True
          have fit: "op + length cs + skips (take (k + n) ?xs) \<le> k + n"
            using "1.prems"(4) n yes w [of 3] w [of 6] unfolding k_def [symmetric] by auto
          have "op + length cs \<le> length out"
          proof -
            have "skips ?xs \<le> skips (take (k + n) ?xs) + (length ?xs - (k + n) + 1) div 2"
              by (rule skips_split_bound)
            moreover have "k + n \<le> length ?xs"
              using n yes len p by auto
            ultimately show ?thesis
              using fit "1.prems"(5) len by linarith
          qed
          then obtain out' where o: "put_bytes out op cs = Inr out'" "length out' = length out"
            using put_bytes_Inr by blast
          have "\<exists>p' r. parse_string_copy c e (p + n) out' (op + length cs) = Inr (p', r) \<and> p' \<le> e + 1 \<and>
              (case r of None \<Rightarrow> True | Some (out'', op') \<Rightarrow> op' < length out'' \<and> length out'' = length out')"
            using "1.prems" True bs yes n o(2) fit None
            by (intro "1.IH"(2) [OF True b(1) _ b(2) None _ u refl _ o(1)])
              (auto simp: k_def [symmetric] p)
          then show ?thesis
            using True bs b None u yes o by (simp add: unf cong: option.case_cong)
        qed
      qed
    qed
  qed
qed

text \<open>
  The contract of \<open>parse_string\<close>: on a terminated text it cannot fault, whatever the bytes are. It keeps the
  text and the depth; when it succeeds it has consumed at least two bytes, the item holds a terminated
  string in one new block, and when it fails the item is as it was and no block is left.
\<close>

definition heap_frame :: "heap \<Rightarrow> heap \<Rightarrow> bool" where
  "heap_frame h h' \<longleftrightarrow> grant h' = grant h \<and> fill h' = fill h \<and> has_realloc h' = has_realloc h \<and> calls h \<le> calls h'"

lemma heap_frame_refl [simp]: "heap_frame h h"
  by (simp add: heap_frame_def)

lemma heap_frame_trans: "heap_frame h1 h2 \<Longrightarrow> heap_frame h2 h3 \<Longrightarrow> heap_frame h1 h3"
  by (simp add: heap_frame_def)

lemma heap_frame_upd [simp]: "heap_frame h (h'\<lparr>live := l\<rparr>) = heap_frame h h'"
  by (simp add: heap_frame_def)

lemma allocate_cases:
  obtains (null) h' where "allocate n h = (None, h')" "live h' = live h" "heap_frame h h'"
  | (block) h' where "allocate n h = (Some (replicate n (fill h)), h')" "live h' = live h + 1" "heap_frame h h'"
  by (cases "grant h (calls h) n") (auto simp: allocate_def heap_frame_def)

lemma deallocate_simps [simp]: "live (deallocate h) = live h - 1" "heap_frame h (deallocate h') = heap_frame h h'"
  by (simp_all add: deallocate_def)

lemma parse_string_safe:
  assumes "pb_wf pb"
  obtains (ok) out o' h' where
    "parse_string item pb h = Inr (True, Item cJSON_String (Some out) (valueint item) (valuedouble item)
       (istring item) (children item), pb\<lparr>pb_offset := o'\<rparr>, h')"
    "terminated out" "pb_offset pb + 2 \<le> o'" "o' < pb_length pb" "live h' = live h + 1" "heap_frame h h'"
  | (failed) o' h' where
    "parse_string item pb h = Inr (False, item, pb\<lparr>pb_offset := o'\<rparr>, h')"
    "o' \<le> pb_length pb" "live h' = live h" "heap_frame h h'"
proof -
  let ?c = "pb_content pb" and ?s = "pb_offset pb + 1"
  have len: "pb_length pb = length ?c" "pb_offset pb < length ?c" and end0: "last ?c = 0" "?c \<noteq> []"
    using assms by (simp_all add: pb_wf_def)
  have q: "buffer_at pb 0 = Inr (?c ! pb_offset pb)"
    using len by (simp add: buffer_at_def)
  show ?thesis
  proof (cases "?c ! pb_offset pb = 0x22")
    case False
    show ?thesis
      by (rule failed [of ?s h]) (use q False len in \<open>simp_all add: parse_string_def\<close>)
  next
    case quote: True
    obtain r where scan: "parse_string_scan ?c (pb_length pb) ?s 0 = Inr r"
      and r: "case r of None \<Rightarrow> True | Some (e, s) \<Rightarrow> ?s \<le> e \<and> e < pb_length pb \<and> ?c ! e = 0x22 \<and>
        s = 0 + skips (take (e - ?s) (drop ?s ?c))"
      using parse_string_scan_Inr [of "pb_length pb" ?c ?s 0] len by auto
    show ?thesis
    proof (cases r)
      case None
      show ?thesis
        by (rule failed [of ?s h]) (use q quote scan None len in \<open>simp_all add: parse_string_def\<close>)
    next
      case (Some es)
      obtain e s where es: "r = Some (e, s)"
        using Some by (cases es) simp
      let ?xs = "take (e - ?s) (drop ?s ?c)"
      have e: "?s \<le> e" "e < length ?c" "?c ! e = 0x22" "s = skips ?xs"
        using r es len by simp_all
      have "e \<noteq> length ?c - 1"
        using e(3) end0 by (auto simp: last_conv_nth)
      then have e1: "e + 1 < length ?c"
        using e(2) by simp
      have sx: "skips ?xs \<le> e - ?s"
        using skips_le [of ?xs] e(2) by simp
      let ?n = "e - pb_offset pb - s + 1"
      show ?thesis
      proof (cases rule: allocate_cases [of ?n h])
        case (null h1)
        show ?thesis
          by (rule failed [of ?s h1]) (use q quote scan es null len in \<open>simp_all add: parse_string_def\<close>)
      next
        case (block h1)
        obtain p r' where copy: "parse_string_copy ?c e ?s (replicate ?n (fill h)) 0 = Inr (p, r')" and p: "p \<le> e + 1"
          and r': "case r' of None \<Rightarrow> True | Some (out', op') \<Rightarrow> op' < length out' \<and> length out' = ?n"
        proof -
          have "length (replicate ?n (fill h)) + skips ?xs = e - ?s + 2"
            using e(1) sx unfolding e(4) length_replicate by linarith
          from parse_string_copy_Inr [OF e(2) le_refl _ _ this, of 0] e(1) that show thesis
            unfolding length_replicate by auto
        qed
        show ?thesis
        proof (cases r')
          case None
          show ?thesis
            by (rule failed [of p "deallocate h1"])
              (use q quote scan es block copy None len p e1 in \<open>simp_all add: parse_string_def\<close>)
        next
          case (Some oo)
          obtain out op where oo: "r' = Some (out, op)" "op < length out"
            using Some r' by (cases oo) simp
          have "terminated (out[op := 0])"
            using oo(2) by (simp add: terminated_def set_update_memI)
          then show ?thesis
            by (intro ok [of "out[op := 0]" "e + 1" h1])
              (use q quote scan es block copy oo len e(1) e1 in \<open>simp_all add: parse_string_def\<close>)
        qed
      qed
    qed
  qed
qed

end
