(* ===== verification/CJsonParse.thy ===== *)
theory CJsonParse
  imports CJsonString
begin

text \<open>
  The parser of \<open>cJSON.c\<close>: \<open>parse_number\<close>, white space and the byte order mark, \<open>parse_value\<close>, \<open>parse_array\<close>
  and \<open>parse_object\<close>, \<open>cJSON_ParseWithOpts\<close> and \<open>cJSON_Parse\<close>.

  The mutual recursion and its two loops take fuel; \<open>parse_safe\<close> shows that one more than the length is enough for
  any text, that no read leaves the text, and that every block is accounted for.
\<close>

section \<open>Numbers\<close>

definition number_char :: "u8 \<Rightarrow> bool" where
  "number_char b \<longleftrightarrow> (0x30 \<le> b \<and> b \<le> 0x39) \<or> b = 0x2B \<or> b = 0x2D \<or> b = 0x65 \<or> b = 0x45 \<or> b = 0x2E"

text \<open>The copy into \<open>number_c_string\<close>, 64 bytes with the terminator; the decimal point is that of the C locale.\<close>

function number_copy :: "parse_buffer \<Rightarrow> nat \<Rightarrow> bytes cres" where
  "number_copy pb i =
     (if i < 63 \<and> can_access_at_index pb i then
        cbind (buffer_at pb i) (\<lambda>b.
          if number_char b then cbind (number_copy pb (Suc i)) (\<lambda>bs. Inr (b # bs)) else Inr [])
      else Inr [])"
  by pat_completeness auto
termination
  by (relation "measure (\<lambda>(_, i). 63 - i)") auto

declare number_copy.simps [simp del]

text \<open>The conversion to \<open>int\<close> with saturation. That of \<open>NaN\<close> is undefined in C.\<close>

definition saturated_int :: "dbl \<Rightarrow> int cres" where
  "saturated_int d =
     (case d of
        Fin s m e \<Rightarrow> (let t = trunc s m e in Inr (if INT_MAX \<le> t then INT_MAX else if t \<le> INT_MIN then INT_MIN else t))
      | Inf s \<Rightarrow> Inr (if s then INT_MIN else INT_MAX)
      | NaN \<Rightarrow> Inl Undefined)"

definition parse_number ::
    "cJSON \<Rightarrow> parse_buffer \<Rightarrow> heap \<Rightarrow> (bool \<times> cJSON \<times> parse_buffer \<times> heap) cres" where
  "parse_number item pb h =
     cbind (number_copy pb 0) (\<lambda>number_c_string.
       case strtod number_c_string of
         None \<Rightarrow> Inr (False, item, pb, h)
       | Some (number, after_end) \<Rightarrow>
           cbind (saturated_int number) (\<lambda>i.
             Inr (True,
                  Item cJSON_Number (valuestring item) i number (istring item) (children item),
                  pb\<lparr>pb_offset := pb_offset pb + (length number_c_string - length after_end)\<rparr>, h)))"

text \<open>\<open>cJSON_SetNumberHelper\<close>; the type of the item is not touched.\<close>

definition cJSON_SetNumberHelper :: "cJSON \<Rightarrow> dbl \<Rightarrow> (cJSON \<times> dbl) cres" where
  "cJSON_SetNumberHelper object number =
     cbind (saturated_int number) (\<lambda>i.
       Inr (Item (itype object) (valuestring object) i number (istring object) (children object), number))"

section \<open>White space and the byte order mark\<close>

function skip_ws_loop :: "parse_buffer \<Rightarrow> parse_buffer cres" where
  "skip_ws_loop pb =
     (if can_access_at_index pb 0 then
        cbind (buffer_at pb 0) (\<lambda>b.
          if b \<le> 32 then skip_ws_loop (pb\<lparr>pb_offset := pb_offset pb + 1\<rparr>) else Inr pb)
      else Inr pb)"
  by pat_completeness auto
termination
  by (relation "measure (\<lambda>pb. pb_length pb - pb_offset pb)") (auto simp: can_access_at_index_def)

declare skip_ws_loop.simps [simp del]

definition buffer_skip_whitespace :: "parse_buffer \<Rightarrow> parse_buffer cres" where
  "buffer_skip_whitespace pb =
     cbind (skip_ws_loop pb) (\<lambda>pb.
       Inr (if pb_offset pb = pb_length pb then pb\<lparr>pb_offset := pb_offset pb - 1\<rparr> else pb))"

text \<open>\<open>strncmp\<close> with a constant that the text is long enough for.\<close>

definition looking_at :: "parse_buffer \<Rightarrow> bytes \<Rightarrow> bool" where
  "looking_at pb s \<longleftrightarrow> take (length s) (drop (pb_offset pb) (pb_content pb)) = s"

text \<open>The result is a null pointer when the offset is not 0.\<close>

definition skip_utf8_bom :: "parse_buffer \<Rightarrow> parse_buffer option" where
  "skip_utf8_bom pb =
     (if pb_offset pb \<noteq> 0 then None
      else if can_access_at_index pb 4 \<and> looking_at pb [0xEF, 0xBB, 0xBF]
        then Some (pb\<lparr>pb_offset := pb_offset pb + 3\<rparr>)
      else Some pb)"

section \<open>Values\<close>

definition s_null :: bytes where "s_null = map of_char ''null''"
definition s_false :: bytes where "s_false = map of_char ''false''"
definition s_true :: bytes where "s_true = map of_char ''true''"

definition set_type :: "u32 \<Rightarrow> cJSON \<Rightarrow> cJSON" where
  "set_type ty item = Item ty (valuestring item) (valueint item) (valuedouble item) (istring item) (children item)"

text \<open>\<open>success\<close> and \<open>fail\<close> of the two container routines.\<close>

definition container ::
    "u32 \<Rightarrow> cJSON \<Rightarrow> cJSON list \<Rightarrow> parse_buffer \<Rightarrow> heap \<Rightarrow> (bool \<times> cJSON \<times> parse_buffer \<times> heap) cres" where
  "container ty item head pb h =
     Inr (True, Item ty (valuestring item) (valueint item) (valuedouble item) (istring item) head,
          pb\<lparr>pb_depth := pb_depth pb - 1, pb_offset := pb_offset pb + 1\<rparr>, h)"

definition abandon ::
    "cJSON \<Rightarrow> cJSON list \<Rightarrow> parse_buffer \<Rightarrow> heap \<Rightarrow> (bool \<times> cJSON \<times> parse_buffer \<times> heap) cres" where
  "abandon item head pb h = Inr (False, item, pb, cJSON_Delete head h)"

type_synonym parser = "cJSON \<Rightarrow> parse_buffer \<Rightarrow> heap \<Rightarrow> (bool \<times> cJSON \<times> parse_buffer \<times> heap) cres"

text \<open>
  The loops of the two container routines, \<open>pv\<close> being \<open>parse_value\<close> on the next level. \<open>head\<close> is the list
  so far, which the last item is added to before it is parsed.
\<close>

fun parse_array_loop :: "parser \<Rightarrow> nat \<Rightarrow> cJSON list \<Rightarrow> parser" where
  "parse_array_loop pv 0 head item pb h = Inl Diverged"
| "parse_array_loop pv (Suc n) head item pb h =
     (case cJSON_New_Item h of
        (None, h1) \<Rightarrow> abandon item head pb h1
      | (Some current, h1) \<Rightarrow>
          cbind (buffer_skip_whitespace (pb\<lparr>pb_offset := pb_offset pb + 1\<rparr>)) (\<lambda>pb1.
          cbind (pv current pb1 h1) (\<lambda>(parsed, current, pb2, h2).
          if \<not> parsed then abandon item (head @ [current]) pb2 h2
          else cbind (buffer_skip_whitespace pb2) (\<lambda>pb3.
          if \<not> can_access_at_index pb3 0 then abandon item (head @ [current]) pb3 h2
          else cbind (buffer_at pb3 0) (\<lambda>b.
            if b = 0x2C then parse_array_loop pv n (head @ [current]) item pb3 h2
            else if b = 0x5D then container cJSON_Array item (head @ [current]) pb3 h2
            else abandon item (head @ [current]) pb3 h2)))))"

definition parse_array :: "parser \<Rightarrow> nat \<Rightarrow> parser" where
  "parse_array pv n item pb h =
     (if CJSON_NESTING_LIMIT \<le> pb_depth pb then Inr (False, item, pb, h)
      else let pb1 = pb\<lparr>pb_depth := pb_depth pb + 1\<rparr>
           in cbind (buffer_at pb1 0) (\<lambda>b.
              if b \<noteq> 0x5B then abandon item [] pb1 h
              else cbind (buffer_skip_whitespace (pb1\<lparr>pb_offset := pb_offset pb1 + 1\<rparr>)) (\<lambda>pb2.
                if \<not> can_access_at_index pb2 0 then abandon item [] (pb2\<lparr>pb_offset := pb_offset pb2 - 1\<rparr>) h
                else cbind (buffer_at pb2 0) (\<lambda>b.
                  if b = 0x5D then container cJSON_Array item [] pb2 h
                  else parse_array_loop pv n [] item (pb2\<lparr>pb_offset := pb_offset pb2 - 1\<rparr>) h))))"

text \<open>The name of a member is parsed as a string and moved from \<open>valuestring\<close> to \<open>string\<close>.\<close>

definition name_from_value :: "cJSON \<Rightarrow> cJSON" where
  "name_from_value item =
     Item (itype item) None (valueint item) (valuedouble item) (valuestring item) (children item)"

fun parse_object_loop :: "parser \<Rightarrow> nat \<Rightarrow> cJSON list \<Rightarrow> parser" where
  "parse_object_loop pv 0 head item pb h = Inl Diverged"
| "parse_object_loop pv (Suc n) head item pb h =
     (case cJSON_New_Item h of
        (None, h1) \<Rightarrow> abandon item head pb h1
      | (Some current, h1) \<Rightarrow>
          cbind (buffer_skip_whitespace (pb\<lparr>pb_offset := pb_offset pb + 1\<rparr>)) (\<lambda>pb1.
          cbind (parse_string current pb1 h1) (\<lambda>(parsed, current, pb2, h2).
          if \<not> parsed then abandon item (head @ [current]) pb2 h2
          else cbind (buffer_skip_whitespace pb2) (\<lambda>pb3.
          let current = name_from_value current
          in if \<not> can_access_at_index pb3 0 then abandon item (head @ [current]) pb3 h2
          else cbind (buffer_at pb3 0) (\<lambda>b.
          if b \<noteq> 0x3A then abandon item (head @ [current]) pb3 h2
          else cbind (buffer_skip_whitespace (pb3\<lparr>pb_offset := pb_offset pb3 + 1\<rparr>)) (\<lambda>pb4.
          cbind (pv current pb4 h2) (\<lambda>(parsed, current, pb5, h3).
          if \<not> parsed then abandon item (head @ [current]) pb5 h3
          else cbind (buffer_skip_whitespace pb5) (\<lambda>pb6.
          if \<not> can_access_at_index pb6 0 then abandon item (head @ [current]) pb6 h3
          else cbind (buffer_at pb6 0) (\<lambda>b.
            if b = 0x2C then parse_object_loop pv n (head @ [current]) item pb6 h3
            else if b = 0x7D then container cJSON_Object item (head @ [current]) pb6 h3
            else abandon item (head @ [current]) pb6 h3)))))))))"

definition parse_object :: "parser \<Rightarrow> nat \<Rightarrow> parser" where
  "parse_object pv n item pb h =
     (if CJSON_NESTING_LIMIT \<le> pb_depth pb then Inr (False, item, pb, h)
      else let pb1 = pb\<lparr>pb_depth := pb_depth pb + 1\<rparr>
           in if \<not> can_access_at_index pb1 0 then abandon item [] pb1 h
              else cbind (buffer_at pb1 0) (\<lambda>b.
              if b \<noteq> 0x7B then abandon item [] pb1 h
              else cbind (buffer_skip_whitespace (pb1\<lparr>pb_offset := pb_offset pb1 + 1\<rparr>)) (\<lambda>pb2.
                if \<not> can_access_at_index pb2 0 then abandon item [] (pb2\<lparr>pb_offset := pb_offset pb2 - 1\<rparr>) h
                else cbind (buffer_at pb2 0) (\<lambda>b.
                  if b = 0x7D then container cJSON_Object item [] pb2 h
                  else parse_object_loop pv n [] item (pb2\<lparr>pb_offset := pb_offset pb2 - 1\<rparr>) h))))"

text \<open>The first argument bounds the nesting and the number of elements of one container.\<close>

primrec parse_value :: "nat \<Rightarrow> parser" where
  "parse_value 0 item pb h = Inl Diverged"
| "parse_value (Suc n) item pb h =
     (if can_read pb 4 \<and> looking_at pb s_null then
        Inr (True, set_type cJSON_NULL item, pb\<lparr>pb_offset := pb_offset pb + 4\<rparr>, h)
      else if can_read pb 5 \<and> looking_at pb s_false then
        Inr (True, set_type cJSON_False item, pb\<lparr>pb_offset := pb_offset pb + 5\<rparr>, h)
      else if can_read pb 4 \<and> looking_at pb s_true then
        Inr (True, Item cJSON_True (valuestring item) 1 (valuedouble item) (istring item) (children item),
             pb\<lparr>pb_offset := pb_offset pb + 4\<rparr>, h)
      else if can_access_at_index pb 0 then
        cbind (buffer_at pb 0) (\<lambda>b.
          if b = 0x22 then parse_string item pb h
          else if b = 0x2D \<or> (0x30 \<le> b \<and> b \<le> 0x39) then parse_number item pb h
          else if b = 0x5B then parse_array (parse_value n) n item pb h
          else if b = 0x7B then parse_object (parse_value n) n item pb h
          else Inr (False, item, pb, h))
      else Inr (False, item, pb, h))"

declare parse_array_loop.simps [simp del] parse_object_loop.simps [simp del] parse_value.simps [simp del]

section \<open>The entry points\<close>

text \<open>
  The result is the item, the position \<open>*return_parse_end\<close> is set to, the error position of
  \<open>global_error\<close> (\<open>None\<close> when the pointer is null) and the heap.
\<close>

definition parse_fuel :: "nat \<Rightarrow> nat" where
  "parse_fuel n = n + 1"

definition parse_failed :: "cJSON list \<Rightarrow> parse_buffer \<Rightarrow> heap \<Rightarrow> cJSON option \<times> nat \<times> nat option \<times> heap" where
  "parse_failed item pb h =
     (let position = (if pb_offset pb < pb_length pb then pb_offset pb
                      else if 0 < pb_length pb then pb_length pb - 1 else 0)
      in (None, position, Some position, cJSON_Delete item h))"

definition cJSON_ParseWithOpts ::
    "bytes option \<Rightarrow> bool \<Rightarrow> heap \<Rightarrow> (cJSON option \<times> nat \<times> nat option \<times> heap) cres" where
  "cJSON_ParseWithOpts value require_null_terminated h =
     (case value of
        None \<Rightarrow> Inr (None, 0, None, h)
      | Some text \<Rightarrow>
          cbind (strlen text) (\<lambda>n.
            let pb = \<lparr>pb_content = take (n + 1) text, pb_length = n + 1, pb_offset = 0, pb_depth = 0\<rparr>
            in case cJSON_New_Item h of
                 (None, h1) \<Rightarrow> Inr (parse_failed [] pb h1)
               | (Some item, h1) \<Rightarrow>
                   (case skip_utf8_bom pb of
                      None \<Rightarrow> Inr (parse_failed [item] pb h1)
                    | Some pb1 \<Rightarrow>
                        cbind (buffer_skip_whitespace pb1) (\<lambda>pb2.
                        cbind (parse_value (parse_fuel (n + 1)) item pb2 h1) (\<lambda>(parsed, item, pb3, h2).
                        if \<not> parsed then Inr (parse_failed [item] pb3 h2)
                        else if require_null_terminated then
                          cbind (buffer_skip_whitespace pb3) (\<lambda>pb4.
                            if pb_length pb4 \<le> pb_offset pb4 then Inr (parse_failed [item] pb4 h2)
                            else cbind (buffer_at pb4 0) (\<lambda>b.
                              if b \<noteq> 0 then Inr (parse_failed [item] pb4 h2)
                              else Inr (Some item, pb_offset pb4, None, h2)))
                        else Inr (Some item, pb_offset pb3, None, h2))))))"

definition cJSON_Parse :: "bytes option \<Rightarrow> heap \<Rightarrow> (cJSON option \<times> heap) cres" where
  "cJSON_Parse value h = cbind (cJSON_ParseWithOpts value False h) (\<lambda>(item, _, _, h'). Inr (item, h'))"

section \<open>The contract of the parser\<close>

text \<open>An item a value can be parsed into: no string, no children, no flags.\<close>

definition fresh :: "cJSON \<Rightarrow> bool" where
  "fresh item \<longleftrightarrow> valuestring item = None \<and> children item = [] \<and>
     itype item AND cJSON_IsReference = 0 \<and> itype item AND cJSON_StringIsConst = 0"

text \<open>
  What a parsing routine promises: it returns; text and length are kept; a success has consumed something,
  stays before the end of the text, and gives back the depth and the name; a failure leaves the item alone;
  in both cases the blocks in use are those before and those the item holds now.
\<close>

definition parse_ok :: "cJSON \<Rightarrow> parse_buffer \<Rightarrow> heap \<Rightarrow> (bool \<times> cJSON \<times> parse_buffer \<times> heap) cres \<Rightarrow> bool" where
  "parse_ok item pb h r \<longleftrightarrow>
     (case r of
        Inl e \<Rightarrow> False
      | Inr (ok, item', pb', h') \<Rightarrow>
          pb_content pb' = pb_content pb \<and> pb_length pb' = pb_length pb \<and> heap_frame h h' \<and>
          live h' = live h + freed item' - freed item \<and>
          (if ok then pb_offset pb < pb_offset pb' \<and> pb_offset pb' < pb_length pb \<and>
                      pb_depth pb' = pb_depth pb \<and> istring item' = istring item
           else item' = item \<and> pb_offset pb' \<le> pb_length pb))"

lemma pb_wf_upd:
  "pb_wf pb \<Longrightarrow> k < pb_length pb \<Longrightarrow> pb_wf (pb\<lparr>pb_offset := k\<rparr>)"
  "pb_wf pb \<Longrightarrow> pb_wf (pb\<lparr>pb_depth := d\<rparr>)"
  by (simp_all add: pb_wf_def)

lemma buffer_at_wf: "pb_wf pb \<Longrightarrow> buffer_at pb 0 = Inr (pb_content pb ! pb_offset pb)"
  by (simp add: pb_wf_def buffer_at_def)

lemma can_access_wf: "pb_wf pb \<Longrightarrow> can_access_at_index pb 0"
  by (simp add: pb_wf_def can_access_at_index_def)

lemma nonzero_not_last:
  assumes "pb_wf pb" "k < pb_length pb" "pb_content pb ! k \<noteq> 0"
  shows "Suc k < pb_length pb"
proof -
  have "k \<noteq> length (pb_content pb) - 1"
    using assms by (auto simp: pb_wf_def last_conv_nth)
  then show ?thesis
    using assms by (simp add: pb_wf_def)
qed

lemma pb_wf_next:
  assumes "pb_wf pb" "pb_content pb ! pb_offset pb \<noteq> 0"
  shows "pb_wf (pb\<lparr>pb_offset := Suc (pb_offset pb)\<rparr>)"
  using assms nonzero_not_last [of pb "pb_offset pb"] by (auto simp: pb_wf_def)

lemma skip_ws_loop_Inr:
  assumes "pb_length pb = length (pb_content pb)" "pb_offset pb \<le> pb_length pb"
  shows "\<exists>k. skip_ws_loop pb = Inr (pb\<lparr>pb_offset := k\<rparr>) \<and> pb_offset pb \<le> k \<and> k \<le> pb_length pb"
  using assms
proof (induction pb rule: skip_ws_loop.induct)
  case (1 pb)
  show ?case
  proof (cases "can_access_at_index pb 0 \<and> pb_content pb ! pb_offset pb \<le> 32")
    case True
    then have b: "can_access_at_index pb 0" "buffer_at pb 0 = Inr (pb_content pb ! pb_offset pb)"
      using "1.prems" by (simp_all add: can_access_at_index_def buffer_at_def)
    have "\<exists>k. skip_ws_loop (pb\<lparr>pb_offset := pb_offset pb + 1\<rparr>) = Inr (pb\<lparr>pb_offset := k\<rparr>) \<and>
        pb_offset pb + 1 \<le> k \<and> k \<le> pb_length pb"
      using "1.IH" [OF b] "1.prems" True by (auto simp: can_access_at_index_def)
    then show ?thesis
      using True b by (subst skip_ws_loop.simps) auto
  next
    case False
    then have "skip_ws_loop pb = Inr pb"
      using "1.prems" by (subst skip_ws_loop.simps) (auto simp: can_access_at_index_def buffer_at_def)
    then show ?thesis
      using "1.prems" by (intro exI [of _ "pb_offset pb"]) simp
  qed
qed

lemma skip_whitespace_wf:
  assumes "pb_wf pb"
  obtains k where "buffer_skip_whitespace pb = Inr (pb\<lparr>pb_offset := k\<rparr>)" "pb_offset pb \<le> k" "k < pb_length pb"
    "pb_wf (pb\<lparr>pb_offset := k\<rparr>)"
proof -
  obtain k where k: "skip_ws_loop pb = Inr (pb\<lparr>pb_offset := k\<rparr>)" "pb_offset pb \<le> k" "k \<le> pb_length pb"
    using skip_ws_loop_Inr [of pb] assms by (auto simp: pb_wf_def)
  let ?k = "if k = pb_length pb then k - 1 else k"
  have "buffer_skip_whitespace pb = Inr (pb\<lparr>pb_offset := ?k\<rparr>)"
    using k(1) by (simp add: buffer_skip_whitespace_def)
  moreover have "pb_offset pb \<le> ?k" "?k < pb_length pb"
    using k assms by (auto simp: pb_wf_def)
  ultimately show ?thesis
    using that [of ?k] assms by (simp add: pb_wf_upd(1))
qed

subsection \<open>Numbers\<close>

lemma number_char_nonzero: "number_char b \<Longrightarrow> b \<noteq> 0"
  by (auto simp: number_char_def)

lemma number_copy_Inr:
  assumes "pb_wf pb"
  shows "\<exists>bs. number_copy pb i = Inr bs \<and> (bs \<noteq> [] \<longrightarrow> pb_offset pb + i + length bs < pb_length pb)"
  using assms
proof (induction pb i rule: number_copy.induct)
  case (1 pb i)
  show ?case
  proof (cases "i < 63 \<and> can_access_at_index pb i")
    case False
    then show ?thesis
      by (subst number_copy.simps) auto
  next
    case True
    have b: "buffer_at pb i = Inr (pb_content pb ! (pb_offset pb + i))"
      using True "1.prems" by (simp add: can_access_at_index_def buffer_at_def pb_wf_def)
    show ?thesis
    proof (cases "number_char (pb_content pb ! (pb_offset pb + i))")
      case False
      then show ?thesis
        using True b by (subst number_copy.simps) auto
    next
      case n: True
      obtain bs where bs: "number_copy pb (Suc i) = Inr bs"
        "bs \<noteq> [] \<longrightarrow> pb_offset pb + Suc i + length bs < pb_length pb"
        using "1.IH" [OF True b n "1.prems"] by blast
      have "Suc (pb_offset pb + i) < pb_length pb"
        using True n by (intro nonzero_not_last [OF "1.prems"])
          (auto simp: can_access_at_index_def dest: number_char_nonzero)
      then show ?thesis
        using True b n bs by (subst number_copy.simps) (cases bs; simp)
    qed
  qed
qed

lemma strip_sign_length: "strip_sign s = (n, r) \<Longrightarrow> length r \<le> length s"
  by (auto simp: strip_sign_def split: list.splits if_splits)

lemma exponent_part_length:
  assumes "exponent_part s = (x, r)"
  shows "length r \<le> length s"
proof (cases s)
  case Nil
  with assms show ?thesis
    by (simp add: exponent_part_def)
next
  case (Cons b s')
  obtain neg r1 where r1: "strip_sign s' = (neg, r1)"
    by (cases "strip_sign s'")
  have "r = s \<or> r = dropWhile is_digit r1"
    using assms by (auto simp: exponent_part_def Cons r1 Let_def split: if_splits)
  then show ?thesis
    using strip_sign_length [OF r1] length_dropWhile_le [of is_digit r1] Cons by auto
qed

lemma length_dropWhile_less: "takeWhile P s \<noteq> [] \<Longrightarrow> length (dropWhile P s) < length s"
  by (cases s) (auto simp: length_dropWhile_le le_imp_less_Suc split: if_splits)

lemma round64_not_nan: "round64 s n d \<noteq> NaN"
  by (auto simp: round64_def Let_def split: prod.split)

lemma fraction_part_length:
  assumes "fraction_part ip s = (fp, r)"
  shows "length r \<le> length s \<and> (fp \<noteq> [] \<longrightarrow> length r < length s)"
proof (cases s)
  case Nil
  with assms show ?thesis
    by (simp add: fraction_part_def)
next
  case (Cons b s')
  then show ?thesis
    using assms length_dropWhile_le [of is_digit s']
    by (auto simp: fraction_part_def split: if_splits)
qed

lemma strtod_length:
  assumes "strtod s = Some (d, rest)"
  shows "length rest < length s" and "d \<noteq> NaN"
proof -
  obtain neg s1 where s1: "strip_sign s = (neg, s1)"
    by (cases "strip_sign s")
  let ?ip = "takeWhile is_digit s1" and ?s2 = "dropWhile is_digit s1"
  obtain fp s3 where fs: "fraction_part ?ip ?s2 = (fp, s3)"
    by (cases "fraction_part ?ip ?s2")
  have l3: "length s3 \<le> length ?s2" "fp \<noteq> [] \<Longrightarrow> length s3 < length ?s2"
    using fraction_part_length [OF fs] by simp_all
  obtain x r where e: "exponent_part s3 = (x, r)"
    by (cases "exponent_part s3")
  have res: "\<not> (?ip = [] \<and> fp = [])" "rest = r" "\<exists>n e. d = round64 neg n e"
    using assms by (auto simp: strtod_def s1 fs e Let_def split: if_splits prod.splits)
  show "d \<noteq> NaN"
    using res(3) round64_not_nan by auto
  have "length s3 < length s1"
  proof (cases "?ip = []")
    case True
    then show ?thesis
      using res(1) l3(2) length_dropWhile_le [of is_digit s1] by auto
  next
    case False
    then show ?thesis
      using l3(1) length_dropWhile_less [of is_digit s1] by simp
  qed
  then show "length rest < length s"
    using exponent_part_length [OF e] strip_sign_length [OF s1] res(2) by simp
qed

lemma saturated_int_Inr: "d \<noteq> NaN \<Longrightarrow> \<exists>i. saturated_int d = Inr i \<and> INT_MIN \<le> i \<and> i \<le> INT_MAX"
  by (cases d) (auto simp: saturated_int_def Let_def INT_MIN_def INT_MAX_def)

lemma parse_number_ok:
  assumes "pb_wf pb" "fresh item"
  shows "parse_ok item pb h (parse_number item pb h)"
proof -
  obtain bs where bs: "number_copy pb 0 = Inr bs" "bs \<noteq> [] \<longrightarrow> pb_offset pb + length bs < pb_length pb"
    using number_copy_Inr [OF assms(1), of 0] by auto
  show ?thesis
  proof (cases "strtod bs")
    case None
    then show ?thesis
      using bs assms by (simp add: parse_number_def parse_ok_def pb_wf_def)
  next
    case (Some dr)
    obtain d rest where dr: "strtod bs = Some (d, rest)"
      using Some by (cases dr) simp
    note l = strtod_length [OF dr]
    obtain i where "saturated_int d = Inr i"
      using saturated_int_Inr [OF l(2)] by blast
    moreover have "bs \<noteq> []"
      using l(1) by auto
    ultimately show ?thesis
      using bs dr l(1) assms(2)
      by (cases item) (auto simp: parse_number_def parse_ok_def fresh_def cJSON_types cJSON_flags)
  qed
qed

subsection \<open>Containers\<close>

text \<open>The same contract inside a loop, which already holds the items \<open>head\<close> and is one level deeper.\<close>

definition loop_ok ::
    "cJSON \<Rightarrow> cJSON list \<Rightarrow> parse_buffer \<Rightarrow> heap \<Rightarrow> (bool \<times> cJSON \<times> parse_buffer \<times> heap) cres \<Rightarrow> bool" where
  "loop_ok item head pb h r \<longleftrightarrow>
     (case r of
        Inl e \<Rightarrow> False
      | Inr (ok, item', pb', h') \<Rightarrow>
          pb_content pb' = pb_content pb \<and> pb_length pb' = pb_length pb \<and> heap_frame h h' \<and>
          live h' = live h + freed item' - freed item - sum_list (map freed head) \<and>
          (if ok then pb_offset pb < pb_offset pb' \<and> pb_offset pb' < pb_length pb \<and>
                      pb_depth pb' = pb_depth pb - 1 \<and> istring item' = istring item
           else item' = item \<and> pb_offset pb' \<le> pb_length pb))"

lemma abandon_ok:
  assumes "pb_content pb' = pb_content pb" "pb_length pb' = pb_length pb" "heap_frame h h'"
    and "live h' - sum_list (map freed head') = live h - sum_list (map freed head)" "pb_offset pb' \<le> pb_length pb"
  shows "loop_ok item head pb h (abandon item head' pb' h')"
  using assms by (simp add: loop_ok_def abandon_def cJSON_Delete_def)

lemma freed_container:
  "fresh item \<Longrightarrow> ty AND cJSON_IsReference = 0 \<Longrightarrow> ty AND cJSON_StringIsConst = 0 \<Longrightarrow>
     freed (Item ty (valuestring item) vi vd (istring item) head) = freed item + sum_list (map freed head)"
  by (cases item) (simp add: fresh_def)

lemma container_ok:
  assumes "fresh item" "pb_content pb' = pb_content pb" "pb_length pb' = pb_length pb" "heap_frame h h'"
    and "live h' - sum_list (map freed head') = live h - sum_list (map freed head)"
    and "pb_offset pb \<le> pb_offset pb'" "Suc (pb_offset pb') < pb_length pb" "pb_depth pb' = pb_depth pb"
    and "ty = cJSON_Array \<or> ty = cJSON_Object"
  shows "loop_ok item head pb h (container ty item head' pb' h')"
proof -
  have "ty AND cJSON_IsReference = 0" "ty AND cJSON_StringIsConst = 0"
    using assms(9) by (auto simp: cJSON_types cJSON_flags)
  then show ?thesis
    using assms by (simp add: loop_ok_def container_def freed_container del: freed.simps)
qed

lemma new_item_fresh: "fresh new_item" "freed new_item = 1" "istring new_item = None"
  by (simp_all add: fresh_def new_item_def cJSON_flags)

lemma cJSON_New_Item_cases:
  obtains (null) h' where "cJSON_New_Item h = (None, h')" "live h' = live h" "heap_frame h h'"
  | (item) h' where "cJSON_New_Item h = (Some new_item, h')" "live h' = live h + 1" "heap_frame h h'"
  by (cases rule: allocate_cases [of 64 h]) (auto simp: cJSON_New_Item_def)

lemma parse_okE:
  assumes "parse_ok item pb h r"
  obtains (ok) item' k h' where "r = Inr (True, item', pb\<lparr>pb_offset := k\<rparr>, h')" "pb_offset pb < k" "k < pb_length pb"
    "heap_frame h h'" "live h' = live h + freed item' - freed item" "istring item' = istring item"
  | (failed) pb' h' where "r = Inr (False, item, pb', h')" "pb_content pb' = pb_content pb" "pb_length pb' = pb_length pb"
    "heap_frame h h'" "live h' = live h" "pb_offset pb' \<le> pb_length pb"
proof (cases r)
  case (Inl e)
  then show ?thesis
    using assms by (simp add: parse_ok_def)
next
  case (Inr x)
  obtain b item' pb' h' where x: "x = (b, item', pb', h')"
    by (metis prod_cases4)
  show ?thesis
  proof (cases b)
    case True
    then have "pb' = pb\<lparr>pb_offset := pb_offset pb'\<rparr>"
      using assms Inr x by (simp add: parse_ok_def)
    then show ?thesis
      using ok [of item' "pb_offset pb'" h'] assms Inr x True by (simp add: parse_ok_def)
  next
    case False
    then show ?thesis
      using failed [of pb' h'] assms Inr x by (simp add: parse_ok_def)
  qed
qed

text \<open>
  The end of a round of either loop, once the element has been tried: on to the next one after a comma, the container
  after its closing bracket, else the failure.
\<close>

lemma element_end_ok:
  assumes "fresh item" and val: "parse_ok cur (pb\<lparr>pb_offset := k\<rparr>) h1 r"
    and k: "pb_wf (pb\<lparr>pb_offset := k\<rparr>)" "pb_offset pb < k" and h1: "heap_frame h h1" "live h1 = live h + freed cur"
    and ty: "ty = cJSON_Array \<or> ty = cJSON_Object" "close \<noteq> 0"
    and rec: "\<And>current k' h2. k < k' \<Longrightarrow> pb_wf (pb\<lparr>pb_offset := Suc k'\<rparr>) \<Longrightarrow>
      loop_ok item (head @ [current]) (pb\<lparr>pb_offset := k'\<rparr>) h2 (rec (head @ [current]) (pb\<lparr>pb_offset := k'\<rparr>) h2)"
  shows "loop_ok item head pb h (cbind r (\<lambda>(parsed, current, pb2, h2).
      if \<not> parsed then abandon item (head @ [current]) pb2 h2
      else cbind (buffer_skip_whitespace pb2) (\<lambda>pb3.
      if \<not> can_access_at_index pb3 0 then abandon item (head @ [current]) pb3 h2
      else cbind (buffer_at pb3 0) (\<lambda>b.
        if b = 0x2C then rec (head @ [current]) pb3 h2
        else if b = close then container ty item (head @ [current]) pb3 h2
        else abandon item (head @ [current]) pb3 h2))))"
    (is "loop_ok item head pb h ?r")
  using val
proof (cases rule: parse_okE)
  case (failed pb2 h2)
  then show ?thesis
    using h1 heap_frame_trans [OF h1(1)] by (simp add: abandon_ok del: freed.simps)
next
  case (ok current k2 h2)
  have live2: "live h2 - freed current = live h" and fr2: "heap_frame h h2"
    using ok h1 heap_frame_trans [OF h1(1)] by (simp_all del: freed.simps)
  have w2: "pb_wf (pb\<lparr>pb_offset := k2\<rparr>)"
    using pb_wf_upd(1) [OF k(1), of k2] ok(3) by simp
  obtain k3 where s3: "buffer_skip_whitespace (pb\<lparr>pb_offset := k2\<rparr>) = Inr (pb\<lparr>pb_offset := k3\<rparr>)"
    and k3: "k2 \<le> k3" "k3 < pb_length pb" "pb_wf (pb\<lparr>pb_offset := k3\<rparr>)"
    by (rule skip_whitespace_wf [OF w2]) simp
  have le: "k < k3" "pb_offset pb < k3"
    using ok(2) k3(1) k(2) by simp_all
  let ?b = "pb_content pb ! k3"
  have next3: "Suc k3 < pb_length pb" if "?b \<noteq> 0"
    using nonzero_not_last [OF k3(3), of k3] k3(2) that by simp
  have run: "?r = (if ?b = 0x2C then rec (head @ [current]) (pb\<lparr>pb_offset := k3\<rparr>) h2
      else if ?b = close then container ty item (head @ [current]) (pb\<lparr>pb_offset := k3\<rparr>) h2
      else abandon item (head @ [current]) (pb\<lparr>pb_offset := k3\<rparr>) h2)"
    using ok(1) s3 can_access_wf [OF k3(3)] buffer_at_wf [OF k3(3)] by simp
  consider "?b = 0x2C" | "?b \<noteq> 0x2C" "?b = close" | "?b \<noteq> 0x2C" "?b \<noteq> close"
    by blast
  then show ?thesis
  proof cases
    case 1
    then have "pb_wf (pb\<lparr>pb_offset := Suc k3\<rparr>)"
      using pb_wf_upd(1) [OF k3(3), of "Suc k3"] next3 by simp
    then have "loop_ok item (head @ [current]) (pb\<lparr>pb_offset := k3\<rparr>) h2 (rec (head @ [current]) (pb\<lparr>pb_offset := k3\<rparr>) h2)"
      using rec le(1) by blast
    then show ?thesis
      unfolding run using 1 live2 le heap_frame_trans [OF fr2]
      by (auto simp: loop_ok_def split: sum.splits prod.splits if_splits)
  next
    case 2
    then show ?thesis
      unfolding run using live2 fr2 le k3 next3 ty by (simp add: container_ok assms(1))
  next
    case 3
    then show ?thesis
      unfolding run using live2 fr2 k3 by (simp add: abandon_ok)
  qed
qed

text \<open>What the loops rely on: \<open>parse_value\<close> keeps its contract wherever at most \<open>n\<close> bytes are left.\<close>

locale value_parser =
  fixes pv :: parser and n :: nat
  assumes pv_ok: "pb_wf pb \<Longrightarrow> fresh item \<Longrightarrow> pb_length pb \<le> n + pb_offset pb \<Longrightarrow> parse_ok item pb h (pv item pb h)"
begin

lemma parse_array_loop_ok:
  assumes "fresh item" "pb_wf (pb\<lparr>pb_offset := Suc (pb_offset pb)\<rparr>)"
    and "pb_length pb \<le> m + Suc (pb_offset pb)" "pb_length pb \<le> n + Suc (pb_offset pb)"
  shows "loop_ok item head pb h (parse_array_loop pv m head item pb h)"
  using assms(2-4)
proof (induction m arbitrary: head pb h)
  case 0
  then show ?case
    by (simp add: pb_wf_def)
next
  case (Suc m)
  let ?r = "parse_array_loop pv (Suc m) head item pb h"
  have olen: "pb_offset pb \<le> pb_length pb"
    using Suc.prems by (simp add: pb_wf_def)
  show ?case
  proof (cases rule: cJSON_New_Item_cases [of h])
    case (null h1)
    then show ?thesis
      using olen by (simp add: parse_array_loop.simps abandon_ok)
  next
    case (item h1)
    obtain k1 where s1: "buffer_skip_whitespace (pb\<lparr>pb_offset := Suc (pb_offset pb)\<rparr>) = Inr (pb\<lparr>pb_offset := k1\<rparr>)"
      and k1: "Suc (pb_offset pb) \<le> k1" "k1 < pb_length pb" "pb_wf (pb\<lparr>pb_offset := k1\<rparr>)"
      by (rule skip_whitespace_wf [OF Suc.prems(1)]) simp
    have "loop_ok item head pb h (cbind (pv new_item (pb\<lparr>pb_offset := k1\<rparr>) h1) (\<lambda>(parsed, current, pb2, h2).
        if \<not> parsed then abandon item (head @ [current]) pb2 h2
        else cbind (buffer_skip_whitespace pb2) (\<lambda>pb3.
        if \<not> can_access_at_index pb3 0 then abandon item (head @ [current]) pb3 h2
        else cbind (buffer_at pb3 0) (\<lambda>b.
          if b = 0x2C then parse_array_loop pv m (head @ [current]) item pb3 h2
          else if b = 0x5D then container cJSON_Array item (head @ [current]) pb3 h2
          else abandon item (head @ [current]) pb3 h2))))"
    proof (rule element_end_ok [OF assms(1) _ k1(3)])
      show "parse_ok new_item (pb\<lparr>pb_offset := k1\<rparr>) h1 (pv new_item (pb\<lparr>pb_offset := k1\<rparr>) h1)"
        using pv_ok [OF k1(3) new_item_fresh(1)] k1(1) Suc.prems(3) by simp
      show "loop_ok item (head @ [current]) (pb\<lparr>pb_offset := k'\<rparr>) h2
          (parse_array_loop pv m (head @ [current]) item (pb\<lparr>pb_offset := k'\<rparr>) h2)"
        if "k1 < k'" "pb_wf (pb\<lparr>pb_offset := Suc k'\<rparr>)" for current k' h2
        using Suc.IH [of "pb\<lparr>pb_offset := k'\<rparr>"] Suc.prems k1 that by simp
    qed (use item k1 in \<open>simp_all add: new_item_fresh\<close>)
    then show ?thesis
      using item s1 by (simp add: parse_array_loop.simps)
  qed
qed

lemma parse_array_ok:
  assumes "fresh item" "pb_wf pb" "pb_length pb \<le> Suc n + pb_offset pb"
  shows "parse_ok item pb h (parse_array pv n item pb h)"
proof (cases "CJSON_NESTING_LIMIT \<le> pb_depth pb \<or> pb_content pb ! pb_offset pb \<noteq> 0x5B")
  case True
  then show ?thesis
    using assms(2) buffer_at_wf [OF pb_wf_upd(2) [OF assms(2)]]
    by (auto simp: parse_array_def parse_ok_def abandon_def cJSON_Delete_def pb_wf_def)
next
  case False
  let ?pb = "pb\<lparr>pb_depth := Suc (pb_depth pb)\<rparr>"
  have w1: "pb_wf (?pb\<lparr>pb_offset := Suc (pb_offset pb)\<rparr>)"
    using pb_wf_next [OF assms(2)] False by (simp add: pb_wf_def)
  obtain k where s: "buffer_skip_whitespace (?pb\<lparr>pb_offset := Suc (pb_offset pb)\<rparr>) = Inr (?pb\<lparr>pb_offset := k\<rparr>)"
    and k: "Suc (pb_offset pb) \<le> k" "k < pb_length pb" "pb_wf (?pb\<lparr>pb_offset := k\<rparr>)"
    by (rule skip_whitespace_wf [OF w1]) simp
  have run: "parse_array pv n item pb h =
      (if pb_content pb ! k = 0x5D then container cJSON_Array item [] (?pb\<lparr>pb_offset := k\<rparr>) h
       else parse_array_loop pv n [] item (?pb\<lparr>pb_offset := k - 1\<rparr>) h)"
    using False s buffer_at_wf [OF pb_wf_upd(2) [OF assms(2)]] buffer_at_wf [OF k(3)] can_access_wf [OF k(3)]
    by (simp add: parse_array_def Let_def)
  show ?thesis
  proof (cases "pb_content pb ! k = 0x5D")
    case True
    then have "Suc k < pb_length pb"
      using nonzero_not_last [OF assms(2), of k] k(2) by simp
    then have "loop_ok item [] ?pb h (container cJSON_Array item [] (?pb\<lparr>pb_offset := k\<rparr>) h)"
      using assms(1) k by (intro container_ok) simp_all
    then show ?thesis
      using True by (auto simp: run loop_ok_def parse_ok_def split: sum.splits prod.splits)
  next
    case no: False
    have "loop_ok item [] (?pb\<lparr>pb_offset := k - 1\<rparr>) h (parse_array_loop pv n [] item (?pb\<lparr>pb_offset := k - 1\<rparr>) h)"
      using assms k by (intro parse_array_loop_ok) simp_all
    then show ?thesis
      using no k by (auto simp: run loop_ok_def parse_ok_def split: sum.splits prod.splits if_splits)
  qed
qed

lemma parse_string_member:
  assumes "pb_wf pb"
  obtains (ok) out k h' where
    "parse_string new_item pb h = Inr (True, Item cJSON_String (Some out) 0 (Fin False 0 (-1074)) None [], pb\<lparr>pb_offset := k\<rparr>, h')"
    "pb_offset pb < k" "k < pb_length pb" "live h' = live h + 1" "heap_frame h h'" "terminated out"
  | (failed) k h' where "parse_string new_item pb h = Inr (False, new_item, pb\<lparr>pb_offset := k\<rparr>, h')"
    "k \<le> pb_length pb" "live h' = live h" "heap_frame h h'"
  by (rule parse_string_safe [OF assms, of new_item h]; fastforce simp: new_item_def)

lemma parse_object_loop_ok:
  assumes "fresh item" "pb_wf (pb\<lparr>pb_offset := Suc (pb_offset pb)\<rparr>)"
    and "pb_length pb \<le> m + Suc (pb_offset pb)" "pb_length pb \<le> n + Suc (pb_offset pb)"
  shows "loop_ok item head pb h (parse_object_loop pv m head item pb h)"
  using assms(2-4)
proof (induction m arbitrary: head pb h)
  case 0
  then show ?case
    by (simp add: pb_wf_def)
next
  case (Suc m)
  let ?r = "parse_object_loop pv (Suc m) head item pb h"
  have olen: "pb_offset pb \<le> pb_length pb"
    using Suc.prems by (simp add: pb_wf_def)
  show ?case
  proof (cases rule: cJSON_New_Item_cases [of h])
    case (null h1)
    then show ?thesis
      using olen by (simp add: parse_object_loop.simps abandon_ok)
  next
    case (item h1)
    obtain k1 where s1: "buffer_skip_whitespace (pb\<lparr>pb_offset := Suc (pb_offset pb)\<rparr>) = Inr (pb\<lparr>pb_offset := k1\<rparr>)"
      and k1: "Suc (pb_offset pb) \<le> k1" "k1 < pb_length pb" "pb_wf (pb\<lparr>pb_offset := k1\<rparr>)"
      by (rule skip_whitespace_wf [OF Suc.prems(1)]) simp
    show ?thesis
      using k1(3)
    proof (cases rule: parse_string_member [where h = h1])
      case (failed k h2)
      then show ?thesis
        using item s1 by (simp add: parse_object_loop.simps abandon_ok new_item_fresh heap_frame_trans [of h h1 h2])
    next
      case (ok name k2 h2)
      let ?named = "Item cJSON_String None 0 (Fin False 0 (-1074)) (Some name) []"
      have named: "fresh ?named" "freed ?named = 2"
        by (simp_all add: fresh_def cJSON_types cJSON_flags)
      have live2: "live h2 = live h + 2" and fr2: "heap_frame h h2"
        using ok item by (auto intro: heap_frame_trans)
      have w2: "pb_wf (pb\<lparr>pb_offset := k2\<rparr>)"
        using pb_wf_upd(1) [OF k1(3), of k2] ok(3) by simp
      obtain k3 where s3: "buffer_skip_whitespace (pb\<lparr>pb_offset := k2\<rparr>) = Inr (pb\<lparr>pb_offset := k3\<rparr>)"
        and k3: "k2 \<le> k3" "k3 < pb_length pb" "pb_wf (pb\<lparr>pb_offset := k3\<rparr>)"
        by (rule skip_whitespace_wf [OF w2]) simp
      show ?thesis
      proof (cases "pb_content pb ! k3 = 0x3A")
        case False
        then have "?r = abandon item (head @ [?named]) (pb\<lparr>pb_offset := k3\<rparr>) h2"
          using item s1 ok(1) s3 can_access_wf [OF k3(3)] buffer_at_wf [OF k3(3)]
          by (simp add: parse_object_loop.simps name_from_value_def)
        then show ?thesis
          using live2 fr2 k3 named(2) by (simp add: abandon_ok del: freed.simps)
      next
        case colon: True
        then have w4: "pb_wf (pb\<lparr>pb_offset := Suc k3\<rparr>)"
          using pb_wf_next [OF k3(3)] by simp
        obtain k4 where s4: "buffer_skip_whitespace (pb\<lparr>pb_offset := Suc k3\<rparr>) = Inr (pb\<lparr>pb_offset := k4\<rparr>)"
          and k4: "Suc k3 \<le> k4" "k4 < pb_length pb" "pb_wf (pb\<lparr>pb_offset := k4\<rparr>)"
          by (rule skip_whitespace_wf [OF w4]) simp
        have "loop_ok item head pb h (cbind (pv ?named (pb\<lparr>pb_offset := k4\<rparr>) h2) (\<lambda>(parsed, current, pb5, h3).
            if \<not> parsed then abandon item (head @ [current]) pb5 h3
            else cbind (buffer_skip_whitespace pb5) (\<lambda>pb6.
            if \<not> can_access_at_index pb6 0 then abandon item (head @ [current]) pb6 h3
            else cbind (buffer_at pb6 0) (\<lambda>b.
              if b = 0x2C then parse_object_loop pv m (head @ [current]) item pb6 h3
              else if b = 0x7D then container cJSON_Object item (head @ [current]) pb6 h3
              else abandon item (head @ [current]) pb6 h3))))"
        proof (rule element_end_ok [OF assms(1) _ k4(3)])
          show "parse_ok ?named (pb\<lparr>pb_offset := k4\<rparr>) h2 (pv ?named (pb\<lparr>pb_offset := k4\<rparr>) h2)"
            using pv_ok [OF k4(3) named(1)] k1 ok(2) k3 k4 Suc.prems(3) by simp
          show "loop_ok item (head @ [current]) (pb\<lparr>pb_offset := k'\<rparr>) h3
              (parse_object_loop pv m (head @ [current]) item (pb\<lparr>pb_offset := k'\<rparr>) h3)"
            if "k4 < k'" "pb_wf (pb\<lparr>pb_offset := Suc k'\<rparr>)" for current k' h3
            using Suc.IH [of "pb\<lparr>pb_offset := k'\<rparr>"] Suc.prems k1 ok(2) k3 k4 that by simp
        qed (use live2 fr2 named(2) k1 ok(2) k3 k4 in \<open>simp_all del: freed.simps\<close>)
        then show ?thesis
          using item s1 ok(1) s3 can_access_wf [OF k3(3)] buffer_at_wf [OF k3(3)] colon s4
          by (simp add: parse_object_loop.simps name_from_value_def)
      qed
    qed
  qed
qed

lemma parse_object_ok:
  assumes "fresh item" "pb_wf pb" "pb_length pb \<le> Suc n + pb_offset pb"
  shows "parse_ok item pb h (parse_object pv n item pb h)"
proof (cases "CJSON_NESTING_LIMIT \<le> pb_depth pb \<or> pb_content pb ! pb_offset pb \<noteq> 0x7B")
  case True
  then show ?thesis
    using assms(2) buffer_at_wf [OF pb_wf_upd(2) [OF assms(2)]] can_access_wf [OF pb_wf_upd(2) [OF assms(2)]]
    by (auto simp: parse_object_def parse_ok_def abandon_def cJSON_Delete_def pb_wf_def Let_def)
next
  case False
  let ?pb = "pb\<lparr>pb_depth := Suc (pb_depth pb)\<rparr>"
  have w1: "pb_wf (?pb\<lparr>pb_offset := Suc (pb_offset pb)\<rparr>)"
    using pb_wf_next [OF assms(2)] False by (simp add: pb_wf_def)
  obtain k where s: "buffer_skip_whitespace (?pb\<lparr>pb_offset := Suc (pb_offset pb)\<rparr>) = Inr (?pb\<lparr>pb_offset := k\<rparr>)"
    and k: "Suc (pb_offset pb) \<le> k" "k < pb_length pb" "pb_wf (?pb\<lparr>pb_offset := k\<rparr>)"
    by (rule skip_whitespace_wf [OF w1]) simp
  have run: "parse_object pv n item pb h =
      (if pb_content pb ! k = 0x7D then container cJSON_Object item [] (?pb\<lparr>pb_offset := k\<rparr>) h
       else parse_object_loop pv n [] item (?pb\<lparr>pb_offset := k - 1\<rparr>) h)"
    using False s can_access_wf [OF pb_wf_upd(2) [OF assms(2)]] buffer_at_wf [OF pb_wf_upd(2) [OF assms(2)]]
      buffer_at_wf [OF k(3)] can_access_wf [OF k(3)]
    by (simp add: parse_object_def Let_def)
  show ?thesis
  proof (cases "pb_content pb ! k = 0x7D")
    case True
    then have "Suc k < pb_length pb"
      using nonzero_not_last [OF assms(2), of k] k(2) by simp
    then have "loop_ok item [] ?pb h (container cJSON_Object item [] (?pb\<lparr>pb_offset := k\<rparr>) h)"
      using assms(1) k by (intro container_ok) simp_all
    then show ?thesis
      using True by (auto simp: run loop_ok_def parse_ok_def split: sum.splits prod.splits)
  next
    case no: False
    have "loop_ok item [] (?pb\<lparr>pb_offset := k - 1\<rparr>) h (parse_object_loop pv n [] item (?pb\<lparr>pb_offset := k - 1\<rparr>) h)"
      using assms k by (intro parse_object_loop_ok) simp_all
    then show ?thesis
      using no k by (auto simp: run loop_ok_def parse_ok_def split: sum.splits prod.splits if_splits)
  qed
qed

end

lemma looking_at_end:
  assumes "pb_wf pb" "can_read pb (length s)" "looking_at pb s" "s \<noteq> []" "last s \<noteq> 0"
  shows "pb_offset pb + length s < pb_length pb"
proof -
  let ?k = "pb_offset pb + (length s - 1)"
  have in_range: "?k < pb_length pb"
    using assms(2,4) by (cases s) (simp_all add: can_read_def)
  then have "pb_content pb ! ?k = take (length s) (drop (pb_offset pb) (pb_content pb)) ! (length s - 1)"
    using assms(1,4) by (simp add: pb_wf_def)
  also have "\<dots> = last s"
    using assms(3,4) unfolding looking_at_def by (metis last_conv_nth)
  finally have "Suc ?k < pb_length pb"
    using nonzero_not_last [OF assms(1) in_range] assms(5) by simp
  then show ?thesis
    using assms(4) by (cases s) simp_all
qed

lemma parse_string_ok:
  assumes "pb_wf pb" "fresh item"
  shows "parse_ok item pb h (parse_string item pb h)"
  using assms(1)
proof (cases rule: parse_string_safe [where item = item and h = h])
  case (ok out k h')
  then show ?thesis
    using assms by (cases item) (simp add: parse_ok_def fresh_def cJSON_types cJSON_flags)
next
  case (failed k h')
  then show ?thesis
    by (simp add: parse_ok_def)
qed

lemma parse_literal_ok:
  assumes "pb_wf pb" "fresh item" "can_read pb (length s)" "looking_at pb s" "s \<noteq> []" "last s \<noteq> 0"
    and "item' = Item ty (valuestring item) i (valuedouble item) (istring item) (children item)" "ty \<in> {1, 2, 4}"
  shows "parse_ok item pb h (Inr (True, item', pb\<lparr>pb_offset := pb_offset pb + length s\<rparr>, h))"
  using looking_at_end [OF assms(1,3-6)] assms(2,5,7,8)
  by (cases item) (auto simp: parse_ok_def fresh_def cJSON_types cJSON_flags)

text \<open>\<open>parse_value\<close> itself is such a parser, on every level.\<close>

lemma parse_value_ok:
  "pb_wf pb \<Longrightarrow> fresh item \<Longrightarrow> pb_length pb \<le> n + pb_offset pb \<Longrightarrow> parse_ok item pb h (parse_value n item pb h)"
proof (induction n arbitrary: item pb h)
  case 0
  then show ?case
    by (simp add: pb_wf_def)
next
  case (Suc n)
  have vp: "value_parser (parse_value n) n"
    by unfold_locales (rule Suc.IH)
  have b: "buffer_at pb 0 = Inr (pb_content pb ! pb_offset pb)" "can_access_at_index pb 0"
    using Suc.prems(1) by (simp_all add: buffer_at_wf can_access_wf)
  have lit: "length s_null = 4" "s_null \<noteq> []" "last s_null \<noteq> 0" "length s_true = 4" "s_true \<noteq> []"
    "last s_true \<noteq> 0" "length s_false = 5" "s_false \<noteq> []" "last s_false \<noteq> 0"
    by (simp_all add: s_null_def s_true_def s_false_def)
  note literal = parse_literal_ok [OF Suc.prems(1,2)]
  consider (null) "can_read pb 4 \<and> looking_at pb s_null"
    | (false) "\<not> (can_read pb 4 \<and> looking_at pb s_null)" "can_read pb 5 \<and> looking_at pb s_false"
    | (true) "\<not> (can_read pb 4 \<and> looking_at pb s_null)" "\<not> (can_read pb 5 \<and> looking_at pb s_false)"
        "can_read pb 4 \<and> looking_at pb s_true"
    | (other) "\<not> (can_read pb 4 \<and> looking_at pb s_null)" "\<not> (can_read pb 5 \<and> looking_at pb s_false)"
        "\<not> (can_read pb 4 \<and> looking_at pb s_true)"
    by blast
  then show ?case
  proof cases
    case null
    then show ?thesis
      using literal [of s_null "set_type cJSON_NULL item" cJSON_NULL "valueint item" h] lit
      by (simp add: parse_value.simps set_type_def cJSON_types)
  next
    case false
    then show ?thesis
      using literal [of s_false "set_type cJSON_False item" cJSON_False "valueint item" h] lit
      by (auto simp: parse_value.simps set_type_def cJSON_types)
  next
    case true
    then show ?thesis
      using literal [of s_true _ cJSON_True 1 h] lit by (auto simp: parse_value.simps cJSON_types)
  next
    case other
    then have "parse_value (Suc n) item pb h =
        (let b = pb_content pb ! pb_offset pb
         in if b = 0x22 then parse_string item pb h
            else if b = 0x2D \<or> (0x30 \<le> b \<and> b \<le> 0x39) then parse_number item pb h
            else if b = 0x5B then parse_array (parse_value n) n item pb h
            else if b = 0x7B then parse_object (parse_value n) n item pb h
            else Inr (False, item, pb, h))"
      using b by (auto simp: parse_value.simps)
    moreover have "parse_ok item pb h (Inr (False, item, pb, h))"
      using Suc.prems(1) by (simp add: parse_ok_def pb_wf_def)
    ultimately show ?thesis
      using Suc.prems value_parser.parse_array_ok [OF vp] value_parser.parse_object_ok [OF vp]
      by (simp add: Let_def parse_string_ok parse_number_ok)
  qed
qed

interpretation parser: value_parser "parse_value n" n for n
  by unfold_locales (rule parse_value_ok)

section \<open>Properties\<close>

lemma terminated_split: "terminated s \<Longrightarrow> s = c_str s @ 0 # tl (dropWhile (\<lambda>b. b \<noteq> 0) s)"
  unfolding terminated_def c_str_def by (induction s) auto

definition text_buffer :: "bytes \<Rightarrow> parse_buffer" where
  "text_buffer s = \<lparr>pb_content = s @ [0], pb_length = length s + 1, pb_offset = 0, pb_depth = 0\<rparr>"

lemma text_buffer_wf: "pb_wf (text_buffer s)"
  by (simp add: text_buffer_def pb_wf_def)

lemma skip_utf8_bom_wf:
  obtains k where "skip_utf8_bom (text_buffer s) = Some ((text_buffer s)\<lparr>pb_offset := k\<rparr>)"
    "pb_wf ((text_buffer s)\<lparr>pb_offset := k\<rparr>)"
proof (cases "can_access_at_index (text_buffer s) 4 \<and> looking_at (text_buffer s) [0xEF, 0xBB, 0xBF]")
  case True
  then show ?thesis
    using that [of 3] by (simp add: skip_utf8_bom_def text_buffer_def pb_wf_def can_access_at_index_def)
next
  case False
  then show ?thesis
    using that [of 0] by (simp add: skip_utf8_bom_def text_buffer_def pb_wf_def can_access_at_index_def)
qed

lemma parse_failed_result:
  assumes "live h1 = live h + sum_list (map freed items)" "pb_length pb = Suc n"
  obtains e h' where "parse_failed items pb h1 = (None, e, Some e, h')" "live h' = live h" "e \<le> n"
  using assms by (auto simp: parse_failed_def cJSON_Delete_def Let_def)

lemma parse_with_opts_run:
  assumes "terminated text"
  shows "\<exists>item e err h'. cJSON_ParseWithOpts (Some text) require h = Inr (item, e, err, h') \<and>
     e \<le> length (c_str text) \<and>
     (case item of None \<Rightarrow> live h' = live h \<and> err = Some e
      | Some x \<Rightarrow> live h' = live h + freed x \<and> err = None \<and> (require \<longrightarrow> e = length (c_str text)))"
proof -
  let ?s = "c_str text"
  have tx: "text = ?s @ 0 # tl (dropWhile (\<lambda>b. b \<noteq> 0) text)"
    using terminated_split [OF assms] .
  have tb: "\<lparr>pb_content = take (length ?s + 1) text, pb_length = length ?s + 1, pb_offset = 0, pb_depth = 0\<rparr> =
      text_buffer ?s"
    by (subst (2) tx) (simp add: text_buffer_def)
  note run = cJSON_ParseWithOpts_def strlen_def
  show ?thesis
  proof (cases rule: cJSON_New_Item_cases [of h])
    case (null h1)
    obtain e h' where f: "parse_failed [] (text_buffer ?s) h1 = (None, e, Some e, h')" "live h' = live h" "e \<le> length ?s"
      by (rule parse_failed_result [of h1 h "[]" "text_buffer ?s" "length ?s"])
        (use null in \<open>simp_all add: text_buffer_def\<close>)
    then show ?thesis
      using null assms tb by (simp add: run Let_def)
  next
    case (item h1)
    obtain k0 where bom: "skip_utf8_bom (text_buffer ?s) = Some ((text_buffer ?s)\<lparr>pb_offset := k0\<rparr>)"
      and w0: "pb_wf ((text_buffer ?s)\<lparr>pb_offset := k0\<rparr>)"
      by (rule skip_utf8_bom_wf)
    obtain k1 where ws: "buffer_skip_whitespace ((text_buffer ?s)\<lparr>pb_offset := k0\<rparr>) = Inr ((text_buffer ?s)\<lparr>pb_offset := k1\<rparr>)"
      and w1: "pb_wf ((text_buffer ?s)\<lparr>pb_offset := k1\<rparr>)"
      by (rule skip_whitespace_wf [OF w0]) simp
    let ?pb = "(text_buffer ?s)\<lparr>pb_offset := k1\<rparr>"
    have ok: "parse_ok new_item ?pb h1 (parse_value (parse_fuel (length ?s + 1)) new_item ?pb h1)"
      by (rule parse_value_ok [OF w1 new_item_fresh(1)]) (simp add: parse_fuel_def text_buffer_def)
    have upto: "cJSON_ParseWithOpts (Some text) require h =
        cbind (parse_value (parse_fuel (length ?s + 1)) new_item ?pb h1) (\<lambda>(parsed, item, pb3, h2).
          if \<not> parsed then Inr (parse_failed [item] pb3 h2)
          else if require then
            cbind (buffer_skip_whitespace pb3) (\<lambda>pb4.
              if pb_length pb4 \<le> pb_offset pb4 then Inr (parse_failed [item] pb4 h2)
              else cbind (buffer_at pb4 0) (\<lambda>b.
                if b \<noteq> 0 then Inr (parse_failed [item] pb4 h2)
                else Inr (Some item, pb_offset pb4, None, h2)))
          else Inr (Some item, pb_offset pb3, None, h2))"
      using item assms bom ws tb by (simp add: run Let_def)
    show ?thesis
      using ok
    proof (cases rule: parse_okE)
      case (failed pb' h2)
      obtain e h' where f: "parse_failed [new_item] pb' h2 = (None, e, Some e, h')" "live h' = live h" "e \<le> length ?s"
        by (rule parse_failed_result [of h2 h "[new_item]" pb' "length ?s"])
          (use failed item in \<open>simp_all add: text_buffer_def new_item_fresh\<close>)
      then show ?thesis
        using failed by (simp add: upto)
    next
      case (ok x k2 h2)
      have w2: "pb_wf ((text_buffer ?s)\<lparr>pb_offset := k2\<rparr>)"
        using pb_wf_upd(1) [OF w1, of k2] ok(3) by simp
      have live2: "live h2 = live h + freed x"
        using ok(5) item(2) by (simp add: new_item_fresh)
      obtain k3 where s3: "buffer_skip_whitespace ((text_buffer ?s)\<lparr>pb_offset := k2\<rparr>) = Inr ((text_buffer ?s)\<lparr>pb_offset := k3\<rparr>)"
        and k3: "k3 < length ?s + 1" and w3: "pb_wf ((text_buffer ?s)\<lparr>pb_offset := k3\<rparr>)"
        by (rule skip_whitespace_wf [OF w2]) (simp add: text_buffer_def)
      obtain e h' where f: "parse_failed [x] ((text_buffer ?s)\<lparr>pb_offset := k3\<rparr>) h2 = (None, e, Some e, h')"
        "live h' = live h" "e \<le> length ?s"
        by (rule parse_failed_result [of h2 h "[x]" "(text_buffer ?s)\<lparr>pb_offset := k3\<rparr>" "length ?s"])
          (use live2 in \<open>simp_all add: text_buffer_def\<close>)
      have zero: "k3 = length ?s" if "(?s @ [0]) ! k3 = 0"
      proof (rule ccontr)
        assume "k3 \<noteq> length ?s"
        then have lt: "k3 < length ?s"
          using k3 by simp
        then have "?s ! k3 = 0"
          using that by (simp add: nth_append)
        moreover have "?s ! k3 \<in> set ?s"
          using lt by (rule nth_mem)
        ultimately show False
          using nul_free_c_str [of "text"] by (simp add: nul_free_def)
      qed
      show ?thesis
      proof (cases require)
        case False
        then show ?thesis
          unfolding upto using ok live2 by (simp add: text_buffer_def)
      next
        case True
        then show ?thesis
          unfolding upto using ok(1) live2 s3 k3 f zero buffer_at_wf [OF w3]
          by (auto simp: text_buffer_def)
      qed
    qed
  qed
qed

text \<open>
  C1: Whatever text it is given, \<open>cJSON_ParseWithOpts\<close> returns and reads nothing outside the text. When it
  fails, no block it took is left, and the end position and the global error position are the same place
  inside the text; when it succeeds, the blocks in use are exactly those \<open>cJSON_Delete\<close> of the result gives
  back. If the end of the text was required, it is the end of the text that was reached. This holds for
  every pattern of failing allocations.
\<close>

theorem cJSON_ParseWithOpts_safe:
  assumes "terminated text"
  shows "\<exists>item e err h'. cJSON_ParseWithOpts (Some text) require h = Inr (item, e, err, h') \<and>
     e \<le> length (c_str text) \<and>
     (case item of
        None \<Rightarrow> live h' = live h \<and> err = Some e
      | Some x \<Rightarrow> live (cJSON_Delete [x] h') = live h \<and> err = None \<and> (require \<longrightarrow> e = length (c_str text)))"
proof -
  obtain item e err h' where r: "cJSON_ParseWithOpts (Some text) require h = Inr (item, e, err, h')"
    "e \<le> length (c_str text)" "case item of None \<Rightarrow> live h' = live h \<and> err = Some e
      | Some x \<Rightarrow> live h' = live h + freed x \<and> err = None \<and> (require \<longrightarrow> e = length (c_str text))"
    using parse_with_opts_run [OF assms, of require h] by blast
  then show ?thesis
    by (cases item) (simp_all add: cJSON_Delete_def)
qed

definition demo_heap :: heap where
  "demo_heap = \<lparr>calls = 0, live = 0, grant = \<lambda>_ _. True, fill = 0xAA, has_realloc = True\<rparr>"

theorem cJSON_ParseWithOpts_safe_witness:
  "\<exists>item e err h'. cJSON_ParseWithOpts (Some (map of_char ''[1, {'' @ [0])) True demo_heap = Inr (item, e, err, h') \<and>
     e \<le> 5"
proof -
  have s: "terminated (map of_char ''[1, {'' @ [0])" "length (c_str (map of_char ''[1, {'' @ [0] :: bytes)) \<le> 5"
    by (simp_all add: terminated_def c_str_def)
  then show ?thesis
    using cJSON_ParseWithOpts_safe [OF s(1), of True demo_heap] by fastforce
qed

end
