(* ===== verification/CJsonPrint.thy ===== *)
theory CJsonPrint
  imports CJsonParse
begin

text \<open>
  The printer of \<open>cJSON.c\<close>: the buffer that grows (\<open>ensure\<close>, \<open>update_offset\<close>), numbers, strings, arrays and
  objects, and the four entry points.

  A printing routine of the model takes the print buffer and the heap. The children of a container are
  handed to its loop as their names and printing routines. \<open>item_text\<close> is the specification: the text an
  item stands for, \<open>None\<close> where the code refuses to print. \<open>print_value_ok\<close> shows that the code prints
  exactly that text or fails, and never writes outside its buffer.
\<close>

section \<open>The print buffer\<close>

record printbuffer =
  pr_buffer :: "bytes option"
  pr_length :: nat
  pr_offset :: nat
  pr_depth :: nat
  pr_noalloc :: bool
  pr_format :: bool

text \<open>
  The result of \<open>ensure\<close>: whether the pointer is not null (it is the buffer at the offset then). The
  manual reallocation copies \<open>offset + 1\<close> bytes of the old block.
\<close>

definition ensure :: "nat \<Rightarrow> printbuffer \<Rightarrow> heap \<Rightarrow> (bool \<times> printbuffer \<times> heap) cres" where
  "ensure needed p h =
     (case pr_buffer p of
        None \<Rightarrow> Inr (False, p, h)
      | Some buf \<Rightarrow>
          if 0 < pr_length p \<and> pr_length p \<le> pr_offset p then Inr (False, p, h)
          else if INT_MAX < int needed then Inr (False, p, h)
          else let need = needed + pr_offset p + 1
               in if need \<le> pr_length p then Inr (True, p, h)
                  else if pr_noalloc p then Inr (False, p, h)
                  else if INT_MAX div 2 < int need \<and> INT_MAX < int need then Inr (False, p, h)
                  else let newsize = (if INT_MAX div 2 < int need then nat INT_MAX else need * 2);
                           lost = p\<lparr>pr_length := 0, pr_buffer := None\<rparr>
                       in if has_realloc h then
                            (case reallocate buf newsize h of
                               (None, h1) \<Rightarrow> Inr (False, lost, deallocate h1)
                             | (Some new, h1) \<Rightarrow> Inr (True, p\<lparr>pr_length := newsize, pr_buffer := Some new\<rparr>, h1))
                          else
                            (case allocate newsize h of
                               (None, h1) \<Rightarrow> Inr (False, lost, deallocate h1)
                             | (Some new, h1) \<Rightarrow>
                                 cbind (memcpy_at new 0 buf 0 (pr_offset p + 1)) (\<lambda>new'.
                                   Inr (True, p\<lparr>pr_length := newsize, pr_buffer := Some new'\<rparr>, deallocate h1))))"

definition update_offset :: "printbuffer \<Rightarrow> printbuffer cres" where
  "update_offset p =
     (case pr_buffer p of
        None \<Rightarrow> Inr p
      | Some buf \<Rightarrow> cbind (strlen (drop (pr_offset p) buf)) (\<lambda>n. Inr (p\<lparr>pr_offset := pr_offset p + n\<rparr>)))"

text \<open>Writing through \<open>output_pointer\<close>, from the offset on.\<close>

definition emit :: "bytes \<Rightarrow> printbuffer \<Rightarrow> printbuffer cres" where
  "emit bs p =
     (case pr_buffer p of
        None \<Rightarrow> Inl NullDeref
      | Some buf \<Rightarrow> cbind (put_bytes buf (pr_offset p) bs) (\<lambda>buf'. Inr (p\<lparr>pr_buffer := Some buf'\<rparr>)))"

type_synonym printer = "printbuffer \<Rightarrow> heap \<Rightarrow> (bool \<times> printbuffer \<times> heap) cres"

text \<open>Reserving room, writing, and advancing: the steps all the routines are made of.\<close>

definition reserve :: "nat \<Rightarrow> printer \<Rightarrow> printer" where
  "reserve needed k p h = cbind (ensure needed p h) (\<lambda>(ok, p, h). if ok then k p h else Inr (False, p, h))"

definition advance :: "nat \<Rightarrow> printbuffer \<Rightarrow> printbuffer" where
  "advance n p = p\<lparr>pr_offset := pr_offset p + n\<rparr>"

definition put_text :: "bytes \<Rightarrow> printer" where
  "put_text bs p h = cbind (emit bs p) (\<lambda>p. Inr (True, p, h))"

section \<open>Numbers and strings\<close>

definition number_text :: "dbl \<Rightarrow> bytes" where
  "number_text d =
     (if \<not> finite_dbl d then s_null
      else let t = fmt_g 15 d
           in case strtod t of
                None \<Rightarrow> fmt_g 17 d
              | Some (test, _) \<Rightarrow> if dbl_eq test d then t else fmt_g 17 d)"

text \<open>\<open>number_buffer\<close> has 26 bytes; \<open>sprintf\<close> does not look at its size.\<close>

definition print_number :: "cJSON \<Rightarrow> printer" where
  "print_number item p h =
     (let t = number_text (valuedouble item)
      in if 26 < length t + 1 then Inl OutOfBounds
         else reserve (length t + 1) (\<lambda>p h.
           cbind (emit (t @ [0]) p) (\<lambda>p. Inr (True, advance (length t) p, h))) p h)"

definition short_escape :: "u8 \<Rightarrow> u8 option" where
  "short_escape b =
     (if b = 0x22 \<or> b = 0x5C then Some b else if b = 0x08 then Some 0x62 else if b = 0x0C then Some 0x66
      else if b = 0x0A then Some 0x6E else if b = 0x0D then Some 0x72 else if b = 0x09 then Some 0x74
      else None)"

definition escape_count :: "bytes \<Rightarrow> nat" where
  "escape_count s =
     sum_list (map (\<lambda>b. if short_escape b \<noteq> None then 1 else if b < 32 then 5 else 0) s)"

definition lower_hex :: "u8 \<Rightarrow> u8" where
  "lower_hex n = (if n < 10 then 0x30 + n else 0x57 + n)"

text \<open>\<open>sprintf("u%04x")\<close> of a byte, without its terminator.\<close>

definition unicode_escape :: "u8 \<Rightarrow> bytes" where
  "unicode_escape b = [0x75, 0x30, 0x30, lower_hex (drop_bit 4 b), lower_hex (b AND 0xF)]"

fun print_escaped :: "bytes \<Rightarrow> nat \<Rightarrow> bytes \<Rightarrow> bytes cres" where
  "print_escaped buf op [] = Inr buf"
| "print_escaped buf op (b # s) =
     (if 31 < b \<and> b \<noteq> 0x22 \<and> b \<noteq> 0x5C then
        cbind (put_byte buf op b) (\<lambda>buf. print_escaped buf (op + 1) s)
      else cbind (put_byte buf op 0x5C) (\<lambda>buf.
        case short_escape b of
          Some e \<Rightarrow> cbind (put_byte buf (op + 1) e) (\<lambda>buf. print_escaped buf (op + 2) s)
        | None \<Rightarrow> cbind (put_bytes buf (op + 1) (unicode_escape b @ [0])) (\<lambda>buf. print_escaped buf (op + 6) s)))"

definition print_string_ptr :: "bytes option \<Rightarrow> printer" where
  "print_string_ptr input p h =
     (case input of
        None \<Rightarrow> reserve 3 (put_text [0x22, 0x22, 0]) p h
      | Some s \<Rightarrow>
          cbind (strlen s) (\<lambda>n.
            let str = c_str s;
                output_length = n + escape_count str
            in reserve (output_length + 3) (\<lambda>p h.
                 if escape_count str = 0 then put_text (0x22 # str @ [0x22, 0]) p h
                 else case pr_buffer p of
                     None \<Rightarrow> Inl NullDeref
                   | Some buf \<Rightarrow>
                       cbind (put_byte buf (pr_offset p) 0x22) (\<lambda>buf.
                       cbind (print_escaped buf (pr_offset p + 1) str) (\<lambda>buf.
                       cbind (put_bytes buf (pr_offset p + output_length + 1) [0x22, 0]) (\<lambda>buf.
                         Inr (True, p\<lparr>pr_buffer := Some buf\<rparr>, h))))) p h))"

definition print_string :: "cJSON \<Rightarrow> printer" where
  "print_string item p h = print_string_ptr (valuestring item) p h"

section \<open>Containers and values\<close>

text \<open>The loops, on the printing routines of the elements.\<close>

fun print_array_loop :: "printer list \<Rightarrow> printer" where
  "print_array_loop [] p h =
     reserve 2 (\<lambda>p h. cbind (emit [0x5D, 0] p) (\<lambda>p. Inr (True, p\<lparr>pr_depth := pr_depth p - 1\<rparr>, h))) p h"
| "print_array_loop (pv # pvs) p h =
     cbind (pv p h) (\<lambda>(ok, p, h).
     if \<not> ok then Inr (False, p, h)
     else cbind (update_offset p) (\<lambda>p.
     if pvs \<noteq> [] then
       (let sep = (if pr_format p then [0x2C, 0x20] else [0x2C])
        in reserve (length sep + 1) (\<lambda>p h.
             cbind (emit (sep @ [0]) p) (\<lambda>p. print_array_loop pvs (advance (length sep) p) h)) p h)
     else print_array_loop pvs p h))"

definition print_array :: "printer list \<Rightarrow> printer" where
  "print_array pvs p h =
     reserve 1 (\<lambda>p h.
       cbind (emit [0x5B] p) (\<lambda>p. print_array_loop pvs ((advance 1 p)\<lparr>pr_depth := pr_depth p + 1\<rparr>) h)) p h"

definition tabs :: "nat \<Rightarrow> bytes" where
  "tabs n = replicate n 0x09"

definition print_indent :: "printer \<Rightarrow> printer" where
  "print_indent k p h =
     (if pr_format p then
        reserve (pr_depth p) (\<lambda>p h. cbind (emit (tabs (pr_depth p)) p) (\<lambda>p. k (advance (pr_depth p) p) h)) p h
      else k p h)"

fun print_object_loop :: "(bytes option \<times> printer) list \<Rightarrow> printer" where
  "print_object_loop [] p h =
     reserve (if pr_format p then pr_depth p + 1 else 2) (\<lambda>p h.
       cbind (emit ((if pr_format p then tabs (pr_depth p - 1) else []) @ [0x7D, 0]) p) (\<lambda>p.
         Inr (True, p\<lparr>pr_depth := pr_depth p - 1\<rparr>, h))) p h"
| "print_object_loop ((name, pv) # pvs) p h =
     print_indent (\<lambda>p h.
       cbind (print_string_ptr name p h) (\<lambda>(ok, p, h).
       if \<not> ok then Inr (False, p, h)
       else cbind (update_offset p) (\<lambda>p.
         let sep = (if pr_format p then [0x3A, 0x09] else [0x3A])
         in reserve (length sep) (\<lambda>p h.
              cbind (emit sep p) (\<lambda>p.
              cbind (pv (advance (length sep) p) h) (\<lambda>(ok, p, h).
              if \<not> ok then Inr (False, p, h)
              else cbind (update_offset p) (\<lambda>p.
                let sep = (if pvs \<noteq> [] then [0x2C] else []) @ (if pr_format p then [0x0A] else [])
                in reserve (length sep + 1) (\<lambda>p h.
                     cbind (emit (sep @ [0]) p) (\<lambda>p. print_object_loop pvs (advance (length sep) p) h)) p h)))) p h))) p h"

definition print_object :: "(bytes option \<times> printer) list \<Rightarrow> printer" where
  "print_object pvs p h =
     (let open_text = (if pr_format p then [0x7B, 0x0A] else [0x7B])
      in reserve (length open_text + 1) (\<lambda>p h.
           cbind (emit open_text p) (\<lambda>p.
             print_object_loop pvs (advance (length open_text) (p\<lparr>pr_depth := pr_depth p + 1\<rparr>)) h)) p h)"

definition print_raw :: "bytes option \<Rightarrow> printer" where
  "print_raw vs p h =
     (case vs of
        None \<Rightarrow> Inr (False, p, h)
      | Some s \<Rightarrow> cbind (strlen s) (\<lambda>n. reserve (n + 1) (put_text (c_str s @ [0])) p h))"

primrec print_value :: "cJSON \<Rightarrow> printer" where
  "print_value (Item ty vs vi vd nm ks) p h =
     (let kind = ty AND 0xFF;
          pvs = map (\<lambda>k. (istring k, print_value k)) ks
      in if kind = cJSON_NULL then reserve 5 (put_text (s_null @ [0])) p h
         else if kind = cJSON_False then reserve 6 (put_text (s_false @ [0])) p h
         else if kind = cJSON_True then reserve 5 (put_text (s_true @ [0])) p h
         else if kind = cJSON_Number then print_number (Item ty vs vi vd nm ks) p h
         else if kind = cJSON_Raw then print_raw vs p h
         else if kind = cJSON_String then print_string (Item ty vs vi vd nm ks) p h
         else if kind = cJSON_Array then print_array (map snd pvs) p h
         else if kind = cJSON_Object then print_object pvs p h
         else Inr (False, p, h))"

section \<open>The entry points\<close>

definition print_item :: "cJSON option \<Rightarrow> printer" where
  "print_item item p h = (case item of None \<Rightarrow> Inr (False, p, h) | Some x \<Rightarrow> print_value x p h)"

definition print_fail :: "printbuffer \<Rightarrow> heap \<Rightarrow> (bytes option \<times> heap) cres" where
  "print_fail p h = Inr (None, if pr_buffer p = None then h else deallocate h)"

definition print :: "cJSON option \<Rightarrow> bool \<Rightarrow> heap \<Rightarrow> (bytes option \<times> heap) cres" where
  "print item format h =
     (case allocate 256 h of
        (None, h1) \<Rightarrow> Inr (None, h1)
      | (Some buf, h1) \<Rightarrow>
          cbind (print_item item \<lparr>pr_buffer = Some buf, pr_length = 256, pr_offset = 0, pr_depth = 0,
                   pr_noalloc = False, pr_format = format\<rparr> h1) (\<lambda>(ok, p, h2).
          if \<not> ok then print_fail p h2
          else cbind (update_offset p) (\<lambda>p.
            case pr_buffer p of
              None \<Rightarrow> Inl NullDeref
            | Some buf \<Rightarrow>
                if has_realloc h2 then
                  (case reallocate buf (pr_offset p + 1) h2 of
                     (None, h3) \<Rightarrow> print_fail p h3
                   | (Some printed, h3) \<Rightarrow> Inr (Some printed, h3))
                else
                  (case allocate (pr_offset p + 1) h2 of
                     (None, h3) \<Rightarrow> print_fail p h3
                   | (Some printed, h3) \<Rightarrow>
                       cbind (memcpy_at printed 0 buf 0 (min (pr_length p) (pr_offset p + 1))) (\<lambda>printed.
                       cbind (put_byte printed (pr_offset p) 0) (\<lambda>printed.
                         Inr (Some printed, deallocate h3)))))))"

definition cJSON_Print :: "cJSON option \<Rightarrow> heap \<Rightarrow> (bytes option \<times> heap) cres" where
  "cJSON_Print item h = print item True h"

definition cJSON_PrintUnformatted :: "cJSON option \<Rightarrow> heap \<Rightarrow> (bytes option \<times> heap) cres" where
  "cJSON_PrintUnformatted item h = print item False h"

definition cJSON_PrintBuffered :: "cJSON option \<Rightarrow> int \<Rightarrow> bool \<Rightarrow> heap \<Rightarrow> (bytes option \<times> heap) cres" where
  "cJSON_PrintBuffered item prebuffer fmt h =
     (if prebuffer < 0 then Inr (None, h)
      else case allocate (nat prebuffer) h of
          (None, h1) \<Rightarrow> Inr (None, h1)
        | (Some buf, h1) \<Rightarrow>
            cbind (print_item item \<lparr>pr_buffer = Some buf, pr_length = nat prebuffer, pr_offset = 0,
                     pr_depth = 0, pr_noalloc = False, pr_format = fmt\<rparr> h1) (\<lambda>(ok, p, h2).
              if \<not> ok then print_fail p h2 else Inr (pr_buffer p, h2)))"

text \<open>The caller's buffer afterwards; \<open>None\<close> for a null pointer.\<close>

definition cJSON_PrintPreallocated ::
    "cJSON option \<Rightarrow> bytes option \<Rightarrow> int \<Rightarrow> bool \<Rightarrow> heap \<Rightarrow> (bool \<times> bytes option \<times> heap) cres" where
  "cJSON_PrintPreallocated item buf len fmt h =
     (if len < 0 \<or> buf = None then Inr (False, buf, h)
      else cbind (print_item item \<lparr>pr_buffer = buf, pr_length = nat len, pr_offset = 0, pr_depth = 0,
               pr_noalloc = True, pr_format = fmt\<rparr> h) (\<lambda>(ok, p, h'). Inr (ok, pr_buffer p, h')))"

section \<open>The text of an item\<close>

definition esc :: "u8 \<Rightarrow> bytes" where
  "esc b =
     (if 31 < b \<and> b \<noteq> 0x22 \<and> b \<noteq> 0x5C then [b]
      else case short_escape b of Some e \<Rightarrow> [0x5C, e] | None \<Rightarrow> 0x5C # unicode_escape b)"

definition quoted :: "bytes option \<Rightarrow> bytes" where
  "quoted s = 0x22 # concat (map esc (case s of None \<Rightarrow> [] | Some b \<Rightarrow> c_str b)) @ [0x22]"

type_synonym text_fn = "bool \<Rightarrow> nat \<Rightarrow> bytes option"

fun array_text :: "text_fn list \<Rightarrow> text_fn" where
  "array_text [] fm d = Some [0x5D]"
| "array_text (tx # txs) fm d =
     (case tx fm d of None \<Rightarrow> None
      | Some t \<Rightarrow> map_option (\<lambda>r. t @ (if txs \<noteq> [] then (if fm then [0x2C, 0x20] else [0x2C]) else []) @ r)
                   (array_text txs fm d))"

fun object_text :: "(bytes option \<times> text_fn) list \<Rightarrow> text_fn" where
  "object_text [] fm d = Some ((if fm then tabs (d - 1) else []) @ [0x7D])"
| "object_text ((name, tx) # txs) fm d =
     (case tx fm d of None \<Rightarrow> None
      | Some t \<Rightarrow> map_option (\<lambda>r. (if fm then tabs d else []) @ quoted name @ (if fm then [0x3A, 0x09] else [0x3A]) @
                      t @ (if txs \<noteq> [] then [0x2C] else []) @ (if fm then [0x0A] else []) @ r)
                   (object_text txs fm d))"

primrec item_text :: "cJSON \<Rightarrow> text_fn" where
  "item_text (Item ty vs vi vd nm ks) fm d =
     (let kind = ty AND 0xFF; txs = map (\<lambda>k. (istring k, item_text k)) ks
      in if kind = cJSON_NULL then Some s_null
         else if kind = cJSON_False then Some s_false
         else if kind = cJSON_True then Some s_true
         else if kind = cJSON_Number then Some (number_text vd)
         else if kind = cJSON_Raw then map_option c_str vs
         else if kind = cJSON_String then Some (quoted vs)
         else if kind = cJSON_Array then map_option (\<lambda>t. 0x5B # t) (array_text (map snd txs) fm (d + 1))
         else if kind = cJSON_Object
           then map_option (\<lambda>t. (if fm then [0x7B, 0x0A] else [0x7B]) @ t) (object_text txs fm (d + 1))
         else None)"

text \<open>Items the printer can work on: their strings are terminated and their numbers are doubles.\<close>

definition string_ok :: "bytes option \<Rightarrow> bool" where
  "string_ok s \<longleftrightarrow> (case s of None \<Rightarrow> True | Some b \<Rightarrow> terminated b)"

primrec item_wf :: "cJSON \<Rightarrow> bool" where
  "item_wf (Item ty vs vi vd nm ks) \<longleftrightarrow>
     canonical vd \<and> string_ok vs \<and> string_ok nm \<and> list_all id (map item_wf ks)"

section \<open>The contract of the printing routines\<close>

text \<open>A buffer with the text \<open>w\<close> in it and \<open>rest\<close> behind, the offset being at the end of the text.\<close>

definition pst :: "bool \<Rightarrow> bool \<Rightarrow> nat \<Rightarrow> bytes \<Rightarrow> bytes \<Rightarrow> printbuffer" where
  "pst fm na d w rest =
     \<lparr>pr_buffer = Some (w @ rest), pr_length = length w + length rest, pr_offset = length w, pr_depth = d,
      pr_noalloc = na, pr_format = fm\<rparr>"

lemma pst_sel [simp]:
  "pr_buffer (pst fm na d w rest) = Some (w @ rest)" "pr_length (pst fm na d w rest) = length w + length rest"
  "pr_offset (pst fm na d w rest) = length w" "pr_depth (pst fm na d w rest) = d"
  "pr_noalloc (pst fm na d w rest) = na" "pr_format (pst fm na d w rest) = fm"
  "(pst fm na d w rest)\<lparr>pr_depth := d'\<rparr> = pst fm na d' w rest"
  by (simp_all add: pst_def)

lemma pst_cong: "w @ rest = w' @ rest' \<Longrightarrow> (pst fm na d w rest)\<lparr>pr_offset := length w'\<rparr> = pst fm na d w' rest'"
  by (metis (mono_tags, lifting) pst_def length_append printbuffer.update_convs(3))

definition mem_ok :: "bool \<Rightarrow> bytes \<Rightarrow> bytes \<Rightarrow> heap \<Rightarrow> bool" where
  "mem_ok na w rest h \<longleftrightarrow> rest \<noteq> [] \<or> w \<noteq> [] \<or> na \<or> has_realloc h"

definition lost_block :: "printbuffer \<Rightarrow> int" where
  "lost_block p = (if pr_buffer p = None then 1 else 0)"

text \<open>
  The result of a routine: a success has the property \<open>Q\<close> and as many blocks as before, a failure has one
  block less if the buffer is gone.
\<close>

definition pr_res :: "bool \<Rightarrow> heap \<Rightarrow> (printbuffer \<Rightarrow> bool) \<Rightarrow> (bool \<times> printbuffer \<times> heap) cres \<Rightarrow> bool" where
  "pr_res na h Q r \<longleftrightarrow>
     (case r of
        Inl e \<Rightarrow> False
      | Inr (ok, p, h') \<Rightarrow> heap_frame h h' \<and>
          (if ok then Q p \<and> live h' = live h
           else live h' = live h - lost_block p \<and> (na \<longrightarrow> pr_buffer p \<noteq> None)))"

lemma heap_frame_realloc: "heap_frame h h' \<Longrightarrow> has_realloc h' = has_realloc h"
  by (simp add: heap_frame_def)

lemma reallocate_cases:
  obtains (null) h' where "reallocate old n h = (None, h')" "live h' = live h" "heap_frame h h'"
  | (block) h' where "reallocate old n h = (Some (take n old @ replicate (n - length old) (fill h)), h')"
      "live h' = live h" "heap_frame h h'"
  by (cases "grant h (calls h) n") (auto simp: reallocate_def heap_frame_def)

lemma ensure_cases:
  assumes "mem_ok na w rest h"
  obtains (ok) rest' h' where "ensure needed (pst fm na d w rest) h = Inr (True, pst fm na d w rest', h')"
    "needed < length rest'" "heap_frame h h'" "live h' = live h"
  | (failed) p h' where "ensure needed (pst fm na d w rest) h = Inr (False, p, h')" "heap_frame h h'"
    "live h' = live h - lost_block p" "na \<longrightarrow> pr_buffer p \<noteq> None"
proof -
  let ?p = "pst fm na d w rest" and ?need = "needed + length w + 1"
  let ?new = "if INT_MAX div 2 < int ?need then nat INT_MAX else ?need * 2"
  let ?lost = "?p\<lparr>pr_length := 0, pr_buffer := None\<rparr>"
  have failed_here: "ensure needed ?p h = Inr (False, ?p, h) \<Longrightarrow> ?thesis"
    using failed [of ?p h] by (simp add: lost_block_def)
  show ?thesis
  proof (cases "(0 < pr_length ?p \<and> rest = []) \<or> INT_MAX < int needed")
    case True
    then show ?thesis
      by (intro failed_here) (auto simp: ensure_def)
  next
    case go: False
    show ?thesis
    proof (cases "?need \<le> length w + length rest")
      case True
      then show ?thesis
        using ok [of rest h] go by (simp add: ensure_def Let_def)
    next
      case big: False
      show ?thesis
      proof (cases "na \<or> INT_MAX < int ?need")
        case True
        then show ?thesis
          using go big by (intro failed_here) (auto simp: ensure_def Let_def INT_MAX_def)
      next
        case False
        define N where "N = ?new"
        have size: "needed + length w < N" "length w + length rest \<le> N"
          using False big by (auto simp: INT_MAX_def N_def)
        have na: "na = False" and fits: "\<not> INT_MAX < int ?need"
          using False by simp_all
        have front: "\<not> (0 < pr_length ?p \<and> pr_length ?p \<le> pr_offset ?p)" "\<not> INT_MAX < int needed"
          using go by auto
        have "\<not> ?need \<le> pr_length ?p"
          using big by simp
        note start = this front fits
        show ?thesis
        proof (cases "has_realloc h")
          case True
          have run: "ensure needed ?p h = (case reallocate (w @ rest) N h of
              (None, h1) \<Rightarrow> Inr (False, ?lost, deallocate h1)
            | (Some new, h1) \<Rightarrow> Inr (True, ?p\<lparr>pr_length := N, pr_buffer := Some new\<rparr>, h1))"
            using start True unfolding ensure_def na N_def by (auto simp: Let_def simp del: pst_sel(2) cong: option.case_cong)
          show ?thesis
          proof (cases rule: reallocate_cases [of "w @ rest" N h])
            case (null h1)
            then show ?thesis
              using failed [of ?lost "deallocate h1"] False by (simp add: run lost_block_def)
          next
            case (block h1)
            let ?rest = "rest @ replicate (N - length (w @ rest)) (fill h)"
            have "take N (w @ rest) = w @ rest"
              using size(2) by simp
            then have "?p\<lparr>pr_length := N, pr_buffer := Some (take N (w @ rest) @ replicate (N - length (w @ rest)) (fill h))\<rparr>
                = pst fm na d w ?rest"
              using size by (simp add: pst_def)
            then show ?thesis
              using ok [of ?rest h1] block size by (simp add: run)
          qed
        next
          case no: False
          have run: "ensure needed ?p h = (case allocate N h of
              (None, h1) \<Rightarrow> Inr (False, ?lost, deallocate h1)
            | (Some new, h1) \<Rightarrow> cbind (memcpy_at new 0 (w @ rest) 0 (length w + 1)) (\<lambda>new'.
                Inr (True, ?p\<lparr>pr_length := N, pr_buffer := Some new'\<rparr>, deallocate h1)))"
            using start no unfolding ensure_def na N_def by (auto simp: Let_def simp del: pst_sel(2) cong: option.case_cong)
          have ne: "rest \<noteq> []"
            using go assms False no by (auto simp: mem_ok_def)
          show ?thesis
          proof (cases rule: allocate_cases [of N h])
            case (null h1)
            then show ?thesis
              using failed [of ?lost "deallocate h1"] False by (simp add: run lost_block_def)
          next
            case (block h1)
            let ?rest = "take 1 rest @ replicate (N - (length w + 1)) (fill h)"
            have cp: "memcpy_at (replicate N (fill h)) 0 (w @ rest) 0 (length w + 1) = Inr (w @ ?rest)"
              using size ne by (cases rest) (simp_all add: memcpy_at_def overlay_def)
            have "?p\<lparr>pr_length := N, pr_buffer := Some (w @ ?rest)\<rparr> = pst fm na d w ?rest"
              using size ne by (cases rest) (simp_all add: pst_def)
            then have "ensure needed ?p h = Inr (True, pst fm na d w ?rest, deallocate h1)"
              using block(1) cp by (simp add: run)
            moreover have "needed < length ?rest"
              using size ne by (cases rest) simp_all
            ultimately show ?thesis
              using ok [of ?rest "deallocate h1"] block(2,3) by simp
          qed
        qed
      qed
    qed
  qed
qed

subsection \<open>Steps\<close>

lemma put_bytes_append:
  "length bs \<le> length rest \<Longrightarrow> put_bytes (w @ rest) (length w) bs = Inr (w @ bs @ drop (length bs) rest)"
proof (induction bs arbitrary: w rest)
  case (Cons b bs)
  then obtain x rest' where rest: "rest = x # rest'"
    by (cases rest) auto
  have "(w @ rest)[length w := b] = (w @ [b]) @ rest'"
    by (simp add: rest)
  then show ?case
    using Cons.IH [of rest' "w @ [b]"] Cons.prems by (simp add: rest)
qed simp

lemma emit_pst: "length bs \<le> length rest \<Longrightarrow>
    emit bs (pst fm na d w rest) = Inr (pst fm na d w (bs @ drop (length bs) rest))"
  by (simp add: emit_def put_bytes_append pst_def)

lemma advance_pst: "n \<le> length rest \<Longrightarrow> advance n (pst fm na d w rest) = pst fm na d (w @ take n rest) (drop n rest)"
  by (simp add: advance_def pst_def)

lemma update_offset_pst:
  "nul_free v \<Longrightarrow> update_offset (pst fm na d w (v @ 0 # r)) = Inr (pst fm na d (w @ v) (0 # r))"
  by (simp add: update_offset_def strlen_nul_free pst_def)

text \<open>The text \<open>t\<close> has been written behind \<open>w\<close>, with a terminator; the offset is somewhere in it.\<close>

definition printed :: "bool \<Rightarrow> bool \<Rightarrow> nat \<Rightarrow> bytes \<Rightarrow> bytes \<Rightarrow> printbuffer \<Rightarrow> bool" where
  "printed fm na d w t p \<longleftrightarrow> nul_free t \<and> (\<exists>u v r. t = u @ v \<and> p = pst fm na d (w @ u) (v @ 0 # r))"

lemma printedI: "nul_free (u @ v) \<Longrightarrow> t = u @ v \<Longrightarrow> printed fm na d w t (pst fm na d (w @ u) (v @ 0 # r))"
  unfolding printed_def by blast

lemma printed_update:
  assumes "printed fm na d w t p"
  obtains r where "update_offset p = Inr (pst fm na d (w @ t) (0 # r))"
  using assms by (auto simp: printed_def update_offset_pst)

definition says :: "bytes option \<Rightarrow> bool \<Rightarrow> bool \<Rightarrow> nat \<Rightarrow> bytes \<Rightarrow> printbuffer \<Rightarrow> bool" where
  "says t fm na d w p \<longleftrightarrow> (\<exists>s. t = Some s \<and> printed fm na d w s p)"

lemma pr_res_frame: "pr_res na h' Q r \<Longrightarrow> heap_frame h h' \<Longrightarrow> live h' = live h \<Longrightarrow> pr_res na h Q r"
  by (auto simp: pr_res_def split: sum.splits prod.splits if_splits intro: heap_frame_trans)

lemma pr_res_mono: "pr_res na h Q r \<Longrightarrow> (\<And>p. Q p \<Longrightarrow> Q' p) \<Longrightarrow> pr_res na h Q' r"
  by (auto simp: pr_res_def split: sum.splits prod.splits if_splits)

lemma pr_res_True: "Q p \<Longrightarrow> pr_res na h Q (Inr (True, p, h))"
  by (simp add: pr_res_def)

lemma pr_res_bind:
  assumes "pr_res na h Q r"
    and "\<And>p h'. Q p \<Longrightarrow> heap_frame h h' \<Longrightarrow> live h' = live h \<Longrightarrow> pr_res na h' Q' (k p h')"
  shows "pr_res na h Q' (cbind r (\<lambda>(ok, p, h). if \<not> ok then Inr (False, p, h) else k p h))"
proof (cases r)
  case (Inl e)
  then show ?thesis
    using assms(1) by (simp add: pr_res_def)
next
  case (Inr x)
  obtain ok p h' where x: "x = (ok, p, h')"
    by (cases x) auto
  show ?thesis
  proof (cases ok)
    case True
    then have "Q p" "heap_frame h h'" "live h' = live h"
      using assms(1) Inr x by (simp_all add: pr_res_def)
    then show ?thesis
      using assms(2) [of p h'] Inr x True by (auto intro: pr_res_frame)
  next
    case False
    then show ?thesis
      using assms(1) Inr x by (simp add: pr_res_def)
  qed
qed

lemma reserve_res:
  assumes "mem_ok na w rest h"
    and "\<And>rest' h'. needed < length rest' \<Longrightarrow> heap_frame h h' \<Longrightarrow> live h' = live h
          \<Longrightarrow> pr_res na h' Q (k (pst fm na d w rest') h')"
  shows "pr_res na h Q (reserve needed k (pst fm na d w rest) h)"
  using assms(1)
proof (cases rule: ensure_cases [where needed = needed and fm = fm and d = d])
  case (ok rest' h')
  then show ?thesis
    using assms(2) [of rest' h'] by (auto simp: reserve_def intro: pr_res_frame)
next
  case (failed p h')
  then show ?thesis
    by (simp add: reserve_def pr_res_def)
qed

text \<open>A routine writes the text \<open>tx\<close> or fails, wherever it starts.\<close>

definition printer_ok :: "printer \<Rightarrow> text_fn \<Rightarrow> bool" where
  "printer_ok pv tx \<longleftrightarrow>
     (\<forall>fm na d w rest h. mem_ok na w rest h \<longrightarrow> pr_res na h (says (tx fm d) fm na d w) (pv (pst fm na d w rest) h))"

lemma printer_okD:
  "printer_ok pv tx \<Longrightarrow> mem_ok na w rest h \<Longrightarrow> pr_res na h (says (tx fm d) fm na d w) (pv (pst fm na d w rest) h)"
  by (simp add: printer_ok_def)

subsection \<open>Literals, numbers and strings\<close>

lemma put_text_says:
  assumes "nul_free t" "length t < length rest"
  shows "pr_res na h (says (Some t) fm na d w) (put_text (t @ [0]) (pst fm na d w rest) h)"
  using assms printedI [of "[]" t t fm na d w "drop (Suc (length t)) rest"]
  by (simp add: put_text_def emit_pst pr_res_def says_def)

lemma nul_free_number_text: "nul_free (number_text d)"
  by (auto simp: number_text_def Let_def nul_free_fmt_g s_null_def split: option.split)

lemma length_number_text: "canonical d \<Longrightarrow> length (number_text d) \<le> 24"
  using length_fmt_g [of d 15] length_fmt_g [of d 17]
  by (auto simp: number_text_def Let_def s_null_def split: option.split)

lemma print_number_ok:
  assumes "canonical (valuedouble item)" "mem_ok na w rest h"
  shows "pr_res na h (says (Some (number_text (valuedouble item))) fm na d w) (print_number item (pst fm na d w rest) h)"
proof -
  let ?t = "number_text (valuedouble item)"
  have "pr_res na h' (says (Some ?t) fm na d w)
      (cbind (emit (?t @ [0]) (pst fm na d w rest')) (\<lambda>p. Inr (True, advance (length ?t) p, h')))"
    if "length ?t + 1 < length rest'" for rest' h'
    using that printedI [of ?t "[]" ?t fm na d w "drop (Suc (length ?t)) rest'"] nul_free_number_text
    by (simp add: emit_pst advance_pst pr_res_def says_def)
  then show ?thesis
    using length_number_text [OF assms(1)] assms(2)
    by (simp add: print_number_def Let_def reserve_res)
qed

lemma lower_hex_nonzero:
  assumes "n < 16"
  shows "lower_hex n \<noteq> 0"
  using nibble_cases [OF assms] by (elim insertE emptyE) (simp_all add: lower_hex_def)

lemma nul_free_esc: "b \<noteq> 0 \<Longrightarrow> nul_free (esc b)"
  using lower_hex_nonzero [OF nibble_bounds(1)] lower_hex_nonzero [OF nibble_bounds(2)]
  by (auto simp: esc_def unicode_escape_def short_escape_def split: option.split)

lemma nul_free_escs: "nul_free s \<Longrightarrow> nul_free (concat (map esc s))"
  by (induction s) (simp_all add: nul_free_esc)

lemma nul_free_quoted: "nul_free (quoted s)"
  by (simp add: quoted_def nul_free_escs split: option.split)

lemma not_plain_less: "\<not> (31 < b \<and> b \<noteq> 0x22 \<and> b \<noteq> 0x5C) \<Longrightarrow> short_escape b = None \<Longrightarrow> (b :: u8) < 32"
proof -
  assume "\<not> (31 < b \<and> b \<noteq> 0x22 \<and> b \<noteq> 0x5C)" "short_escape b = None"
  then have "\<not> 31 < b"
    by (auto simp: short_escape_def)
  then show "b < 32"
    by (simp add: word_less_nat_alt)
qed

lemma length_esc:
  "length (esc b) = 1 + (if short_escape b \<noteq> None then 1 else if b < 32 then 5 else 0)"
proof (cases "31 < b \<and> b \<noteq> 0x22 \<and> b \<noteq> 0x5C")
  case True
  moreover from True have "\<not> b < 32"
    by (simp add: word_less_nat_alt)
  moreover from True this have "short_escape b = None"
    by (auto simp: short_escape_def)
  ultimately show ?thesis
    by (simp add: esc_def)
next
  case False
  then show ?thesis
    using not_plain_less [OF False] by (auto simp: esc_def unicode_escape_def split: option.split)
qed

lemma length_escs: "length (concat (map esc s)) = length s + escape_count s"
  by (induction s) (simp_all add: length_esc escape_count_def)

lemma escs_plain: "escape_count s = 0 \<Longrightarrow> concat (map esc s) = s"
proof (induction s)
  case (Cons b s)
  have "length (esc b) = 1"
    using Cons.prems by (simp add: length_esc escape_count_def split: if_splits)
  then have "esc b = [b]"
    by (auto simp: esc_def unicode_escape_def split: option.splits if_splits)
  then show ?case
    using Cons by (simp add: escape_count_def)
qed simp

lemma print_escaped_append:
  "length (concat (map esc s)) < length rest \<Longrightarrow>
     \<exists>x. print_escaped (w @ rest) (length w) s = Inr (w @ concat (map esc s) @ x) \<and>
         length x + length (concat (map esc s)) = length rest"
proof (induction s arbitrary: w rest)
  case (Cons b s)
  let ?k = "length (esc b)"
  have step: "\<exists>y. length y + ?k = length rest \<and>
      print_escaped (w @ rest) (length w) (b # s) = print_escaped ((w @ esc b) @ y) (length (w @ esc b)) s"
  proof -
    have len: "?k < length rest"
      using Cons.prems by simp
    have one: "put_byte (w @ rest) (length w) c = Inr (w @ c # drop 1 rest)" for c
      using put_bytes_append [of "[c]" rest w] len by (cases rest) (auto simp: put_byte_def)
    show ?thesis
    proof (cases "31 < b \<and> b \<noteq> 0x22 \<and> b \<noteq> 0x5C")
      case True
      then show ?thesis
        using len one [of b] by (intro exI [of _ "drop 1 rest"]) (simp add: esc_def)
    next
      case False
      show ?thesis
      proof (cases "short_escape b")
        case (Some e)
        then have e: "esc b = [0x5C, e]"
          using False by (auto simp: esc_def)
        then have "2 \<le> length rest"
          using len by simp
        then have "put_byte (w @ 0x5C # drop 1 rest) (length w + 1) e = Inr (w @ 0x5C # e # drop 2 rest)"
          by (cases rest; cases "tl rest") (auto simp: put_byte_def list_update_append)
        then show ?thesis
          using False Some one [of "0x5C"] e \<open>2 \<le> length rest\<close>
          by (intro exI [of _ "drop 2 rest"]) auto
      next
        case None
        have e: "esc b = 0x5C # unicode_escape b" "length (unicode_escape b) = 5"
          using False None by (auto simp: esc_def unicode_escape_def)
        have "put_bytes (w @ 0x5C # drop 1 rest) (length w + 1) (unicode_escape b @ [0]) =
            Inr (w @ 0x5C # unicode_escape b @ 0 # drop 7 rest)"
          using put_bytes_append [of "unicode_escape b @ [0]" "drop 1 rest" "w @ [0x5C]"] len e by simp
        then show ?thesis
          using False None one [of "0x5C"] e len by (intro exI [of _ "0 # drop 7 rest"]) auto
      qed
    qed
  qed
  then obtain y where y: "length y + ?k = length rest"
    "print_escaped (w @ rest) (length w) (b # s) = print_escaped ((w @ esc b) @ y) (length (w @ esc b)) s"
    by blast
  have "length (concat (map esc s)) < length y"
    using Cons.prems y(1) by simp
  then obtain x where x: "print_escaped ((w @ esc b) @ y) (length (w @ esc b)) s = Inr ((w @ esc b) @ concat (map esc s) @ x)"
    "length x + length (concat (map esc s)) = length y"
    using Cons.IH [of y "w @ esc b"] by blast
  then show ?case
    using y by (intro exI [of _ x]) simp
qed simp

lemma print_string_ptr_ok:
  assumes "string_ok s" "mem_ok na w rest h"
  shows "pr_res na h (says (Some (quoted s)) fm na d w) (print_string_ptr s (pst fm na d w rest) h)"
proof (cases s)
  case None
  have "pr_res na h' (says (Some (quoted s)) fm na d w) (put_text [0x22, 0x22, 0] (pst fm na d w rest') h')"
    if "3 < length rest'" for rest' h'
    using put_text_says [OF nul_free_quoted, of s rest' na h' fm d w] that by (simp add: None quoted_def)
  then show ?thesis
    using None assms(2) by (auto simp: print_string_ptr_def intro: reserve_res)
next
  case (Some b)
  let ?s = "c_str b" and ?e = "concat (map esc (c_str b))"
  have q: "quoted s = 0x22 # ?e @ [0x22]" and len: "length ?e = length ?s + escape_count ?s"
    by (simp_all add: Some quoted_def length_escs)
  have n: "strlen b = Inr (length ?s)"
    using assms(1) by (simp add: Some string_ok_def strlen_def)
  let ?k = "\<lambda>p h. if escape_count ?s = 0 then put_text (0x22 # ?s @ [0x22, 0]) p h
      else case pr_buffer p of
          None \<Rightarrow> Inl NullDeref
        | Some buf \<Rightarrow>
            cbind (put_byte buf (pr_offset p) 0x22) (\<lambda>buf.
            cbind (print_escaped buf (pr_offset p + 1) ?s) (\<lambda>buf.
            cbind (put_bytes buf (pr_offset p + (length ?s + escape_count ?s) + 1) [0x22, 0]) (\<lambda>buf.
              Inr (True, p\<lparr>pr_buffer := Some buf\<rparr>, h))))"
  have body: "pr_res na h' (says (Some (quoted s)) fm na d w) (?k (pst fm na d w rest') h')"
    if room: "length ?s + escape_count ?s + 3 < length rest'" for rest' h'
  proof (cases "escape_count ?s = 0")
    case True
    then have "0x22 # ?s @ [0x22, 0] = quoted s @ [0]"
      by (simp add: q escs_plain)
    then show ?thesis
      using True room len q put_text_says [OF nul_free_quoted, of s rest'] by simp
  next
    case False
    obtain c rest1 where rest1: "rest' = c # rest1"
      using room by (cases rest') auto
    have first: "put_byte (w @ rest') (length w) 0x22 = Inr ((w @ [0x22]) @ rest1)"
      by (simp add: rest1 put_byte_def)
    have "length ?e < length rest1"
      using room len rest1 by simp
    then obtain x where x: "print_escaped ((w @ [0x22]) @ rest1) (length (w @ [0x22])) ?s = Inr ((w @ [0x22]) @ ?e @ x)"
      "length x + length ?e = length rest1"
      using print_escaped_append [of ?s rest1 "w @ [0x22]"] by blast
    have "length [0x22, 0 :: u8] \<le> length x"
      using x(2) room len rest1 by simp
    from put_bytes_append [OF this, of "w @ 0x22 # ?e"]
    have last: "put_bytes (w @ 0x22 # ?e @ x) (Suc (length w + length ?e)) [0x22, 0] =
        Inr (w @ quoted s @ 0 # drop 2 x)"
      by (simp add: q numeral_2_eq_2)
    have "?k (pst fm na d w rest') h' =
        Inr (True, (pst fm na d w rest')\<lparr>pr_buffer := Some (w @ quoted s @ 0 # drop 2 x)\<rparr>, h')"
      using False first x(1) last len by simp
    moreover have "(pst fm na d w rest')\<lparr>pr_buffer := Some (w @ quoted s @ 0 # drop 2 x)\<rparr> =
        pst fm na d w (quoted s @ 0 # drop 2 x)"
      using x(2) room rest1 len by (simp add: pst_def q)
    ultimately show ?thesis
      using printedI [of "[]" "quoted s" "quoted s" fm na d w "drop 2 x"] nul_free_quoted
      by (simp add: pr_res_def says_def)
  qed
  have "print_string_ptr s (pst fm na d w rest) h = reserve (length ?s + escape_count ?s + 3) ?k (pst fm na d w rest) h"
    by (simp add: print_string_ptr_def Some n Let_def)
  then show ?thesis
    by (simp only:) (rule reserve_res [OF assms(2)], rule body)
qed

subsection \<open>Arrays\<close>

lemma mem_ok_frame: "mem_ok na w rest h \<Longrightarrow> heap_frame h h' \<Longrightarrow> mem_ok na w rest h'"
  by (auto simp: mem_ok_def heap_frame_def)

lemma mem_ok_rest [simp]: "mem_ok na w (b # rest) h" "rest \<noteq> [] \<Longrightarrow> mem_ok na w rest h"
  "w \<noteq> [] \<Longrightarrow> mem_ok na w rest h"
  by (simp_all add: mem_ok_def)

text \<open>The end of an array or object takes the depth back, which \<open>says\<close> does not look at.\<close>

lemma says_append:
  assumes "says (Some t) fm na d (w @ a) p" "nul_free a"
  shows "says (Some (a @ t)) fm na d w p"
proof -
  obtain u v r where "t = u @ v" "p = pst fm na d ((w @ a) @ u) (v @ 0 # r)" "nul_free t"
    using assms(1) by (auto simp: says_def printed_def)
  then show ?thesis
    using assms(2) printedI [of "a @ u" v "a @ t" fm na d w r] by (simp add: says_def)
qed

lemma says_some_append:
  "says t fm na d (w @ a) p \<Longrightarrow> nul_free a \<Longrightarrow> says (map_option (\<lambda>t. a @ t) t) fm na d w p"
  using says_append by (auto simp: says_def)

lemma print_array_loop_ok:
  assumes "list_all2 printer_ok pvs txs" "0 < d" "w \<noteq> [] \<or> rest \<noteq> []"
  shows "pr_res na h (says (array_text txs fm d) fm na (d - 1) w) (print_array_loop pvs (pst fm na d w rest) h)"
  using assms(1,3)
proof (induction pvs txs arbitrary: w rest h rule: list_all2_induct)
  case Nil
  have "pr_res na h' (says (Some [0x5D]) fm na (d - 1) w)
      (cbind (emit [0x5D, 0] (pst fm na d w rest')) (\<lambda>p. Inr (True, p\<lparr>pr_depth := pr_depth p - 1\<rparr>, h')))"
    if "2 < length rest'" for rest' h'
    using that printedI [of "[]" "[0x5D]" "[0x5D]" fm na "d - 1" w "drop (Suc (Suc 0)) rest'"]
    by (simp add: emit_pst pr_res_def says_def)
  then show ?case
    using Nil by (auto intro!: reserve_res)
next
  case (Cons pv pvs tx txs)
  let ?sep = "if fm then [0x2C, 0x20] else [0x2C :: u8]"
  have m: "mem_ok na w rest h"
    using Cons.prems by auto
  have more: "pr_res na h' (says (array_text (tx # txs) fm d) fm na (d - 1) w)
      (cbind (update_offset p) (\<lambda>p.
        if pvs \<noteq> [] then
          (let sep = (if pr_format p then [0x2C, 0x20] else [0x2C])
           in reserve (length sep + 1) (\<lambda>p h.
                cbind (emit (sep @ [0]) p) (\<lambda>p. print_array_loop pvs (advance (length sep) p) h)) p h')
        else print_array_loop pvs p h'))"
    if said: "says (tx fm d) fm na d w p" for p h'
  proof -
    obtain t where t: "tx fm d = Some t" "printed fm na d w t p"
      using said by (auto simp: says_def)
    obtain r where upd: "update_offset p = Inr (pst fm na d (w @ t) (0 # r))"
      using printed_update [OF t(2)] by blast
    have nf: "nul_free t"
      using t(2) by (simp add: printed_def)
    have empty: "pvs = [] \<longleftrightarrow> txs = []"
      using Cons.hyps(2) by auto
    show ?thesis
    proof (cases "pvs = []")
      case True
      have "pr_res na h' (says (array_text txs fm d) fm na (d - 1) (w @ t))
          (print_array_loop pvs (pst fm na d (w @ t) (0 # r)) h')"
        by (rule Cons.IH) simp
      then show ?thesis
        using True empty nf t(1) by (auto simp: upd intro: pr_res_mono says_append)
    next
      case False
      let ?cont = "\<lambda>p h. cbind (emit (?sep @ [0]) p) (\<lambda>p. print_array_loop pvs (advance (length ?sep) p) h)"
      have body: "pr_res na h'' (says (array_text (tx # txs) fm d) fm na (d - 1) w) (?cont (pst fm na d (w @ t) rest') h'')"
        if "length ?sep + 1 < length rest'" for rest' h''
      proof -
        have run: "?cont (pst fm na d (w @ t) rest') h'' =
            print_array_loop pvs (pst fm na d ((w @ t) @ ?sep) (0 # drop (length ?sep + 1) rest')) h''"
          using that by (simp add: emit_pst advance_pst)
        have "pr_res na h'' (says (array_text txs fm d) fm na (d - 1) (w @ (t @ ?sep)))
            (print_array_loop pvs (pst fm na d ((w @ t) @ ?sep) (0 # drop (length ?sep + 1) rest')) h'')"
          using Cons.IH [of "(w @ t) @ ?sep" "0 # drop (length ?sep + 1) rest'" h''] by simp
        then show ?thesis
          unfolding run
          by (rule pr_res_mono)
            (use says_some_append [of "array_text txs fm d" fm na "d - 1" w "t @ ?sep"] nf t(1) False empty in
              \<open>auto simp: option.map_comp comp_def split: if_splits\<close>)
      qed
      have "pr_res na h' (says (array_text (tx # txs) fm d) fm na (d - 1) w)
          (reserve (length ?sep + 1) ?cont (pst fm na d (w @ t) (0 # r)) h')"
        by (rule reserve_res [OF mem_ok_rest(1)], rule body)
      then show ?thesis
        using False by (simp add: upd Let_def)
    qed
  qed
  show ?case
    using pr_res_bind [OF printer_okD [OF Cons.hyps(1) m] more] by simp
qed

lemma print_array_ok:
  assumes "list_all2 printer_ok pvs txs" "mem_ok na w rest h"
  shows "pr_res na h (says (map_option (\<lambda>t. 0x5B # t) (array_text txs fm (d + 1))) fm na d w)
     (print_array pvs (pst fm na d w rest) h)"
proof -
  have "pr_res na h' (says (map_option (\<lambda>t. 0x5B # t) (array_text txs fm (d + 1))) fm na d w)
      (cbind (emit [0x5B] (pst fm na d w rest')) (\<lambda>p. print_array_loop pvs ((advance 1 p)\<lparr>pr_depth := pr_depth p + 1\<rparr>) h'))"
    if "1 < length rest'" for rest' h'
  proof -
    have "pr_res na h' (says (array_text txs fm (d + 1)) fm na (d + 1 - 1) (w @ [0x5B]))
        (print_array_loop pvs (pst fm na (d + 1) (w @ [0x5B]) (drop (Suc 0) rest')) h')"
      by (rule print_array_loop_ok [OF assms(1)]) simp_all
    then show ?thesis
      using that says_some_append [of "array_text txs fm (d + 1)" fm na d w "[0x5B]"]
      by (auto simp: emit_pst advance_pst elim!: pr_res_mono)
  qed
  then show ?thesis
    unfolding print_array_def by (intro reserve_res [OF assms(2)]) simp
qed

subsection \<open>Objects\<close>

lemma nul_free_tabs [simp]: "nul_free (tabs n)"
  by (simp add: tabs_def nul_free_def)

lemma length_tabs [simp]: "length (tabs n) = n"
  by (simp add: tabs_def)

definition indent :: "bool \<Rightarrow> nat \<Rightarrow> bytes" where
  "indent fm d = (if fm then tabs d else [])"

lemma indent_res:
  assumes "mem_ok na w rest h"
    and "\<And>rest' h'. mem_ok na (w @ indent fm d) rest' h' \<Longrightarrow> pr_res na h' Q (k (pst fm na d (w @ indent fm d) rest') h')"
  shows "pr_res na h Q (print_indent k (pst fm na d w rest) h)"
proof (cases fm)
  case True
  have "pr_res na h' Q (cbind (emit (tabs (pr_depth (pst fm na d w rest'))) (pst fm na d w rest'))
      (\<lambda>p. k (advance (pr_depth p) p) h'))" if "d < length rest'" for rest' h'
    using that assms(2) [of "drop d rest'" h'] True by (simp add: emit_pst advance_pst indent_def)
  then have "pr_res na h Q (reserve d (\<lambda>p h. cbind (emit (tabs (pr_depth p)) p) (\<lambda>p. k (advance (pr_depth p) p) h))
      (pst fm na d w rest) h)"
    by (intro reserve_res [OF assms(1)]) simp
  then show ?thesis
    using True by (simp add: print_indent_def)
next
  case False
  then show ?thesis
    using assms by (simp add: print_indent_def indent_def)
qed

text \<open>Room for a piece of text, the text, and the offset behind it; with or without a terminator.\<close>

lemma literal_res:
  assumes "mem_ok na w rest h" "length bs \<le> needed" "length a \<le> length bs"
    and "\<And>r h'. r \<noteq> [] \<Longrightarrow> pr_res na h' Q (k (pst fm na d (w @ take (length a) bs) r) h')"
  shows "pr_res na h Q (reserve needed (\<lambda>p h. cbind (emit bs p) (\<lambda>p. k (advance (length a) p) h)) (pst fm na d w rest) h)"
proof -
  have "pr_res na h' Q (cbind (emit bs (pst fm na d w rest')) (\<lambda>p. k (advance (length a) p) h'))"
    if "needed < length rest'" for rest' h'
    using that assms(2,3) assms(4) [of "drop (length a) bs @ drop (length bs) rest'" h'] by (simp add: emit_pst advance_pst)
  then show ?thesis
    by (intro reserve_res [OF assms(1)])
qed

lemma upd_res:
  assumes "said = Some t" "says said fm na d w p"
    and "\<And>r. pr_res na h Q (k (pst fm na d (w @ t) (0 # r)))"
  shows "pr_res na h Q (cbind (update_offset p) k)"
proof -
  have "printed fm na d w t p"
    using assms(1,2) by (simp add: says_def)
  then obtain r where "update_offset p = Inr (pst fm na d (w @ t) (0 # r))"
    by (rule printed_update)
  then show ?thesis
    using assms(3) [of r] by simp
qed

definition member_ok :: "bytes option \<times> printer \<Rightarrow> bytes option \<times> text_fn \<Rightarrow> bool" where
  "member_ok m t \<longleftrightarrow> fst m = fst t \<and> string_ok (fst m) \<and> printer_ok (snd m) (snd t)"

text \<open>The two halves of a round of the loop over an object: from the name to its value, and from the value to the next member.\<close>

lemma value_end_res:
  assumes "says (tx fm d) fm na d v p"
    and rest: "\<And>t r h. tx fm d = Some t \<Longrightarrow> nul_free t \<Longrightarrow> r \<noteq> [] \<Longrightarrow>
      pr_res na h Q (cont (pst fm na d (v @ t @ (if comma then [0x2C] else []) @ (if fm then [0x0A] else [])) r) h)"
  shows "pr_res na h' Q (cbind (update_offset p) (\<lambda>p.
      let sep = (if comma then [0x2C] else []) @ (if pr_format p then [0x0A] else [])
      in reserve (length sep + 1) (\<lambda>p h. cbind (emit (sep @ [0]) p) (\<lambda>p. cont (advance (length sep) p) h)) p h'))"
proof -
  let ?tail = "(if comma then [0x2C] else []) @ (if fm then [0x0A] else []) :: bytes"
  obtain t where t: "tx fm d = Some t" "nul_free t"
    using assms(1) by (auto simp: says_def printed_def)
  show ?thesis
  proof (rule upd_res [OF t(1) assms(1)])
    fix r
    have "pr_res na h' Q (reserve (length ?tail + 1)
        (\<lambda>p h. cbind (emit (?tail @ [0]) p) (\<lambda>p. cont (advance (length ?tail) p) h)) (pst fm na d (v @ t) (0 # r)) h')"
      by (rule literal_res) (use rest [OF t] in simp_all)
    then show "pr_res na h' Q (let sep = (if comma then [0x2C] else []) @ (if pr_format (pst fm na d (v @ t) (0 # r)) then [0x0A] else [])
        in reserve (length sep + 1) (\<lambda>p h. cbind (emit (sep @ [0]) p) (\<lambda>p. cont (advance (length sep) p) h))
          (pst fm na d (v @ t) (0 # r)) h')"
      by (simp add: Let_def)
  qed
qed

lemma name_end_res:
  assumes "says (Some s) fm na d v p" and pv: "printer_ok pv tx"
    and rest: "\<And>p h. says (tx fm d) fm na d (v @ s @ (if fm then [0x3A, 0x09] else [0x3A])) p \<Longrightarrow> pr_res na h Q (cont p h)"
  shows "pr_res na h' Q (cbind (update_offset p) (\<lambda>p.
      let sep = (if pr_format p then [0x3A, 0x09] else [0x3A])
      in reserve (length sep) (\<lambda>p h.
           cbind (emit sep p) (\<lambda>p.
           cbind (pv (advance (length sep) p) h) (\<lambda>(ok, p, h). if \<not> ok then Inr (False, p, h) else cont p h))) p h'))"
proof (rule upd_res [OF refl assms(1)])
  fix r
  let ?colon = "if fm then [0x3A, 0x09] else [0x3A :: u8]"
  let ?k = "\<lambda>p h. cbind (pv p h) (\<lambda>(ok, p, h). if \<not> ok then Inr (False, p, h) else cont p h)"
  have "pr_res na h'' Q (?k (pst fm na d ((v @ s) @ take (length ?colon) ?colon) r') h'')"
    if "r' \<noteq> []" for r' h''
  proof (rule pr_res_bind)
    show "pr_res na h'' (says (tx fm d) fm na d (v @ s @ ?colon)) (pv (pst fm na d ((v @ s) @ take (length ?colon) ?colon) r') h'')"
      using printer_okD [OF pv, of na "v @ s @ ?colon" r' h'' fm d] that by simp
  qed (rule rest)
  then have "pr_res na h' Q (reserve (length ?colon) (\<lambda>p h. cbind (emit ?colon p) (\<lambda>p. ?k (advance (length ?colon) p) h))
      (pst fm na d (v @ s) (0 # r)) h')"
    by (intro literal_res) simp_all
  then show "pr_res na h' Q (let sep = (if pr_format (pst fm na d (v @ s) (0 # r)) then [0x3A, 0x09] else [0x3A])
      in reserve (length sep) (\<lambda>p h.
           cbind (emit sep p) (\<lambda>p.
           cbind (pv (advance (length sep) p) h) (\<lambda>(ok, p, h). if \<not> ok then Inr (False, p, h) else cont p h)))
         (pst fm na d (v @ s) (0 # r)) h')"
    unfolding Let_def pst_sel .
qed

lemma print_object_loop_ok:
  assumes "list_all2 member_ok pvs txs" "0 < d" "w \<noteq> [] \<or> rest \<noteq> []"
  shows "pr_res na h (says (object_text txs fm d) fm na (d - 1) w) (print_object_loop pvs (pst fm na d w rest) h)"
  using assms(1,3)
proof (induction pvs txs arbitrary: w rest h rule: list_all2_induct)
  case Nil
  let ?t = "indent fm (d - 1) @ [0x7D]"
  have "pr_res na h' (says (Some ?t) fm na (d - 1) w)
      (cbind (emit (?t @ [0]) (pst fm na d w rest')) (\<lambda>p. Inr (True, p\<lparr>pr_depth := pr_depth p - 1\<rparr>, h')))"
    if "(if fm then d + 1 else 2) < length rest'" for rest' h'
    using that assms(2) printedI [of "[]" ?t ?t fm na "d - 1" w "drop (length (?t @ [0])) rest'"]
    by (auto simp: emit_pst pr_res_def says_def indent_def)
  then have "pr_res na h (says (Some ?t) fm na (d - 1) w)
      (reserve (if fm then d + 1 else 2) (\<lambda>p h. cbind (emit ((if pr_format p then tabs (pr_depth p - 1) else []) @ [0x7D, 0]) p)
        (\<lambda>p. Inr (True, p\<lparr>pr_depth := pr_depth p - 1\<rparr>, h))) (pst fm na d w rest) h)"
    using Nil by (intro reserve_res) (auto simp: indent_def)
  then show ?case
    by (cases fm) (simp_all add: indent_def)
next
  case (Cons m pvs mt txs)
  obtain nm pv tx where m: "m = (nm, pv)" "mt = (nm, tx)" and nm: "string_ok nm" and pv: "printer_ok pv tx"
    using Cons.hyps(1) by (cases m; cases mt) (auto simp: member_ok_def)
  have empty: "pvs = [] \<longleftrightarrow> txs = []"
    using Cons.hyps(2) by auto
  let ?Q = "says (object_text (mt # txs) fm d) fm na (d - 1) w"
  let ?colon = "if fm then [0x3A, 0x09] else [0x3A :: u8]"
  let ?tail = "(if pvs \<noteq> [] then [0x2C] else []) @ (if fm then [0x0A] else []) :: bytes"
  have rest_of: "pr_res na h' ?Q (print_object_loop pvs (pst fm na d (w @ indent fm d @ quoted nm @ ?colon @ t @ ?tail) r) h')"
    if t: "tx fm d = Some t" "nul_free t" and "r \<noteq> []" for t r h'
  proof -
    let ?pre = "indent fm d @ quoted nm @ ?colon @ t @ ?tail"
    have nf: "nul_free ?pre"
      using t(2) nul_free_quoted by (simp add: indent_def)
    have "pr_res na h' (says (object_text txs fm d) fm na (d - 1) (w @ ?pre))
        (print_object_loop pvs (pst fm na d (w @ ?pre) r) h')"
      using Cons.IH \<open>r \<noteq> []\<close> by blast
    then show ?thesis
      by (rule pr_res_mono)
        (use says_some_append [OF _ nf, of "object_text txs fm d" fm na "d - 1" w] t(1) empty in
          \<open>auto simp: m(2) indent_def option.map_comp comp_def split: if_splits\<close>)
  qed
  have "mem_ok na w rest h"
    using Cons.prems by auto
  then show ?case
    unfolding m(1) print_object_loop.simps
  proof (rule indent_res)
    fix rest' h'
    assume mem: "mem_ok na (w @ indent fm d) rest' h'"
    show "pr_res na h' ?Q
      (cbind (print_string_ptr nm (pst fm na d (w @ indent fm d) rest') h') (\<lambda>(ok, p, h).
       if \<not> ok then Inr (False, p, h)
       else cbind (update_offset p) (\<lambda>p.
         let sep = (if pr_format p then [0x3A, 0x09] else [0x3A])
         in reserve (length sep) (\<lambda>p h.
              cbind (emit sep p) (\<lambda>p.
              cbind (pv (advance (length sep) p) h) (\<lambda>(ok, p, h).
              if \<not> ok then Inr (False, p, h)
              else cbind (update_offset p) (\<lambda>p.
                let sep = (if pvs \<noteq> [] then [0x2C] else []) @ (if pr_format p then [0x0A] else [])
                in reserve (length sep + 1) (\<lambda>p h.
                     cbind (emit (sep @ [0]) p) (\<lambda>p. print_object_loop pvs (advance (length sep) p) h)) p h)))) p h)))"
    proof (rule pr_res_bind [OF print_string_ptr_ok [OF nm mem]], rule name_end_res [OF _ pv])
      fix p h''
      assume said: "says (tx fm d) fm na d ((w @ indent fm d) @ quoted nm @ ?colon) p"
      show "pr_res na h'' ?Q (cbind (update_offset p) (\<lambda>p.
          let sep = (if pvs \<noteq> [] then [0x2C] else []) @ (if pr_format p then [0x0A] else [])
          in reserve (length sep + 1) (\<lambda>p h.
               cbind (emit (sep @ [0]) p) (\<lambda>p. print_object_loop pvs (advance (length sep) p) h)) p h''))"
        by (rule value_end_res [where tx = tx and fm = fm and d = d and v = "(w @ indent fm d) @ quoted nm @ ?colon"])
          (use said rest_of in simp_all)
    qed
  qed
qed

lemma print_object_ok:
  assumes "list_all2 member_ok pvs txs" "mem_ok na w rest h"
  shows "pr_res na h (says (map_option (\<lambda>t. (if fm then [0x7B, 0x0A] else [0x7B]) @ t) (object_text txs fm (d + 1))) fm na d w)
     (print_object pvs (pst fm na d w rest) h)"
proof -
  let ?open = "if fm then [0x7B, 0x0A] else [0x7B :: u8]"
  let ?Q = "says (map_option (\<lambda>t. ?open @ t) (object_text txs fm (d + 1))) fm na d w"
  have body: "pr_res na h' ?Q (cbind (emit ?open (pst fm na d w rest')) (\<lambda>p.
      print_object_loop pvs (advance (length ?open) (p\<lparr>pr_depth := pr_depth p + 1\<rparr>)) h'))"
    if "length ?open + 1 < length rest'" for rest' h'
  proof -
    have "pr_res na h' (says (object_text txs fm (d + 1)) fm na (d + 1 - 1) (w @ ?open))
        (print_object_loop pvs (pst fm na (d + 1) (w @ ?open) (drop (length ?open) rest')) h')"
      by (rule print_object_loop_ok [OF assms(1)]) simp_all
    then show ?thesis
      using that says_some_append [of "object_text txs fm (d + 1)" fm na d w ?open]
      by (auto simp: emit_pst advance_pst elim!: pr_res_mono)
  qed
  have "pr_res na h ?Q (reserve (length ?open + 1) (\<lambda>p h. cbind (emit ?open p) (\<lambda>p.
      print_object_loop pvs (advance (length ?open) (p\<lparr>pr_depth := pr_depth p + 1\<rparr>)) h)) (pst fm na d w rest) h)"
    by (rule reserve_res [OF assms(2)], rule body)
  then show ?thesis
    by (simp add: print_object_def Let_def)
qed

text \<open>Every item that is well formed is printed as its text, or not at all.\<close>

lemma print_value_ok: "item_wf item \<Longrightarrow> printer_ok (print_value item) (item_text item)"
proof (induction item)
  case (Item ty vs vi vd nm ks)
  let ?pvs = "map (\<lambda>k. (istring k, print_value k)) ks" and ?txs = "map (\<lambda>k. (istring k, item_text k)) ks"
  have kids: "item_wf k" if "k \<in> set ks" for k
    using Item.prems that by (auto simp: list.pred_set)
  have "canonical vd" "string_ok vs"
    using Item.prems by simp_all
  have "string_ok (istring k)" if "k \<in> set ks" for k
    using kids [OF that] by (cases k) simp
  then have members: "list_all2 member_ok ?pvs ?txs" and elements: "list_all2 printer_ok (map snd ?pvs) (map snd ?txs)"
    using Item.IH kids by (auto simp: list_all2_conv_all_nth member_ok_def)
  have lit: "pr_res na h (says (Some t) fm na d w) (reserve (length t + 1) (put_text (t @ [0])) (pst fm na d w rest) h)"
    if "nul_free t" "mem_ok na w rest h" for t fm na d w rest h
    using that by (intro reserve_res) (simp_all add: put_text_says)
  have words: "nul_free s_null" "nul_free s_true" "nul_free s_false" "length s_null = 4" "length s_true = 4" "length s_false = 5"
    by (simp_all add: s_null_def s_true_def s_false_def)
  have raw: "pr_res na h (says (map_option c_str vs) fm na d w) (print_raw vs (pst fm na d w rest) h)"
    if "mem_ok na w rest h" for fm na d w rest h
  proof (cases vs)
    case None
    then show ?thesis
      by (simp add: print_raw_def pr_res_def lost_block_def)
  next
    case (Some b)
    then have "strlen b = Inr (length (c_str b))"
      using \<open>string_ok vs\<close> by (simp add: string_ok_def strlen_def)
    then show ?thesis
      using lit [OF nul_free_c_str that] Some by (simp add: print_raw_def)
  qed
  have no: "pr_res na h (says None fm na d w) (Inr (False, pst fm na d w rest, h))" for fm na d w rest h
    by (simp add: pr_res_def lost_block_def)
  show ?case
    unfolding printer_ok_def
  proof (intro allI impI)
    fix fm na d w rest h
    assume mem: "mem_ok na w rest h"
    note literals = lit [OF words(1) mem] lit [OF words(2) mem] lit [OF words(3) mem]
    show "pr_res na h (says (item_text (Item ty vs vi vd nm ks) fm d) fm na d w)
        (print_value (Item ty vs vi vd nm ks) (pst fm na d w rest) h)"
      using literals [of fm d] raw [OF mem, of fm d] print_number_ok [of "Item ty vs vi vd nm ks", OF _ mem]
        print_string_ptr_ok [OF \<open>string_ok vs\<close> mem] print_array_ok [OF elements mem] print_object_ok [OF members mem] no
        \<open>canonical vd\<close> words
      by (simp add: Let_def print_string_def comp_def)
  qed
qed

section \<open>Properties\<close>

lemma print_value_run:
  assumes "item_wf x" "mem_ok na [] rest h"
  obtains (ok) v r h' u where "print_value x (pst fm na 0 [] rest) h = Inr (True, pst fm na 0 u (v @ 0 # r), h')"
      "item_text x fm 0 = Some (u @ v)" "nul_free (u @ v)" "heap_frame h h'" "live h' = live h"
  | (failed) p h' where "print_value x (pst fm na 0 [] rest) h = Inr (False, p, h')" "heap_frame h h'"
      "live h' = live h - lost_block p" "na \<longrightarrow> pr_buffer p \<noteq> None"
  using printer_okD [OF print_value_ok [OF assms(1)] assms(2), of fm 0] ok failed
  by (fastforce simp: pr_res_def says_def printed_def split: sum.splits prod.splits if_splits)

lemma print_fail_live: "print_fail p h = Inr (r, h') \<Longrightarrow> r = None \<and> live h' = live h - (1 - lost_block p)"
  by (auto simp: print_fail_def lost_block_def)

text \<open>What a caller of the printing functions gets: nothing, or a block with the text.\<close>

definition prints :: "cJSON \<Rightarrow> bool \<Rightarrow> heap \<Rightarrow> (bytes option \<times> heap) cres \<Rightarrow> bool" where
  "prints x fm h r \<longleftrightarrow>
     (case r of
        Inl e \<Rightarrow> False
      | Inr (None, h') \<Rightarrow> live h' = live h
      | Inr (Some b, h') \<Rightarrow> live h' = live h + 1 \<and> terminated b \<and> item_text x fm 0 = Some (c_str b))"

lemma print_prints:
  assumes "item_wf x"
  shows "prints x fm h (print (Some x) fm h)"
proof (cases rule: allocate_cases [of 256 h])
  case (null h1)
  then show ?thesis
    by (simp add: print_def prints_def)
next
  case (block h1)
  let ?buf = "replicate 256 (fill h)"
  have start: "\<lparr>pr_buffer = Some ?buf, pr_length = 256, pr_offset = 0, pr_depth = 0, pr_noalloc = False, pr_format = fm\<rparr> =
      pst fm False 0 [] ?buf"
    by (simp add: pst_def)
  have mem: "mem_ok False [] ?buf h1"
    by (simp add: mem_ok_def)
  show ?thesis
    using assms mem
  proof (cases rule: print_value_run [where fm = fm])
    case (failed p h2)
    then show ?thesis
      using block by (auto simp: print_def print_item_def start prints_def print_fail_def lost_block_def)
  next
    case (ok v r h2 u)
    let ?t = "u @ v"
    have nf: "nul_free v" "nul_free u"
      using ok(3) by simp_all
    have tt: "c_str (?t @ 0 # rest) = ?t" "terminated (?t @ 0 # rest)" for rest
      using ok(3) by (simp_all only: c_str_nul_free) (simp add: terminated_def)
    show ?thesis
    proof (cases "has_realloc h2")
      case True
      show ?thesis
        by (cases rule: reallocate_cases [of "?t @ 0 # r" "length ?t + 1" h2])
          (use block ok nf True tt [of "[]"] in
            \<open>simp_all add: print_def print_item_def start prints_def print_fail_def update_offset_pst\<close>)
    next
      case False
      show ?thesis
        by (cases rule: allocate_cases [of "length ?t + 1" h2])
          (use block ok nf False tt [of "[]"] in
            \<open>simp_all add: print_def print_item_def start prints_def print_fail_def update_offset_pst memcpy_at_def
              overlay_def put_byte_def min_def list_update_append\<close>)
    qed
  qed
qed

text \<open>
  C3: \<open>cJSON_Print\<close> and \<open>cJSON_PrintUnformatted\<close> of any well-formed item return, write nothing outside their
  buffer however often it has to grow, and give the specified text in one new block or nothing at all, in
  which case no block is left. This holds for every pattern of failing allocations, with \<open>realloc\<close> or
  without it, and whatever fresh memory contains.
\<close>

theorem cJSON_Print_correct:
  assumes "item_wf x"
  shows "prints x True h (cJSON_Print (Some x) h) \<and> prints x False h (cJSON_PrintUnformatted (Some x) h)"
  using print_prints [OF assms] by (simp add: cJSON_Print_def cJSON_PrintUnformatted_def)

definition demo_item :: cJSON where
  "demo_item = Item cJSON_Array None 0 dzero None
     [Item cJSON_String (Some [0x61, 0x22, 0]) 0 dzero None [], Item cJSON_Object None 0 dzero None []]"

theorem cJSON_Print_correct_witness:
  "prints demo_item True demo_heap (cJSON_Print (Some demo_item) demo_heap) \<and>
   item_text demo_item False 0 = Some (map of_char ''['' @ [0x22, 0x61, 0x5C, 0x22, 0x22] @ map of_char '',{}]'')"
proof -
  have "item_wf demo_item"
    by (simp add: demo_item_def dzero_def canonical_def string_ok_def terminated_def)
  moreover have "item_text demo_item False 0 =
      Some (map of_char ''['' @ [0x22, 0x61, 0x5C, 0x22, 0x22] @ map of_char '',{}]'')"
    by (simp add: demo_item_def cJSON_types quoted_def c_str_def esc_def short_escape_def)
  ultimately show ?thesis
    using cJSON_Print_correct [of demo_item demo_heap] by blast
qed

text \<open>
  \<open>cJSON_PrintPreallocated\<close> stays inside the caller's buffer, takes and gives back no memory, and when
  it reports success the buffer holds the text.
\<close>

theorem cJSON_PrintPreallocated_correct:
  assumes "item_wf x" "length buf = nat len" "0 \<le> len"
  shows "\<exists>ok buf' h'. cJSON_PrintPreallocated (Some x) (Some buf) len fm h = Inr (ok, Some buf', h') \<and>
     live h' = live h \<and> (ok \<longrightarrow> terminated buf' \<and> item_text x fm 0 = Some (c_str buf'))"
proof -
  have start: "\<lparr>pr_buffer = Some buf, pr_length = nat len, pr_offset = 0, pr_depth = 0, pr_noalloc = True, pr_format = fm\<rparr> =
      pst fm True 0 [] buf"
    using assms(2) by (simp add: pst_def)
  have mem: "mem_ok True [] buf h"
    by (simp add: mem_ok_def)
  show ?thesis
    using assms(1) mem
  proof (cases rule: print_value_run [where fm = fm])
    case (failed p h')
    then show ?thesis
      using assms(3) by (auto simp: cJSON_PrintPreallocated_def print_item_def start lost_block_def)
  next
    case (ok v r h' u)
    then have "c_str ((u @ v) @ 0 # r) = u @ v" "terminated (u @ v @ 0 # r)"
      by (simp_all only: c_str_nul_free) (simp add: terminated_def)
    then show ?thesis
      using ok assms(3) by (auto simp: cJSON_PrintPreallocated_def print_item_def start)
  qed
qed

theorem cJSON_PrintPreallocated_correct_witness:
  "\<exists>ok buf' h'. cJSON_PrintPreallocated (Some demo_item) (Some (replicate 4 7)) 4 True demo_heap = Inr (ok, Some buf', h') \<and>
     live h' = live demo_heap"
proof -
  have "item_wf demo_item"
    by (simp add: demo_item_def dzero_def canonical_def string_ok_def terminated_def)
  from cJSON_PrintPreallocated_correct [OF this, of "replicate 4 7" 4 True demo_heap] show ?thesis
    by auto
qed

text \<open>
  C35: \<open>cJSON_PrintBuffered\<close> is correct in the same way as \<open>cJSON_Print\<close> if the size it is given is not 0 or
  \<open>realloc\<close> is in use. With size 0 and custom hooks the buffer, an empty block, is grown by copying one byte
  of it: a read past its end.
\<close>

theorem cJSON_PrintBuffered_cases:
  assumes "item_wf x"
  shows "(0 < n \<or> has_realloc h \<longrightarrow> prints x fm h (cJSON_PrintBuffered (Some x) n fm h)) \<and>
     (n = 0 \<and> \<not> has_realloc h \<and> (\<forall>k m. grant h k m) \<and> itype x AND 0xFF = cJSON_NULL \<longrightarrow>
        cJSON_PrintBuffered (Some x) n fm h = Inl OutOfBounds)"
proof (intro conjI impI)
  assume n: "0 < n \<or> has_realloc h"
  show "prints x fm h (cJSON_PrintBuffered (Some x) n fm h)"
  proof (cases rule: allocate_cases [of "nat n" h])
    case (null h1)
    then show ?thesis
      by (simp add: cJSON_PrintBuffered_def prints_def)
  next
    case (block h1)
    let ?buf = "replicate (nat n) (fill h)"
    have start: "\<lparr>pr_buffer = Some ?buf, pr_length = nat n, pr_offset = 0, pr_depth = 0, pr_noalloc = False, pr_format = fm\<rparr> =
        pst fm False 0 [] ?buf"
      by (simp add: pst_def)
    have mem: "mem_ok False [] ?buf h1"
      using n block(3) by (auto simp: mem_ok_def heap_frame_def)
    show ?thesis
      using assms mem
    proof (cases rule: print_value_run [where fm = fm])
      case (failed p h2)
      then show ?thesis
        using block by (auto simp: cJSON_PrintBuffered_def print_item_def start prints_def print_fail_def lost_block_def)
    next
      case (ok v r h2 u)
      then have "c_str ((u @ v) @ 0 # r) = u @ v" "terminated (u @ v @ 0 # r)"
        by (simp_all only: c_str_nul_free) (simp add: terminated_def)
      then show ?thesis
        using ok block by (auto simp: cJSON_PrintBuffered_def print_item_def start prints_def)
    qed
  qed
next
  assume z: "n = 0 \<and> \<not> has_realloc h \<and> (\<forall>k m. grant h k m) \<and> itype x AND 0xFF = cJSON_NULL"
  then show "cJSON_PrintBuffered (Some x) n fm h = Inl OutOfBounds"
    by (cases x) (simp add: cJSON_PrintBuffered_def allocate_def print_item_def Let_def reserve_def ensure_def
        memcpy_at_def INT_MAX_def)
qed

theorem cJSON_PrintBuffered_cases_witness:
  "cJSON_PrintBuffered (Some (set_type cJSON_NULL new_item)) 0 True (demo_heap\<lparr>has_realloc := False\<rparr>) = Inl OutOfBounds"
  using cJSON_PrintBuffered_cases [of "set_type cJSON_NULL new_item" 0 "demo_heap\<lparr>has_realloc := False\<rparr>" True]
  by (simp add: set_type_def new_item_def canonical_def string_ok_def demo_heap_def cJSON_types)

end
