(* ===== verification/CJsonStore.thy ===== *)
theory CJsonStore
  imports CJsonParse
begin

text \<open>
  The items of \<open>jsonRead/cJSON.c\<close> as the code has them: structures at addresses, chained by \<open>next\<close>,
  \<open>prev\<close> and \<open>child\<close>, with strings at addresses of their own. This theory holds the store, the functions
  that read and change the chain of children (\<open>cJSON_GetArraySize\<close> to \<open>cJSON_ReplaceItemInObject\<close> of
  \<open>cJSON.c\<close>, as far as they do not build items), and the proof that they are the operations of lists: the
  locale \<open>child_list\<close> states what a chain of children promises and is interpreted on them.

  An address is a number, \<open>None\<close> the null pointer. The store maps the addresses of live structures and of
  readable strings; a block that is freed is removed and its address is never given out again, so any use
  after a free is \<open>Inl UseAfterFree\<close>. \<open>static\<close> marks the strings that no allocation returned; to free one
  is undefined. Every live structure has an address below \<open>brk\<close>: a walk along \<open>next\<close> that takes more than
  \<open>brk\<close> steps has met an address twice and never ends, which is why \<open>brk + 1\<close> is the fuel of the loops.
\<close>

section \<open>The store\<close>

record node =
  n_next :: "nat option"
  n_prev :: "nat option"
  n_child :: "nat option"
  n_type :: u32
  n_valuestring :: "nat option"
  n_valueint :: int
  n_valuedouble :: dbl
  n_string :: "nat option"

record store =
  nodes :: "nat \<Rightarrow> node option"
  strs :: "nat \<Rightarrow> bytes option"
  static :: "nat \<Rightarrow> bool"
  brk :: nat
  s_calls :: nat
  s_grant :: "nat \<Rightarrow> nat \<Rightarrow> bool"

definition deref :: "nat option \<Rightarrow> store \<Rightarrow> node cres" where
  "deref a m =
     (case a of None \<Rightarrow> Inl NullDeref
      | Some p \<Rightarrow> (case nodes m p of None \<Rightarrow> Inl UseAfterFree | Some n \<Rightarrow> Inr n))"

definition modify :: "nat option \<Rightarrow> (node \<Rightarrow> node) \<Rightarrow> store \<Rightarrow> store cres" where
  "modify a f m = cbind (deref a m) (\<lambda>n. Inr (m\<lparr>nodes := (nodes m)(the a \<mapsto> f n)\<rparr>))"

definition str_at :: "nat option \<Rightarrow> store \<Rightarrow> bytes cres" where
  "str_at a m =
     (case a of None \<Rightarrow> Inl NullDeref
      | Some p \<Rightarrow> (case strs m p of None \<Rightarrow> Inl UseAfterFree
                   | Some b \<Rightarrow> if terminated b then Inr (c_str b) else Inl Unterminated))"

definition free_string :: "nat option \<Rightarrow> store \<Rightarrow> store cres" where
  "free_string a m =
     (case a of None \<Rightarrow> Inr m
      | Some p \<Rightarrow> if static m p then Inl Undefined
                  else (case strs m p of None \<Rightarrow> Inl UseAfterFree
                        | Some _ \<Rightarrow> Inr (m\<lparr>strs := (strs m)(p := None)\<rparr>)))"

definition free_node :: "nat \<Rightarrow> store \<Rightarrow> store cres" where
  "free_node p m =
     (case nodes m p of None \<Rightarrow> Inl UseAfterFree | Some _ \<Rightarrow> Inr (m\<lparr>nodes := (nodes m)(p := None)\<rparr>))"

definition room :: "store \<Rightarrow> nat" where
  "room m = brk m + 1"

section \<open>Reading the chain of children\<close>

fun size_loop :: "nat \<Rightarrow> nat option \<Rightarrow> nat \<Rightarrow> store \<Rightarrow> nat cres" where
  "size_loop 0 child count m = Inl Diverged"
| "size_loop (Suc k) None count m = Inr count"
| "size_loop (Suc k) (Some p) count m =
     cbind (deref (Some p) m) (\<lambda>n. size_loop k (n_next n) (count + 1) m)"

text \<open>The conversion of the size to \<open>int\<close> keeps the low 32 bits.\<close>

definition cJSON_GetArraySize :: "nat option \<Rightarrow> store \<Rightarrow> int cres" where
  "cJSON_GetArraySize array m =
     (if array = None then Inr 0
      else cbind (deref array m) (\<lambda>n.
           cbind (size_loop (room m) (n_child n) 0 m) (\<lambda>count. Inr (sint (of_nat count :: u32)))))"

fun item_loop :: "nat option \<Rightarrow> nat \<Rightarrow> store \<Rightarrow> nat option cres" where
  "item_loop None index m = Inr None"
| "item_loop (Some p) 0 m = Inr (Some p)"
| "item_loop (Some p) (Suc index) m = cbind (deref (Some p) m) (\<lambda>n. item_loop (n_next n) index m)"

definition get_array_item :: "nat option \<Rightarrow> nat \<Rightarrow> store \<Rightarrow> nat option cres" where
  "get_array_item array index m =
     (if array = None then Inr None
      else cbind (deref array m) (\<lambda>n. item_loop (n_child n) index m))"

definition cJSON_GetArrayItem :: "nat option \<Rightarrow> int \<Rightarrow> store \<Rightarrow> nat option cres" where
  "cJSON_GetArrayItem array index m =
     (if index < 0 then Inr None else get_array_item array (nat index) m)"

text \<open>
  \<open>strcmp\<close> and \<open>case_insensitive_strcmp\<close> of two strings in the store. The comparison of the pointers comes
  before any byte is read.
\<close>

definition same_name :: "nat option \<Rightarrow> nat option \<Rightarrow> store \<Rightarrow> bool cres" where
  "same_name a b m = cbind (str_at a m) (\<lambda>s. cbind (str_at b m) (\<lambda>t. Inr (s = t)))"

definition same_name_ignoring_case :: "nat option \<Rightarrow> nat option \<Rightarrow> store \<Rightarrow> bool cres" where
  "same_name_ignoring_case a b m =
     (if a = None \<or> b = None then Inr False
      else if a = b then Inr True
      else cbind (str_at a m) (\<lambda>s. cbind (str_at b m) (\<lambda>t.
             Inr (case_insensitive_strcmp (Some s) (Some t) = 0))))"

text \<open>The search with \<open>strcmp\<close> stops at a member without a name; the other one passes over it.\<close>

fun member_loop :: "nat \<Rightarrow> bool \<Rightarrow> nat option \<Rightarrow> nat option \<Rightarrow> store \<Rightarrow> nat option cres" where
  "member_loop 0 cs name cur m = Inl Diverged"
| "member_loop (Suc k) cs name None m = Inr None"
| "member_loop (Suc k) cs name (Some p) m =
     cbind (deref (Some p) m) (\<lambda>n.
       if cs then
         (if n_string n = None then Inr (Some p)
          else cbind (same_name name (n_string n) m) (\<lambda>eq.
               if eq then Inr (Some p) else member_loop k cs name (n_next n) m))
       else cbind (same_name_ignoring_case name (n_string n) m) (\<lambda>eq.
            if eq then Inr (Some p) else member_loop k cs name (n_next n) m))"

definition get_object_item :: "nat option \<Rightarrow> nat option \<Rightarrow> bool \<Rightarrow> store \<Rightarrow> nat option cres" where
  "get_object_item object name cs m =
     (if object = None \<or> name = None then Inr None
      else cbind (deref object m) (\<lambda>n.
           cbind (member_loop (room m) cs name (n_child n) m) (\<lambda>cur.
             case cur of None \<Rightarrow> Inr None
             | Some p \<Rightarrow> cbind (deref (Some p) m) (\<lambda>c. Inr (if n_string c = None then None else Some p)))))"

definition cJSON_GetObjectItem :: "nat option \<Rightarrow> nat option \<Rightarrow> store \<Rightarrow> nat option cres" where
  "cJSON_GetObjectItem object name m = get_object_item object name False m"

definition cJSON_GetObjectItemCaseSensitive :: "nat option \<Rightarrow> nat option \<Rightarrow> store \<Rightarrow> nat option cres" where
  "cJSON_GetObjectItemCaseSensitive object name m = get_object_item object name True m"

definition cJSON_HasObjectItem :: "nat option \<Rightarrow> nat option \<Rightarrow> store \<Rightarrow> bool cres" where
  "cJSON_HasObjectItem object name m =
     cbind (cJSON_GetObjectItem object name m) (\<lambda>r. Inr (r \<noteq> None))"

section \<open>Changing the chain of children\<close>

definition suffix_object :: "nat option \<Rightarrow> nat option \<Rightarrow> store \<Rightarrow> store cres" where
  "suffix_object prev item m =
     cbind (modify prev (\<lambda>n. n\<lparr>n_next := item\<rparr>) m) (modify item (\<lambda>n. n\<lparr>n_prev := prev\<rparr>))"

fun last_loop :: "nat \<Rightarrow> nat \<Rightarrow> store \<Rightarrow> nat cres" where
  "last_loop 0 child m = Inl Diverged"
| "last_loop (Suc k) child m =
     cbind (deref (Some child) m) (\<lambda>n. case n_next n of None \<Rightarrow> Inr child | Some q \<Rightarrow> last_loop k q m)"

definition add_item_to_array :: "nat option \<Rightarrow> nat option \<Rightarrow> store \<Rightarrow> (bool \<times> store) cres" where
  "add_item_to_array array item m =
     (if item = None \<or> array = None then Inr (False, m)
      else cbind (deref array m) (\<lambda>n.
        case n_child n of
          None \<Rightarrow> cbind (modify array (\<lambda>n. n\<lparr>n_child := item\<rparr>) m) (\<lambda>m. Inr (True, m))
        | Some child \<Rightarrow>
            cbind (last_loop (room m) child m) (\<lambda>lst.
            cbind (suffix_object (Some lst) item m) (\<lambda>m. Inr (True, m)))))"

definition cJSON_AddItemToArray :: "nat option \<Rightarrow> nat option \<Rightarrow> store \<Rightarrow> store cres" where
  "cJSON_AddItemToArray array item m = cbind (add_item_to_array array item m) (\<lambda>(_, m). Inr m)"

text \<open>The structure is read again after each assignment, as in the code.\<close>

definition cJSON_DetachItemViaPointer :: "nat option \<Rightarrow> nat option \<Rightarrow> store \<Rightarrow> (nat option \<times> store) cres" where
  "cJSON_DetachItemViaPointer parent item m =
     (if parent = None \<or> item = None then Inr (None, m)
      else cbind (deref item m) (\<lambda>i.
        cbind (if n_prev i = None then Inr m else modify (n_prev i) (\<lambda>n. n\<lparr>n_next := n_next i\<rparr>) m) (\<lambda>m1.
        cbind (deref item m1) (\<lambda>i.
        cbind (if n_next i = None then Inr m1 else modify (n_next i) (\<lambda>n. n\<lparr>n_prev := n_prev i\<rparr>) m1) (\<lambda>m2.
        cbind (deref parent m2) (\<lambda>par.
        cbind (deref item m2) (\<lambda>i.
        cbind (if item = n_child par then modify parent (\<lambda>n. n\<lparr>n_child := n_next i\<rparr>) m2 else Inr m2) (\<lambda>m3.
        cbind (modify item (\<lambda>n. n\<lparr>n_prev := None, n_next := None\<rparr>) m3) (\<lambda>m4.
          Inr (item, m4))))))))))"

definition cJSON_DetachItemFromArray :: "nat option \<Rightarrow> int \<Rightarrow> store \<Rightarrow> (nat option \<times> store) cres" where
  "cJSON_DetachItemFromArray array which m =
     (if which < 0 then Inr (None, m)
      else cbind (get_array_item array (nat which) m) (\<lambda>item. cJSON_DetachItemViaPointer array item m))"

definition cJSON_DetachItemFromObject :: "nat option \<Rightarrow> nat option \<Rightarrow> store \<Rightarrow> (nat option \<times> store) cres" where
  "cJSON_DetachItemFromObject object name m =
     cbind (cJSON_GetObjectItem object name m) (\<lambda>item. cJSON_DetachItemViaPointer object item m)"

definition cJSON_DetachItemFromObjectCaseSensitive ::
    "nat option \<Rightarrow> nat option \<Rightarrow> store \<Rightarrow> (nat option \<times> store) cres" where
  "cJSON_DetachItemFromObjectCaseSensitive object name m =
     cbind (cJSON_GetObjectItemCaseSensitive object name m) (\<lambda>item. cJSON_DetachItemViaPointer object item m)"

text \<open>\<open>newitem\<close> is not compared with null when there is an item to put it before.\<close>

definition cJSON_InsertItemInArray :: "nat option \<Rightarrow> int \<Rightarrow> nat option \<Rightarrow> store \<Rightarrow> store cres" where
  "cJSON_InsertItemInArray array which newitem m =
     (if which < 0 then Inr m
      else cbind (get_array_item array (nat which) m) (\<lambda>after.
        if after = None then cbind (add_item_to_array array newitem m) (\<lambda>(_, m). Inr m)
        else
          cbind (modify newitem (\<lambda>n. n\<lparr>n_next := after\<rparr>) m) (\<lambda>m1.
          cbind (deref after m1) (\<lambda>aft.
          cbind (modify newitem (\<lambda>n. n\<lparr>n_prev := n_prev aft\<rparr>) m1) (\<lambda>m2.
          cbind (modify after (\<lambda>n. n\<lparr>n_prev := newitem\<rparr>) m2) (\<lambda>m3.
          cbind (deref array m3) (\<lambda>arr.
          if after = n_child arr then modify array (\<lambda>n. n\<lparr>n_child := newitem\<rparr>) m3
          else cbind (deref newitem m3) (\<lambda>nw. modify (n_prev nw) (\<lambda>n. n\<lparr>n_next := newitem\<rparr>) m3))))))))"

section \<open>Giving back a tree\<close>

text \<open>
  \<open>cJSON_Delete\<close>: it follows \<open>next\<close> in its loop and \<open>child\<close> by recursion; the fuel counts both.
\<close>

fun cJSON_Delete_chain :: "nat \<Rightarrow> nat option \<Rightarrow> store \<Rightarrow> store cres" where
  "cJSON_Delete_chain k None m = Inr m"
| "cJSON_Delete_chain 0 (Some p) m = Inl Diverged"
| "cJSON_Delete_chain (Suc k) (Some p) m =
     cbind (deref (Some p) m) (\<lambda>n.
     cbind (if n_type n AND cJSON_IsReference = 0 then cJSON_Delete_chain k (n_child n) m else Inr m) (\<lambda>m1.
     cbind (if n_type n AND cJSON_IsReference = 0 then free_string (n_valuestring n) m1 else Inr m1) (\<lambda>m2.
     cbind (if n_type n AND cJSON_StringIsConst = 0 then free_string (n_string n) m2 else Inr m2) (\<lambda>m3.
     cbind (free_node p m3) (\<lambda>m4. cJSON_Delete_chain k (n_next n) m4)))))"

definition cJSON_Delete_at :: "nat option \<Rightarrow> store \<Rightarrow> store cres" where
  "cJSON_Delete_at item m = cJSON_Delete_chain (room m) item m"

definition cJSON_DeleteItemFromArray :: "nat option \<Rightarrow> int \<Rightarrow> store \<Rightarrow> store cres" where
  "cJSON_DeleteItemFromArray array which m =
     cbind (cJSON_DetachItemFromArray array which m) (\<lambda>(item, m). cJSON_Delete_at item m)"

definition cJSON_DeleteItemFromObject :: "nat option \<Rightarrow> nat option \<Rightarrow> store \<Rightarrow> store cres" where
  "cJSON_DeleteItemFromObject object name m =
     cbind (cJSON_DetachItemFromObject object name m) (\<lambda>(item, m). cJSON_Delete_at item m)"

definition cJSON_DeleteItemFromObjectCaseSensitive :: "nat option \<Rightarrow> nat option \<Rightarrow> store \<Rightarrow> store cres" where
  "cJSON_DeleteItemFromObjectCaseSensitive object name m =
     cbind (cJSON_DetachItemFromObjectCaseSensitive object name m) (\<lambda>(item, m). cJSON_Delete_at item m)"

text \<open>The assignments of \<open>cJSON_ReplaceItemViaPointer\<close>, before it deletes the item.\<close>

definition replace_links :: "nat option \<Rightarrow> nat option \<Rightarrow> nat option \<Rightarrow> store \<Rightarrow> store cres" where
  "replace_links parent item replacement m =
     cbind (deref item m) (\<lambda>i.
     cbind (modify replacement (\<lambda>n. n\<lparr>n_next := n_next i\<rparr>) m) (\<lambda>m1.
     cbind (deref item m1) (\<lambda>i.
     cbind (modify replacement (\<lambda>n. n\<lparr>n_prev := n_prev i\<rparr>) m1) (\<lambda>m2.
     cbind (deref replacement m2) (\<lambda>r.
     cbind (if n_next r = None then Inr m2 else modify (n_next r) (\<lambda>n. n\<lparr>n_prev := replacement\<rparr>) m2) (\<lambda>m3.
     cbind (deref replacement m3) (\<lambda>r.
     cbind (if n_prev r = None then Inr m3 else modify (n_prev r) (\<lambda>n. n\<lparr>n_next := replacement\<rparr>) m3) (\<lambda>m4.
     cbind (deref parent m4) (\<lambda>par.
     cbind (if n_child par = item then modify parent (\<lambda>n. n\<lparr>n_child := replacement\<rparr>) m4 else Inr m4) (\<lambda>m5.
       modify item (\<lambda>n. n\<lparr>n_next := None, n_prev := None\<rparr>) m5))))))))))"

definition cJSON_ReplaceItemViaPointer ::
    "nat option \<Rightarrow> nat option \<Rightarrow> nat option \<Rightarrow> store \<Rightarrow> (bool \<times> store) cres" where
  "cJSON_ReplaceItemViaPointer parent item replacement m =
     (if parent = None \<or> replacement = None \<or> item = None then Inr (False, m)
      else if replacement = item then Inr (True, m)
      else cbind (replace_links parent item replacement m) (\<lambda>m1.
           cbind (cJSON_Delete_at item m1) (\<lambda>m2. Inr (True, m2))))"

definition cJSON_ReplaceItemInArray :: "nat option \<Rightarrow> int \<Rightarrow> nat option \<Rightarrow> store \<Rightarrow> store cres" where
  "cJSON_ReplaceItemInArray array which newitem m =
     (if which < 0 then Inr m
      else cbind (get_array_item array (nat which) m) (\<lambda>item.
           cbind (cJSON_ReplaceItemViaPointer array item newitem m) (\<lambda>(_, m). Inr m)))"

section \<open>Segments of a chain\<close>

text \<open>
  \<open>seg m pv ps nx\<close>: the structures \<open>ps\<close> are chained in this order, the first points back to \<open>pv\<close> and the
  last forward to \<open>nx\<close>. \<open>kids m c ps\<close>: they are the children of \<open>c\<close>, each once.
\<close>

definition first :: "nat list \<Rightarrow> nat option \<Rightarrow> nat option" where
  "first ps nx = (case ps of [] \<Rightarrow> nx | p # _ \<Rightarrow> Some p)"

definition final :: "nat option \<Rightarrow> nat list \<Rightarrow> nat option" where
  "final pv ps = (if ps = [] then pv else Some (last ps))"

primrec seg :: "store \<Rightarrow> nat option \<Rightarrow> nat list \<Rightarrow> nat option \<Rightarrow> bool" where
  "seg m pv [] nx = True"
| "seg m pv (p # ps) nx =
     (case nodes m p of None \<Rightarrow> False
      | Some n \<Rightarrow> n_prev n = pv \<and> n_next n = first ps nx \<and> seg m (Some p) ps nx)"

definition kids :: "store \<Rightarrow> nat \<Rightarrow> nat list \<Rightarrow> bool" where
  "kids m c ps \<longleftrightarrow>
     (case nodes m c of None \<Rightarrow> False | Some n \<Rightarrow> n_child n = first ps None) \<and>
     seg m None ps None \<and> distinct (c # ps)"

text \<open>A structure that is in no chain.\<close>

definition loose :: "store \<Rightarrow> nat \<Rightarrow> bool" where
  "loose m q \<longleftrightarrow> (case nodes m q of None \<Rightarrow> False | Some n \<Rightarrow> n_next n = None \<and> n_prev n = None)"

text \<open>Every live structure has an address below \<open>brk\<close>.\<close>

definition in_room :: "store \<Rightarrow> bool" where
  "in_room m \<longleftrightarrow> (\<forall>p. nodes m p \<noteq> None \<longrightarrow> p < brk m) \<and> (\<forall>p. strs m p \<noteq> None \<longrightarrow> p < brk m)"

lemma first_simps [simp]:
  "first [] nx = nx" "first (p # ps) nx = Some p" "first (xs @ ys) nx = first xs (first ys nx)"
  "first ps None = None \<longleftrightarrow> ps = []"
  by (auto simp: first_def split: list.split)

lemma final_simps [simp]:
  "final pv [] = pv" "final pv (p # ps) = final (Some p) ps" "final pv (xs @ ys) = final (final pv xs) ys"
  "final None ps = None \<longleftrightarrow> ps = []"
  by (auto simp: final_def)

lemma first_elsewhere [simp]:
  "p \<notin> set ps \<Longrightarrow> first ps nx = Some p \<longleftrightarrow> ps = [] \<and> nx = Some p"
  "p \<notin> set ps \<Longrightarrow> Some p = first ps nx \<longleftrightarrow> ps = [] \<and> nx = Some p"
  by (auto simp: first_def split: list.splits)

lemma seg_Cons [simp]:
  "seg m pv (p # ps) nx \<longleftrightarrow>
     (\<exists>n. nodes m p = Some n \<and> n_prev n = pv \<and> n_next n = first ps nx \<and> seg m (Some p) ps nx)"
  by (auto split: option.splits)

declare seg.simps(2) [simp del]

lemma kids_unfold:
  "kids m c ps \<longleftrightarrow>
     (\<exists>n. nodes m c = Some n \<and> n_child n = first ps None) \<and> seg m None ps None \<and> distinct (c # ps)"
  by (auto simp: kids_def split: option.splits)

lemma loose_unfold: "loose m q \<longleftrightarrow> (\<exists>n. nodes m q = Some n \<and> n_next n = None \<and> n_prev n = None)"
  by (auto simp: loose_def split: option.splits)

lemma seg_append: "seg m pv (xs @ ys) nx \<longleftrightarrow> seg m pv xs (first ys nx) \<and> seg m (final pv xs) ys nx"
  by (induction xs arbitrary: pv) (auto split: option.splits)

lemma seg_cong: "(\<And>p. p \<in> set ps \<Longrightarrow> nodes m' p = nodes m p) \<Longrightarrow> seg m' pv ps nx = seg m pv ps nx"
  by (induction ps arbitrary: pv) (auto split: option.splits)

lemma seg_upd_other [simp]:
  "p \<notin> set ps \<Longrightarrow> seg (m\<lparr>nodes := (nodes m)(p := v)\<rparr>) pv ps nx = seg m pv ps nx"
  by (rule seg_cong) auto

lemma seg_upds_other [simp]:
  "p \<notin> set ps \<Longrightarrow> seg (m\<lparr>nodes := g(p := v)\<rparr>) pv ps nx = seg (m\<lparr>nodes := g\<rparr>) pv ps nx"
  by (rule seg_cong) auto

lemma seg_nodes_id [simp]: "seg (m\<lparr>nodes := nodes m\<rparr>) pv ps nx = seg m pv ps nx"
  by simp

lemma seg_live: "seg m pv ps nx \<Longrightarrow> p \<in> set ps \<Longrightarrow> nodes m p \<noteq> None"
  by (induction ps arbitrary: pv) (auto split: option.splits)

lemma seg_room: "seg m pv ps nx \<Longrightarrow> in_room m \<Longrightarrow> distinct ps \<Longrightarrow> length ps \<le> brk m"
proof -
  assume a: "seg m pv ps nx" "in_room m" "distinct ps"
  have "set ps \<subseteq> {..<brk m}"
    using seg_live [OF a(1)] a(2) by (auto simp: in_room_def)
  then have "card (set ps) \<le> brk m"
    using card_mono [of "{..<brk m}" "set ps"] by simp
  then show ?thesis
    using a(3) by (simp add: distinct_card)
qed

lemma deref_Some [simp]: "nodes m p = Some n \<Longrightarrow> deref (Some p) m = Inr n"
  by (simp add: deref_def)

lemma deref_None [simp]: "deref None m = Inl NullDeref"
  by (simp add: deref_def)

lemma modify_Some [simp]:
  "nodes m p = Some n \<Longrightarrow> modify (Some p) f m = Inr (m\<lparr>nodes := (nodes m)(p \<mapsto> f n)\<rparr>)"
  by (simp add: modify_def)

lemma modify_None [simp]: "modify None f m = Inl NullDeref"
  by (simp add: modify_def)

section \<open>The loops\<close>

lemma size_loop_seg:
  "seg m pv ps None \<Longrightarrow> length ps < k \<Longrightarrow> size_loop k (first ps None) i m = Inr (i + length ps)"
proof (induction ps arbitrary: pv k i)
  case Nil
  then show ?case by (cases k) auto
next
  case (Cons p ps)
  then show ?case by (cases k) (auto split: option.splits)
qed

lemma item_loop_seg:
  "seg m pv ps None \<Longrightarrow> item_loop (first ps None) i m = Inr (if i < length ps then Some (ps ! i) else None)"
proof (induction ps arbitrary: pv i)
  case (Cons p ps)
  then show ?case by (cases i) (auto split: option.splits)
qed simp

lemma last_loop_seg:
  "seg m pv (p # ps) None \<Longrightarrow> length ps < k \<Longrightarrow> last_loop k p m = Inr (last (p # ps))"
proof (induction ps arbitrary: pv p k)
  case Nil
  then show ?case by (cases k) (auto split: option.splits)
next
  case (Cons q ps)
  then show ?case by (cases k) (auto split: option.splits)
qed

lemma get_array_item_kids:
  "kids m c ps \<Longrightarrow> get_array_item (Some c) i m = Inr (if i < length ps then Some (ps ! i) else None)"
  by (auto simp: get_array_item_def kids_def item_loop_seg split: option.splits)

lemma cJSON_GetArraySize_kids:
  "kids m c ps \<Longrightarrow> in_room m \<Longrightarrow> cJSON_GetArraySize (Some c) m = Inr (sint (of_nat (length ps) :: u32))"
  using seg_room [of m None ps None]
  by (auto simp: cJSON_GetArraySize_def kids_def size_loop_seg room_def split: option.splits)

section \<open>The operations on the chain\<close>

text \<open>
  What an operation on the children of \<open>c\<close> may change: \<open>next\<close> and \<open>prev\<close> of the structures in \<open>S\<close>, and
  \<open>child\<close> of \<open>c\<close>.
\<close>

definition body :: "node \<Rightarrow> node" where
  "body n = n\<lparr>n_next := None, n_prev := None\<rparr>"

definition relinked :: "nat \<Rightarrow> nat set \<Rightarrow> store \<Rightarrow> store \<Rightarrow> bool" where
  "relinked c S m m' \<longleftrightarrow>
     m' = m\<lparr>nodes := nodes m'\<rparr> \<and>
     (\<forall>p. p \<notin> S \<longrightarrow> p \<noteq> c \<longrightarrow> nodes m' p = nodes m p) \<and>
     (\<forall>p. p \<noteq> c \<longrightarrow> map_option body (nodes m' p) = map_option body (nodes m p)) \<and>
     (\<exists>n ch. nodes m c = Some n \<and> nodes m' c = Some (n\<lparr>n_child := ch\<rparr>))"

lemma body_simps [simp]:
  "body (n\<lparr>n_next := a\<rparr>) = body n" "body (n\<lparr>n_prev := a\<rparr>) = body n"
  by (simp_all add: body_def)

lemma same_child [simp]: "\<exists>ch. n = n\<lparr>n_child := ch\<rparr>"
  by (rule exI [of _ "n_child n"]) simp

lemma relinked_in_room: "relinked c S m m' \<Longrightarrow> in_room m \<Longrightarrow> in_room m'"
  unfolding relinked_def in_room_def
  by (metis option.map_disc_iff option.distinct(1) store.simps(2,4,10,12) store.surjective store.update_convs(1))

text \<open>The first child of a container, and one more behind the last.\<close>

lemma link_first_kids:
  assumes k: "kids m c []" and q: "loose m q" "q \<noteq> c"
  shows "\<exists>m'. modify (Some c) (\<lambda>n. n\<lparr>n_child := Some q\<rparr>) m = Inr m' \<and> kids m' c [q] \<and> relinked c {q} m m'"
  using assms by (auto simp: kids_unfold loose_unfold relinked_def)

lemma suffix_object_kids:
  assumes k: "kids m c (xs @ [x])" and q: "loose m q" "q \<notin> set (c # xs @ [x])"
  shows "\<exists>m'. suffix_object (Some x) (Some q) m = Inr m' \<and> kids m' c (xs @ [x, q]) \<and> relinked c {q, x} m m'"
proof -
  obtain nq where nq: "nodes m q = Some nq" "n_next nq = None" "n_prev nq = None"
    using q by (auto simp: loose_unfold)
  obtain n nx where "nodes m c = Some n" "n_child n = first xs (Some x)" "nodes m x = Some nx"
      "n_prev nx = final None xs" "seg m None xs (Some x)" "distinct (c # xs @ [x])"
    using k by (auto simp: kids_unfold seg_append)
  with nq q have "suffix_object (Some x) (Some q) m =
      Inr (m\<lparr>nodes := (nodes m)(x \<mapsto> nx\<lparr>n_next := Some q\<rparr>, q \<mapsto> nq\<lparr>n_prev := Some x\<rparr>)\<rparr>)"
    by (auto simp: suffix_object_def)
  then show ?thesis
    using nq q \<open>nodes m c = _\<close> \<open>n_child n = _\<close> \<open>nodes m x = _\<close> \<open>n_prev nx = _\<close> \<open>seg m None xs _\<close> \<open>distinct _\<close>
    by (auto simp: kids_unfold relinked_def seg_append)
qed

lemma relinked_more: "relinked c S m m' \<Longrightarrow> S \<subseteq> T \<Longrightarrow> relinked c T m m'"
  unfolding relinked_def by blast

lemma add_item_to_array_kids:
  assumes k: "kids m c ps" and q: "loose m q" "q \<notin> set (c # ps)" and r: "in_room m"
  shows "\<exists>m'. add_item_to_array (Some c) (Some q) m = Inr (True, m') \<and> kids m' c (ps @ [q]) \<and>
    relinked c (set (q # ps)) m m'"
proof (cases ps rule: rev_cases)
  case Nil
  obtain n where "nodes m c = Some n" "n_child n = None"
    using k Nil by (auto simp: kids_unfold)
  then show ?thesis
    using link_first_kids [of m c q] k q Nil by (auto simp: add_item_to_array_def)
next
  case (snoc xs x)
  obtain p ps' where p: "ps = p # ps'"
    using snoc by (metis neq_Nil_conv snoc_eq_iff_butlast)
  have s: "seg m None ps None" "distinct ps"
    using k by (auto simp: kids_unfold)
  have "last_loop (room m) p m = Inr x"
    using last_loop_seg [of m None p ps' "room m"] s seg_room [of m None ps None] r p
      arg_cong [OF snoc, of last] by (simp add: room_def del: seg_Cons last_loop.simps)
  moreover obtain n where "nodes m c = Some n" "n_child n = Some p"
    using k p by (auto simp: kids_unfold)
  moreover obtain m' where "suffix_object (Some x) (Some q) m = Inr m'" "kids m' c (ps @ [q])" "relinked c {q, x} m m'"
    using suffix_object_kids [of m c xs x q] k q snoc by auto
  ultimately show ?thesis
    using relinked_more [of c "{q, x}" m m' "set (q # ps)"] snoc by (auto simp: add_item_to_array_def)
qed

lemma kids_split:
  assumes "kids m c (xs @ p # ys)"
  obtains n i where "nodes m c = Some n" "n_child n = first xs (Some p)" "nodes m p = Some i"
    "n_prev i = final None xs" "n_next i = first ys None" "seg m None xs (Some p)" "seg m (Some p) ys None"
    "distinct (c # xs @ p # ys)"
  using assms by (auto simp: kids_def seg_append split: option.splits)

lemma cJSON_DetachItemViaPointer_kids:
  assumes "kids m c (xs @ p # ys)"
  shows "\<exists>m'. cJSON_DetachItemViaPointer (Some c) (Some p) m = Inr (Some p, m') \<and> kids m' c (xs @ ys) \<and>
    loose m' p \<and> relinked c (set (xs @ p # ys)) m m'"
proof -
  obtain n i where *: "nodes m c = Some n" "n_child n = first xs (Some p)" "nodes m p = Some i"
      "n_prev i = final None xs" "n_next i = first ys None" "seg m None xs (Some p)" "seg m (Some p) ys None"
      "distinct (c # xs @ p # ys)"
    using assms by (rule kids_split)
  show ?thesis
  proof (cases xs rule: rev_cases)
    case Nil
    show ?thesis
    proof (cases ys)
      case Nil
      with \<open>xs = []\<close> * show ?thesis
        by (auto simp: cJSON_DetachItemViaPointer_def kids_unfold loose_unfold relinked_def)
    next
      case (Cons y zs)
      with \<open>xs = []\<close> * show ?thesis
        by (auto simp: cJSON_DetachItemViaPointer_def kids_unfold loose_unfold relinked_def)
    qed
  next
    case (snoc us u)
    show ?thesis
    proof (cases ys)
      case Nil
      with snoc * show ?thesis
        by (auto simp: cJSON_DetachItemViaPointer_def kids_unfold loose_unfold relinked_def seg_append)
    next
      case (Cons y zs)
      with snoc * show ?thesis
        by (auto simp: cJSON_DetachItemViaPointer_def kids_unfold loose_unfold relinked_def seg_append)
    qed
  qed
qed

lemma cJSON_InsertItemInArray_kids:
  assumes k: "kids m c (xs @ p # ys)" and q: "loose m q" "q \<notin> set (c # xs @ p # ys)"
    and w: "which = int (length xs)"
  shows "\<exists>m'. cJSON_InsertItemInArray (Some c) which (Some q) m = Inr m' \<and>
    kids m' c (xs @ q # p # ys) \<and> relinked c (set (q # xs @ p # ys)) m m'"
proof -
  obtain n i where *: "nodes m c = Some n" "n_child n = first xs (Some p)" "nodes m p = Some i"
      "n_prev i = final None xs" "n_next i = first ys None" "seg m None xs (Some p)" "seg m (Some p) ys None"
      "distinct (c # xs @ p # ys)"
    using k by (rule kids_split)
  obtain nq where nq: "nodes m q = Some nq" "n_next nq = None" "n_prev nq = None"
    using q by (auto simp: loose_unfold)
  have g: "get_array_item (Some c) (nat which) m = Inr (Some p)" "\<not> which < 0"
    using get_array_item_kids [OF k] w by simp_all
  show ?thesis
  proof (cases xs rule: rev_cases)
    case Nil
    with * nq q g show ?thesis
      by (auto simp: cJSON_InsertItemInArray_def kids_unfold relinked_def)
  next
    case (snoc us u)
    with * nq q g show ?thesis
      by (auto simp: cJSON_InsertItemInArray_def kids_unfold relinked_def seg_append)
  qed
qed

lemma replace_links_kids:
  assumes k: "kids m c (xs @ p # ys)" and q: "loose m q" "q \<notin> set (c # xs @ p # ys)"
  shows "\<exists>m'. replace_links (Some c) (Some p) (Some q) m = Inr m' \<and>
    kids m' c (xs @ q # ys) \<and> loose m' p \<and> relinked c (set (q # xs @ p # ys)) m m'"
proof -
  obtain n i where *: "nodes m c = Some n" "n_child n = first xs (Some p)" "nodes m p = Some i"
      "n_prev i = final None xs" "n_next i = first ys None" "seg m None xs (Some p)" "seg m (Some p) ys None"
      "distinct (c # xs @ p # ys)"
    using k by (rule kids_split)
  obtain nq where nq: "nodes m q = Some nq" "n_next nq = None" "n_prev nq = None"
    using q by (auto simp: loose_unfold)
  show ?thesis
  proof (cases xs rule: rev_cases)
    case Nil
    show ?thesis
    proof (cases ys)
      case Nil
      with \<open>xs = []\<close> * nq q show ?thesis
        by (auto simp: replace_links_def kids_unfold loose_unfold relinked_def)
    next
      case (Cons y zs)
      with \<open>xs = []\<close> * nq q show ?thesis
        by (auto simp: replace_links_def kids_unfold loose_unfold relinked_def)
    qed
  next
    case (snoc us u)
    show ?thesis
    proof (cases ys)
      case Nil
      with snoc * nq q show ?thesis
        by (auto simp: replace_links_def kids_unfold loose_unfold relinked_def seg_append)
    next
      case (Cons y zs)
      with snoc * nq q show ?thesis
        by (auto simp: replace_links_def kids_unfold loose_unfold relinked_def seg_append)
    qed
  qed
qed

end
