(* ===== verification/CJsonTree.thy ===== *)
theory CJsonTree
  imports CJsonStore "HOL-Library.Multiset"
begin

text \<open>
  Trees of items in the store, and which blocks they own. A \<open>tree\<close> is the shape of a \<open>cJSON\<close> item: the
  addresses of its structure and of the structures below it. A reference (\<open>cJSON_IsReference\<close>) owns
  neither its children nor its \<open>valuestring\<close>, so its tree ends there; a constant name
  (\<open>cJSON_StringIsConst\<close>) belongs to the caller. \<open>tree_ok\<close> is the invariant of the module: the
  structures form the tree, each block has one owner, and what is owned was allocated and is still there.

  The theory proves that \<open>cJSON_Delete\<close> gives back the blocks of a tree, all of them and once, that the
  functions on arrays keep the invariant, and what the search for a member returns.
\<close>

section \<open>Trees and their blocks\<close>

datatype tree = Tree (root: nat) (subtrees: "tree list")

fun owned_nodes :: "tree \<Rightarrow> nat list" where
  "owned_nodes (Tree p ts) = p # concat (map owned_nodes ts)"

definition opt_list :: "'a option \<Rightarrow> 'a list" where
  "opt_list x = (case x of None \<Rightarrow> [] | Some y \<Rightarrow> [y])"

lemma opt_list_simps [simp]: "opt_list None = []" "opt_list (Some y) = [y]"
  by (simp_all add: opt_list_def)

definition strs_of_node :: "node \<Rightarrow> nat list" where
  "strs_of_node n =
     (if n_type n AND cJSON_IsReference = 0 then opt_list (n_valuestring n) else []) @
     (if n_type n AND cJSON_StringIsConst = 0 then opt_list (n_string n) else [])"

definition strs_at :: "store \<Rightarrow> nat \<Rightarrow> nat list" where
  "strs_at m p = (case nodes m p of None \<Rightarrow> [] | Some n \<Rightarrow> strs_of_node n)"

fun owned_strs :: "store \<Rightarrow> tree \<Rightarrow> nat list" where
  "owned_strs m (Tree p ts) = concat (map (owned_strs m) ts) @ strs_at m p"

definition is_ref :: "node \<Rightarrow> bool" where
  "is_ref n \<longleftrightarrow> n_type n AND cJSON_IsReference \<noteq> 0"

fun holds :: "store \<Rightarrow> tree \<Rightarrow> bool" where
  "holds m (Tree p ts) \<longleftrightarrow>
     (case nodes m p of None \<Rightarrow> False
      | Some n \<Rightarrow> if is_ref n then ts = []
                  else n_child n = first (map root ts) None \<and> seg m None (map root ts) None) \<and>
     (\<forall>t \<in> set ts. holds m t)"

abbreviation forest_nodes :: "tree list \<Rightarrow> nat list" where
  "forest_nodes ts \<equiv> concat (map owned_nodes ts)"

abbreviation forest_strs :: "store \<Rightarrow> tree list \<Rightarrow> nat list" where
  "forest_strs m ts \<equiv> concat (map (owned_strs m) ts)"

definition forest_ok :: "store \<Rightarrow> tree list \<Rightarrow> bool" where
  "forest_ok m ts \<longleftrightarrow>
     (\<forall>t \<in> set ts. holds m t) \<and> distinct (forest_nodes ts) \<and> distinct (forest_strs m ts) \<and>
     (\<forall>s \<in> set (forest_strs m ts). strs m s \<noteq> None \<and> \<not> static m s)"

abbreviation tree_ok :: "store \<Rightarrow> tree \<Rightarrow> bool" where
  "tree_ok m t \<equiv> forest_ok m [t]"

definition remove :: "nat list \<Rightarrow> nat list \<Rightarrow> store \<Rightarrow> store" where
  "remove ps ss m =
     m\<lparr>nodes := (\<lambda>p. if p \<in> set ps then None else nodes m p),
       strs := (\<lambda>s. if s \<in> set ss then None else strs m s)\<rparr>"

lemma root_owned: "root t \<in> set (owned_nodes t)"
  by (cases t) simp

lemma holds_live: "holds m t \<Longrightarrow> p \<in> set (owned_nodes t) \<Longrightarrow> nodes m p \<noteq> None"
  by (induction m t rule: holds.induct) (auto split: option.splits)

lemma remove_simps [simp]:
  "nodes (remove ps ss m) p = (if p \<in> set ps then None else nodes m p)"
  "strs (remove ps ss m) s = (if s \<in> set ss then None else strs m s)"
  "static (remove ps ss m) = static m" "brk (remove ps ss m) = brk m"
  "s_calls (remove ps ss m) = s_calls m" "s_grant (remove ps ss m) = s_grant m"
  "remove [] [] m = m"
  by (simp_all add: remove_def)

lemma remove_remove: "remove ps ss (remove qs rs m) = remove (qs @ ps) (rs @ ss) m"
  by (rule store.equality) (auto intro!: ext)

text \<open>What a tree looks like depends on its own structures only.\<close>

lemma holds_cong:
  "(\<And>p. p \<in> set (owned_nodes t) \<Longrightarrow> nodes m' p = nodes m p) \<Longrightarrow> holds m' t = holds m t"
proof (induction t rule: owned_nodes.induct)
  case (1 p ts)
  have "set (map root ts) \<subseteq> set (forest_nodes ts)"
    using root_owned by auto
  then have "seg m' None (map root ts) None = seg m None (map root ts) None"
    using "1.prems" by (intro seg_cong) auto
  moreover have "(\<forall>t \<in> set ts. holds m' t) = (\<forall>t \<in> set ts. holds m t)"
    using 1 by (intro ball_cong) auto
  ultimately show ?case
    using "1.prems" by (auto split: option.splits)
qed

lemma owned_strs_cong:
  "(\<And>p. p \<in> set (owned_nodes t) \<Longrightarrow> nodes m' p = nodes m p) \<Longrightarrow> owned_strs m' t = owned_strs m t"
proof (induction t rule: owned_nodes.induct)
  case (1 p ts)
  have "forest_strs m' ts = forest_strs m ts"
    using 1 by (intro arg_cong [of _ _ concat] map_cong) auto
  then show ?case
    using "1.prems" by (simp only: owned_strs.simps) (simp add: strs_at_def)
qed

lemma forest_strs_cong:
  "(\<And>p. p \<in> set (forest_nodes ts) \<Longrightarrow> nodes m' p = nodes m p) \<Longrightarrow> forest_strs m' ts = forest_strs m ts"
  by (intro arg_cong [of _ _ concat] map_cong owned_strs_cong) auto

section \<open>Deletion\<close>

lemma free_string_remove:
  "(\<forall>s \<in> set (opt_list a). strs m s \<noteq> None \<and> \<not> static m s) \<Longrightarrow>
     free_string a m = Inr (remove [] (opt_list a) m)"
  by (cases a) (auto simp: free_string_def remove_def fun_upd_def intro!: ext)

lemma free_node_remove: "nodes m p = Some n \<Longrightarrow> free_node p m = Inr (remove [p] [] m)"
  by (auto simp: free_node_def remove_def fun_upd_def)

lemma cJSON_Delete_chain_forest:
  "seg m pv (map root ts) None \<Longrightarrow> forest_ok m ts \<Longrightarrow> length (forest_nodes ts) \<le> k \<Longrightarrow>
     cJSON_Delete_chain k (first (map root ts) None) m = Inr (remove (forest_nodes ts) (forest_strs m ts) m)"
proof (induction k arbitrary: ts m pv)
  case 0
  then show ?case
    by (cases ts) (auto, metis list.simps(3) owned_nodes.elims)
next
  case (Suc k)
  show ?case
  proof (cases ts)
    case (Cons t rest)
    obtain p ks where t: "t = Tree p ks"
      by (cases t)
    obtain n where n: "nodes m p = Some n" "n_next n = first (map root rest) None"
        "seg m (Some p) (map root rest) None"
      using Suc.prems(1) Cons t by auto
    have ks: "forest_ok m ks" and own: "\<forall>s \<in> set (strs_of_node n). strs m s \<noteq> None \<and> \<not> static m s"
      using Suc.prems(2) Cons t n by (auto simp: forest_ok_def strs_at_def)
    define m1 where "m1 = remove (forest_nodes ks) (forest_strs m ks) m"
    have "(if n_type n AND cJSON_IsReference = 0 then cJSON_Delete_chain k (n_child n) m else Inr m) = Inr m1"
    proof (cases "is_ref n")
      case True
      then have "ks = []"
        using Suc.prems(2) Cons t n by (auto simp: forest_ok_def)
      with True show ?thesis
        by (simp add: m1_def is_ref_def)
    next
      case False
      then have "n_child n = first (map root ks) None" "seg m None (map root ks) None"
        using Suc.prems(2) Cons t n by (auto simp: forest_ok_def)
      then show ?thesis
        using Suc.IH [of m None ks] ks Suc.prems(3) Cons t False by (simp add: m1_def is_ref_def)
    qed
    moreover define m2 where
      "m2 = remove [] (if n_type n AND cJSON_IsReference = 0 then opt_list (n_valuestring n) else []) m1"
    have dist: "distinct (strs_of_node n)" "\<And>s. s \<in> set (strs_of_node n) \<Longrightarrow> s \<notin> set (forest_strs m ks)"
      using Suc.prems(2) Cons t n by (auto simp: forest_ok_def strs_at_def)
    have "(if n_type n AND cJSON_IsReference = 0 then free_string (n_valuestring n) m1 else Inr m1) = Inr m2"
      using own dist by (auto simp: m2_def m1_def strs_of_node_def intro!: free_string_remove)
    moreover define m3 where
      "m3 = remove [] (if n_type n AND cJSON_StringIsConst = 0 then opt_list (n_string n) else []) m2"
    have "(if n_type n AND cJSON_StringIsConst = 0 then free_string (n_string n) m2 else Inr m2) = Inr m3"
      using own dist by (auto simp: m3_def m2_def m1_def strs_of_node_def intro!: free_string_remove)
    moreover define m4 where "m4 = remove [p] [] m3"
    have "nodes m3 p = Some n"
      using n Suc.prems(2) Cons t by (auto simp: m3_def m2_def m1_def forest_ok_def)
    then have "free_node p m3 = Inr m4"
      by (auto simp: m4_def intro!: free_node_remove)
    moreover have m4: "m4 = remove (owned_nodes t) (owned_strs m t) m"
      by (rule store.equality)
        (use n t in \<open>auto simp: m4_def m3_def m2_def m1_def strs_at_def strs_of_node_def intro!: ext\<close>)
    moreover have apart: "q \<notin> set (owned_nodes t)" if "q \<in> set (forest_nodes rest)" for q
      using that Suc.prems(2) Cons by (auto simp: forest_ok_def)
    have strs_rest: "forest_strs m4 rest = forest_strs m rest"
      by (rule forest_strs_cong) (use apart m4 in auto)
    have holds_rest: "holds m4 x" if "x \<in> set rest" for x
    proof -
      have "holds m4 x = holds m x"
        by (rule holds_cong) (use that apart m4 in auto)
      then show ?thesis
        using that Suc.prems(2) Cons by (simp add: forest_ok_def)
    qed
    have "seg m4 (Some p) (map root rest) None"
      using n(3) apart root_owned by (subst seg_cong [where m = m]) (auto simp: m4)
    moreover have "forest_ok m4 rest"
      using Suc.prems(2) Cons holds_rest unfolding forest_ok_def strs_rest by (auto simp: m4)
    then have "cJSON_Delete_chain k (first (map root rest) None) m4 =
        Inr (remove (forest_nodes rest) (forest_strs m rest) m4)"
      using Suc.IH [of m4 "Some p" rest] \<open>seg m4 _ _ _\<close> Suc.prems(3) Cons t strs_rest by simp
    ultimately show ?thesis
      using Cons t n by (simp add: remove_remove)
  qed simp
qed

lemma forest_room:
  assumes "forest_ok m ts" and "in_room m"
  shows "length (forest_nodes ts) < room m"
proof -
  have "set (forest_nodes ts) \<subseteq> {..<brk m}"
    using assms holds_live by (fastforce simp: forest_ok_def in_room_def)
  then have "card (set (forest_nodes ts)) \<le> brk m"
    using card_mono [of "{..<brk m}"] by fastforce
  then show ?thesis
    using assms(1) distinct_card [of "forest_nodes ts"] by (simp add: forest_ok_def room_def)
qed

lemma cJSON_Delete_at_tree:
  assumes "tree_ok m t" and "loose m (root t)" and "in_room m"
  shows "cJSON_Delete_at (Some (root t)) m = Inr (remove (owned_nodes t) (owned_strs m t) m)"
proof -
  obtain n where "nodes m (root t) = Some n" "n_next n = None" "n_prev n = None"
    using assms(2) by (auto simp: loose_unfold)
  then show ?thesis
    using cJSON_Delete_chain_forest [of m None "[t]" "room m"] assms(1) forest_room [OF assms(1,3)]
    by (simp add: cJSON_Delete_at_def)
qed

text \<open>The item a tree represents, and the number of its blocks.\<close>

definition content :: "store \<Rightarrow> nat option \<Rightarrow> bytes option" where
  "content m a = Option.bind a (strs m)"

fun the_item :: "store \<Rightarrow> tree \<Rightarrow> cJSON" where
  "the_item m (Tree p ts) =
     (case nodes m p of None \<Rightarrow> new_item
      | Some n \<Rightarrow> Item (n_type n) (content m (n_valuestring n)) (n_valueint n) (n_valuedouble n)
                   (content m (n_string n)) (map (the_item m) ts))"

lemma some1_opt_list: "some1 x = int (length (opt_list x))"
  by (cases x) auto

lemma freed_the_item:
  assumes "holds m t" and "\<forall>s \<in> set (owned_strs m t). strs m s \<noteq> None"
  shows "freed (the_item m t) = int (length (owned_nodes t) + length (owned_strs m t))"
  using assms
proof (induction m t rule: holds.induct)
  case (1 m p ts)
  obtain n where n: "nodes m p = Some n" "is_ref n \<Longrightarrow> ts = []"
    using "1.prems" by (auto split: option.splits if_splits)
  have ts: "freed (the_item m t) = int (length (owned_nodes t) + length (owned_strs m t))" if "t \<in> set ts" for t
    using "1.prems" that by (intro "1.IH") auto
  have "sum_list (map freed (map (the_item m) ts)) = int (length (forest_nodes ts) + length (forest_strs m ts))"
    using ts by (induction ts) auto
  moreover have "some1 (content m a) = int (length (opt_list a))"
    if "set (opt_list a) \<subseteq> set (strs_of_node n)" for a
  proof (cases a)
    case (Some s)
    then have "s \<in> set (owned_strs m (Tree p ts))"
      using that n by (auto simp: strs_at_def)
    then obtain b where "strs m s = Some b"
      using "1.prems"(2) by blast
    with Some show ?thesis
      by (simp add: content_def)
  qed (simp add: content_def)
  ultimately show ?case
    using n by (auto simp: is_ref_def strs_at_def strs_of_node_def o_def)
qed

section \<open>The functions on arrays\<close>

text \<open>
  What the functions on arrays promise, in terms of the list \<open>ps\<close> of the children: \<open>chain m c ps\<close> says what
  the children of \<open>c\<close> are, \<open>alone m q\<close> that \<open>q\<close> is in no chain, \<open>step c S m m'\<close> what may have changed.
\<close>

locale child_list =
  fixes chain :: "'s \<Rightarrow> nat \<Rightarrow> nat list \<Rightarrow> bool"
    and alone :: "'s \<Rightarrow> nat \<Rightarrow> bool"
    and fits :: "'s \<Rightarrow> bool"
    and step :: "nat \<Rightarrow> nat set \<Rightarrow> 's \<Rightarrow> 's \<Rightarrow> bool"
    and get :: "nat option \<Rightarrow> int \<Rightarrow> 's \<Rightarrow> nat option cres"
    and insert_at :: "nat option \<Rightarrow> int \<Rightarrow> nat option \<Rightarrow> 's \<Rightarrow> 's cres"
    and detach :: "nat option \<Rightarrow> int \<Rightarrow> 's \<Rightarrow> (nat option \<times> 's) cres"
  assumes get: "chain m c ps \<Longrightarrow>
      get (Some c) i m = Inr (if 0 \<le> i \<and> i < int (length ps) then Some (ps ! nat i) else None)"
    and insert_at: "chain m c ps \<Longrightarrow> alone m q \<Longrightarrow> q \<notin> set (c # ps) \<Longrightarrow> fits m \<Longrightarrow> 0 \<le> i \<Longrightarrow>
      \<exists>m'. insert_at (Some c) i (Some q) m = Inr m' \<and> chain m' c (take (nat i) ps @ q # drop (nat i) ps) \<and>
           step c (set (q # ps)) m m'"
    and detach: "chain m c ps \<Longrightarrow> 0 \<le> i \<Longrightarrow> i < int (length ps) \<Longrightarrow>
      \<exists>m'. detach (Some c) i m = Inr (Some (ps ! nat i), m') \<and>
           chain m' c (take (nat i) ps @ drop (Suc (nat i)) ps) \<and> alone m' (ps ! nat i) \<and> step c (set ps) m m'"
    and detach_none: "chain m c ps \<Longrightarrow> i < 0 \<or> int (length ps) \<le> i \<Longrightarrow> detach (Some c) i m = Inr (None, m)"
begin

lemma get_inserted:
  assumes "chain m c ps" and "alone m q" and "q \<notin> set (c # ps)" and "fits m" and "0 \<le> i"
  obtains m' where "insert_at (Some c) i (Some q) m = Inr m'" "get (Some c) (min i (int (length ps))) m' = Inr (Some q)"
proof -
  obtain m' where "insert_at (Some c) i (Some q) m = Inr m'"
      "chain m' c (take (nat i) ps @ q # drop (nat i) ps)"
    using insert_at [OF assms] by blast
  moreover have "nat (min i (int (length ps))) = length (take (nat i) ps)"
    using assms(5) by (auto simp: min_def)
  ultimately show ?thesis
    using that assms(5) by (simp add: get nth_append)
qed

lemma insert_detach:
  assumes "chain m c ps" and "alone m q" and "q \<notin> set (c # ps)" and "fits m" and "0 \<le> i" and "i \<le> int (length ps)"
  obtains m' m'' where "insert_at (Some c) i (Some q) m = Inr m'" "detach (Some c) i m' = Inr (Some q, m'')"
    "chain m'' c ps" "alone m'' q"
proof -
  let ?qs = "take (nat i) ps @ q # drop (nat i) ps"
  obtain m' where m': "insert_at (Some c) i (Some q) m = Inr m'" "chain m' c ?qs"
    using insert_at [OF assms(1-5)] by blast
  have i: "nat i \<le> length ps"
    using assms(5,6) by simp
  then have "?qs ! nat i = q" "take (nat i) ?qs @ drop (Suc (nat i)) ?qs = ps"
    by (simp_all add: nth_append)
  moreover have "i < int (length ?qs)"
    using assms(5,6) by simp
  ultimately obtain m'' where "detach (Some c) i m' = Inr (Some q, m'')" "chain m'' c ps" "alone m'' q"
    using detach [OF m'(2) assms(5)] by metis
  with m' that show ?thesis
    by blast
qed

end

lemma split_at: "i < length ps \<Longrightarrow> ps = take i ps @ ps ! i # drop (Suc i) ps"
  by (simp add: Cons_nth_drop_Suc)

lemma kids_insert:
  assumes k: "kids m c ps" and q: "loose m q" "q \<notin> set (c # ps)" and r: "in_room m" and i: "0 \<le> i"
  shows "\<exists>m'. cJSON_InsertItemInArray (Some c) i (Some q) m = Inr m' \<and>
    kids m' c (take (nat i) ps @ q # drop (nat i) ps) \<and> relinked c (set (q # ps)) m m'"
proof (cases "nat i < length ps")
  case True
  note s = split_at [OF True]
  have "i = int (length (take (nat i) ps))"
    using True i by simp
  then obtain m' where "cJSON_InsertItemInArray (Some c) i (Some q) m = Inr m'"
      "kids m' c (take (nat i) ps @ q # ps ! nat i # drop (Suc (nat i)) ps)" "relinked c (set (q # ps)) m m'"
    using cJSON_InsertItemInArray_kids [of m c "take (nat i) ps" "ps ! nat i" "drop (Suc (nat i)) ps" q i]
      k q s by auto
  then show ?thesis
    using True by (auto simp: Cons_nth_drop_Suc)
next
  case False
  then show ?thesis
    using add_item_to_array_kids [OF k q r] get_array_item_kids [OF k, of "nat i"] i
    by (auto simp: cJSON_InsertItemInArray_def)
qed

lemma kids_detach:
  assumes k: "kids m c ps" and i: "0 \<le> i" "i < int (length ps)"
  shows "\<exists>m'. cJSON_DetachItemFromArray (Some c) i m = Inr (Some (ps ! nat i), m') \<and>
    kids m' c (take (nat i) ps @ drop (Suc (nat i)) ps) \<and> loose m' (ps ! nat i) \<and> relinked c (set ps) m m'"
proof -
  have n: "nat i < length ps"
    using i by simp
  have "get_array_item (Some c) (nat i) m = Inr (Some (ps ! nat i))"
    using get_array_item_kids [OF k] n by simp
  then show ?thesis
    using cJSON_DetachItemViaPointer_kids [of m c "take (nat i) ps" "ps ! nat i" "drop (Suc (nat i)) ps"]
      k i n split_at [OF n] by (simp add: cJSON_DetachItemFromArray_def)
qed

interpretation chains: child_list kids loose in_room relinked cJSON_GetArrayItem cJSON_InsertItemInArray
    cJSON_DetachItemFromArray
proof unfold_locales
  fix m c ps and i :: int
  assume k: "kids m c ps"
  show "cJSON_GetArrayItem (Some c) i m =
      Inr (if 0 \<le> i \<and> i < int (length ps) then Some (ps ! nat i) else None)"
    using get_array_item_kids [OF k, of "nat i"] by (auto simp: cJSON_GetArrayItem_def)
  show "cJSON_DetachItemFromArray (Some c) i m = Inr (None, m)" if "i < 0 \<or> int (length ps) \<le> i"
    using get_array_item_kids [OF k, of "nat i"] that
    by (auto simp: cJSON_DetachItemFromArray_def cJSON_DetachItemViaPointer_def)
qed (use kids_insert kids_detach in blast)+

section \<open>The functions on arrays, on trees\<close>

text \<open>
  A tree is the same tree when only \<open>next\<close> and \<open>prev\<close> of its root have changed. \<open>same_trees\<close> collects what
  stays.
\<close>

text \<open>The strings the structures of a tree point to, its own and others.\<close>

fun mentioned :: "store \<Rightarrow> tree \<Rightarrow> nat list" where
  "mentioned m (Tree p ts) =
     concat (map (mentioned m) ts) @
     (case nodes m p of None \<Rightarrow> [] | Some n \<Rightarrow> opt_list (n_valuestring n) @ opt_list (n_string n))"

lemma mentioned_cong:
  "(\<And>p. p \<in> set (owned_nodes t) \<Longrightarrow> nodes m' p = nodes m p) \<Longrightarrow> mentioned m' t = mentioned m t"
proof (induction t rule: owned_nodes.induct)
  case (1 p ts)
  have "concat (map (mentioned m') ts) = concat (map (mentioned m) ts)"
    using 1 by (intro arg_cong [of _ _ concat] map_cong) auto
  then show ?case
    using "1.prems" by (simp only: mentioned.simps) simp
qed

definition same_tree :: "store \<Rightarrow> store \<Rightarrow> tree \<Rightarrow> bool" where
  "same_tree m m' t \<longleftrightarrow>
     holds m' t = holds m t \<and> owned_strs m' t = owned_strs m t \<and> the_item m' t = the_item m t \<and>
     mentioned m' t = mentioned m t"

lemma the_item_cong:
  "(\<And>p. p \<in> set (owned_nodes t) \<Longrightarrow> nodes m' p = nodes m p) \<Longrightarrow> strs m' = strs m \<Longrightarrow>
     the_item m' t = the_item m t"
proof (induction t rule: owned_nodes.induct)
  case (1 p ts)
  have "map (the_item m') ts = map (the_item m) ts"
    using 1 by (intro map_cong) auto
  then show ?case
    using "1.prems" by (simp only: the_item.simps) (simp add: content_def cong: option.case_cong)
qed

lemma body_eqD:
  assumes "body n' = body n"
  shows "n_child n' = n_child n" "n_type n' = n_type n" "n_valuestring n' = n_valuestring n"
    "n_valueint n' = n_valueint n" "n_valuedouble n' = n_valuedouble n" "n_string n' = n_string n"
  using assms by (cases n; cases n'; simp add: body_def)+

lemma same_tree_body:
  assumes b: "map_option body (nodes m' (root t)) = map_option body (nodes m (root t))"
    and other: "\<And>p. p \<in> set (owned_nodes t) \<Longrightarrow> p \<noteq> root t \<Longrightarrow> nodes m' p = nodes m p"
    and d: "distinct (owned_nodes t)" and s: "strs m' = strs m"
  shows "same_tree m m' t"
proof (cases t)
  case (Tree p ts)
  have eq: "nodes m' q = nodes m q" if "q \<in> set (forest_nodes ts)" for q
    using that other d Tree by auto
  have sub: "nodes m' q = nodes m q" if "u \<in> set ts" "q \<in> set (owned_nodes u)" for u q
    using that eq by auto
  have fs: "forest_strs m' ts = forest_strs m ts"
    by (rule forest_strs_cong) (rule eq)
  have its: "map (the_item m') ts = map (the_item m) ts"
    by (rule map_cong [OF refl]) (rule the_item_cong [OF _ s], rule sub)
  have mn: "concat (map (mentioned m') ts) = concat (map (mentioned m) ts)"
    by (rule arg_cong [OF map_cong [OF refl]]) (rule mentioned_cong, rule sub)
  have hs: "(\<forall>u \<in> set ts. holds m' u) = (\<forall>u \<in> set ts. holds m u)"
    by (rule ball_cong [OF refl]) (rule holds_cong, rule sub)
  have sg: "seg m' None (map root ts) None = seg m None (map root ts) None"
    by (rule seg_cong) (use sub root_owned in auto)
  consider (none) "nodes m p = None" "nodes m' p = None" |
    (some) n n' where "nodes m p = Some n" "nodes m' p = Some n'" "body n' = body n"
    using b Tree by (cases "nodes m p"; cases "nodes m' p") auto
  then show ?thesis
  proof cases
    case none
    then show ?thesis
      unfolding same_tree_def Tree owned_strs.simps the_item.simps holds.simps mentioned.simps fs its hs sg mn
      by (simp add: strs_at_def)
  next
    case some
    then show ?thesis
      unfolding same_tree_def Tree owned_strs.simps the_item.simps holds.simps mentioned.simps fs its hs sg mn
      by (simp add: body_eqD [OF some(3)] strs_at_def strs_of_node_def is_ref_def content_def s)
  qed
qed

lemma mset_concat_map: "mset (concat (map f ts)) = (\<Sum>t\<in>#mset ts. mset (f t))"
  by (induction ts) auto

lemma mset_concat_eq:
  assumes "mset ts' + mset us' = mset ts + mset us"
  shows "mset (concat (map f ts')) + mset (concat (map f us')) = mset (concat (map f ts)) + mset (concat (map f us))"
  unfolding mset_concat_map using assms by (metis image_mset_union sum_mset.union)

lemma forest_disjoint:
  "distinct (concat (map f ts)) \<Longrightarrow> t \<in> set ts \<Longrightarrow> u \<in> set ts \<Longrightarrow> x \<in> set (f t) \<Longrightarrow> x \<in> set (f u) \<Longrightarrow> t = u"
  by (induction ts) auto

definition set_children :: "cJSON list \<Rightarrow> cJSON \<Rightarrow> cJSON" where
  "set_children ks item =
     Item (itype item) (valuestring item) (valueint item) (valuedouble item) (istring item) ks"

lemma relinked_store: "relinked c S m m' \<Longrightarrow> m' = m\<lparr>nodes := nodes m'\<rparr>"
  by (simp add: relinked_def)

text \<open>A container with its children, and other trees beside it: the operations move trees between them.\<close>

lemma relinked_forest:
  assumes ok: "forest_ok m (Tree c ts # us)" and n: "nodes m c = Some n" "\<not> is_ref n"
    and re: "relinked c S m m'" and S: "S \<subseteq> set (map root (ts @ us))"
    and k: "kids m' c (map root ts')" and ms: "mset ts' + mset us' = mset ts + mset us"
  shows "forest_ok m' (Tree c ts' # us')"
    and "the_item m' (Tree c ts') = set_children (map (the_item m) ts') (the_item m (Tree c ts))"
    and "\<forall>u \<in> set us'. the_item m' u = the_item m u"
    and "\<forall>u \<in> set us'. owned_strs m' u = owned_strs m u"
    and "mentioned m' (Tree c ts') = mentioned m (Tree c ts')"
    and "set (forest_strs m' (Tree c ts' # us')) = set (forest_strs m (Tree c ts # us))"
proof -
  have set_eq: "set ts' \<union> set us' = set ts \<union> set us"
    using arg_cong [OF ms, of set_mset] by simp
  have strs: "strs m' = strs m" "static m' = static m"
    using arg_cong [where f = strs, OF relinked_store [OF re]]
      arg_cong [where f = static, OF relinked_store [OF re]] by simp_all
  obtain ch where n': "nodes m' c = Some (n\<lparr>n_child := ch\<rparr>)"
    using re n by (auto simp: relinked_def)
  have d: "distinct (forest_nodes (ts @ us))" "c \<notin> set (forest_nodes (ts @ us))"
    using ok by (auto simp: forest_ok_def)
  have same: "same_tree m m' t" if t: "t \<in> set ts \<union> set us" for t
  proof (rule same_tree_body)
    have r: "root t \<noteq> c" "distinct (owned_nodes t)"
      using d t root_owned by (auto simp: distinct_concat_iff)
    then show "map_option body (nodes m' (root t)) = map_option body (nodes m (root t))"
      using re by (auto simp: relinked_def)
    show "distinct (owned_nodes t)" "strs m' = strs m"
      by (fact r strs)+
    fix p
    assume p: "p \<in> set (owned_nodes t)" "p \<noteq> root t"
    have "p \<notin> S"
    proof
      assume "p \<in> S"
      then obtain u where u: "u \<in> set (ts @ us)" "p = root u"
        using S by auto
      then have "t = u"
        using forest_disjoint [OF d(1) _ u(1) p(1)] t root_owned [of u] by simp
      with p u show False
        by simp
    qed
    moreover have "p \<noteq> c"
      using d p t by auto
    ultimately show "nodes m' p = nodes m p"
      using re by (auto simp: relinked_def)
  qed
  have strs_at: "strs_at m' c = strs_at m c"
    using n n' by (simp add: strs_at_def strs_of_node_def)
  have nodes_ms: "mset (forest_nodes (Tree c ts' # us')) = mset (forest_nodes (Tree c ts # us))"
    using mset_concat_eq [OF ms, of owned_nodes] by simp
  have fs: "forest_strs m' vs = forest_strs m vs" if "set vs \<subseteq> set ts \<union> set us" for vs
    by (rule arg_cong [OF map_cong [OF refl]]) (use same that in \<open>auto simp: same_tree_def\<close>)
  have "forest_strs m' ts' = forest_strs m ts'" "forest_strs m' us' = forest_strs m us'"
    by (rule fs; use set_eq in auto)+
  then have strs_ms: "mset (forest_strs m' (Tree c ts' # us')) = mset (forest_strs m (Tree c ts # us))"
    using mset_concat_eq [OF ms, of "owned_strs m"] strs_at by simp
  have dn: "distinct (forest_nodes (Tree c ts' # us'))" "distinct (forest_strs m' (Tree c ts' # us'))"
    using ok mset_eq_imp_distinct_iff [OF nodes_ms] mset_eq_imp_distinct_iff [OF strs_ms]
    by (simp_all add: forest_ok_def)
  have se: "set (forest_strs m' (Tree c ts' # us')) = set (forest_strs m (Tree c ts # us))"
    using mset_eq_setD [OF strs_ms] .
  have all: "holds m' t \<and> the_item m' t = the_item m t \<and> owned_strs m' t = owned_strs m t \<and> mentioned m' t = mentioned m t"
    if "t \<in> set ts' \<union> set us'" for t
  proof -
    have "t \<in> set ts \<union> set us"
      using that set_eq by simp
    moreover from this have "holds m t"
      using ok by (auto simp: forest_ok_def)
    ultimately show ?thesis
      using same by (simp add: same_tree_def)
  qed
  then have hc: "holds m' (Tree c ts')"
    using k n n' by (auto simp: kids_unfold is_ref_def)
  show "forest_ok m' (Tree c ts' # us')"
    unfolding forest_ok_def se strs using dn hc all ok by (auto simp: forest_ok_def simp del: holds.simps)
  show "set (forest_strs m' (Tree c ts' # us')) = set (forest_strs m (Tree c ts # us))"
    by (fact se)
  show "the_item m' (Tree c ts') = set_children (map (the_item m) ts') (the_item m (Tree c ts))"
    using n n' all strs by (auto simp: set_children_def content_def)
  show "\<forall>u \<in> set us'. the_item m' u = the_item m u" "\<forall>u \<in> set us'. owned_strs m' u = owned_strs m u"
    using all by auto
  have "concat (map (mentioned m') ts') = concat (map (mentioned m) ts')"
    by (rule arg_cong [OF map_cong [OF refl]]) (use all in auto)
  then show "mentioned m' (Tree c ts') = mentioned m (Tree c ts')"
    unfolding mentioned.simps using n n' by (simp only:) simp
qed

text \<open>
  \<open>world m c ts us\<close>: \<open>c\<close> is an array or object of its own with the children \<open>ts\<close>, and beside it there are
  the trees \<open>us\<close>, each in no chain.
\<close>

definition world :: "store \<Rightarrow> nat \<Rightarrow> tree list \<Rightarrow> tree list \<Rightarrow> bool" where
  "world m c ts us \<longleftrightarrow>
     forest_ok m (Tree c ts # us) \<and> in_room m \<and>
     (case nodes m c of None \<Rightarrow> False | Some n \<Rightarrow> \<not> is_ref n) \<and> (\<forall>u \<in> set us. loose m (root u))"

lemma root_in_forest: "p \<in> set (map root ts) \<Longrightarrow> p \<in> set (forest_nodes ts)"
  using root_owned by auto

lemma distinct_roots: "distinct (forest_nodes ts) \<Longrightarrow> distinct (map root ts)"
proof (induction ts)
  case (Cons t ts)
  have "root t \<notin> set (map root ts)"
    using Cons.prems root_owned [of t] root_in_forest [of "root t" ts] by auto
  with Cons show ?case
    by simp
qed simp

lemma world_kids:
  assumes "world m c ts us"
  shows "kids m c (map root ts)" and "\<And>u. u \<in> set us \<Longrightarrow> root u \<notin> set (c # map root ts)"
proof -
  have d: "distinct (forest_nodes (Tree c ts # us))"
    using assms by (simp add: world_def forest_ok_def)
  then have r: "distinct (map root ts)" "c \<notin> set (map root ts)"
    using distinct_roots [of ts] root_in_forest [of _ ts] by auto
  obtain n where "nodes m c = Some n" "\<not> is_ref n" "holds m (Tree c ts)"
    using assms by (auto simp: world_def forest_ok_def split: option.splits)
  with r show "kids m c (map root ts)"
    by (simp add: kids_unfold)
  show "root u \<notin> set (c # map root ts)" if u: "u \<in> set us" for u
  proof -
    have "root u \<in> set (forest_nodes us)"
      using root_in_forest [of "root u" us] u by simp
    then have "root u \<notin> set (c # forest_nodes ts)"
      using d by auto
    then show ?thesis
      using root_in_forest [of _ ts] by auto
  qed
qed

lemma world_apart:
  assumes w: "world m c ts (t # us)" and u: "u \<in> set us"
  shows "root u \<noteq> root t"
proof -
  have "distinct (map root (t # us))"
    using w distinct_roots [of "t # us"] by (simp add: world_def forest_ok_def)
  moreover have "root u \<in> set (map root us)"
    using u by simp
  ultimately show ?thesis
    by auto
qed

lemma world_step:
  assumes w: "world m c ts us" and re: "relinked c S m m'" and S: "S \<subseteq> set (map root (ts @ us))"
    and k: "kids m' c (map root ts')" and ms: "mset ts' + mset us' = mset ts + mset us"
    and l: "\<And>u. u \<in> set us' \<Longrightarrow> u \<notin> set us \<or> root u \<in> S \<Longrightarrow> loose m' (root u)"
  shows "world m' c ts' us'"
    and "the_item m' (Tree c ts') = set_children (map (the_item m) ts') (the_item m (Tree c ts))"
    and "\<forall>u \<in> set us'. the_item m' u = the_item m u"
    and "\<forall>u \<in> set us'. owned_strs m' u = owned_strs m u"
    and "mentioned m' (Tree c ts') = mentioned m (Tree c ts')"
proof -
  obtain n where n: "nodes m c = Some n" "\<not> is_ref n" and ok: "forest_ok m (Tree c ts # us)"
    using w by (auto simp: world_def split: option.splits)
  note r = relinked_forest [OF ok n re S k ms]
  obtain ch where "nodes m' c = Some (n\<lparr>n_child := ch\<rparr>)"
    using re n by (auto simp: relinked_def)
  moreover have "loose m' (root u)" if u: "u \<in> set us'" for u
  proof (cases "u \<notin> set us \<or> root u \<in> S")
    case False
    then have "nodes m' (root u) = nodes m (root u)"
      using re world_kids(2) [OF w, of u] by (auto simp: relinked_def)
    then show ?thesis
      using w False by (auto simp: world_def loose_unfold)
  qed (use l u in blast)
  ultimately show "world m' c ts' us'"
    using r(1) n w relinked_in_room [OF re] by (simp add: world_def is_ref_def)
  show "the_item m' (Tree c ts') = set_children (map (the_item m) ts') (the_item m (Tree c ts))"
    "\<forall>u \<in> set us'. the_item m' u = the_item m u" "\<forall>u \<in> set us'. owned_strs m' u = owned_strs m u"
    "mentioned m' (Tree c ts') = mentioned m (Tree c ts')"
    by (fact r)+
qed

text \<open>Taking away the blocks of a tree leaves the other trees as they were.\<close>

lemma the_item_remove:
  "set (owned_nodes t) \<inter> set ps = {} \<Longrightarrow> set (mentioned m t) \<inter> set ss = {} \<Longrightarrow>
     the_item (remove ps ss m) t = the_item m t"
proof (induction m t rule: mentioned.induct)
  case (1 m p ts)
  have "map (the_item (remove ps ss m)) ts = map (the_item m) ts"
    using 1 by (intro map_cong [OF refl] "1.IH") auto
  moreover have "content (remove ps ss m) a = content m a" if "\<forall>s \<in> set (opt_list a). s \<notin> set ss" for a
    using that by (cases a) (auto simp: content_def)
  ultimately show ?case
    using "1.prems" by (cases "nodes m p") auto
qed

lemma forest_ok_Cons:
  "forest_ok m (t # ts) \<longleftrightarrow>
     forest_ok m [t] \<and> forest_ok m ts \<and> set (owned_nodes t) \<inter> set (forest_nodes ts) = {} \<and>
     set (owned_strs m t) \<inter> set (forest_strs m ts) = {}"
  by (auto simp: forest_ok_def)

lemma forest_ok_remove:
  assumes "forest_ok m (t # ts)"
  shows "forest_ok (remove (owned_nodes t) (owned_strs m t) m) ts"
proof -
  let ?m = "remove (owned_nodes t) (owned_strs m t) m"
  have eq: "nodes ?m p = nodes m p" if "p \<in> set (forest_nodes ts)" for p
    using that assms by (auto simp: forest_ok_def)
  have fs: "forest_strs ?m ts = forest_strs m ts"
    by (rule forest_strs_cong) (rule eq)
  have h: "holds ?m u = holds m u" if "u \<in> set ts" for u
    by (rule holds_cong, rule eq) (use that in auto)
  have "\<forall>s \<in> set (forest_strs m ts). strs ?m s \<noteq> None \<and> \<not> static ?m s"
    using assms unfolding forest_ok_Cons [of m t ts] by (fastforce simp: forest_ok_def)
  then show ?thesis
    using assms h unfolding forest_ok_def fs by simp
qed

lemma forest_ok_swap: "forest_ok m (t # u # ts) \<longleftrightarrow> forest_ok m (u # t # ts)"
  unfolding forest_ok_Cons [of _ _ "_ # _"] forest_ok_Cons [of _ _ ts] by auto

text \<open>
  Deleting a tree that is in no chain: the world without it. The other trees keep their items unless they
  mention a string of the deleted one.
\<close>

lemma world_delete:
  assumes w: "world m c ts (t # us)"
  shows "\<exists>m'. cJSON_Delete_at (Some (root t)) m = Inr m' \<and> m' = remove (owned_nodes t) (owned_strs m t) m \<and>
    world m' c ts us \<and>
    (set (mentioned m (Tree c ts)) \<inter> set (owned_strs m t) = {} \<longrightarrow> the_item m' (Tree c ts) = the_item m (Tree c ts))"
proof -
  let ?m = "remove (owned_nodes t) (owned_strs m t) m"
  have ok: "forest_ok m (t # Tree c ts # us)"
    using w forest_ok_swap by (simp add: world_def)
  then have "tree_ok m t" and apart: "set (owned_nodes t) \<inter> set (forest_nodes (Tree c ts # us)) = {}"
    by (simp_all only: forest_ok_Cons [of _ t "Tree c ts # us"])
  then have "cJSON_Delete_at (Some (root t)) m = Inr ?m"
    using w by (intro cJSON_Delete_at_tree) (simp_all add: world_def)
  moreover have "world ?m c ts us"
  proof -
    have "c \<notin> set (owned_nodes t)" "in_room ?m"
      using apart w by (auto simp: world_def in_room_def)
    moreover have "loose ?m (root u)" if u: "u \<in> set us" for u
    proof -
      have "root u \<in> set (forest_nodes us)"
        using root_in_forest [of "root u" us] u by simp
      then have "root u \<notin> set (owned_nodes t)"
        using apart by auto
      then show ?thesis
        using w u by (simp add: world_def loose_def)
    qed
    ultimately show ?thesis
      using w forest_ok_remove [OF ok] by (simp add: world_def)
  qed
  moreover have "the_item ?m (Tree c ts) = the_item m (Tree c ts)"
    if "set (mentioned m (Tree c ts)) \<inter> set (owned_strs m t) = {}"
    by (rule the_item_remove) (use apart that in auto)
  ultimately show ?thesis
    by blast
qed

section \<open>Searching for a member\<close>

text \<open>
  What the search compares with: the names of the members in order, for readable strings.
\<close>

definition readable :: "store \<Rightarrow> nat option \<Rightarrow> bool" where
  "readable m a = (case content m a of None \<Rightarrow> False | Some b \<Rightarrow> terminated b)"

definition text_of :: "store \<Rightarrow> nat option \<Rightarrow> bytes" where
  "text_of m a = (case content m a of None \<Rightarrow> [] | Some b \<Rightarrow> c_str b)"

definition name_at :: "store \<Rightarrow> nat \<Rightarrow> nat option" where
  "name_at m p = (case nodes m p of None \<Rightarrow> None | Some n \<Rightarrow> n_string n)"

definition names_match :: "bool \<Rightarrow> bytes \<Rightarrow> bytes \<Rightarrow> bool" where
  "names_match cs s t = (if cs then s = t else map tolower s = map tolower t)"

definition is_member :: "store \<Rightarrow> bool \<Rightarrow> nat option \<Rightarrow> nat \<Rightarrow> bool" where
  "is_member m cs name p \<longleftrightarrow>
     name_at m p \<noteq> None \<and> names_match cs (text_of m name) (text_of m (name_at m p))"

lemma str_at_readable: "readable m a \<Longrightarrow> str_at a m = Inr (text_of m a)"
  by (cases a) (auto simp: readable_def text_of_def content_def str_at_def split: option.splits)

lemma nul_free_text_of: "nul_free (text_of m a)"
  by (auto simp: text_of_def split: option.split)

lemma same_name_readable:
  "readable m a \<Longrightarrow> readable m b \<Longrightarrow> same_name a b m = Inr (names_match True (text_of m a) (text_of m b))"
  by (simp add: same_name_def str_at_readable names_match_def)

lemma same_name_ignoring_case_readable:
  assumes "readable m a" and "readable m b"
  shows "same_name_ignoring_case a b m = Inr (names_match False (text_of m a) (text_of m b))"
proof -
  have "a \<noteq> None" "b \<noteq> None"
    using assms by (cases a; cases b; simp add: readable_def content_def)+
  then show ?thesis
    using assms strcmp_lower_eq [OF nul_free_text_of nul_free_text_of, of m a m b]
    by (auto simp: same_name_ignoring_case_def str_at_readable names_match_def case_insensitive_strcmp_def
        c_str_nul_free_all nul_free_text_of)
qed

text \<open>The first member with the name; the search with \<open>strcmp\<close> gives up at a member without a name.\<close>

definition members_before :: "store \<Rightarrow> nat list \<Rightarrow> nat list" where
  "members_before m ps = takeWhile (\<lambda>p. name_at m p \<noteq> None) ps"

definition stops_at :: "store \<Rightarrow> bool \<Rightarrow> nat option \<Rightarrow> nat \<Rightarrow> bool" where
  "stops_at m cs name p \<longleftrightarrow> is_member m cs name p \<or> cs \<and> name_at m p = None"

lemma member_loop_seg:
  assumes "readable m name"
  shows "seg m pv ps None \<Longrightarrow> length ps < k \<Longrightarrow> \<forall>p \<in> set ps. name_at m p \<noteq> None \<longrightarrow> readable m (name_at m p) \<Longrightarrow>
     member_loop k cs name (first ps None) m = Inr (find (stops_at m cs name) ps)"
proof (induction ps arbitrary: pv k)
  case Nil
  then show ?case
    by (cases k) auto
next
  case (Cons p ps)
  obtain j where k: "k = Suc j"
    using Cons.prems by (cases k) auto
  obtain n where n: "nodes m p = Some n" "n_next n = first ps None" "seg m (Some p) ps None"
    using Cons.prems(1) by auto
  then have nm: "name_at m p = n_string n"
    by (simp add: name_at_def)
  have r: "member_loop j cs name (first ps None) m = Inr (find (stops_at m cs name) ps)"
    using Cons.IH [OF n(3), of j] Cons.prems(2,3) k by simp
  show ?case
  proof (cases "n_string n = None")
    case True
    then have "same_name_ignoring_case name (n_string n) m = Inr False"
      by (simp add: same_name_ignoring_case_def)
    moreover have "stops_at m cs name p = cs"
      using True nm by (simp add: stops_at_def is_member_def)
    ultimately show ?thesis
      using True k n r by (cases cs) simp_all
  next
    case False
    then have "readable m (n_string n)"
      using Cons.prems(3) nm by auto
    moreover have "stops_at m cs name p = names_match cs (text_of m name) (text_of m (n_string n))"
      using False nm by (auto simp: stops_at_def is_member_def)
    ultimately show ?thesis
      using False k n r same_name_readable [OF assms, of "n_string n"]
        same_name_ignoring_case_readable [OF assms, of "n_string n"]
      by (cases cs) auto
  qed
qed

lemma find_stops_at:
  "(case find (stops_at m cs name) ps of None \<Rightarrow> None | Some p \<Rightarrow> if name_at m p = None then None else Some p) =
     find (is_member m cs name) (if cs then members_before m ps else ps)"
  by (induction ps) (auto simp: stops_at_def is_member_def members_before_def)

lemma find_in: "find P ps = Some p \<Longrightarrow> p \<in> set ps"
  by (auto simp: find_Some_iff)

section \<open>An example world\<close>

definition demo_node :: "nat option \<Rightarrow> nat option \<Rightarrow> nat option \<Rightarrow> u32 \<Rightarrow> nat option \<Rightarrow> nat option \<Rightarrow> node" where
  "demo_node nx pv ch ty vs nm =
     \<lparr>n_next = nx, n_prev = pv, n_child = ch, n_type = ty, n_valuestring = vs, n_valueint = 0,
      n_valuedouble = Fin False 0 (-1074), n_string = nm\<rparr>"

text \<open>The object \<open>{"a":true, "B":"x"}\<close> at 0, and at 3 an item \<open>"y"\<close> of its own.\<close>

definition demo_store :: store where
  "demo_store =
     \<lparr>nodes = [0 \<mapsto> demo_node None None (Some 1) cJSON_Object None None,
               1 \<mapsto> demo_node (Some 2) None None cJSON_True None (Some 4),
               2 \<mapsto> demo_node None (Some 1) None cJSON_String (Some 5) (Some 6),
               3 \<mapsto> demo_node None None None cJSON_String (Some 8) None],
      strs = [8 \<mapsto> [0x79, 0], 4 \<mapsto> [0x61, 0], 5 \<mapsto> [0x78, 0], 6 \<mapsto> [0x42, 0], 7 \<mapsto> [0x62, 0]],
      static = (\<lambda>s. s = 7), brk = 9, s_calls = 0, s_grant = (\<lambda>_ _. True)\<rparr>"

lemma demo_world: "world demo_store 0 [Tree 1 [], Tree 2 []] [Tree 3 []]"
  by (simp add: world_def demo_store_def demo_node_def forest_ok_def strs_at_def strs_of_node_def is_ref_def
      cJSON_types cJSON_flags in_room_def loose_def)

lemma demo_strs:
  "strs_at demo_store 1 = [4]" "strs_at demo_store 2 = [5, 6]"
  "strs demo_store 4 = Some [0x61, 0]" "strs demo_store 5 = Some [0x78, 0]"
  by (simp_all add: strs_at_def strs_of_node_def demo_store_def demo_node_def cJSON_types cJSON_flags)

section \<open>The properties\<close>

lemma mset_take_drop: "mset (take k ts) + mset (drop k ts) = mset ts"
  by (metis append_take_drop_id mset_append)

lemma relinked_live:
  assumes "relinked c S m m'"
  shows "nodes m' p = None \<longleftrightarrow> nodes m p = None" and "strs m' = strs m"
proof -
  show "nodes m' p = None \<longleftrightarrow> nodes m p = None"
    using assms by (cases "p = c") (auto simp: relinked_def dest!: spec [of _ p])
  show "strs m' = strs m"
    using arg_cong [where f = strs, OF relinked_store [OF assms]] by simp
qed

text \<open>Taking an item out of the chain, on trees.\<close>

lemma detach_world:
  assumes w: "world m c ts us" and i: "0 \<le> i" "i < int (length ts)"
  obtains m' where "cJSON_DetachItemFromArray (Some c) i m = Inr (Some (root (ts ! nat i)), m')"
    "world m' c (take (nat i) ts @ drop (Suc (nat i)) ts) (ts ! nat i # us)"
    "the_item m' (ts ! nat i) = the_item m (ts ! nat i)"
    "the_item m' (Tree c (take (nat i) ts @ drop (Suc (nat i)) ts)) =
        set_children (map (the_item m) (take (nat i) ts @ drop (Suc (nat i)) ts)) (the_item m (Tree c ts))"
    "owned_strs m' (ts ! nat i) = owned_strs m (ts ! nat i)"
    "mentioned m' (Tree c (take (nat i) ts @ drop (Suc (nat i)) ts)) =
        mentioned m (Tree c (take (nat i) ts @ drop (Suc (nat i)) ts))"
    "relinked c (set (map root ts)) m m'"
proof -
  let ?t = "ts ! nat i" and ?ts = "take (nat i) ts @ drop (Suc (nat i)) ts"
  obtain m' where m': "cJSON_DetachItemFromArray (Some c) i m = Inr (Some (map root ts ! nat i), m')"
      "kids m' c (take (nat i) (map root ts) @ drop (Suc (nat i)) (map root ts))" "loose m' (map root ts ! nat i)"
      "relinked c (set (map root ts)) m m'"
    using chains.detach [OF world_kids(1) [OF w], of i] i by auto
  have n: "nat i < length ts"
    using i by auto
  have k: "kids m' c (map root ?ts)" and s: "set (map root ts) \<subseteq> set (map root (ts @ us))"
    using m'(2) by (auto simp: take_map drop_map)
  have ms: "mset ?ts + mset (?t # us) = mset ts + mset us"
    using arg_cong [OF split_at [OF n], of mset] by simp
  have "loose m' (root u)" if "u \<in> set (?t # us)" "u \<notin> set us \<or> root u \<in> set (map root ts)" for u
    using that m'(3) n world_kids(2) [OF w, of u] by auto
  then show ?thesis
    using m'(1,4) n that world_step [OF w m'(4) s k ms] by auto
qed

text \<open>
  C7: \<open>cJSON_Delete\<close> on a well-formed item gives back every block the item owns and no other one, each
  once: no block that a reference or a constant name borrows, and as many as the model of items counts.
\<close>

theorem cJSON_Delete_correct:
  assumes "tree_ok m t" and "loose m (root t)" and "in_room m"
  shows "cJSON_Delete_at (Some (root t)) m = Inr (remove (owned_nodes t) (owned_strs m t) m) \<and>
    int (length (owned_nodes t) + length (owned_strs m t)) = freed (the_item m t)"
  using cJSON_Delete_at_tree [OF assms] freed_the_item [of m t] assms(1) by (simp add: forest_ok_def)

text \<open>
  C12: \<open>cJSON_InsertItemInArray\<close> puts the item before the one at the index, or at the end when there is no
  such item; the array stays well-formed and every item keeps its value. A negative index changes nothing.
  A null item is added nowhere: it crashes when the index is inside the array.
\<close>

theorem cJSON_InsertItemInArray_correct:
  assumes w: "world m c ts (t # us)"
  shows "(0 \<le> i \<longrightarrow> (\<exists>m'. cJSON_InsertItemInArray (Some c) i (Some (root t)) m = Inr m' \<and>
      world m' c (take (nat i) ts @ t # drop (nat i) ts) us \<and>
      the_item m' (Tree c (take (nat i) ts @ t # drop (nat i) ts)) =
        set_children (map (the_item m) (take (nat i) ts @ t # drop (nat i) ts)) (the_item m (Tree c ts)))) \<and>
    (i < 0 \<longrightarrow> cJSON_InsertItemInArray (Some c) i (Some (root t)) m = Inr m) \<and>
    (0 \<le> i \<longrightarrow> cJSON_InsertItemInArray (Some c) i None m = (if i < int (length ts) then Inl NullDeref else Inr m))"
proof (intro conjI impI)
  let ?ts = "take (nat i) ts @ t # drop (nat i) ts"
  assume i: "0 \<le> i"
  have "loose m (root t)" "in_room m"
    using w by (simp_all add: world_def)
  then obtain m' where m': "cJSON_InsertItemInArray (Some c) i (Some (root t)) m = Inr m'"
      "kids m' c (take (nat i) (map root ts) @ root t # drop (nat i) (map root ts))"
      "relinked c (set (root t # map root ts)) m m'"
    using chains.insert_at [OF world_kids(1) [OF w] _ world_kids(2) [OF w] _ i, of t] by auto
  have k: "kids m' c (map root ?ts)" and s: "set (root t # map root ts) \<subseteq> set (map root (ts @ t # us))"
    using m'(2) by (auto simp: take_map drop_map)
  have ms: "mset ?ts + mset us = mset ts + mset (t # us)"
    using mset_take_drop [of "nat i" ts] by simp
  have "loose m' (root u)" if "u \<in> set us" "u \<notin> set (t # us) \<or> root u \<in> set (root t # map root ts)" for u
  proof -
    show ?thesis
      using that world_kids(2) [OF w, of u] world_apart [OF w that(1)] by auto
  qed
  then show "\<exists>m'. cJSON_InsertItemInArray (Some c) i (Some (root t)) m = Inr m' \<and> world m' c ?ts us \<and>
      the_item m' (Tree c ?ts) = set_children (map (the_item m) ?ts) (the_item m (Tree c ts))"
    using m'(1) world_step [OF w m'(3) s k ms] by blast
next
  assume i: "0 \<le> i"
  then show "cJSON_InsertItemInArray (Some c) i None m = (if i < int (length ts) then Inl NullDeref else Inr m)"
    using get_array_item_kids [OF world_kids(1) [OF w], of "nat i"]
    by (auto simp: cJSON_InsertItemInArray_def add_item_to_array_def)
qed (simp add: cJSON_InsertItemInArray_def)

text \<open>
  C13: \<open>cJSON_DetachItemFromArray\<close> takes the item at the index out and returns it, with no chain through it;
  the array stays well-formed and every item keeps its value. Any other index returns null and changes nothing.
\<close>

theorem cJSON_DetachItemFromArray_correct:
  assumes w: "world m c ts us"
  shows "if 0 \<le> i \<and> i < int (length ts)
    then \<exists>m'. cJSON_DetachItemFromArray (Some c) i m = Inr (Some (root (ts ! nat i)), m') \<and>
      world m' c (take (nat i) ts @ drop (Suc (nat i)) ts) (ts ! nat i # us) \<and>
      the_item m' (ts ! nat i) = the_item m (ts ! nat i) \<and>
      the_item m' (Tree c (take (nat i) ts @ drop (Suc (nat i)) ts)) =
        set_children (map (the_item m) (take (nat i) ts @ drop (Suc (nat i)) ts)) (the_item m (Tree c ts))
    else cJSON_DetachItemFromArray (Some c) i m = Inr (None, m)"
proof (cases "0 \<le> i \<and> i < int (length ts)")
  case True
  then show ?thesis
    using detach_world [OF w, of i] by auto
qed (use chains.detach_none [OF world_kids(1) [OF w], of i] in auto)

text \<open>
  C14: \<open>cJSON_DeleteItemFromArray\<close> takes the item at the index out and gives back exactly its blocks; the
  array stays well-formed, and it and its other items keep their values as long as they mention no string of
  the deleted item. Any other index changes nothing.
\<close>

theorem cJSON_DeleteItemFromArray_correct:
  assumes w: "world m c ts us"
  shows "if 0 \<le> i \<and> i < int (length ts)
    then let t = ts ! nat i; rest = take (nat i) ts @ drop (Suc (nat i)) ts in
      \<exists>m'. cJSON_DeleteItemFromArray (Some c) i m = Inr m' \<and> world m' c rest us \<and>
      (\<forall>p. nodes m' p = None \<longleftrightarrow> nodes m p = None \<or> p \<in> set (owned_nodes t)) \<and>
      strs m' = (\<lambda>s. if s \<in> set (owned_strs m t) then None else strs m s) \<and>
      (set (mentioned m (Tree c rest)) \<inter> set (owned_strs m t) = {} \<longrightarrow>
       the_item m' (Tree c rest) = set_children (map (the_item m) rest) (the_item m (Tree c ts)))
    else cJSON_DeleteItemFromArray (Some c) i m = Inr m"
proof (cases "0 \<le> i \<and> i < int (length ts)")
  case True
  then obtain m1 where m1: "cJSON_DetachItemFromArray (Some c) i m = Inr (Some (root (ts ! nat i)), m1)"
      "world m1 c (take (nat i) ts @ drop (Suc (nat i)) ts) (ts ! nat i # us)"
      "the_item m1 (Tree c (take (nat i) ts @ drop (Suc (nat i)) ts)) =
        set_children (map (the_item m) (take (nat i) ts @ drop (Suc (nat i)) ts)) (the_item m (Tree c ts))"
      "owned_strs m1 (ts ! nat i) = owned_strs m (ts ! nat i)"
      "mentioned m1 (Tree c (take (nat i) ts @ drop (Suc (nat i)) ts)) =
        mentioned m (Tree c (take (nat i) ts @ drop (Suc (nat i)) ts))"
      "relinked c (set (map root ts)) m m1"
    using detach_world [OF w, of i] by metis
  have "\<forall>p. nodes m1 p = None \<longleftrightarrow> nodes m p = None" "strs m1 = strs m"
    using relinked_live [OF m1(6)] by auto
  then show ?thesis
    using True m1 world_delete [OF m1(2)] by (auto simp: cJSON_DeleteItemFromArray_def Let_def)
next
  case False
  then have "cJSON_DetachItemFromArray (Some c) i m = Inr (None, m)"
    using chains.detach_none [OF world_kids(1) [OF w], of i] by auto
  then have "cJSON_DeleteItemFromArray (Some c) i m = Inr m"
    by (simp add: cJSON_DeleteItemFromArray_def cJSON_Delete_at_def)
  then show ?thesis
    using False by (simp only: if_False)
qed

lemma replace_world:
  assumes w: "world m c ts (t # us)" and i: "0 \<le> i" "i < int (length ts)"
  obtains m' where
    "cJSON_ReplaceItemInArray (Some c) i (Some (root t)) m = cJSON_Delete_at (Some (root (ts ! nat i))) m'"
    "world m' c (ts[nat i := t]) (ts ! nat i # us)"
    "the_item m' (Tree c (ts[nat i := t])) = set_children (map (the_item m) (ts[nat i := t])) (the_item m (Tree c ts))"
    "owned_strs m' (ts ! nat i) = owned_strs m (ts ! nat i)"
    "mentioned m' (Tree c (ts[nat i := t])) = mentioned m (Tree c (ts[nat i := t]))"
    "relinked c (set (map root (ts @ [t]))) m m'"
proof -
  let ?old = "ts ! nat i" and ?ts = "ts[nat i := t]"
  have n: "nat i < length ts" and u: "?ts = take (nat i) ts @ t # drop (Suc (nat i)) ts"
    using i by (auto simp: upd_conv_take_nth_drop)
  note s = split_at [of "nat i" "map root ts"]
  have k: "kids m c (take (nat i) (map root ts) @ root ?old # drop (Suc (nat i)) (map root ts))"
    using world_kids(1) [OF w] s n by simp
  have q: "loose m (root t)" "root t \<notin> set (c # map root ts)"
    using w world_kids(2) [OF w, of t] by (simp_all add: world_def)
  then have q': "root t \<notin> set (c # take (nat i) (map root ts) @ root ?old # drop (Suc (nat i)) (map root ts))"
    using s n by (metis length_map nth_map)
  obtain m' where m': "replace_links (Some c) (Some (root ?old)) (Some (root t)) m = Inr m'"
      "kids m' c (take (nat i) (map root ts) @ root t # drop (Suc (nat i)) (map root ts))" "loose m' (root ?old)"
      "relinked c (set (root t # take (nat i) (map root ts) @ root ?old # drop (Suc (nat i)) (map root ts))) m m'"
    using replace_links_kids [OF k q(1) q'] by blast
  have re: "relinked c (set (map root (ts @ [t]))) m m'"
    by (rule relinked_more [OF m'(4)]) (use arg_cong [OF s, of set] n in auto)
  have k': "kids m' c (map root ?ts)"
    using m'(2) u by (simp add: take_map drop_map)
  have ms: "mset ?ts + mset (?old # us) = mset ts + mset (t # us)"
    using n by (simp add: u) (metis (no_types) mset.simps(2) mset_append s(1) split_at union_mset_add_mset_right)
  have "root ?old \<in> set (map root ts)"
    using n by simp
  with q have neq: "root ?old \<noteq> root t"
    by auto
  then have "cJSON_ReplaceItemInArray (Some c) i (Some (root t)) m = cJSON_Delete_at (Some (root ?old)) m'"
    using m'(1) i n get_array_item_kids [OF world_kids(1) [OF w], of "nat i"]
    by (simp add: cJSON_ReplaceItemInArray_def cJSON_ReplaceItemViaPointer_def)
      (cases "cJSON_Delete_at (Some (root ?old)) m'"; simp)
  moreover have "loose m' (root v)"
    if "v \<in> set (?old # us)" "v \<notin> set (t # us) \<or> root v \<in> set (map root (ts @ [t]))" for v
  proof (cases "v = ?old")
    case False
    then have "v \<in> set us"
      using that by simp
    then show ?thesis
      using that world_kids(2) [OF w, of v] world_apart [OF w, of v] by auto
  qed (use m'(3) in simp)
  ultimately show ?thesis
    using world_step [OF w re _ k' ms] re that by auto
qed

text \<open>
  \<open>cJSON_ReplaceItemInArray\<close> puts the new item in the place of the one at the index and gives back
  exactly the blocks of that one. An index with no item changes nothing: the new item stays the caller's.
\<close>

theorem cJSON_ReplaceItemInArray_correct:
  assumes w: "world m c ts (t # us)"
  shows "if 0 \<le> i \<and> i < int (length ts)
    then let old = ts ! nat i; ts' = ts[nat i := t] in
      \<exists>m'. cJSON_ReplaceItemInArray (Some c) i (Some (root t)) m = Inr m' \<and> world m' c ts' us \<and>
      (\<forall>p. nodes m' p = None \<longleftrightarrow> nodes m p = None \<or> p \<in> set (owned_nodes old)) \<and>
      strs m' = (\<lambda>s. if s \<in> set (owned_strs m old) then None else strs m s) \<and>
      (set (mentioned m (Tree c ts')) \<inter> set (owned_strs m old) = {} \<longrightarrow>
       the_item m' (Tree c ts') = set_children (map (the_item m) ts') (the_item m (Tree c ts)))
    else cJSON_ReplaceItemInArray (Some c) i (Some (root t)) m = Inr m"
proof (cases "0 \<le> i \<and> i < int (length ts)")
  case True
  then obtain m1 where m1:
      "cJSON_ReplaceItemInArray (Some c) i (Some (root t)) m = cJSON_Delete_at (Some (root (ts ! nat i))) m1"
      "world m1 c (ts[nat i := t]) (ts ! nat i # us)"
      "the_item m1 (Tree c (ts[nat i := t])) = set_children (map (the_item m) (ts[nat i := t])) (the_item m (Tree c ts))"
      "owned_strs m1 (ts ! nat i) = owned_strs m (ts ! nat i)"
      "mentioned m1 (Tree c (ts[nat i := t])) = mentioned m (Tree c (ts[nat i := t]))"
      "relinked c (set (map root (ts @ [t]))) m m1"
    using replace_world [OF w, of i] by metis
  have "\<forall>p. nodes m1 p = None \<longleftrightarrow> nodes m p = None" "strs m1 = strs m"
    using relinked_live [OF m1(6)] by auto
  then show ?thesis
    using True m1 world_delete [OF m1(2)] by (auto simp: Let_def)
next
  case False
  then have "cJSON_ReplaceItemInArray (Some c) i (Some (root t)) m = Inr m"
    using get_array_item_kids [OF world_kids(1) [OF w], of "nat i"]
    by (auto simp: cJSON_ReplaceItemInArray_def cJSON_ReplaceItemViaPointer_def)
  then show ?thesis
    using False by (simp only: if_False)
qed

text \<open>
  An item that was inserted is found at its index, and detaching it from there gives it back and leaves
  the children as they were.
\<close>

theorem insert_detach_roundtrip:
  assumes w: "world m c ts (t # us)" and i: "0 \<le> i" "i \<le> int (length ts)"
  shows "\<exists>m' m''. cJSON_InsertItemInArray (Some c) i (Some (root t)) m = Inr m' \<and>
    cJSON_GetArrayItem (Some c) i m' = Inr (Some (root t)) \<and>
    cJSON_DetachItemFromArray (Some c) i m' = Inr (Some (root t), m'') \<and>
    kids m'' c (map root ts) \<and> loose m'' (root t)"
proof -
  have l: "loose m (root t)" "in_room m" "root t \<notin> set (c # map root ts)" "i \<le> int (length (map root ts))"
    using w world_kids(2) [OF w, of t] i by (simp_all add: world_def)
  obtain m' m'' where "cJSON_InsertItemInArray (Some c) i (Some (root t)) m = Inr m'"
      "cJSON_DetachItemFromArray (Some c) i m' = Inr (Some (root t), m'')" "kids m'' c (map root ts)" "loose m'' (root t)"
    using chains.insert_detach [OF world_kids(1) [OF w] l(1,3,2) i(1) l(4)] by metis
  moreover obtain m1 where "cJSON_InsertItemInArray (Some c) i (Some (root t)) m = Inr m1"
      "cJSON_GetArrayItem (Some c) (min i (int (length (map root ts)))) m1 = Inr (Some (root t))"
    using chains.get_inserted [OF world_kids(1) [OF w] l(1,3,2) i(1)] by metis
  ultimately show ?thesis
    using i(2) by (simp add: min_def)
qed

lemma get_object_item_spec:
  assumes w: "world m c ts us" and name: "readable m name"
    and names: "\<forall>t \<in> set ts. name_at m (root t) \<noteq> None \<longrightarrow> readable m (name_at m (root t))"
  shows "get_object_item (Some c) name cs m =
    Inr (find (is_member m cs name) (if cs then members_before m (map root ts) else map root ts))"
proof -
  let ?ps = "map root ts"
  obtain n where n: "nodes m c = Some n" "n_child n = first ?ps None" "seg m None ?ps None" "distinct ?ps"
    using world_kids(1) [OF w] by (auto simp: kids_unfold)
  have "length ?ps < room m"
    using seg_room [OF n(3) _ n(4)] w by (simp add: world_def room_def)
  then have r: "member_loop (room m) cs name (first ?ps None) m = Inr (find (stops_at m cs name) ?ps)"
    using member_loop_seg [OF name n(3), of "room m" cs] names by simp
  have "name \<noteq> None"
    using name by (cases name) (simp_all add: readable_def content_def)
  with n r have "get_object_item (Some c) name cs m =
      Inr (case find (stops_at m cs name) ?ps of None \<Rightarrow> None | Some p \<Rightarrow> if name_at m p = None then None else Some p)"
    using seg_live [OF n(3) find_in [of "stops_at m cs name" ?ps]]
    by (cases "find (stops_at m cs name) ?ps") (fastforce simp: get_object_item_def name_at_def)+
  then show ?thesis
    by (simp only: find_stops_at)
qed

text \<open>
  Looking up a member returns the first one with the name, with or without regard to case; the search
  with regard to case ends without a result at a member that has no name, so what comes behind one is not found.
\<close>

theorem get_object_item_correct:
  assumes w: "world m c ts us" and name: "readable m name"
    and names: "\<forall>t \<in> set ts. name_at m (root t) \<noteq> None \<longrightarrow> readable m (name_at m (root t))"
  shows "get_object_item (Some c) name cs m =
    Inr (find (is_member m cs name) (if cs then members_before m (map root ts) else map root ts))"
  using assms by (rule get_object_item_spec)

text \<open>The string at 7 is the caller's: it asks for the member \<open>b\<close>.\<close>

theorem get_object_item_correct_witness:
  "get_object_item (Some 0) (Some 7) False demo_store = Inr (Some 2) \<and>
   get_object_item (Some 0) (Some 7) True demo_store = Inr None"
proof -
  have r: "readable demo_store (Some 7)" "readable demo_store (name_at demo_store 1)"
      "readable demo_store (name_at demo_store 2)"
    by (simp_all add: demo_store_def demo_node_def readable_def content_def terminated_def name_at_def)
  show ?thesis
    using get_object_item_correct [OF demo_world r(1), of False] get_object_item_correct [OF demo_world r(1), of True] r
    by (simp add: is_member_def members_before_def names_match_def text_of_def content_def name_at_def demo_store_def
        demo_node_def c_str_def tolower_def)
qed

theorem cJSON_Delete_correct_witness:
  "cJSON_Delete_at (Some 0) demo_store = Inr (remove [0, 1, 2] [4, 5, 6] demo_store) \<and>
   freed (the_item demo_store (Tree 0 [Tree 1 [], Tree 2 []])) = 6"
proof -
  let ?t = "Tree 0 [Tree 1 [], Tree 2 []]"
  have "tree_ok demo_store ?t" "in_room demo_store"
    using demo_world by (simp_all only: world_def forest_ok_Cons [of _ ?t "[Tree 3 []]"])
  moreover have "loose demo_store (root ?t)"
    by (simp add: loose_def demo_store_def demo_node_def)
  moreover have "owned_strs demo_store ?t = [4, 5, 6]"
    by (simp add: strs_at_def strs_of_node_def demo_store_def demo_node_def cJSON_types cJSON_flags)
  ultimately show ?thesis
    using cJSON_Delete_correct [of demo_store ?t] by (simp del: owned_strs.simps the_item.simps)
qed

theorem cJSON_InsertItemInArray_correct_witness:
  "(\<exists>m'. cJSON_InsertItemInArray (Some 0) 1 (Some 3) demo_store = Inr m' \<and>
     world m' 0 [Tree 1 [], Tree 3 [], Tree 2 []] []) \<and>
   cJSON_InsertItemInArray (Some 0) 1 None demo_store = Inl NullDeref"
  using cJSON_InsertItemInArray_correct [OF demo_world, of 1] by auto

theorem cJSON_DetachItemFromArray_correct_witness:
  "\<exists>m'. cJSON_DetachItemFromArray (Some 0) 0 demo_store = Inr (Some 1, m') \<and>
     world m' 0 [Tree 2 []] [Tree 1 [], Tree 3 []]"
  using cJSON_DetachItemFromArray_correct [OF demo_world, of 0] by auto

theorem cJSON_DeleteItemFromArray_correct_witness:
  "\<exists>m'. cJSON_DeleteItemFromArray (Some 0) 1 demo_store = Inr m' \<and> world m' 0 [Tree 1 []] [Tree 3 []] \<and>
     strs m' 5 = None \<and> strs m' 4 = Some [0x61, 0]"
  using cJSON_DeleteItemFromArray_correct [OF demo_world, of 1] demo_strs by (auto simp: Let_def)

theorem cJSON_ReplaceItemInArray_correct_witness:
  "\<exists>m'. cJSON_ReplaceItemInArray (Some 0) 0 (Some 3) demo_store = Inr m' \<and> world m' 0 [Tree 3 [], Tree 2 []] [] \<and>
     strs m' 4 = None \<and> strs m' 5 = Some [0x78, 0]"
  using cJSON_ReplaceItemInArray_correct [OF demo_world, of 0] demo_strs by (auto simp: Let_def)

theorem insert_detach_roundtrip_witness:
  "\<exists>m' m''. cJSON_InsertItemInArray (Some 0) 2 (Some 3) demo_store = Inr m' \<and>
     cJSON_GetArrayItem (Some 0) 2 m' = Inr (Some 3) \<and>
     cJSON_DetachItemFromArray (Some 0) 2 m' = Inr (Some 3, m'') \<and> kids m'' 0 [1, 2] \<and> loose m'' 3"
  using insert_detach_roundtrip [OF demo_world, of 2] by simp

end
