(* ===== verification/CJsonBuild.thy ===== *)
theory CJsonBuild
  imports CJsonTree
begin

text \<open>
  The functions of \<open>jsonRead/cJSON.c\<close> that build items in the store: allocation, \<open>cJSON_strdup\<close>, the
  \<open>cJSON_Create\<close> functions, references, adding to objects and replacing in them, the arrays made from C
  arrays, and the tests of the type.

  An allocation asks \<open>s_grant\<close> whether its call succeeds. The addresses it returns are new, so nothing the
  caller holds can be changed by filling them; \<open>fresh_part\<close> says so, and the theory proves of each function
  that builds an item what it returns and that a failed allocation leaves no block behind.
\<close>

section \<open>Allocation\<close>

definition new_node :: node where
  "new_node =
     \<lparr>n_next = None, n_prev = None, n_child = None, n_type = 0, n_valuestring = None, n_valueint = 0,
      n_valuedouble = dzero, n_string = None\<rparr>"

definition take_block :: "nat \<Rightarrow> store \<Rightarrow> nat option \<times> store" where
  "take_block n m =
     (if s_grant m (s_calls m) n
      then (Some (brk m), m\<lparr>s_calls := Suc (s_calls m), brk := Suc (brk m)\<rparr>)
      else (None, m\<lparr>s_calls := Suc (s_calls m)\<rparr>))"

definition cJSON_New_Item_at :: "store \<Rightarrow> nat option \<times> store" where
  "cJSON_New_Item_at m =
     (case take_block 64 m of
        (None, m) \<Rightarrow> (None, m)
      | (Some p, m) \<Rightarrow> (Some p, m\<lparr>nodes := (nodes m)(p \<mapsto> new_node)\<rparr>))"

definition cJSON_strdup_at :: "nat option \<Rightarrow> store \<Rightarrow> (nat option \<times> store) cres" where
  "cJSON_strdup_at string m =
     (if string = None then Inr (None, m)
      else cbind (str_at string m) (\<lambda>s.
        case take_block (length s + 1) m of
          (None, m) \<Rightarrow> Inr (None, m)
        | (Some p, m) \<Rightarrow> Inr (Some p, m\<lparr>strs := (strs m)(p \<mapsto> s @ [0]), static := (static m)(p := False)\<rparr>)))"

section \<open>Adding to containers\<close>

definition create_reference :: "nat option \<Rightarrow> store \<Rightarrow> (nat option \<times> store) cres" where
  "create_reference item m =
     (if item = None then Inr (None, m)
      else (case cJSON_New_Item_at m of
          (None, m) \<Rightarrow> Inr (None, m)
        | (Some p, m) \<Rightarrow>
            cbind (deref item m) (\<lambda>i.
            cbind (modify (Some p) (\<lambda>_. i\<lparr>n_string := None, n_type := n_type i OR cJSON_IsReference,
                n_next := None, n_prev := None\<rparr>) m) (\<lambda>m. Inr (Some p, m)))))"

text \<open>The second half of \<open>add_item_to_object\<close>: the old name is freed, the new one set, the item added.\<close>

definition add_named :: "nat option \<Rightarrow> nat option \<Rightarrow> u32 \<Rightarrow> nat option \<Rightarrow> store \<Rightarrow> (bool \<times> store) cres" where
  "add_named object new_key new_type item m =
     cbind (deref item m) (\<lambda>i.
     cbind (if n_type i AND cJSON_StringIsConst = 0 \<and> n_string i \<noteq> None
            then free_string (n_string i) m else Inr m) (\<lambda>m.
     cbind (modify item (\<lambda>n. n\<lparr>n_string := new_key, n_type := new_type\<rparr>) m) (\<lambda>m.
       add_item_to_array object item m)))"

definition add_item_to_object ::
    "nat option \<Rightarrow> nat option \<Rightarrow> nat option \<Rightarrow> bool \<Rightarrow> store \<Rightarrow> (bool \<times> store) cres" where
  "add_item_to_object object string item constant_key m =
     (if object = None \<or> string = None \<or> item = None then Inr (False, m)
      else if constant_key then
        cbind (deref item m) (\<lambda>i. add_named object string (n_type i OR cJSON_StringIsConst) item m)
      else cbind (cJSON_strdup_at string m) (\<lambda>(new_key, m).
        if new_key = None then Inr (False, m)
        else cbind (deref item m) (\<lambda>i.
          add_named object new_key (n_type i AND NOT cJSON_StringIsConst) item m)))"

definition cJSON_AddItemToObject :: "nat option \<Rightarrow> nat option \<Rightarrow> nat option \<Rightarrow> store \<Rightarrow> store cres" where
  "cJSON_AddItemToObject object string item m =
     cbind (add_item_to_object object string item False m) (\<lambda>(_, m). Inr m)"

definition cJSON_AddItemToObjectCS :: "nat option \<Rightarrow> nat option \<Rightarrow> nat option \<Rightarrow> store \<Rightarrow> store cres" where
  "cJSON_AddItemToObjectCS object string item m =
     cbind (add_item_to_object object string item True m) (\<lambda>(_, m). Inr m)"

text \<open>When the container refuses the reference it is lost: nothing frees it.\<close>

definition cJSON_AddItemReferenceToArray :: "nat option \<Rightarrow> nat option \<Rightarrow> store \<Rightarrow> store cres" where
  "cJSON_AddItemReferenceToArray array item m =
     (if array = None then Inr m
      else cbind (create_reference item m) (\<lambda>(r, m).
           cbind (add_item_to_array array r m) (\<lambda>(_, m). Inr m)))"

definition cJSON_AddItemReferenceToObject :: "nat option \<Rightarrow> nat option \<Rightarrow> nat option \<Rightarrow> store \<Rightarrow> store cres" where
  "cJSON_AddItemReferenceToObject object string item m =
     (if object = None \<or> string = None then Inr m
      else cbind (create_reference item m) (\<lambda>(r, m).
           cbind (add_item_to_object object string r False m) (\<lambda>(_, m). Inr m)))"

text \<open>
  \<open>replace_item_in_object\<close>: the old name of the replacement is freed before the new one is copied, and a
  copy that fails leaves the replacement without a name.
\<close>

definition replace_item_in_object ::
    "nat option \<Rightarrow> nat option \<Rightarrow> nat option \<Rightarrow> bool \<Rightarrow> store \<Rightarrow> (bool \<times> store) cres" where
  "replace_item_in_object object string replacement case_sensitive m =
     (if replacement = None \<or> string = None then Inr (False, m)
      else
        cbind (deref replacement m) (\<lambda>r.
        cbind (if n_type r AND cJSON_StringIsConst = 0 \<and> n_string r \<noteq> None
               then free_string (n_string r) m else Inr m) (\<lambda>m.
        cbind (cJSON_strdup_at string m) (\<lambda>(key, m).
        cbind (modify replacement (\<lambda>n. n\<lparr>n_string := key\<rparr>) m) (\<lambda>m.
        cbind (modify replacement (\<lambda>n. n\<lparr>n_type := n_type n AND NOT cJSON_StringIsConst\<rparr>) m) (\<lambda>m.
        cbind (get_object_item object string case_sensitive m) (\<lambda>item.
        cbind (cJSON_ReplaceItemViaPointer object item replacement m) (\<lambda>(_, m). Inr (True, m)))))))))"

definition cJSON_ReplaceItemInObject :: "nat option \<Rightarrow> nat option \<Rightarrow> nat option \<Rightarrow> store \<Rightarrow> store cres" where
  "cJSON_ReplaceItemInObject object string newitem m =
     cbind (replace_item_in_object object string newitem False m) (\<lambda>(_, m). Inr m)"

definition cJSON_ReplaceItemInObjectCaseSensitive ::
    "nat option \<Rightarrow> nat option \<Rightarrow> nat option \<Rightarrow> store \<Rightarrow> store cres" where
  "cJSON_ReplaceItemInObjectCaseSensitive object string newitem m =
     cbind (replace_item_in_object object string newitem True m) (\<lambda>(_, m). Inr m)"

section \<open>Creating items\<close>

type_synonym creator = "store \<Rightarrow> (nat option \<times> store) cres"

definition create :: "(node \<Rightarrow> node) \<Rightarrow> creator" where
  "create f m =
     (case cJSON_New_Item_at m of
        (None, m) \<Rightarrow> Inr (None, m)
      | (Some p, m) \<Rightarrow> cbind (modify (Some p) f m) (\<lambda>m. Inr (Some p, m)))"

definition cJSON_CreateNull :: creator where
  "cJSON_CreateNull = create (\<lambda>n. n\<lparr>n_type := cJSON_NULL\<rparr>)"

definition cJSON_CreateTrue :: creator where
  "cJSON_CreateTrue = create (\<lambda>n. n\<lparr>n_type := cJSON_True\<rparr>)"

definition cJSON_CreateFalse :: creator where
  "cJSON_CreateFalse = create (\<lambda>n. n\<lparr>n_type := cJSON_False\<rparr>)"

definition cJSON_CreateBool :: "bool \<Rightarrow> creator" where
  "cJSON_CreateBool b = create (\<lambda>n. n\<lparr>n_type := if b then cJSON_True else cJSON_False\<rparr>)"

definition cJSON_CreateNumber :: "dbl \<Rightarrow> creator" where
  "cJSON_CreateNumber num m =
     (case cJSON_New_Item_at m of
        (None, m) \<Rightarrow> Inr (None, m)
      | (Some p, m) \<Rightarrow>
          cbind (saturated_int num) (\<lambda>i.
          cbind (modify (Some p) (\<lambda>n. n\<lparr>n_type := cJSON_Number, n_valuedouble := num, n_valueint := i\<rparr>) m) (\<lambda>m.
            Inr (Some p, m))))"

text \<open>\<open>cJSON_CreateString\<close> and \<open>cJSON_CreateRaw\<close> differ in the type only.\<close>

definition create_text :: "u32 \<Rightarrow> nat option \<Rightarrow> creator" where
  "create_text ty string m =
     (case cJSON_New_Item_at m of
        (None, m) \<Rightarrow> Inr (None, m)
      | (Some p, m) \<Rightarrow>
          cbind (modify (Some p) (\<lambda>n. n\<lparr>n_type := ty\<rparr>) m) (\<lambda>m.
          cbind (cJSON_strdup_at string m) (\<lambda>(copy, m).
          cbind (modify (Some p) (\<lambda>n. n\<lparr>n_valuestring := copy\<rparr>) m) (\<lambda>m.
          if copy = None then cbind (cJSON_Delete_at (Some p) m) (\<lambda>m. Inr (None, m))
          else Inr (Some p, m)))))"

definition cJSON_CreateString :: "nat option \<Rightarrow> creator" where
  "cJSON_CreateString = create_text cJSON_String"

definition cJSON_CreateRaw :: "nat option \<Rightarrow> creator" where
  "cJSON_CreateRaw = create_text cJSON_Raw"

definition cJSON_CreateStringReference :: "nat option \<Rightarrow> creator" where
  "cJSON_CreateStringReference string =
     create (\<lambda>n. n\<lparr>n_type := cJSON_String OR cJSON_IsReference, n_valuestring := string\<rparr>)"

definition cJSON_CreateObjectReference :: "nat option \<Rightarrow> creator" where
  "cJSON_CreateObjectReference child =
     create (\<lambda>n. n\<lparr>n_type := cJSON_Object OR cJSON_IsReference, n_child := child\<rparr>)"

definition cJSON_CreateArrayReference :: "nat option \<Rightarrow> creator" where
  "cJSON_CreateArrayReference child =
     create (\<lambda>n. n\<lparr>n_type := cJSON_Array OR cJSON_IsReference, n_child := child\<rparr>)"

definition cJSON_CreateArray :: creator where
  "cJSON_CreateArray = create (\<lambda>n. n\<lparr>n_type := cJSON_Array\<rparr>)"

definition cJSON_CreateObject :: creator where
  "cJSON_CreateObject = create (\<lambda>n. n\<lparr>n_type := cJSON_Object\<rparr>)"

text \<open>The \<open>cJSON_Add...ToObject\<close> functions: create, add, delete again if that fails.\<close>

definition add_created :: "creator \<Rightarrow> nat option \<Rightarrow> nat option \<Rightarrow> creator" where
  "add_created mk object name m =
     cbind (mk m) (\<lambda>(item, m).
     cbind (add_item_to_object object name item False m) (\<lambda>(ok, m).
     if ok then Inr (item, m) else cbind (cJSON_Delete_at item m) (\<lambda>m. Inr (None, m))))"

definition cJSON_AddNullToObject :: "nat option \<Rightarrow> nat option \<Rightarrow> creator" where
  "cJSON_AddNullToObject object name = add_created cJSON_CreateNull object name"

definition cJSON_AddTrueToObject :: "nat option \<Rightarrow> nat option \<Rightarrow> creator" where
  "cJSON_AddTrueToObject object name = add_created cJSON_CreateTrue object name"

definition cJSON_AddFalseToObject :: "nat option \<Rightarrow> nat option \<Rightarrow> creator" where
  "cJSON_AddFalseToObject object name = add_created cJSON_CreateFalse object name"

definition cJSON_AddBoolToObject :: "nat option \<Rightarrow> nat option \<Rightarrow> bool \<Rightarrow> creator" where
  "cJSON_AddBoolToObject object name boolean = add_created (cJSON_CreateBool boolean) object name"

definition cJSON_AddNumberToObject :: "nat option \<Rightarrow> nat option \<Rightarrow> dbl \<Rightarrow> creator" where
  "cJSON_AddNumberToObject object name number = add_created (cJSON_CreateNumber number) object name"

definition cJSON_AddStringToObject :: "nat option \<Rightarrow> nat option \<Rightarrow> nat option \<Rightarrow> creator" where
  "cJSON_AddStringToObject object name string = add_created (cJSON_CreateString string) object name"

definition cJSON_AddRawToObject :: "nat option \<Rightarrow> nat option \<Rightarrow> nat option \<Rightarrow> creator" where
  "cJSON_AddRawToObject object name raw = add_created (cJSON_CreateRaw raw) object name"

definition cJSON_AddObjectToObject :: "nat option \<Rightarrow> nat option \<Rightarrow> creator" where
  "cJSON_AddObjectToObject object name = add_created cJSON_CreateObject object name"

definition cJSON_AddArrayToObject :: "nat option \<Rightarrow> nat option \<Rightarrow> creator" where
  "cJSON_AddArrayToObject object name = add_created cJSON_CreateArray object name"

section \<open>Arrays made from C arrays\<close>

text \<open>
  The loop the four functions share: \<open>k\<close> elements are to come, the next is \<open>xs ! i\<close>, \<open>p\<close> is the last item
  made. A read behind the C array is a fault.
\<close>

fun fill_array :: "('a \<Rightarrow> creator) \<Rightarrow> 'a list \<Rightarrow> nat \<Rightarrow> nat option \<Rightarrow> nat \<Rightarrow> nat \<Rightarrow> creator" where
  "fill_array mk xs a p i 0 m = Inr (Some a, m)"
| "fill_array mk xs a p i (Suc k) m =
     (if length xs \<le> i then Inl OutOfBounds
      else cbind (mk (xs ! i) m) (\<lambda>(n, m).
        if n = None then cbind (cJSON_Delete_at (Some a) m) (\<lambda>m. Inr (None, m))
        else cbind (if i = 0 then modify (Some a) (\<lambda>c. c\<lparr>n_child := n\<rparr>) m else suffix_object p n m) (\<lambda>m.
          fill_array mk xs a n (Suc i) k m)))"

definition create_array :: "('a \<Rightarrow> creator) \<Rightarrow> 'a list option \<Rightarrow> int \<Rightarrow> creator" where
  "create_array mk numbers cnt m =
     (case numbers of None \<Rightarrow> Inr (None, m)
      | Some xs \<Rightarrow>
          if cnt < 0 then Inr (None, m)
          else cbind (cJSON_CreateArray m) (\<lambda>(a, m).
            case a of None \<Rightarrow> Inr (None, m) | Some a \<Rightarrow> fill_array mk xs a None 0 (nat cnt) m))"

definition dbl_of_int :: "int \<Rightarrow> dbl" where
  "dbl_of_int i = round64 (i < 0) (nat \<bar>i\<bar>) 1"

definition cJSON_CreateIntArray :: "int list option \<Rightarrow> int \<Rightarrow> creator" where
  "cJSON_CreateIntArray = create_array (\<lambda>i. cJSON_CreateNumber (dbl_of_int i))"

text \<open>A \<open>float\<close> is a double that fits one; its conversion to \<open>double\<close> changes nothing.\<close>

definition cJSON_CreateFloatArray :: "dbl list option \<Rightarrow> int \<Rightarrow> creator" where
  "cJSON_CreateFloatArray = create_array cJSON_CreateNumber"

definition cJSON_CreateDoubleArray :: "dbl list option \<Rightarrow> int \<Rightarrow> creator" where
  "cJSON_CreateDoubleArray = create_array cJSON_CreateNumber"

definition cJSON_CreateStringArray :: "nat option list option \<Rightarrow> int \<Rightarrow> creator" where
  "cJSON_CreateStringArray = create_array cJSON_CreateString"

section \<open>Testing the type\<close>

definition type_is :: "u32 \<Rightarrow> nat option \<Rightarrow> store \<Rightarrow> bool cres" where
  "type_is ty item m =
     (if item = None then Inr False else cbind (deref item m) (\<lambda>n. Inr (n_type n AND 0xFF = ty)))"

definition cJSON_IsInvalid :: "nat option \<Rightarrow> store \<Rightarrow> bool cres" where
  "cJSON_IsInvalid = type_is cJSON_Invalid"

definition cJSON_IsFalse :: "nat option \<Rightarrow> store \<Rightarrow> bool cres" where
  "cJSON_IsFalse = type_is cJSON_False"

definition cJSON_IsTrue :: "nat option \<Rightarrow> store \<Rightarrow> bool cres" where
  "cJSON_IsTrue = type_is cJSON_True"

text \<open>This one does not compare, it tests the two bits.\<close>

definition cJSON_IsBool :: "nat option \<Rightarrow> store \<Rightarrow> bool cres" where
  "cJSON_IsBool item m =
     (if item = None then Inr False
      else cbind (deref item m) (\<lambda>n. Inr (n_type n AND (cJSON_True OR cJSON_False) \<noteq> 0)))"

definition cJSON_IsNull :: "nat option \<Rightarrow> store \<Rightarrow> bool cres" where
  "cJSON_IsNull = type_is cJSON_NULL"

definition cJSON_IsNumber :: "nat option \<Rightarrow> store \<Rightarrow> bool cres" where
  "cJSON_IsNumber = type_is cJSON_Number"

definition cJSON_IsString :: "nat option \<Rightarrow> store \<Rightarrow> bool cres" where
  "cJSON_IsString = type_is cJSON_String"

definition cJSON_IsArray :: "nat option \<Rightarrow> store \<Rightarrow> bool cres" where
  "cJSON_IsArray = type_is cJSON_Array"

definition cJSON_IsObject :: "nat option \<Rightarrow> store \<Rightarrow> bool cres" where
  "cJSON_IsObject = type_is cJSON_Object"

definition cJSON_IsRaw :: "nat option \<Rightarrow> store \<Rightarrow> bool cres" where
  "cJSON_IsRaw = type_is cJSON_Raw"

definition cJSON_GetStringValue :: "nat option \<Rightarrow> store \<Rightarrow> nat option cres" where
  "cJSON_GetStringValue item m =
     cbind (cJSON_IsString item m) (\<lambda>is_string.
     if \<not> is_string then Inr None else cbind (deref item m) (\<lambda>n. Inr (n_valuestring n)))"

section \<open>New parts of the store\<close>

text \<open>
  \<open>extends m m'\<close>: what was below the old \<open>brk\<close> is unchanged. \<open>fresh_part m m' ts\<close>: what is new are exactly
  the well-formed trees \<open>ts\<close>, each in no chain.
\<close>

definition extends :: "store \<Rightarrow> store \<Rightarrow> bool" where
  "extends m m' \<longleftrightarrow>
     brk m \<le> brk m' \<and> s_grant m' = s_grant m \<and>
     (\<forall>p. p < brk m \<longrightarrow> nodes m' p = nodes m p \<and> strs m' p = strs m p \<and> static m' p = static m p)"

definition fresh_part :: "store \<Rightarrow> store \<Rightarrow> tree list \<Rightarrow> bool" where
  "fresh_part m m' ts \<longleftrightarrow>
     extends m m' \<and> in_room m' \<and> forest_ok m' ts \<and>
     (\<forall>p. p \<in> set (forest_nodes ts) \<longleftrightarrow> brk m \<le> p \<and> nodes m' p \<noteq> None) \<and>
     (\<forall>s. s \<in> set (forest_strs m' ts) \<longleftrightarrow> brk m \<le> s \<and> strs m' s \<noteq> None) \<and>
     (\<forall>t \<in> set ts. loose m' (root t) \<and> (\<forall>s \<in> set (mentioned m' t). s < brk m'))"

lemma extends_refl: "extends m m"
  by (simp add: extends_def)

lemma extends_trans: "extends m m1 \<Longrightarrow> extends m1 m2 \<Longrightarrow> extends m m2"
  unfolding extends_def by (metis le_trans order.strict_trans2)

lemma fresh_part_refl: "in_room m \<Longrightarrow> fresh_part m m []"
  by (auto simp: fresh_part_def extends_refl forest_ok_def in_room_def not_less [symmetric])

lemma extends_tree:
  assumes e: "extends m1 m2" and r: "in_room m1" and h: "holds m1 t" and s: "\<forall>s \<in> set (mentioned m1 t). s < brk m1"
  shows "same_tree m1 m2 t"
proof -
  have eq: "nodes m2 p = nodes m1 p" if "p \<in> set (owned_nodes t)" for p
    using holds_live [OF h that] e r by (auto simp: extends_def in_room_def)
  have "the_item m2 t = the_item m1 t"
    using eq s
  proof (induction t rule: owned_nodes.induct)
    case (1 p ts)
    have "map (the_item m2) ts = map (the_item m1) ts"
      using 1 by (intro map_cong [OF refl] "1.IH") auto
    moreover have "content m2 a = content m1 a" if "\<forall>s \<in> set (opt_list a). s < brk m1" for a
      using that e by (cases a) (auto simp: content_def extends_def)
    ultimately show ?case
      using "1.prems" by (cases "nodes m1 p") auto
  qed
  then show ?thesis
    using holds_cong [of t m2 m1, OF eq] owned_strs_cong [of t m2 m1, OF eq] mentioned_cong [of t m2 m1, OF eq]
    by (simp add: same_tree_def)
qed

lemma fresh_part_append:
  assumes a: "fresh_part m m1 ts" and b: "fresh_part m1 m2 us"
  shows "fresh_part m m2 (ts @ us)" and "\<forall>t \<in> set ts. the_item m2 t = the_item m1 t"
proof -
  have e: "extends m m1" "extends m1 m2" and r: "in_room m1" "in_room m2"
    using a b by (simp_all add: fresh_part_def)
  have same: "same_tree m1 m2 t" if "t \<in> set ts" for t
    by (rule extends_tree [OF e(2) r(1)]) (use a that in \<open>auto simp: fresh_part_def forest_ok_def\<close>)
  then show "\<forall>t \<in> set ts. the_item m2 t = the_item m1 t"
    by (simp add: same_tree_def)
  have fs: "forest_strs m2 ts = forest_strs m1 ts"
    by (rule arg_cong [OF map_cong [OF refl]]) (use same in \<open>auto simp: same_tree_def\<close>)
  have below: "p < brk m1" if "nodes m1 p \<noteq> None \<or> strs m1 p \<noteq> None" for p
    using that r(1) by (auto simp: in_room_def)
  have nodes: "p \<in> set (forest_nodes ts) \<longleftrightarrow> brk m \<le> p \<and> p < brk m1 \<and> nodes m2 p \<noteq> None" for p
    using a e(2) below [of p] by (auto simp: fresh_part_def extends_def)
  have nodes': "p \<in> set (forest_nodes us) \<longleftrightarrow> brk m1 \<le> p \<and> nodes m2 p \<noteq> None" for p
    using b by (simp add: fresh_part_def)
  have strs: "s \<in> set (forest_strs m2 ts) \<longleftrightarrow> brk m \<le> s \<and> s < brk m1 \<and> strs m2 s \<noteq> None" for s
    using a e(2) below [of s] unfolding fs by (auto simp: fresh_part_def extends_def)
  have strs': "s \<in> set (forest_strs m2 us) \<longleftrightarrow> brk m1 \<le> s \<and> strs m2 s \<noteq> None" for s
    using b by (simp add: fresh_part_def)
  have le: "brk m \<le> brk m1"
    using e by (simp add: extends_def)
  have "loose m2 (root t) \<and> (\<forall>s \<in> set (mentioned m2 t). s < brk m2)" if t: "t \<in> set (ts @ us)" for t
  proof (cases "t \<in> set ts")
    case True
    have "root t < brk m1" "brk m1 \<le> brk m2"
      using nodes [of "root t"] root_in_forest [of "root t" ts] True e by (auto simp: extends_def)
    then show ?thesis
      using True same [OF True] a e(2) unfolding fresh_part_def same_tree_def extends_def loose_def
      by (metis order.strict_trans2)
  qed (use t b in \<open>simp add: fresh_part_def\<close>)
  moreover have "forest_ok m2 (ts @ us)"
  proof -
    have "static m2 s = static m1 s \<and> strs m2 s = strs m1 s" if "s \<in> set (forest_strs m1 ts)" for s
      using strs [of s] that fs e(2) by (simp add: extends_def)
    moreover have "\<forall>t \<in> set ts. holds m2 t"
      using same a by (auto simp: same_tree_def fresh_part_def forest_ok_def)
    moreover have "set (forest_nodes ts) \<inter> set (forest_nodes us) = {}"
      using nodes nodes' by fastforce
    moreover have "set (forest_strs m2 ts) \<inter> set (forest_strs m2 us) = {}"
      using strs strs' by fastforce
    ultimately show ?thesis
      using a b fs unfolding fresh_part_def forest_ok_def map_append concat_append distinct_append set_append
      by (metis Un_iff)
  qed
  moreover have "p \<in> set (forest_nodes (ts @ us)) \<longleftrightarrow> brk m \<le> p \<and> nodes m2 p \<noteq> None" for p
    using nodes [of p] nodes' [of p] le by (cases "p < brk m1") auto
  moreover have "s \<in> set (forest_strs m2 (ts @ us)) \<longleftrightarrow> brk m \<le> s \<and> strs m2 s \<noteq> None" for s
    using strs [of s] strs' [of s] le by (cases "s < brk m1") auto
  ultimately show "fresh_part m m2 (ts @ us)"
    using extends_trans [OF e] r(2) unfolding fresh_part_def by blast
qed

text \<open>Putting a new item behind the children of a new container, and giving a new tree back.\<close>

lemma fresh_part_link:
  assumes f: "fresh_part m m1 [Tree a ts, t]" and n: "nodes m1 a = Some n" "\<not> is_ref n"
    and re: "relinked a S m1 m2" and S: "S \<subseteq> set (map root (ts @ [t]))"
    and k: "kids m2 a (map root (ts @ [t]))"
  shows "fresh_part m m2 [Tree a (ts @ [t])]"
    and "the_item m2 (Tree a (ts @ [t])) = set_children (map (the_item m1) (ts @ [t])) (the_item m1 (Tree a ts))"
proof -
  have ok: "forest_ok m1 (Tree a ts # [t])"
    using f by (simp add: fresh_part_def)
  have "mset (ts @ [t]) + mset [] = mset ts + mset [t]"
    by simp
  note r = relinked_forest [OF ok n re S k this]
  have m2: "m2 = m1\<lparr>nodes := nodes m2\<rparr>"
    by (rule relinked_store [OF re])
  have store: "strs m2 = strs m1" "static m2 = static m1" "brk m2 = brk m1" "s_grant m2 = s_grant m1"
    using arg_cong [OF m2, of strs] arg_cong [OF m2, of static] arg_cong [OF m2, of brk] arg_cong [OF m2, of s_grant]
    by simp_all
  have own: "p \<in> set (forest_nodes [Tree a ts, t]) \<longleftrightarrow> brk m \<le> p \<and> nodes m1 p \<noteq> None" for p
    using f by (simp add: fresh_part_def)
  have nodes_eq: "set (forest_nodes [Tree a (ts @ [t])]) = set (forest_nodes [Tree a ts, t])"
    by auto
  have strs_eq: "set (forest_strs m2 [Tree a (ts @ [t])]) = set (forest_strs m1 [Tree a ts, t])"
    using r(6) by simp
  have old: "nodes m2 p = nodes m1 p" if "p < brk m" for p
  proof -
    have "p \<notin> set (forest_nodes [Tree a ts, t])"
      using own [of p] that by auto
    then have "p \<noteq> a" "p \<notin> S"
      using S root_in_forest [of p "ts @ [t]"] by auto
    then show ?thesis
      using re by (simp add: relinked_def)
  qed
  then have "extends m m2"
    using f store by (simp add: fresh_part_def extends_def)
  moreover have "in_room m2"
    using relinked_in_room [OF re] f by (simp add: fresh_part_def)
  moreover have "loose m2 a"
    using f n re by (auto simp: fresh_part_def loose_unfold relinked_def)
  moreover have "s < brk m2" if "s \<in> set (mentioned m2 (Tree a (ts @ [t])))" for s
  proof -
    have "s \<in> set (mentioned m1 (Tree a (ts @ [t])))"
      using that by (simp only: r(5))
    then have "s \<in> set (mentioned m1 (Tree a ts)) \<or> s \<in> set (mentioned m1 t)"
      by auto
    then show ?thesis
      using f store by (auto simp: fresh_part_def simp del: mentioned.simps)
  qed
  ultimately show "fresh_part m m2 [Tree a (ts @ [t])]"
    using r(1) f own relinked_live(1) [OF re] store unfolding fresh_part_def nodes_eq strs_eq by simp
  show "the_item m2 (Tree a (ts @ [t])) = set_children (map (the_item m1) (ts @ [t])) (the_item m1 (Tree a ts))"
    by (fact r(2))
qed

lemma fresh_part_delete:
  assumes f: "fresh_part m m1 [t]"
  shows "\<exists>m2. cJSON_Delete_at (Some (root t)) m1 = Inr m2 \<and> fresh_part m m2 []"
proof -
  let ?m2 = "remove (owned_nodes t) (owned_strs m1 t) m1"
  have "cJSON_Delete_at (Some (root t)) m1 = Inr ?m2"
    using f by (intro cJSON_Delete_at_tree) (simp_all add: fresh_part_def)
  moreover have "fresh_part m ?m2 []"
  proof -
    have "extends m ?m2"
      using f by (auto simp: fresh_part_def extends_def)
    moreover have "in_room ?m2"
      using f by (auto simp: fresh_part_def in_room_def)
    ultimately show ?thesis
      using f by (auto simp: fresh_part_def forest_ok_def)
  qed
  ultimately show ?thesis
    by blast
qed

section \<open>What the functions that create items return\<close>

text \<open>
  A new loose item with the given value and nothing else that is new, or null with nothing new at all; null
  only when an allocation failed.
\<close>

definition makes :: "creator \<Rightarrow> store \<Rightarrow> cJSON \<Rightarrow> bool" where
  "makes mk m item \<longleftrightarrow>
     (\<exists>r m'. mk m = Inr (r, m') \<and>
       (case r of
          None \<Rightarrow> fresh_part m m' [] \<and> (\<exists>k n. \<not> s_grant m k n)
        | Some p \<Rightarrow> \<exists>t. root t = p \<and> fresh_part m m' [t] \<and> the_item m' t = item))"

lemma makesE:
  assumes "makes mk m item"
  obtains m' where "mk m = Inr (None, m')" "fresh_part m m' []" "\<exists>k n. \<not> s_grant m k n"
    | t m' where "mk m = Inr (Some (root t), m')" "fresh_part m m' [t]" "the_item m' t = item"
proof -
  from assms obtain r m' where r: "mk m = Inr (r, m')"
      "case r of None \<Rightarrow> fresh_part m m' [] \<and> (\<exists>k n. \<not> s_grant m k n)
       | Some p \<Rightarrow> \<exists>t. root t = p \<and> fresh_part m m' [t] \<and> the_item m' t = item"
    unfolding makes_def by blast
  then show ?thesis
    using that by (cases r) auto
qed

lemma makesI_none: "mk m = Inr (None, m') \<Longrightarrow> fresh_part m m' [] \<Longrightarrow> \<not> s_grant m k n \<Longrightarrow> makes mk m item"
  unfolding makes_def by (rule exI [of _ None]) auto

lemma makesI: "mk m = Inr (Some (root t), m') \<Longrightarrow> fresh_part m m' [t] \<Longrightarrow> the_item m' t = item \<Longrightarrow> makes mk m item"
  unfolding makes_def by (rule exI [of _ "Some (root t)"]) auto

lemma in_room_above: "in_room m \<Longrightarrow> brk m \<le> p \<Longrightarrow> nodes m p = None \<and> strs m p = None"
  unfolding in_room_def by (metis not_less)

lemma fresh_partI:
  assumes "extends m m'" and "in_room m'" and "forest_ok m' ts" and "in_room m"
    and "\<And>p. p \<in> set (forest_nodes ts) \<Longrightarrow> brk m \<le> p"
    and "\<And>s. s \<in> set (forest_strs m' ts) \<Longrightarrow> brk m \<le> s"
    and "\<And>p. nodes m' p \<noteq> None \<Longrightarrow> p \<in> set (forest_nodes ts) \<or> nodes m p \<noteq> None"
    and "\<And>s. strs m' s \<noteq> None \<Longrightarrow> s \<in> set (forest_strs m' ts) \<or> strs m s \<noteq> None"
    and "\<And>t. t \<in> set ts \<Longrightarrow> loose m' (root t) \<and> (\<forall>s \<in> set (mentioned m' t). s < brk m')"
  shows "fresh_part m m' ts"
proof -
  have live: "nodes m' p \<noteq> None" if "p \<in> set (forest_nodes ts)" for p
    using assms(3) that holds_live by (fastforce simp: forest_ok_def)
  have "p \<in> set (forest_nodes ts) \<longleftrightarrow> brk m \<le> p \<and> nodes m' p \<noteq> None" for p
    using assms(5) [of p] assms(7) [of p] live [of p] in_room_above [OF assms(4), of p] by metis
  moreover have "s \<in> set (forest_strs m' ts) \<longleftrightarrow> brk m \<le> s \<and> strs m' s \<noteq> None" for s
  proof -
    have "strs m' s \<noteq> None" if "s \<in> set (forest_strs m' ts)"
      using assms(3) that unfolding forest_ok_def by blast
    then show ?thesis
      using assms(6) [of s] assms(8) [of s] in_room_above [OF assms(4), of s] by metis
  qed
  ultimately show ?thesis
    using assms(1,2,3,9) unfolding fresh_part_def by simp
qed

lemma fresh_part_calls: "in_room m \<Longrightarrow> fresh_part m (m\<lparr>s_calls := k\<rparr>) []"
  by (rule fresh_partI) (simp_all add: extends_def in_room_def forest_ok_def)

text \<open>
  A new structure \<open>n\<close> and the copies \<open>bs\<close> of strings made for it, one block after the other: every function
  that creates one item moves from such a store to the next.
\<close>

definition new_blocks :: "store \<Rightarrow> node \<Rightarrow> bytes list \<Rightarrow> nat \<Rightarrow> store" where
  "new_blocks m n bs k =
     m\<lparr>nodes := (nodes m)(brk m \<mapsto> n),
       strs := (\<lambda>s. if brk m < s \<and> s \<le> brk m + length bs then Some (bs ! (s - Suc (brk m))) else strs m s),
       static := (\<lambda>s. if brk m < s \<and> s \<le> brk m + length bs then False else static m s),
       brk := Suc (brk m + length bs), s_calls := k\<rparr>"

lemma new_blocks_simps [simp]:
  "nodes (new_blocks m n bs k) = (nodes m)(brk m \<mapsto> n)"
  "brk (new_blocks m n bs k) = Suc (brk m + length bs)" "s_calls (new_blocks m n bs k) = k"
  "s_grant (new_blocks m n bs k) = s_grant m"
  by (simp_all add: new_blocks_def)

lemma cJSON_New_Item_at_blocks:
  "in_room m \<Longrightarrow> cJSON_New_Item_at m =
     (if s_grant m (s_calls m) 64 then (Some (brk m), new_blocks m new_node [] (Suc (s_calls m)))
      else (None, m\<lparr>s_calls := Suc (s_calls m)\<rparr>))"
proof -
  have "new_blocks m new_node [] k = m\<lparr>nodes := (nodes m)(brk m \<mapsto> new_node), brk := Suc (brk m), s_calls := k\<rparr>" for k
    by (rule store.equality) (auto simp: new_blocks_def intro!: ext)
  then show ?thesis
    by (simp add: cJSON_New_Item_at_def take_block_def)
qed

lemma modify_blocks [simp]: "modify (Some (brk m)) f (new_blocks m n bs k) = Inr (new_blocks m (f n) bs k)"
  by (simp add: new_blocks_def)

lemma content_blocks:
  assumes "in_room m" and "readable m a"
  shows "content (new_blocks m n bs k) a = content m a"
proof -
  obtain x where "a = Some x" "strs m x \<noteq> None"
    using assms(2) by (cases a) (auto simp: readable_def content_def split: option.splits)
  then show ?thesis
    using assms(1) by (auto simp: content_def new_blocks_def in_room_def)
qed

lemma cJSON_strdup_at_blocks:
  assumes r: "in_room m" and a: "readable m a"
  shows "cJSON_strdup_at a (new_blocks m n bs k) =
    (if s_grant m k (length (text_of m a) + 1)
     then Inr (Some (Suc (brk m + length bs)), new_blocks m n (bs @ [text_of m a @ [0]]) (Suc k))
     else Inr (None, new_blocks m n bs (Suc k)))"
proof -
  let ?m = "new_blocks m n bs k"
  have "str_at a ?m = Inr (text_of m a)"
    using str_at_readable [of ?m a] a content_blocks [OF r a] by (simp add: readable_def text_of_def)
  moreover have "a \<noteq> None"
    using a by (cases a) (simp_all add: readable_def content_def)
  moreover have "?m\<lparr>s_calls := Suc k\<rparr> = new_blocks m n bs (Suc k)"
    by (simp add: new_blocks_def)
  moreover have "new_blocks m n bs (Suc k)\<lparr>brk := Suc (Suc (brk m + length bs)),
      strs := (strs (new_blocks m n bs (Suc k)))(Suc (brk m + length bs) \<mapsto> text_of m a @ [0]),
      static := (static (new_blocks m n bs (Suc k)))(Suc (brk m + length bs) := False)\<rparr> = new_blocks m n (bs @ [text_of m a @ [0]]) (Suc k)"
    by (rule store.equality) (auto simp: new_blocks_def nth_append less_Suc_eq_le le_Suc_eq intro!: ext)
  ultimately show ?thesis
    by (auto simp: cJSON_strdup_at_def take_block_def)
qed

lemma fresh_part_blocks:
  assumes r: "in_room m" and l: "n_next n = None" "n_prev n = None" and c: "is_ref n \<or> n_child n = None"
    and s: "strs_of_node n = [Suc (brk m)..<Suc (brk m + length bs)]"
      "\<forall>s \<in> set (opt_list (n_valuestring n) @ opt_list (n_string n)). s \<le> brk m + length bs"
  shows "fresh_part m (new_blocks m n bs k) [Tree (brk m) []]"
proof (rule fresh_partI)
  show "in_room (new_blocks m n bs k)" "extends m (new_blocks m n bs k)"
    using r by (auto simp: in_room_def extends_def new_blocks_def less_Suc_eq split: if_splits)
  show "forest_ok (new_blocks m n bs k) [Tree (brk m) []]"
    using c s by (auto simp: forest_ok_def strs_at_def new_blocks_def)
qed (use assms in \<open>auto simp: strs_at_def loose_def new_blocks_def less_Suc_eq_le split: if_splits\<close>)

lemma the_item_blocks:
  "the_item (new_blocks m n bs k) (Tree (brk m) []) =
     Item (n_type n) (content (new_blocks m n bs k) (n_valuestring n)) (n_valueint n) (n_valuedouble n)
       (content (new_blocks m n bs k) (n_string n)) []"
  by simp

lemma content_new [simp]:
  "i < length bs \<Longrightarrow> content (new_blocks m n bs k) (Some (Suc (brk m + i))) = Some (bs ! i)"
  "content (new_blocks m n bs k) None = None"
  by (auto simp: content_def new_blocks_def)

lemma makes_nothing:
  assumes "in_room m" and "cJSON_New_Item_at m = (None, m')" and "mk m = Inr (None, m')"
  shows "makes mk m item"
proof -
  have "\<not> s_grant m (s_calls m) 64" "m' = m\<lparr>s_calls := Suc (s_calls m)\<rparr>"
    using assms(1,2) by (auto simp: cJSON_New_Item_at_blocks split: if_splits)
  then show ?thesis
    using makesI_none [of mk m m'] assms(3) fresh_part_calls [OF assms(1)] by blast
qed

lemma create_makes:
  assumes r: "in_room m" and n: "n = f new_node" "n_next n = None" "n_prev n = None" "is_ref n \<or> n_child n = None"
    "strs_of_node n = []" "\<forall>s \<in> set (opt_list (n_valuestring n) @ opt_list (n_string n)). s \<le> brk m"
  shows "makes (create f) m (the_item (new_blocks m n [] (Suc (s_calls m))) (Tree (brk m) []))"
proof (cases "s_grant m (s_calls m) 64")
  case False
  then show ?thesis
    by (intro makes_nothing [OF r]) (simp_all add: cJSON_New_Item_at_blocks [OF r] create_def)
next
  case True
  have "create f m = Inr (Some (root (Tree (brk m) [])), new_blocks m n [] (Suc (s_calls m)))"
    using True n(1) by (simp add: create_def cJSON_New_Item_at_blocks [OF r])
  moreover have "fresh_part m (new_blocks m n [] (Suc (s_calls m))) [Tree (brk m) []]"
    by (rule fresh_part_blocks [OF r n(2-4)]) (use n(5,6) in simp_all)
  ultimately show ?thesis
    by (rule makesI) (rule refl)
qed

lemma cJSON_CreateNumber_makes:
  assumes r: "in_room m" and i: "saturated_int d = Inr i"
  shows "makes (cJSON_CreateNumber d) m (Item cJSON_Number None i d None [])"
proof (cases "s_grant m (s_calls m) 64")
  case False
  then show ?thesis
    by (intro makes_nothing [OF r]) (simp_all add: cJSON_New_Item_at_blocks [OF r] cJSON_CreateNumber_def)
next
  case True
  let ?n = "new_node\<lparr>n_type := cJSON_Number, n_valuedouble := d, n_valueint := i\<rparr>"
  have "cJSON_CreateNumber d m = Inr (Some (root (Tree (brk m) [])), new_blocks m ?n [] (Suc (s_calls m)))"
    using True i by (simp add: cJSON_CreateNumber_def cJSON_New_Item_at_blocks [OF r])
  moreover have "fresh_part m (new_blocks m ?n [] (Suc (s_calls m))) [Tree (brk m) []]"
    by (rule fresh_part_blocks [OF r]) (simp_all add: new_node_def strs_of_node_def)
  ultimately show ?thesis
    by (rule makesI) (simp add: new_node_def)
qed

lemma create_text_makes:
  assumes r: "in_room m" and s: "readable m string" and ty: "ty AND cJSON_IsReference = 0" "ty AND cJSON_StringIsConst = 0"
  shows "makes (create_text ty string) m (Item ty (Some (text_of m string @ [0])) 0 dzero None [])"
proof (cases "s_grant m (s_calls m) 64")
  case False
  then show ?thesis
    by (intro makes_nothing [OF r]) (simp_all add: cJSON_New_Item_at_blocks [OF r] create_text_def)
next
  case True
  let ?k = "Suc (s_calls m)" and ?n = "new_node\<lparr>n_type := ty\<rparr>"
  show ?thesis
  proof (cases "s_grant m ?k (length (text_of m string) + 1)")
    case False
    let ?m2 = "new_blocks m (?n\<lparr>n_valuestring := None\<rparr>) [] (Suc ?k)"
    have "fresh_part m ?m2 [Tree (brk m) []]"
      by (rule fresh_part_blocks [OF r]) (simp_all add: new_node_def strs_of_node_def)
    then obtain m3 where "cJSON_Delete_at (Some (brk m)) ?m2 = Inr m3" "fresh_part m m3 []"
      using fresh_part_delete by fastforce
    then show ?thesis
      using True False makesI_none [of "create_text ty string" m m3]
      by (simp add: create_text_def cJSON_New_Item_at_blocks [OF r] cJSON_strdup_at_blocks [OF r s])
  next
    case dup: True
    let ?n' = "?n\<lparr>n_valuestring := Some (Suc (brk m))\<rparr>" and ?bs = "[text_of m string @ [0]]"
    have "create_text ty string m = Inr (Some (root (Tree (brk m) [])), new_blocks m ?n' ?bs (Suc ?k))"
      using True dup by (simp add: create_text_def cJSON_New_Item_at_blocks [OF r] cJSON_strdup_at_blocks [OF r s])
    moreover have "fresh_part m (new_blocks m ?n' ?bs (Suc ?k)) [Tree (brk m) []]"
      by (rule fresh_part_blocks [OF r]) (use ty in \<open>simp_all add: new_node_def strs_of_node_def\<close>)
    moreover have "the_item (new_blocks m ?n' ?bs (Suc ?k)) (Tree (brk m) []) = Item ty (Some (text_of m string @ [0])) 0 dzero None []"
      using content_new(1) [of 0 ?bs m ?n' "Suc ?k"] unfolding the_item_blocks by (simp add: new_node_def)
    ultimately show ?thesis
      by (rule makesI)
  qed
qed

section \<open>Arrays of new items\<close>

text \<open>A new container that is being filled: \<open>a\<close> with the children \<open>ts\<close>, with the value \<open>item\<close> so far.\<close>

definition growing :: "store \<Rightarrow> store \<Rightarrow> nat \<Rightarrow> tree list \<Rightarrow> cJSON \<Rightarrow> bool" where
  "growing m m1 a ts item \<longleftrightarrow>
     fresh_part m m1 [Tree a ts] \<and> (\<exists>n. nodes m1 a = Some n \<and> \<not> is_ref n) \<and> the_item m1 (Tree a ts) = item"

lemma growing_next:
  assumes g: "growing m m1 a ts item" and made: "fresh_part m1 m2 [t]"
  obtains m3 where
    "(if ts = [] then modify (Some a) (\<lambda>c. c\<lparr>n_child := Some (root t)\<rparr>) m2
      else suffix_object (Some (root (last ts))) (Some (root t)) m2) = Inr m3"
    "growing m m3 a (ts @ [t]) (set_children (children item @ [the_item m2 t]) item)"
proof -
  obtain n where n: "nodes m1 a = Some n" "\<not> is_ref n" and f1: "fresh_part m m1 [Tree a ts]"
    using g by (auto simp: growing_def)
  have e: "extends m m1" "extends m1 m2" and r1: "in_room m1"
    using f1 made(1) by (simp_all add: fresh_part_def)
  have f2: "fresh_part m m2 [Tree a ts, t]" and same: "the_item m2 (Tree a ts) = the_item m1 (Tree a ts)"
    using fresh_part_append [OF f1 made(1)] by simp_all
  have n2: "nodes m2 a = Some n"
    using n r1 e(2) unfolding in_room_def extends_def by (metis option.distinct(1))
  have w: "world m2 a ts [t]"
    using f2 n2 n(2) by (simp add: world_def fresh_part_def)
  have q: "loose m2 (root t)" "root t \<notin> set (a # map root ts)"
    using w world_kids(2) [OF w, of t] by (simp_all add: world_def)
  have "\<exists>m3 S. (if ts = [] then modify (Some a) (\<lambda>c. c\<lparr>n_child := Some (root t)\<rparr>) m2
      else suffix_object (Some (root (last ts))) (Some (root t)) m2) = Inr m3 \<and>
      kids m3 a (map root (ts @ [t])) \<and> relinked a S m2 m3 \<and> S \<subseteq> set (map root (ts @ [t]))"
  proof (cases ts rule: rev_cases)
    case Nil
    then have "kids m2 a []"
      using world_kids(1) [OF w] by simp
    then show ?thesis
      using link_first_kids [of m2 a "root t"] q Nil by auto
  next
    case (snoc us u)
    then have "kids m2 a (map root us @ [root u])"
      using world_kids(1) [OF w] by simp
    then show ?thesis
      using suffix_object_kids [of m2 a "map root us" "root u" "root t"] q snoc by auto
  qed
  then obtain m3 S where m3: "(if ts = [] then modify (Some a) (\<lambda>c. c\<lparr>n_child := Some (root t)\<rparr>) m2
      else suffix_object (Some (root (last ts))) (Some (root t)) m2) = Inr m3"
      "kids m3 a (map root (ts @ [t]))" "relinked a S m2 m3" "S \<subseteq> set (map root (ts @ [t]))"
    by blast
  note l = fresh_part_link [OF f2 n2 n(2) m3(3,4,2)]
  have "map (the_item m2) (ts @ [t]) = children item @ [the_item m2 t]"
    using same n n2 g by (auto simp: growing_def simp del: map_eq_conv)
  then have "the_item m3 (Tree a (ts @ [t])) = set_children (children item @ [the_item m2 t]) item"
    using l(2) same g by (simp add: growing_def del: the_item.simps)
  moreover have "\<exists>n. nodes m3 a = Some n \<and> \<not> is_ref n"
    using m3(3) n2 n(2) by (auto simp: relinked_def is_ref_def)
  ultimately show ?thesis
    using m3(1) l(1) that by (simp add: growing_def)
qed

definition array_item :: "cJSON list \<Rightarrow> cJSON" where
  "array_item ks = Item cJSON_Array None 0 dzero None ks"

text \<open>The array so far, made of the first \<open>i\<close> elements.\<close>

definition filled ::
    "(store \<Rightarrow> 'a \<Rightarrow> cJSON) \<Rightarrow> store \<Rightarrow> store \<Rightarrow> nat \<Rightarrow> tree list \<Rightarrow> 'a list \<Rightarrow> nat \<Rightarrow> bool" where
  "filled val m m1 a ts xs i \<longleftrightarrow>
     growing m m1 a ts (array_item (map (val m) (take i xs))) \<and> length ts = i"

text \<open>
  What \<open>fill_array\<close> needs of the function that makes the elements: an element that is \<open>ready\<close> is made with
  its value, and stays ready with the same value while the store grows.
\<close>

locale element_maker =
  fixes mk :: "'a \<Rightarrow> creator" and val :: "store \<Rightarrow> 'a \<Rightarrow> cJSON" and ready :: "store \<Rightarrow> 'a \<Rightarrow> bool"
  assumes make: "in_room m \<Longrightarrow> ready m x \<Longrightarrow> makes (mk x) m (val m x)"
    and stays: "in_room m \<Longrightarrow> ready m x \<Longrightarrow> extends m m' \<Longrightarrow> ready m' x \<and> val m' x = val m x"
begin

lemma filled_next:
  assumes f: "filled val m m1 a ts xs i" and i: "i < length xs" and r: "in_room m" "ready m (xs ! i)"
    and made: "fresh_part m1 m2 [t]" "the_item m2 t = val m1 (xs ! i)"
  obtains m3 where
    "(if i = 0 then modify (Some a) (\<lambda>c. c\<lparr>n_child := Some (root t)\<rparr>) m2
      else suffix_object (Some (root (last ts))) (Some (root t)) m2) = Inr m3"
    "filled val m m3 a (ts @ [t]) xs (Suc i)"
proof -
  have g: "growing m m1 a ts (array_item (map (val m) (take i xs)))" and l: "ts = [] \<longleftrightarrow> i = 0" "length ts = i"
    using f by (auto simp: filled_def)
  have "val m1 (xs ! i) = val m (xs ! i)"
    using stays [OF r] g by (simp add: growing_def fresh_part_def)
  moreover obtain m3 where "(if i = 0 then modify (Some a) (\<lambda>c. c\<lparr>n_child := Some (root t)\<rparr>) m2
      else suffix_object (Some (root (last ts))) (Some (root t)) m2) = Inr m3"
      "growing m m3 a (ts @ [t]) (set_children (map (val m) (take i xs) @ [the_item m2 t])
        (array_item (map (val m) (take i xs))))"
    using growing_next [OF g made(1)] unfolding l(1) by (simp add: array_item_def) blast
  ultimately show ?thesis
    using that made(2) i l(2) by (simp add: filled_def set_children_def array_item_def take_Suc_conv_app_nth)
qed

lemma fill_array_filled:
  assumes "in_room m" and "\<forall>x \<in> set xs. ready m x"
  shows "filled val m m1 a ts xs i \<Longrightarrow> i + k \<le> length xs \<Longrightarrow> p = map_option root (if ts = [] then None else Some (last ts)) \<Longrightarrow>
    \<exists>r m2. fill_array mk xs a p i k m1 = Inr (r, m2) \<and>
      (case r of None \<Rightarrow> fresh_part m m2 [] \<and> (\<exists>k n. \<not> s_grant m k n)
       | Some q \<Rightarrow> q = a \<and> (\<exists>ts'. filled val m m2 a ts' xs (i + k)))"
proof (induction k arbitrary: m1 ts i p)
  case 0
  then show ?case
    by auto
next
  case (Suc k)
  have i: "i < length xs"
    using Suc.prems(2) by simp
  have f: "fresh_part m m1 [Tree a ts]"
    using Suc.prems(1) by (simp add: filled_def growing_def)
  then have e: "extends m m1" "in_room m1"
    by (simp_all add: fresh_part_def)
  have "ready m1 (xs ! i)" and grant: "s_grant m1 = s_grant m"
    using stays [OF assms(1) _ e(1)] assms(2) i e(1) by (simp_all add: extends_def)
  then have "makes (mk (xs ! i)) m1 (val m1 (xs ! i))"
    using make e(2) by blast
  then show ?case
  proof (cases rule: makesE)
    case (1 m2)
    then have "fresh_part m m2 [Tree a ts]"
      using fresh_part_append(1) [OF f 1(2)] by simp
    then obtain m3 where "cJSON_Delete_at (Some a) m2 = Inr m3" "fresh_part m m3 []"
      using fresh_part_delete by fastforce
    then show ?thesis
      using 1 i grant by (intro exI [of _ None] exI [of _ m3]) simp
  next
    case (2 t m2)
    obtain m3 where m3: "(if i = 0 then modify (Some a) (\<lambda>c. c\<lparr>n_child := Some (root t)\<rparr>) m2
        else suffix_object (Some (root (last ts))) (Some (root t)) m2) = Inr m3"
        "filled val m m3 a (ts @ [t]) xs (Suc i)"
      using filled_next [OF Suc.prems(1) i assms(1) _ 2(2,3)] assms(2) i by auto
    have "i = 0 \<longleftrightarrow> ts = []"
      using Suc.prems(1) by (auto simp: filled_def)
    then have "fill_array mk xs a p i (Suc k) m1 = fill_array mk xs a (Some (root t)) (Suc i) k m3"
      using 2(1) m3(1) i Suc.prems(3) by auto
    then show ?thesis
      using Suc.IH [OF m3(2), of "Some (root t)", unfolded add_Suc_shift] Suc.prems(2) by simp
  qed
qed

text \<open>The array of the first \<open>n\<close> elements, or null with every block given back.\<close>

lemma create_array_makes:
  assumes r: "in_room m" and xs: "\<forall>x \<in> set xs. ready m x" and n: "0 \<le> n" "n \<le> int (length xs)"
  shows "makes (create_array mk (Some xs) n) m (Item cJSON_Array None 0 dzero None (map (val m) (take (nat n) xs)))"
proof -
  have "makes cJSON_CreateArray m (Item cJSON_Array None 0 dzero None [])"
    using create_makes [OF r, of "new_node\<lparr>n_type := cJSON_Array\<rparr>" "\<lambda>n. n\<lparr>n_type := cJSON_Array\<rparr>"]
    by (simp add: cJSON_CreateArray_def new_node_def strs_of_node_def)
  then show ?thesis
  proof (cases rule: makesE)
    case (1 m1)
    then have "create_array mk (Some xs) n m = Inr (None, m1)"
      using n by (simp add: create_array_def)
    then show ?thesis
      using 1(2,3) makesI_none by blast
  next
    case (2 t m1)
    obtain a ts where t: "t = Tree a ts"
      by (cases t)
    obtain nd where nd: "nodes m1 a = Some nd"
      using 2(2) holds_live [of m1 t a] t by (auto simp: fresh_part_def forest_ok_def)
    then have ts: "ts = []" and ty: "n_type nd = cJSON_Array"
      using 2(3) t by simp_all
    have "filled val m m1 a [] xs 0"
      using 2(2,3) nd ty unfolding t ts by (simp add: filled_def growing_def array_item_def is_ref_def cJSON_types cJSON_flags)
    moreover have le: "nat n \<le> length xs"
      using n by simp
    ultimately obtain r m2 where m2: "fill_array mk xs a None 0 (nat n) m1 = Inr (r, m2)"
        "case r of None \<Rightarrow> fresh_part m m2 [] \<and> (\<exists>k n. \<not> s_grant m k n)
         | Some q \<Rightarrow> q = a \<and> (\<exists>ts'. filled val m m2 a ts' xs (nat n))"
      using fill_array_filled [OF r xs, of m1 a "[]" 0 "nat n" None, unfolded add_0_left] le by auto
    have run: "create_array mk (Some xs) n m = Inr (r, m2)"
      using 2(1) m2(1) t n by (simp add: create_array_def)
    show ?thesis
    proof (cases r)
      case None
      then show ?thesis
        using run m2(2) makesI_none by auto
    next
      case (Some q)
      then obtain ts' where "q = a" "filled val m m2 a ts' xs (nat n)"
        using m2(2) by auto
      then show ?thesis
        using run Some makesI [of "create_array mk (Some xs) n" m "Tree a ts'" m2] unfolding filled_def growing_def array_item_def by simp
    qed
  qed
qed

end

section \<open>Integers as doubles\<close>

text \<open>An integer below \<open>2 ^ 53\<close> is a double, and its conversion back gives it again.\<close>

lemma round64_exact:
  assumes "0 < n" and "n < 2 ^ 53"
  shows "round64 s n 1 = Fin s (n * 2 ^ (53 - bitlen n)) (int (bitlen n) - 53)" and "bitlen n \<le> 53"
proof -
  have b: "2 ^ (bitlen n - 1) \<le> n" "n < 2 ^ bitlen n" "0 < bitlen n"
    using bitlen_bounds [OF assms(1)] by auto
  show le: "bitlen n \<le> 53"
  proof (rule ccontr)
    assume "\<not> bitlen n \<le> 53"
    then have "(2 :: nat) ^ 53 \<le> 2 ^ (bitlen n - 1)"
      by (intro power_increasing) auto
    then show False
      using b(1) assms(2) by linarith
  qed
  define k where "k = 53 - bitlen n"
  have bk: "int (bitlen n) = 53 - int k" "bitlen n = 53 - k" "k \<le> 53"
    using le by (simp_all add: k_def)
  have one: "bitlen (Suc 0) = 1"
    by (simp add: bitlen.simps)
  have hi: "n * 2 ^ k < 2 ^ 53"
  proof -
    have "n * 2 ^ k < 2 ^ bitlen n * 2 ^ k"
      using b(2) by simp
    also have "... = 2 ^ 53"
      using le by (simp add: k_def flip: power_add)
    finally show ?thesis .
  qed
  have lo: "2 ^ 53 \<le> n * 2 ^ Suc k"
  proof -
    have "(2 :: nat) ^ 53 = 2 ^ (bitlen n - 1) * 2 ^ Suc k"
      using le b(3) by (simp add: k_def flip: power_add power_Suc)
    also have "... \<le> n * 2 ^ Suc k"
      using b(1) by simp
    finally show ?thesis .
  qed
  have e0: "int (bitlen n) - int (bitlen 1) - 53 = - int (Suc k)" and sc: "scale 2 (- int (Suc k)) n 1 = (n * 2 ^ Suc k, 1)"
    using bk one by (simp_all add: scale_def nat_add_distrib)
  have "exp_of n 1 = max (-1074) (- int (Suc k) + 1)"
    unfolding exp_of_def e0 Let_def sc using lo by (simp only: prod.case not_less mult_1 if_not_P simp_thms)
  then have ek: "exp_of n 1 = - int k"
    using bk(3) by simp
  have "scale 2 (- int k) n 1 = (n * 2 ^ k, 1)" "rhe (n * 2 ^ k) 1 = n * 2 ^ k" "int (bitlen n) - 53 = - int k"
    using bk(1) by (simp_all add: scale_def rhe_def Let_def)
  then show "round64 s n 1 = Fin s (n * 2 ^ (53 - bitlen n)) (int (bitlen n) - 53)"
    using hi assms(1) unfolding round64_def ek k_def [symmetric] by (simp add: Let_def)
qed

lemma saturated_int_of_int:
  assumes "INT_MIN \<le> i" and "i \<le> INT_MAX"
  shows "saturated_int (dbl_of_int i) = Inr i"
proof (cases "i = 0")
  case True
  then show ?thesis
    by (simp add: dbl_of_int_def round64_def saturated_int_def trunc_def INT_MAX_def INT_MIN_def)
next
  case False
  let ?n = "nat \<bar>i\<bar>"
  have n: "0 < ?n" "?n < 2 ^ 53"
    using False assms by (simp_all add: INT_MAX_def INT_MIN_def)
  define k where "k = 53 - bitlen ?n"
  have k: "int (bitlen ?n) - 53 = - int k"
    using round64_exact(2) [OF n] by (simp add: k_def)
  have "trunc (i < 0) (?n * 2 ^ (53 - bitlen ?n)) (int (bitlen ?n) - 53) = i"
    unfolding k k_def [symmetric] using False by (cases "k = 0") (auto simp: trunc_def Let_def)
  then show ?thesis
    using assms unfolding dbl_of_int_def round64_exact(1) [OF n] saturated_int_def by simp
qed

section \<open>The four arrays\<close>

definition number_item :: "dbl \<Rightarrow> cJSON" where
  "number_item d = Item cJSON_Number None (case saturated_int d of Inl _ \<Rightarrow> 0 | Inr i \<Rightarrow> i) d None []"

definition string_item :: "bytes \<Rightarrow> cJSON" where
  "string_item s = Item cJSON_String (Some (s @ [0])) 0 dzero None []"

interpretation doubles: element_maker cJSON_CreateNumber "\<lambda>_. number_item" "\<lambda>_ d. d \<noteq> NaN"
proof unfold_locales
  fix m and d :: dbl
  assume "in_room m" "d \<noteq> NaN"
  then show "makes (cJSON_CreateNumber d) m (number_item d)"
    using cJSON_CreateNumber_makes [of m d] by (cases d) (auto simp: saturated_int_def Let_def number_item_def)
qed simp

interpretation ints: element_maker "\<lambda>i. cJSON_CreateNumber (dbl_of_int i)" "\<lambda>_ i. Item cJSON_Number None i (dbl_of_int i) None []"
    "\<lambda>_ i. INT_MIN \<le> i \<and> i \<le> INT_MAX"
  by unfold_locales (use cJSON_CreateNumber_makes saturated_int_of_int in auto)

interpretation strings: element_maker cJSON_CreateString "\<lambda>m s. string_item (text_of m s)" readable
proof unfold_locales
  fix m s
  assume r: "in_room m" "readable m s"
  show "makes (cJSON_CreateString s) m (string_item (text_of m s))"
    using create_text_makes [OF r] by (simp add: cJSON_CreateString_def string_item_def cJSON_types cJSON_flags)
  show "readable m' s \<and> string_item (text_of m' s) = string_item (text_of m s)" if "extends m m'" for m'
  proof -
    have "content m' s = content m s"
      using r that by (cases s) (auto simp: readable_def content_def in_room_def extends_def split: option.splits)
    then show ?thesis
      using r(2) by (simp add: readable_def text_of_def)
  qed
qed

text \<open>
  C31: The functions that turn a C array into an item build exactly the array of its first \<open>count\<close> elements,
  with saturated integers for doubles and copies for strings, or return null with every block given back;
  null is returned only when an allocation failed. Nothing else of the store changes.
\<close>

theorem create_arrays_correct:
  assumes r: "in_room m" and n: "0 \<le> n" "n \<le> int (length is)" "n \<le> int (length ds)" "n \<le> int (length ss)"
    and ok: "\<forall>i \<in> set is. INT_MIN \<le> i \<and> i \<le> INT_MAX" "NaN \<notin> set ds" "\<forall>s \<in> set ss. readable m s"
  shows "makes (cJSON_CreateIntArray (Some is) n) m
      (array_item (map (\<lambda>i. Item cJSON_Number None i (dbl_of_int i) None []) (take (nat n) is))) \<and>
    makes (cJSON_CreateDoubleArray (Some ds) n) m (array_item (map number_item (take (nat n) ds))) \<and>
    makes (cJSON_CreateFloatArray (Some ds) n) m (array_item (map number_item (take (nat n) ds))) \<and>
    makes (cJSON_CreateStringArray (Some ss) n) m
      (array_item (map (\<lambda>s. string_item (text_of m s)) (take (nat n) ss)))"
  using ints.create_array_makes [OF r ok(1) n(1,2)] doubles.create_array_makes [OF r _ n(1,3)]
    strings.create_array_makes [OF r ok(3) n(1,4)] ok(2)
  by (auto simp: cJSON_CreateIntArray_def cJSON_CreateDoubleArray_def cJSON_CreateFloatArray_def
      cJSON_CreateStringArray_def array_item_def)

theorem create_arrays_correct_witness:
  "makes (cJSON_CreateIntArray (Some [7, -3, 9]) 2) demo_store
     (array_item [Item cJSON_Number None 7 (dbl_of_int 7) None [], Item cJSON_Number None (-3) (dbl_of_int (-3)) None []]) \<and>
   makes (cJSON_CreateStringArray (Some [Some 7, Some 8]) 2) demo_store (array_item [string_item [0x62], string_item [0x79]])"
proof -
  have "in_room demo_store" "readable demo_store (Some 7)" "readable demo_store (Some 8)"
      "text_of demo_store (Some 7) = [0x62]" "text_of demo_store (Some 8) = [0x79]"
    by (auto simp: in_room_def demo_store_def readable_def content_def terminated_def text_of_def c_str_def)
  then show ?thesis
    using create_arrays_correct [of demo_store 2 "[7, -3, 9]" "[dzero, dzero]" "[Some 7, Some 8]"]
    by (simp add: INT_MIN_def INT_MAX_def dzero_def)
qed

end
