(* ===== verification/CJsonObject.thy ===== *)
theory CJsonObject
  imports CJsonBuild
begin

text \<open>
  Objects in the store: what adding a member does to the object and to the names, and what the replacement
  of a member does when it is called with the name of the replacement itself.
\<close>

section \<open>A new name\<close>

lemma const_bits:
  "(ty AND NOT cJSON_StringIsConst) AND cJSON_StringIsConst = 0"
  "(ty AND NOT cJSON_StringIsConst) AND cJSON_IsReference = ty AND cJSON_IsReference"
proof -
  have "cJSON_IsReference AND NOT cJSON_StringIsConst = cJSON_IsReference"
    by (simp add: cJSON_flags)
  then show "(ty AND NOT cJSON_StringIsConst) AND cJSON_IsReference = ty AND cJSON_IsReference"
    by (metis and.assoc and.commute)
  show "(ty AND NOT cJSON_StringIsConst) AND cJSON_StringIsConst = 0"
    by (simp add: and.assoc)
qed

definition own_name :: "node \<Rightarrow> nat list" where
  "own_name n = (if n_type n AND cJSON_StringIsConst = 0 then opt_list (n_string n) else [])"

text \<open>The store after a structure has got a copy of a name, its old one being freed.\<close>

definition renamed :: "nat \<Rightarrow> node \<Rightarrow> bytes \<Rightarrow> store \<Rightarrow> store" where
  "renamed q n s m =
     m\<lparr>nodes := (nodes m)(q \<mapsto> n\<lparr>n_string := Some (brk m), n_type := n_type n AND NOT cJSON_StringIsConst\<rparr>),
       strs := (\<lambda>a. if a \<in> set (own_name n) then None else ((strs m)(brk m \<mapsto> s @ [0])) a),
       static := (static m)(brk m := False), brk := Suc (brk m), s_calls := Suc (s_calls m)\<rparr>"

lemma forest_ok_renamed:
  assumes ok: "forest_ok m (Tree q ks # vs)" and n: "nodes m q = Some n" and r: "in_room m"
  shows "forest_ok (renamed q n s m) (Tree q ks # vs)"
proof -
  let ?m = "renamed q n s m"
  have d: "q \<notin> set (forest_nodes ks)" "q \<notin> set (forest_nodes vs)"
    using ok by (auto simp: forest_ok_def)
  have other: "nodes ?m p = nodes m p" if "p \<noteq> q" for p
    using that by (simp add: renamed_def)
  have same: "owned_strs ?m u = owned_strs m u" "holds ?m u = holds m u" if "u \<in> set ks \<union> set vs" for u
  proof -
    have eq: "nodes ?m p = nodes m p" if "p \<in> set (owned_nodes u)" for p
      using that \<open>u \<in> _\<close> d by (intro other) auto
    show "owned_strs ?m u = owned_strs m u" "holds ?m u = holds m u"
      using owned_strs_cong [of u ?m m, OF eq] holds_cong [of u ?m m, OF eq] by auto
  qed
  have fs: "forest_strs ?m us = forest_strs m us" if "set us \<subseteq> set ks \<union> set vs" for us
    by (rule arg_cong [OF map_cong [OF refl]]) (use same that in auto)
  let ?n = "n\<lparr>n_string := Some (brk m), n_type := n_type n AND NOT cJSON_StringIsConst\<rparr>"
  have nq: "nodes ?m q = Some ?n"
    by (simp add: renamed_def)
  define vstr where "vstr = (if n_type n AND cJSON_IsReference = 0 then opt_list (n_valuestring n) else [])"
  have at: "strs_at ?m q = vstr @ [brk m]" "strs_at m q = vstr @ own_name n"
    using nq n by (simp_all add: strs_at_def strs_of_node_def const_bits vstr_def own_name_def)
  have all: "forest_strs ?m (Tree q ks # vs) = (forest_strs m ks @ vstr @ [brk m]) @ forest_strs m vs"
      "forest_strs m (Tree q ks # vs) = (forest_strs m ks @ vstr @ own_name n) @ forest_strs m vs"
    using fs [of ks] fs [of vs] at by simp_all
  have live: "\<forall>a \<in> set (forest_strs m (Tree q ks # vs)). strs m a \<noteq> None \<and> \<not> static m a"
      and dist: "distinct ((forest_strs m ks @ vstr @ own_name n) @ forest_strs m vs)"
    using ok unfolding forest_ok_def all by blast+
  have new: "a \<noteq> brk m" if "a \<in> set (forest_strs m (Tree q ks # vs))" for a
    using live that r unfolding in_room_def by (metis less_irrefl)
  have "seg ?m None (map root ks) None = seg m None (map root ks) None"
    by (rule seg_cong, rule other) (use d root_in_forest [of _ ks] in auto)
  then have "holds ?m (Tree q ks)"
    using ok n nq same(2) by (simp add: forest_ok_def is_ref_def const_bits)
  moreover have "\<forall>u \<in> set vs. holds ?m u"
    using ok same(2) by (simp add: forest_ok_def)
  moreover have "distinct (forest_strs ?m (Tree q ks # vs))"
    using dist new unfolding all by auto
  moreover have "strs ?m a \<noteq> None \<and> \<not> static ?m a" if "a \<in> set (forest_strs ?m (Tree q ks # vs))" for a
  proof (cases "a = brk m")
    case True
    then have "a \<notin> set (own_name n)"
      using new unfolding all by auto
    with True show ?thesis
      by (simp add: renamed_def)
  next
    case False
    then have "a \<in> set (forest_strs m ks @ vstr @ forest_strs m vs)"
      using that unfolding all by auto
    then have "a \<notin> set (own_name n)" "strs m a \<noteq> None \<and> \<not> static m a"
      using dist live unfolding all by auto
    with False show ?thesis
      by (simp add: renamed_def)
  qed
  ultimately show ?thesis
    using ok unfolding forest_ok_def by simp
qed

lemma world_renamed:
  assumes w: "world m c ts (t # us)" and n: "nodes m (root t) = Some n"
  shows "world (renamed (root t) n s m) c ts (t # us)"
proof -
  obtain q ks where t: "t = Tree q ks"
    by (cases t)
  have q: "root u \<noteq> root t" if "u \<in> set us" for u
    using world_apart [OF w that] .
  have cq: "c \<noteq> root t"
    using world_kids(2) [OF w, of t] by auto
  have ok: "forest_ok m (Tree q ks # Tree c ts # us)" and r: "in_room m"
    using w t forest_ok_swap by (simp_all add: world_def)
  have "forest_ok (renamed (root t) n s m) (Tree c ts # t # us)"
    using forest_ok_renamed [OF ok _ r] n t forest_ok_swap by simp
  moreover have "in_room (renamed (root t) n s m)"
    using r n by (auto simp: in_room_def renamed_def less_Suc_eq)
  ultimately show ?thesis
    using w n cq q by (auto simp: world_def renamed_def loose_def split: if_splits)
qed

section \<open>Adding a member\<close>

lemma add_item_to_object_run:
  assumes w: "world m c ts (t # us)" and s: "readable m name" and n: "nodes m (root t) = Some n"
  shows "add_item_to_object (Some c) name (Some (root t)) False m =
    (if s_grant m (s_calls m) (length (text_of m name) + 1)
     then add_item_to_array (Some c) (Some (root t)) (renamed (root t) n (text_of m name) m)
     else Inr (False, m\<lparr>s_calls := Suc (s_calls m)\<rparr>))"
proof -
  have "name \<noteq> None"
    using s by (cases name) (auto simp: readable_def content_def)
  show ?thesis
  proof (cases "s_grant m (s_calls m) (length (text_of m name) + 1)")
    case False
    then show ?thesis
      using \<open>name \<noteq> None\<close> str_at_readable [OF s]
      by (auto simp: add_item_to_object_def cJSON_strdup_at_def take_block_def)
  next
    case True
    let ?m1 = "m\<lparr>strs := (strs m)(brk m \<mapsto> text_of m name @ [0]), static := (static m)(brk m := False),
      brk := Suc (brk m), s_calls := Suc (s_calls m)\<rparr>"
    let ?m2 = "?m1\<lparr>strs := (\<lambda>a. if a \<in> set (own_name n) then None else ((strs m)(brk m \<mapsto> text_of m name @ [0])) a)\<rparr>"
    have dup: "cJSON_strdup_at name m = Inr (Some (brk m), ?m1)"
      using True \<open>name \<noteq> None\<close> str_at_readable [OF s] by (simp add: cJSON_strdup_at_def take_block_def)
    have live: "\<forall>a \<in> set (own_name n). strs m a \<noteq> None \<and> \<not> static m a" and r: "in_room m"
    proof -
      obtain q ks where "t = Tree q ks"
        by (cases t)
      then have "set (own_name n) \<subseteq> set (owned_strs m t)"
        using n by (auto simp: strs_at_def strs_of_node_def own_name_def)
      then show "\<forall>a \<in> set (own_name n). strs m a \<noteq> None \<and> \<not> static m a"
        using w by (auto simp: world_def forest_ok_def)
      show "in_room m"
        using w by (simp add: world_def)
    qed
    have "(if n_type n AND cJSON_StringIsConst = 0 \<and> n_string n \<noteq> None then free_string (n_string n) ?m1 else Inr ?m1)
        = Inr ?m2"
    proof (cases "n_type n AND cJSON_StringIsConst = 0 \<and> n_string n \<noteq> None")
      case True
      then obtain a where a: "n_string n = Some a" "own_name n = [a]"
        by (auto simp: own_name_def)
      then have "a < brk m"
        using live r by (auto simp: in_room_def)
      then show ?thesis
        using True a live by (auto simp: free_string_def fun_eq_iff)
    qed (auto simp: own_name_def fun_upd_def)
    moreover have "modify (Some (root t)) (\<lambda>i. i\<lparr>n_string := Some (brk m), n_type := n_type n AND NOT cJSON_StringIsConst\<rparr>) ?m2 =
        Inr (renamed (root t) n (text_of m name) m)"
      using n by (simp add: renamed_def)
    ultimately show ?thesis
      using True dup \<open>name \<noteq> None\<close> n by (auto simp: add_item_to_object_def add_named_def simp del: modify_Some)
  qed
qed

text \<open>Names that the renamed structure does not own read as before.\<close>

lemma renamed_names:
  assumes "set (opt_list a) \<inter> set (own_name n) = {}" and "in_room m" and "readable m a"
  shows "readable (renamed q n s m) a" and "text_of (renamed q n s m) a = text_of m a"
proof -
  obtain x where x: "a = Some x"
    using assms(3) by (cases a) (auto simp: readable_def content_def)
  then have "x < brk m"
    using assms(2,3) by (auto simp: in_room_def readable_def content_def split: option.splits)
  then have "content (renamed q n s m) a = content m a"
    using assms(1) x by (auto simp: content_def renamed_def)
  then show "readable (renamed q n s m) a" "text_of (renamed q n s m) a = text_of m a"
    using assms(3) by (simp_all add: readable_def text_of_def)
qed

lemma relinked_names:
  assumes "relinked c S m m'" and "p \<noteq> c"
  shows "name_at m' p = name_at m p" and "readable m' = readable m" and "text_of m' = text_of m"
proof -
  have s: "strs m' = strs m"
    using relinked_live(2) [OF assms(1)] .
  show "readable m' = readable m" "text_of m' = text_of m"
    by (auto simp: readable_def text_of_def content_def s intro!: ext)
  have "map_option body (nodes m' p) = map_option body (nodes m p)"
    using assms by (simp add: relinked_def)
  then show "name_at m' p = name_at m p"
    by (cases "nodes m p"; cases "nodes m' p") (auto simp: name_at_def dest: body_eqD)
qed

lemma find_append: "find P (xs @ ys) = (case find P xs of None \<Rightarrow> find P ys | Some x \<Rightarrow> Some x)"
  by (induction xs) auto

text \<open>The new name of the item, and what a member added to an object leaves of the names.\<close>

lemma renamed_new:
  fixes name :: "nat option"
  assumes w: "world m c ts (t # us)" and n: "nodes m (root t) = Some n"
  defines "m1 \<equiv> renamed (root t) n (text_of m name) m"
  shows "name_at m1 (root t) = Some (brk m)" "text_of m1 (Some (brk m)) = text_of m name" "readable m1 (Some (brk m))"
proof -
  have "brk m \<notin> set (own_name n)"
  proof
    assume "brk m \<in> set (own_name n)"
    then have "brk m \<in> set (owned_strs m t)"
      using n by (cases t) (auto simp: strs_at_def strs_of_node_def own_name_def)
    then have "strs m (brk m) \<noteq> None"
      using w by (auto simp: world_def forest_ok_def)
    with w show False
      by (auto simp: world_def in_room_def)
  qed
  moreover have "nul_free (text_of m name)"
    by (rule nul_free_text_of)
  ultimately show "name_at m1 (root t) = Some (brk m)" "text_of m1 (Some (brk m)) = text_of m name" "readable m1 (Some (brk m))"
    by (simp_all add: m1_def name_at_def renamed_def text_of_def readable_def content_def terminated_def c_str_nul_free)
qed

lemma member_added:
  fixes name :: "nat option"
  assumes w: "world m c ts (t # us)" and n: "nodes m (root t) = Some n"
  defines "m1 \<equiv> renamed (root t) n (text_of m name) m"
  obtains m' where "add_item_to_array (Some c) (Some (root t)) m1 = Inr (True, m')" "world m' c (ts @ [t]) us"
    "readable m' = readable m1" "text_of m' = text_of m1" "\<forall>p \<in> set (map root (ts @ [t])). name_at m' p = name_at m1 p"
    "root t \<notin> set (map root ts)"
proof -
  have w1: "world m1 c ts (t # us)"
    unfolding m1_def by (rule world_renamed [OF w n])
  have q: "loose m1 (root t)" "in_room m1" "root t \<notin> set (c # map root ts)"
    using w1 world_kids(2) [OF w1, of t] by (simp_all add: world_def)
  obtain m' where m': "add_item_to_array (Some c) (Some (root t)) m1 = Inr (True, m')"
      "kids m' c (map root ts @ [root t])" "relinked c (set (root t # map root ts)) m1 m'"
    using add_item_to_array_kids [OF world_kids(1) [OF w1] q(1,3,2)] by blast
  have "world m' c (ts @ [t]) us"
  proof (rule world_step(1) [OF w1 m'(3)])
    show "loose m' (root u)" if "u \<in> set us" "u \<notin> set (t # us) \<or> root u \<in> set (root t # map root ts)" for u
      using that world_apart [OF w1 that(1)] world_kids(2) [OF w1, of u] by auto
  qed (use m'(2) in auto)
  moreover have "readable m' = readable m1" "text_of m' = text_of m1"
    using relinked_names(2,3) [OF m'(3), of "root t"] q(3) by auto
  moreover have "name_at m' p = name_at m1 p" if "p \<in> set (map root (ts @ [t]))" for p
    using relinked_names(1) [OF m'(3), of p] that q(3) world_kids(2) [OF w1, of t] world_kids(1) [OF w1]
    by (auto simp: kids_unfold)
  ultimately show ?thesis
    using that m'(1) q(3) by auto
qed

text \<open>A lookup in an object whose old members are as they were, and whose last one has the name that is looked for.\<close>

lemma found_member:
  assumes w: "world m' c (ts @ [t]) us" and s: "readable m' name" "text_of m' name = text_of m name"
    and new: "name_at m' (root t) = Some b" "text_of m' (Some b) = text_of m name" "readable m' (Some b)"
    and old: "\<forall>u \<in> set ts. name_at m' (root u) = name_at m (root u) \<and> name_at m (root u) \<noteq> None \<and>
      readable m' (name_at m (root u)) \<and> text_of m' (name_at m (root u)) = text_of m (name_at m (root u))"
  shows "get_object_item (Some c) name cs m' =
    Inr (case find (is_member m cs name) (map root ts) of None \<Rightarrow> Some (root t) | Some p \<Rightarrow> Some p)"
proof -
  have "members_before m' (map root (ts @ [t])) = map root (ts @ [t])"
    using new(1) old unfolding members_before_def by (intro takeWhile_eq_all_conv [THEN iffD2]) auto
  moreover have "get_object_item (Some c) name cs m' = Inr (find (is_member m' cs name)
      (if cs then members_before m' (map root (ts @ [t])) else map root (ts @ [t])))"
    by (rule get_object_item_spec [OF w]) (use new old s in auto)
  moreover have "find (is_member m' cs name) (map root ts) = find (is_member m cs name) (map root ts)"
    by (rule find_cong [OF refl]) (use old s in \<open>auto simp: is_member_def\<close>)
  moreover have "is_member m' cs name (root t)"
    using new s by (simp add: is_member_def names_match_def)
  ultimately show ?thesis
    by (cases cs) (simp_all add: find_append split: option.split)
qed


lemma demo_node_3: "nodes demo_store 3 = Some (demo_node None None None cJSON_String (Some 8) None)"
  by (simp add: demo_store_def)


section \<open>Replacing a member under the name of the replacement\<close>

text \<open>
  \<open>cJSON_ReplaceItemInObject\<close> frees the name of the replacement before it copies the new name: called
  with the replacement's own name it reads the freed string, whatever the object is.
\<close>

theorem replace_item_own_name:
  assumes "nodes m q = Some n" and "n_type n AND cJSON_StringIsConst = 0" and "n_string n = Some s"
    and "strs m s \<noteq> None" and "\<not> static m s"
  shows "replace_item_in_object object (Some s) (Some q) cs m = Inl UseAfterFree"
  using assms by (auto simp: replace_item_in_object_def free_string_def cJSON_strdup_at_def str_at_def)

theorem replace_item_own_name_witness:
  "cJSON_ReplaceItemInObject (Some 0) (Some 4) (Some 1) demo_store = Inl UseAfterFree"
  using replace_item_own_name [of demo_store 1 "demo_node (Some 2) None None cJSON_True None (Some 4)" 4 "Some 0" False]
  by (simp add: cJSON_ReplaceItemInObject_def demo_store_def demo_node_def cJSON_flags cJSON_types)

end
