(* ===== verification/CJsonCopy.thy ===== *)
theory CJsonCopy
  imports CJsonBuild
begin

text \<open>
  \<open>cJSON_Duplicate\<close> and \<open>cJSON_Compare\<close> of \<open>jsonRead/cJSON.c\<close>, on items in the store. Both walk a tree that
  they do not own, so a reference is followed to the children it borrows: \<open>spans m t\<close> says that the walk
  from the root sees the tree \<open>t\<close>. The depth of the recursion and the length of the chains are below \<open>brk\<close>,
  the number of addresses given out, so \<open>brk + 1\<close> is enough fuel.
\<close>

section \<open>Duplication\<close>

definition dup_fail :: "nat \<Rightarrow> creator" where
  "dup_fail newitem m = cbind (cJSON_Delete_at (Some newitem) m) (\<lambda>m. Inr (None, m))"

text \<open>The loop over the children: \<open>nxt\<close> is the copy made last, \<open>child\<close> the child to copy next.\<close>

fun dup_loop :: "(nat option \<Rightarrow> creator) \<Rightarrow> nat \<Rightarrow> nat \<Rightarrow> nat option \<Rightarrow> nat option \<Rightarrow> creator" where
  "dup_loop dup 0 newitem nxt child m = Inl Diverged"
| "dup_loop dup (Suc k) newitem nxt None m = Inr (Some newitem, m)"
| "dup_loop dup (Suc k) newitem nxt (Some c) m =
     cbind (dup (Some c) m) (\<lambda>(newchild, m).
     if newchild = None then dup_fail newitem m
     else cbind (if nxt \<noteq> None then suffix_object nxt newchild m
                 else modify (Some newitem) (\<lambda>n. n\<lparr>n_child := newchild\<rparr>) m) (\<lambda>m.
          cbind (deref (Some c) m) (\<lambda>cn. dup_loop dup k newitem newchild (n_next cn) m)))"

text \<open>The copies of the two strings; \<open>False\<close> when the allocation fails.\<close>

definition dup_value :: "nat \<Rightarrow> node \<Rightarrow> store \<Rightarrow> (bool \<times> store) cres" where
  "dup_value p i m =
     (if n_valuestring i = None then Inr (True, m)
      else cbind (cJSON_strdup_at (n_valuestring i) m) (\<lambda>(s, m).
           cbind (modify (Some p) (\<lambda>n. n\<lparr>n_valuestring := s\<rparr>) m) (\<lambda>m. Inr (s \<noteq> None, m))))"

definition dup_name :: "nat \<Rightarrow> node \<Rightarrow> store \<Rightarrow> (bool \<times> store) cres" where
  "dup_name p i m =
     (if n_string i = None then Inr (True, m)
      else cbind (if n_type i AND cJSON_StringIsConst \<noteq> 0 then Inr (n_string i, m)
                  else cJSON_strdup_at (n_string i) m) (\<lambda>(s, m).
           cbind (modify (Some p) (\<lambda>n. n\<lparr>n_string := s\<rparr>) m) (\<lambda>m. Inr (s \<noteq> None, m))))"

definition dup_strings :: "nat \<Rightarrow> node \<Rightarrow> store \<Rightarrow> (bool \<times> store) cres" where
  "dup_strings p i m = cbind (dup_value p i m) (\<lambda>(ok, m). if ok then dup_name p i m else Inr (False, m))"

primrec cJSON_Duplicate_at :: "nat \<Rightarrow> nat option \<Rightarrow> bool \<Rightarrow> creator" where
  "cJSON_Duplicate_at 0 = (\<lambda>item recurse m. Inl Diverged)"
| "cJSON_Duplicate_at (Suc k) = (\<lambda>item recurse m.
     if item = None then Inr (None, m)
     else (case cJSON_New_Item_at m of
         (None, m) \<Rightarrow> Inr (None, m)
       | (Some p, m) \<Rightarrow>
           cbind (deref item m) (\<lambda>i.
           cbind (modify (Some p) (\<lambda>n. n\<lparr>n_type := n_type i AND NOT cJSON_IsReference,
               n_valueint := n_valueint i, n_valuedouble := n_valuedouble i\<rparr>) m) (\<lambda>m.
           cbind (dup_strings p i m) (\<lambda>(ok, m).
           if \<not> ok then dup_fail p m
           else if \<not> recurse then Inr (Some p, m)
           else dup_loop (\<lambda>c. cJSON_Duplicate_at k c True) (room m) p None (n_child i) m)))))"

definition cJSON_Duplicate :: "nat option \<Rightarrow> bool \<Rightarrow> creator" where
  "cJSON_Duplicate item recurse m = cJSON_Duplicate_at (room m) item recurse m"

section \<open>Comparison\<close>

text \<open>
  The loops of \<open>cJSON_Compare\<close>, with the comparison of two children as a parameter: arrays element by
  element, objects every member of one with the member of the other that has its name.
\<close>

fun compare_elements ::
    "(nat option \<Rightarrow> nat option \<Rightarrow> store \<Rightarrow> bool cres) \<Rightarrow> nat \<Rightarrow> nat option \<Rightarrow> nat option \<Rightarrow> store \<Rightarrow> bool cres" where
  "compare_elements cmp 0 a b m = Inl Diverged"
| "compare_elements cmp (Suc k) (Some p) (Some q) m =
     cbind (cmp (Some p) (Some q) m) (\<lambda>eq.
     if \<not> eq then Inr False
     else cbind (deref (Some p) m) (\<lambda>pn. cbind (deref (Some q) m) (\<lambda>qn.
       compare_elements cmp k (n_next pn) (n_next qn) m)))"
| "compare_elements cmp (Suc k) a b m = Inr (a = b)"

fun compare_members ::
    "(nat option \<Rightarrow> nat option \<Rightarrow> store \<Rightarrow> bool cres) \<Rightarrow> bool \<Rightarrow> nat \<Rightarrow> nat option \<Rightarrow> nat option \<Rightarrow> store \<Rightarrow> bool cres" where
  "compare_members cmp cs 0 element other m = Inl Diverged"
| "compare_members cmp cs (Suc k) None other m = Inr True"
| "compare_members cmp cs (Suc k) (Some p) other m =
     cbind (deref (Some p) m) (\<lambda>pn.
     cbind (get_object_item other (n_string pn) cs m) (\<lambda>found.
     if found = None then Inr False
     else cbind (cmp (Some p) found m) (\<lambda>eq.
       if \<not> eq then Inr False else compare_members cmp cs k (n_next pn) other m)))"

definition type_of :: "node \<Rightarrow> u32" where
  "type_of n = n_type n AND 0xFF"

primrec cJSON_Compare_at :: "nat \<Rightarrow> nat option \<Rightarrow> nat option \<Rightarrow> bool \<Rightarrow> store \<Rightarrow> bool cres" where
  "cJSON_Compare_at 0 = (\<lambda>a b cs m. Inl Diverged)"
| "cJSON_Compare_at (Suc k) = (\<lambda>a b cs m.
     if a = None \<or> b = None then Inr False
     else cbind (deref a m) (\<lambda>an. cbind (deref b m) (\<lambda>bn.
       let ty = type_of an; cmp = (\<lambda>x y. cJSON_Compare_at k x y cs) in
       if ty \<noteq> type_of bn \<or> ty = cJSON_Invalid then Inr False
       else if ty \<notin> {cJSON_False, cJSON_True, cJSON_NULL, cJSON_Number, cJSON_String, cJSON_Raw, cJSON_Array, cJSON_Object}
         then Inr False
       else if a = b then Inr True
       else if ty = cJSON_False \<or> ty = cJSON_True \<or> ty = cJSON_NULL then Inr True
       else if ty = cJSON_Number then Inr (dbl_eq (n_valuedouble an) (n_valuedouble bn))
       else if ty = cJSON_String \<or> ty = cJSON_Raw then
         (if n_valuestring an = None \<or> n_valuestring bn = None then Inr False
          else same_name (n_valuestring an) (n_valuestring bn) m)
       else if ty = cJSON_Array then compare_elements cmp (room m) (n_child an) (n_child bn) m
       else cbind (compare_members cmp cs (room m) (n_child an) b m) (\<lambda>eq.
            if \<not> eq then Inr False else compare_members cmp cs (room m) (n_child bn) a m))))"

definition cJSON_Compare :: "nat option \<Rightarrow> nat option \<Rightarrow> bool \<Rightarrow> store \<Rightarrow> bool cres" where
  "cJSON_Compare a b case_sensitive m = cJSON_Compare_at (room m) a b case_sensitive m"

section \<open>The tree a walk sees\<close>

primrec forward :: "store \<Rightarrow> nat list \<Rightarrow> bool" where
  "forward m [] = True"
| "forward m (p # ps) =
     (case nodes m p of None \<Rightarrow> False | Some n \<Rightarrow> n_next n = first ps None \<and> forward m ps)"

definition strings_readable :: "store \<Rightarrow> node \<Rightarrow> bool" where
  "strings_readable m n \<longleftrightarrow>
     (n_valuestring n = None \<or> readable m (n_valuestring n)) \<and> (n_string n = None \<or> readable m (n_string n))"

fun spans :: "store \<Rightarrow> tree \<Rightarrow> bool" where
  "spans m (Tree p ts) \<longleftrightarrow>
     (case nodes m p of None \<Rightarrow> False
      | Some n \<Rightarrow> n_child n = first (map root ts) None \<and> forward m (map root ts) \<and> strings_readable m n) \<and>
     (\<forall>t \<in> set ts. spans m t)"

text \<open>What a duplicate keeps: strings are copied up to their terminator, references become items of their own.\<close>

fun own_copy :: "cJSON \<Rightarrow> cJSON" where
  "own_copy (Item ty vs vi vd nm ks) =
     Item (ty AND NOT cJSON_IsReference) (map_option (\<lambda>b. c_str b @ [0]) vs) vi vd
       (if ty AND cJSON_StringIsConst \<noteq> 0 then nm else map_option (\<lambda>b. c_str b @ [0]) nm) (map own_copy ks)"

lemma extends_content:
  assumes "extends m m'" and "in_room m" and "a = None \<or> readable m a"
  shows "content m' a = content m a" and "readable m' a = readable m a" and "text_of m' a = text_of m a"
proof -
  show "content m' a = content m a"
  proof (cases a)
    case (Some x)
    then have "strs m x \<noteq> None"
      using assms(3) by (auto simp: readable_def content_def split: option.splits)
    then show ?thesis
      using assms(1,2) Some by (simp add: content_def extends_def in_room_def)
  qed (simp add: content_def)
  then show "readable m' a = readable m a" "text_of m' a = text_of m a"
    by (simp_all add: readable_def text_of_def)
qed

lemma extends_node: "extends m m' \<Longrightarrow> in_room m \<Longrightarrow> nodes m p = Some n \<Longrightarrow> nodes m' p = Some n"
  unfolding extends_def in_room_def by (metis option.distinct(1))

lemma forward_extends: "forward m ps \<Longrightarrow> extends m m' \<Longrightarrow> in_room m \<Longrightarrow> forward m' ps"
  by (induction ps) (auto dest: extends_node split: option.splits)

lemma spans_extends:
  assumes "extends m m'" and "in_room m"
  shows "spans m t \<Longrightarrow> spans m' t \<and> the_item m' t = the_item m t"
proof (induction t rule: owned_nodes.induct)
  case (1 p ts)
  obtain n where n: "nodes m p = Some n" "n_child n = first (map root ts) None" "forward m (map root ts)"
      "strings_readable m n"
    using "1.prems" by (auto split: option.splits)
  have "nodes m' p = Some n" "forward m' (map root ts)"
    using extends_node [OF assms n(1)] forward_extends [OF n(3) assms] by simp_all
  moreover have "spans m' t \<and> the_item m' t = the_item m t" if "t \<in> set ts" for t
    using 1 that by simp
  moreover from this have "map (the_item m') ts = map (the_item m) ts"
    by simp
  moreover have "strings_readable m' n" "content m' (n_valuestring n) = content m (n_valuestring n)"
      "content m' (n_string n) = content m (n_string n)"
    using n(4) extends_content [OF assms, of "n_valuestring n"] extends_content [OF assms, of "n_string n"]
    by (simp_all add: strings_readable_def)
  ultimately show ?case
    using n by simp
qed

section \<open>The copy of one item\<close>

lemma dup_value_blocks:
  assumes r: "in_room m" and s: "strings_readable m i"
  shows "dup_value (brk m) i (new_blocks m n bs k) =
    (if n_valuestring i = None then Inr (True, new_blocks m n bs k)
     else if s_grant m k (length (text_of m (n_valuestring i)) + 1)
     then Inr (True, new_blocks m (n\<lparr>n_valuestring := Some (Suc (brk m + length bs))\<rparr>)
                       (bs @ [text_of m (n_valuestring i) @ [0]]) (Suc k))
     else Inr (False, new_blocks m (n\<lparr>n_valuestring := None\<rparr>) bs (Suc k)))"
  using s by (auto simp: dup_value_def strings_readable_def cJSON_strdup_at_blocks [OF r])

lemma dup_name_blocks:
  assumes r: "in_room m" and s: "strings_readable m i"
  shows "dup_name (brk m) i (new_blocks m n bs k) =
    (if n_string i = None then Inr (True, new_blocks m n bs k)
     else if n_type i AND cJSON_StringIsConst \<noteq> 0 then Inr (True, new_blocks m (n\<lparr>n_string := n_string i\<rparr>) bs k)
     else if s_grant m k (length (text_of m (n_string i)) + 1)
     then Inr (True, new_blocks m (n\<lparr>n_string := Some (Suc (brk m + length bs))\<rparr>)
                       (bs @ [text_of m (n_string i) @ [0]]) (Suc k))
     else Inr (False, new_blocks m (n\<lparr>n_string := None\<rparr>) bs (Suc k)))"
  using s by (auto simp: dup_name_def strings_readable_def cJSON_strdup_at_blocks [OF r])

lemma ref_bits:
  "(ty AND NOT cJSON_IsReference) AND cJSON_IsReference = 0"
  "(ty AND NOT cJSON_IsReference) AND cJSON_StringIsConst = ty AND cJSON_StringIsConst"
proof -
  have "cJSON_StringIsConst AND NOT cJSON_IsReference = cJSON_StringIsConst"
    by (simp add: cJSON_flags)
  then show "(ty AND NOT cJSON_IsReference) AND cJSON_StringIsConst = ty AND cJSON_StringIsConst"
    by (metis and.assoc and.commute)
  show "(ty AND NOT cJSON_IsReference) AND cJSON_IsReference = 0"
    by (simp add: and.assoc)
qed

definition dup_node :: "node \<Rightarrow> nat option \<Rightarrow> nat option \<Rightarrow> node" where
  "dup_node i vs nm =
     new_node\<lparr>n_type := n_type i AND NOT cJSON_IsReference, n_valuestring := vs, n_valueint := n_valueint i,
       n_valuedouble := n_valuedouble i, n_string := nm\<rparr>"

lemma dup_node_simps [simp]:
  "n_next (dup_node i vs nm) = None" "n_prev (dup_node i vs nm) = None" "n_child (dup_node i vs nm) = None"
  "n_type (dup_node i vs nm) = n_type i AND NOT cJSON_IsReference"
  "n_valuestring (dup_node i vs nm) = vs" "n_string (dup_node i vs nm) = nm"
  "n_valueint (dup_node i vs nm) = n_valueint i" "n_valuedouble (dup_node i vs nm) = n_valuedouble i"
  "(dup_node i vs nm)\<lparr>n_valuestring := vs'\<rparr> = dup_node i vs' nm" "(dup_node i vs nm)\<lparr>n_string := nm'\<rparr> = dup_node i vs nm'"
  by (simp_all add: dup_node_def new_node_def)

lemma strs_of_dup_node:
  "strs_of_node (dup_node i vs nm) = opt_list vs @ (if n_type i AND cJSON_StringIsConst = 0 then opt_list nm else [])"
  by (simp add: strs_of_node_def ref_bits)

text \<open>The strings of the copy: where they are, and the blocks that were made for them.\<close>

definition value_copy :: "store \<Rightarrow> node \<Rightarrow> nat option \<times> bytes list" where
  "value_copy m i =
     (if n_valuestring i = None then (None, []) else (Some (Suc (brk m)), [text_of m (n_valuestring i) @ [0]]))"

definition name_copy :: "store \<Rightarrow> node \<Rightarrow> nat option \<times> bytes list" where
  "name_copy m i =
     (if n_string i = None then (None, [])
      else if n_type i AND cJSON_StringIsConst \<noteq> 0 then (n_string i, [])
      else (Some (Suc (brk m + length (snd (value_copy m i)))), [text_of m (n_string i) @ [0]]))"

lemma dup_strings_run:
  assumes r: "in_room m" and s: "strings_readable m i"
  shows "\<exists>k'. dup_strings (brk m) i (new_blocks m (dup_node i None None) [] k) =
      Inr (True, new_blocks m (dup_node i (fst (value_copy m i)) (fst (name_copy m i)))
        (snd (value_copy m i) @ snd (name_copy m i)) k') \<or>
    (\<exists>j l. \<not> s_grant m j l) \<and>
    (dup_strings (brk m) i (new_blocks m (dup_node i None None) [] k) =
       Inr (False, new_blocks m (dup_node i None None) [] k') \<or>
     dup_strings (brk m) i (new_blocks m (dup_node i None None) [] k) =
       Inr (False, new_blocks m (dup_node i (fst (value_copy m i)) None) (snd (value_copy m i)) k'))"
proof (cases "n_valuestring i = None")
  case True
  then show ?thesis
    using dup_value_blocks [OF r s] dup_name_blocks [OF r s]
    by (auto simp: dup_strings_def value_copy_def name_copy_def)
next
  case False
  show ?thesis
  proof (cases "s_grant m k (length (text_of m (n_valuestring i)) + 1)")
    case True
    with False show ?thesis
      using dup_value_blocks [OF r s] dup_name_blocks [OF r s]
      by (auto simp: dup_strings_def value_copy_def name_copy_def)
  next
    case no: False
    with False show ?thesis
      using dup_value_blocks [OF r s] by (auto simp: dup_strings_def)
  qed
qed

lemma fresh_part_dup:
  assumes r: "in_room m" and s: "strings_readable m i"
  shows "fresh_part m (new_blocks m (dup_node i None None) [] k) [Tree (brk m) []]"
    and "fresh_part m (new_blocks m (dup_node i (fst (value_copy m i)) None) (snd (value_copy m i)) k) [Tree (brk m) []]"
    and "fresh_part m (new_blocks m (dup_node i (fst (value_copy m i)) (fst (name_copy m i)))
      (snd (value_copy m i) @ snd (name_copy m i)) k) [Tree (brk m) []]"
proof -
  have below: "a < brk m" if "n_string i = Some a" for a
    using s r that by (auto simp: strings_readable_def readable_def content_def in_room_def split: option.splits)
  show "fresh_part m (new_blocks m (dup_node i None None) [] k) [Tree (brk m) []]"
    by (rule fresh_part_blocks [OF r]) (simp_all add: strs_of_dup_node)
  show "fresh_part m (new_blocks m (dup_node i (fst (value_copy m i)) None) (snd (value_copy m i)) k) [Tree (brk m) []]"
    by (rule fresh_part_blocks [OF r]) (simp_all add: strs_of_dup_node value_copy_def)
  show "fresh_part m (new_blocks m (dup_node i (fst (value_copy m i)) (fst (name_copy m i)))
      (snd (value_copy m i) @ snd (name_copy m i)) k) [Tree (brk m) []]"
    by (rule fresh_part_blocks [OF r])
      (use below in \<open>auto simp: strs_of_dup_node value_copy_def name_copy_def upt_rec less_imp_le\<close>)
qed

lemma the_item_dup:
  assumes r: "in_room m" and s: "strings_readable m i"
  shows "the_item (new_blocks m (dup_node i (fst (value_copy m i)) (fst (name_copy m i)))
      (snd (value_copy m i) @ snd (name_copy m i)) k) (Tree (brk m) []) =
    own_copy (Item (n_type i) (content m (n_valuestring i)) (n_valueint i) (n_valuedouble i) (content m (n_string i)) [])"
proof -
  let ?bs = "snd (value_copy m i) @ snd (name_copy m i)"
  let ?m = "new_blocks m (dup_node i (fst (value_copy m i)) (fst (name_copy m i))) ?bs k"
  have copy: "map_option (\<lambda>b. c_str b @ [0]) (content m a) = Some (text_of m a @ [0])" if "readable m a" for a
    using that by (auto simp: readable_def text_of_def split: option.splits)
  have v: "content ?m (fst (value_copy m i)) = map_option (\<lambda>b. c_str b @ [0]) (content m (n_valuestring i))"
  proof (cases "n_valuestring i = None")
    case False
    then have rd: "readable m (n_valuestring i)"
      using s by (auto simp: strings_readable_def)
    have vc: "value_copy m i = (Some (Suc (brk m)), [text_of m (n_valuestring i) @ [0]])"
      using False by (simp add: value_copy_def)
    moreover have "content ?m (Some (Suc (brk m + 0))) = Some (?bs ! 0)"
      by (rule content_new(1)) (simp add: vc)
    ultimately show ?thesis
      using copy [OF rd] by (auto simp: vc)
  qed (simp add: value_copy_def content_def)
  have nm: "content ?m (fst (name_copy m i)) =
      (if n_type i AND cJSON_StringIsConst \<noteq> 0 then content m (n_string i)
       else map_option (\<lambda>b. c_str b @ [0]) (content m (n_string i)))"
  proof (cases "n_string i = None")
    case False
    then have rd: "readable m (n_string i)"
      using s by (auto simp: strings_readable_def)
    show ?thesis
    proof (cases "n_type i AND cJSON_StringIsConst \<noteq> 0")
      case True
      then show ?thesis
        using False content_blocks [OF r rd] by (auto simp: name_copy_def)
    next
      case own: False
      let ?l = "length (snd (value_copy m i))"
      have nc: "name_copy m i = (Some (Suc (brk m + ?l)), [text_of m (n_string i) @ [0]])"
        using False own by (simp add: name_copy_def)
      have "content ?m (Some (Suc (brk m + ?l))) = Some (?bs ! ?l)"
        by (rule content_new(1)) (simp add: nc)
      then show ?thesis
        using own copy [OF rd] by (auto simp: nc)
    qed
  qed (simp add: name_copy_def content_def)
  show ?thesis
    unfolding the_item_blocks v [unfolded dup_node_simps] nm [unfolded dup_node_simps] by (simp add: v nm)
qed

section \<open>The copy of a tree\<close>

definition copies :: "(nat option \<Rightarrow> creator) \<Rightarrow> store \<Rightarrow> tree \<Rightarrow> bool" where
  "copies dup m t \<longleftrightarrow>
     (\<forall>m'. extends m m' \<longrightarrow> in_room m' \<longrightarrow> spans m' t \<longrightarrow>
        makes (dup (Some (root t))) m' (own_copy (the_item m' t)))"

lemma set_children_simps [simp]:
  "children (set_children ks item) = ks" "set_children ks (set_children ls item) = set_children ks item"
  "set_children (children item) item = item"
  by (cases item; simp add: set_children_def)+

lemma forward_next:
  "forward m (p # ps) \<Longrightarrow> \<exists>n. nodes m p = Some n \<and> n_next n = first ps None \<and> forward m ps"
  by (auto split: option.splits)

lemma dup_loop_grows:
  assumes r: "in_room m"
  shows "growing m m1 a us item \<Longrightarrow> forward m (map root rs) \<Longrightarrow> \<forall>t \<in> set rs. spans m t \<and> copies dup m t \<Longrightarrow>
    length rs < k \<Longrightarrow>
    \<exists>r m'. dup_loop dup k a (if us = [] then None else Some (root (last us))) (first (map root rs) None) m1 = Inr (r, m') \<and>
      (case r of None \<Rightarrow> fresh_part m m' [] \<and> (\<exists>j l. \<not> s_grant m j l)
       | Some q \<Rightarrow> q = a \<and>
           (\<exists>us'. growing m m' a us' (set_children (children item @ map (\<lambda>t. own_copy (the_item m t)) rs) item)))"
proof (induction rs arbitrary: k m1 us item)
  case Nil
  then show ?case
    by (cases k) auto
next
  case (Cons t rs)
  obtain j where k: "k = Suc j"
    using Cons.prems(4) by (cases k) auto
  have f: "fresh_part m m1 [Tree a us]"
    using Cons.prems(1) by (simp add: growing_def)
  then have e: "extends m m1" "in_room m1"
    by (simp_all add: fresh_part_def)
  then have grant: "s_grant m1 = s_grant m"
    by (simp add: extends_def)
  have sp: "spans m1 t" "the_item m1 t = the_item m t"
    using spans_extends [OF e(1) r, of t] Cons.prems(3) by simp_all
  then have "makes (dup (Some (root t))) m1 (own_copy (the_item m t))"
    using Cons.prems(3) e by (auto simp: copies_def)
  then show ?case
  proof (cases rule: makesE)
    case (1 m2)
    then have "fresh_part m m2 [Tree a us]"
      using fresh_part_append(1) [OF f 1(2)] by simp
    then obtain m3 where "cJSON_Delete_at (Some a) m2 = Inr m3" "fresh_part m m3 []"
      using fresh_part_delete by fastforce
    then show ?thesis
      using 1 grant k by (intro exI [of _ None] exI [of _ m3]) (simp add: dup_fail_def)
  next
    case (2 c m2)
    obtain m3 where m3: "(if us = [] then modify (Some a) (\<lambda>n. n\<lparr>n_child := Some (root c)\<rparr>) m2
        else suffix_object (Some (root (last us))) (Some (root c)) m2) = Inr m3"
        "growing m m3 a (us @ [c]) (set_children (children item @ [own_copy (the_item m t)]) item)"
      using growing_next [OF Cons.prems(1) 2(2)] 2(3) by metis
    obtain n where n: "nodes m (root t) = Some n" "n_next n = first (map root rs) None" "forward m (map root rs)"
      using forward_next [of m "root t" "map root rs"] Cons.prems(2) by auto
    have "extends m m3"
      using m3(2) by (simp add: growing_def fresh_part_def)
    then have "nodes m3 (root t) = Some n"
      using extends_node [OF _ r n(1)] by simp
    then have "dup_loop dup k a (if us = [] then None else Some (root (last us))) (first (map root (t # rs)) None) m1 =
        dup_loop dup j a (Some (root c)) (first (map root rs) None) m3"
      using 2(1) m3(1) n(2) k by (cases "us = []") simp_all
    then show ?thesis
      using Cons.IH [OF m3(2) n(3), of j] Cons.prems(3,4) k by (simp cong: option.case_cong)
  qed
qed

lemma own_copy_children:
  "own_copy item = set_children (map own_copy (children item)) (own_copy (set_children [] item))"
  by (cases item) (simp add: set_children_def)

lemma cJSON_Duplicate_at_makes:
  "in_room m \<Longrightarrow> spans m t \<Longrightarrow> length (owned_nodes t) \<le> k \<Longrightarrow> length (owned_nodes t) \<le> brk m \<Longrightarrow>
     makes (cJSON_Duplicate_at k (Some (root t)) True) m (own_copy (the_item m t))"
proof (induction k arbitrary: m t)
  case 0
  then show ?case
    by (cases t) simp
next
  case (Suc k)
  note r = Suc.prems(1)
  obtain q ts where t: "t = Tree q ts"
    by (cases t)
  obtain i where i: "nodes m q = Some i" "n_child i = first (map root ts) None" "forward m (map root ts)"
      "strings_readable m i"
    using Suc.prems(2) t by (auto split: option.splits)
  show ?case
  proof (cases "s_grant m (s_calls m) 64")
    case False
    then show ?thesis
      by (intro makes_nothing [OF r]) (simp_all add: cJSON_New_Item_at_blocks [OF r])
  next
    case True
    let ?k = "Suc (s_calls m)" and ?a = "brk m"
    let ?m0 = "new_blocks m new_node [] ?k" and ?m1 = "new_blocks m (dup_node i None None) [] ?k"
    have new: "cJSON_New_Item_at m = (Some ?a, ?m0)"
      using True by (simp add: cJSON_New_Item_at_blocks [OF r])
    have "q \<noteq> ?a"
      using i(1) r by (auto simp: in_room_def)
    then have at: "deref (Some q) ?m0 = Inr i"
      using i(1) by simp
    have typed: "modify (Some ?a) (\<lambda>n. n\<lparr>n_type := n_type i AND NOT cJSON_IsReference,
        n_valueint := n_valueint i, n_valuedouble := n_valuedouble i\<rparr>) ?m0 = Inr ?m1"
      by (simp add: dup_node_def new_node_def)
    have fail: "\<exists>m3. dup_fail ?a m2 = Inr (None, m3) \<and> fresh_part m m3 []" if "fresh_part m m2 [Tree ?a []]" for m2
      using fresh_part_delete [OF that] by (auto simp: dup_fail_def)
    obtain k' where run: "dup_strings ?a i ?m1 = Inr (True, new_blocks m (dup_node i (fst (value_copy m i)) (fst (name_copy m i)))
        (snd (value_copy m i) @ snd (name_copy m i)) k') \<or>
      (\<exists>j l. \<not> s_grant m j l) \<and>
      (dup_strings ?a i ?m1 = Inr (False, new_blocks m (dup_node i None None) [] k') \<or>
       dup_strings ?a i ?m1 = Inr (False, new_blocks m (dup_node i (fst (value_copy m i)) None) (snd (value_copy m i)) k'))"
      using dup_strings_run [OF r i(4)] by blast
    show ?thesis
    proof (cases "\<exists>m2. dup_strings ?a i ?m1 = Inr (False, m2)")
      case True
      then obtain m2 where m2: "dup_strings ?a i ?m1 = Inr (False, m2)" "fresh_part m m2 [Tree ?a []]"
          "\<exists>j l. \<not> s_grant m j l"
        using run fresh_part_dup [OF r i(4)] by auto
      then obtain m3 where "dup_fail ?a m2 = Inr (None, m3)" "fresh_part m m3 []"
        using fail by blast
      then have "cJSON_Duplicate_at (Suc k) (Some (root t)) True m = Inr (None, m3)"
        using new at typed m2(1) t by (simp del: modify_Some modify_blocks)
      then show ?thesis
        using \<open>fresh_part m m3 []\<close> m2(3) makesI_none by blast
    next
      case False
      let ?m2 = "new_blocks m (dup_node i (fst (value_copy m i)) (fst (name_copy m i)))
        (snd (value_copy m i) @ snd (name_copy m i)) k'"
      have m2: "dup_strings ?a i ?m1 = Inr (True, ?m2)"
        using run False by blast
      have g: "growing m ?m2 ?a [] (own_copy (set_children [] (the_item m t)))"
        using fresh_part_dup(3) [OF r i(4)] the_item_dup [OF r i(4)] i(1) t
        by (simp add: growing_def is_ref_def ref_bits set_children_def del: own_copy.simps)
      have small: "length (owned_nodes u) \<le> k \<and> length (owned_nodes u) \<le> brk m" if "u \<in> set ts" for u
      proof -
        have "length (owned_nodes u) \<le> length (forest_nodes ts)"
          using that by (induction ts) auto
        then show ?thesis
          using Suc.prems(3,4) t by simp
      qed
      have "copies (\<lambda>c. cJSON_Duplicate_at k c True) m u" if u: "u \<in> set ts" for u
        unfolding copies_def
      proof (intro allI impI)
        fix m'
        assume "extends m m'" "in_room m'" "spans m' u"
        moreover from this have "brk m \<le> brk m'"
          by (simp add: extends_def)
        ultimately show "makes (cJSON_Duplicate_at k (Some (root u)) True) m' (own_copy (the_item m' u))"
          using Suc.IH [of m' u] small [OF u] by simp
      qed
      moreover have "length ts < room ?m2"
      proof -
        have "length ts \<le> length (forest_nodes ts)"
        proof (induction ts)
          case (Cons u us)
          then show ?case
            by (cases u) auto
        qed simp
        then show ?thesis
          using Suc.prems(4) t by (simp add: room_def)
      qed
      ultimately obtain r' m3 where m3: "dup_loop (\<lambda>c. cJSON_Duplicate_at k c True) (room ?m2) ?a None (n_child i) ?m2 = Inr (r', m3)"
          "case r' of None \<Rightarrow> fresh_part m m3 [] \<and> (\<exists>j l. \<not> s_grant m j l)
           | Some p \<Rightarrow> p = ?a \<and> (\<exists>us. growing m m3 ?a us
               (set_children (children (own_copy (set_children [] (the_item m t))) @ map (\<lambda>t. own_copy (the_item m t)) ts)
                 (own_copy (set_children [] (the_item m t)))))"
        using dup_loop_grows [OF r g i(3), of "\<lambda>c. cJSON_Duplicate_at k c True" "room ?m2"] Suc.prems(2) t i(2) by auto
      have val: "set_children (children (own_copy (set_children [] (the_item m t))) @ map (\<lambda>t. own_copy (the_item m t)) ts)
          (own_copy (set_children [] (the_item m t))) = own_copy (the_item m t)"
        using i(1) t by (simp add: set_children_def o_def)
      have all: "cJSON_Duplicate_at (Suc k) (Some (root t)) True m = Inr (r', m3)"
        using new at typed m2 m3(1) t by (simp del: modify_Some modify_blocks)
      show ?thesis
      proof (cases r')
        case None
        then show ?thesis
          using all m3(2) makesI_none by auto
      next
        case (Some p)
        then obtain us where "p = ?a" "growing m m3 ?a us (own_copy (the_item m t))"
          using m3(2) unfolding val by auto
        then show ?thesis
          using all Some makesI [of "cJSON_Duplicate_at (Suc k) (Some (root t)) True" m "Tree ?a us" m3]
          unfolding growing_def by simp
      qed
    qed
  qed
qed

lemma spans_live: "spans m t \<Longrightarrow> p \<in> set (owned_nodes t) \<Longrightarrow> nodes m p \<noteq> None"
  by (induction t rule: owned_nodes.induct) (auto split: option.splits)

lemma cJSON_Duplicate_makes:
  assumes "in_room m" and "spans m t" and "distinct (owned_nodes t)"
  shows "makes (cJSON_Duplicate (Some (root t)) True) m (own_copy (the_item m t))"
proof -
  have "set (owned_nodes t) \<subseteq> {..<brk m}"
    using spans_live [OF assms(2)] assms(1) by (fastforce simp: in_room_def)
  then have "card (set (owned_nodes t)) \<le> brk m"
    using card_mono [of "{..<brk m}"] by fastforce
  then have "length (owned_nodes t) \<le> brk m"
    using assms(3) by (simp add: distinct_card)
  moreover have "cJSON_Duplicate (Some (root t)) True = (\<lambda>m. cJSON_Duplicate_at (room m) (Some (root t)) True m)"
    by (simp add: cJSON_Duplicate_def fun_eq_iff)
  ultimately show ?thesis
    using cJSON_Duplicate_at_makes [OF assms(1,2), of "room m"] by (simp add: makes_def room_def)
qed

text \<open>
  C8: \<open>cJSON_Duplicate\<close> returns a new tree with the value of the item, its strings copied, its references
  turned into items of their own and constant names still shared, or null with every block given back; null
  is returned only when an allocation failed. The item itself and everything else stay as they were.
\<close>

theorem cJSON_Duplicate_correct:
  assumes "in_room m" and "spans m t" and "distinct (owned_nodes t)"
  shows "makes (cJSON_Duplicate (Some (root t)) True) m (own_copy (the_item m t))"
  using assms by (rule cJSON_Duplicate_makes)

theorem cJSON_Duplicate_correct_witness:
  "makes (cJSON_Duplicate (Some 0) True) demo_store
     (Item cJSON_Object None 0 dzero None
       [Item cJSON_True None 0 dzero (Some [0x61, 0]) [], Item cJSON_String (Some [0x78, 0]) 0 dzero (Some [0x42, 0]) []])"
proof -
  let ?t = "Tree 0 [Tree 1 [], Tree 2 []]"
  have "in_room demo_store" "spans demo_store ?t"
    by (auto simp: in_room_def demo_store_def demo_node_def strings_readable_def readable_def content_def terminated_def)
  moreover have "own_copy (the_item demo_store ?t) = Item cJSON_Object None 0 dzero None
       [Item cJSON_True None 0 dzero (Some [0x61, 0]) [], Item cJSON_String (Some [0x78, 0]) 0 dzero (Some [0x42, 0]) []]"
    by (simp add: demo_store_def demo_node_def content_def c_str_def cJSON_types cJSON_flags dzero_def)
  ultimately show ?thesis
    using cJSON_Duplicate_correct [of demo_store ?t] by simp
qed

end
