(* ===== verification/Decimal.thy ===== *)
theory Decimal
  imports Binary64 Complex_Main
begin

text \<open>
  Seventeen digits are enough: reading back what \<open>%.17g\<close> prints of a finite number gives the number, bit by
  bit (\<open>strtod_fmt_17\<close>). The definitions of \<open>Binary64\<close> are related to real numbers first: \<open>scale\<close>, \<open>rhe\<close>, the two
  exponents, \<open>round64\<close> and \<open>dec_round\<close>; then the layout of the text to its scanner.
\<close>

section \<open>Fractions\<close>

lemma scale_real:
  assumes "scale b e n d = (n', d')" "0 < b" "0 < d"
  shows "real n' / real d' = real n / real d / real b powi e" and "0 < d'" and "0 < n \<Longrightarrow> 0 < n'"
  using assms by (auto simp: scale_def power_int_def field_simps split: if_splits)

lemma rhe_unique:
  assumes "\<bar>real n / real d - real k\<bar> < 1 / 2" "0 < d"
  shows "rhe n d = k"
proof -
  have r: "2 * real n < (2 * real k + 1) * real d" "(2 * real k - 1) * real d < 2 * real n"
  proof -
    have "real n / real d < real k + 1 / 2" "real k - 1 / 2 < real n / real d"
      using assms(1) by linarith+
    then show "2 * real n < (2 * real k + 1) * real d" "(2 * real k - 1) * real d < 2 * real n"
      using assms(2) by (simp_all add: field_simps)
  qed
  have up: "2 * n < (2 * k + 1) * d"
  proof -
    have "real (2 * n) < real ((2 * k + 1) * d)"
      using r(1) by (simp add: algebra_simps)
    then show ?thesis
      by (simp only: of_nat_less_iff)
  qed
  have lo: "2 * k * d < 2 * n + d"
  proof -
    have "real (2 * k * d) < real (2 * n + d)"
      using r(2) by (simp add: algebra_simps)
    then show ?thesis
      by (simp only: of_nat_less_iff)
  qed
  define q s where "q = n div d" and "s = n mod d"
  have n: "n = q * d + s" and s: "s < d"
    using assms(2) by (simp_all add: q_def s_def)
  have "rhe n d = (if d < 2 * s \<or> (2 * s = d \<and> odd q) then Suc q else q)"
    by (simp add: rhe_def q_def s_def Let_def)
  moreover have "k = q \<and> 2 * s < d \<or> k = Suc q \<and> d < 2 * s"
  proof -
    have "2 * q * d + 2 * s < (2 * k + 1) * d" "2 * k * d < 2 * q * d + 2 * s + d"
      using up lo n by (simp_all add: algebra_simps)
    then have a: "2 * q * d < (2 * k + 1) * d" "2 * k * d < (2 * q + 3) * d"
      using s by (simp_all add: algebra_simps)
    then have "2 * q < 2 * k + 1" "2 * k < 2 * q + 3"
      by (simp_all only: mult_less_cancel2)
    then consider "k = q" | "k = Suc q"
      by linarith
    then show ?thesis
      using \<open>2 * q * d + 2 * s < (2 * k + 1) * d\<close> \<open>2 * k * d < 2 * q * d + 2 * s + d\<close>
      by cases (simp_all add: algebra_simps)
  qed
  ultimately show ?thesis
    by auto
qed

lemma rhe_near:
  assumes "0 < d"
  shows "\<bar>real (rhe n d) - real n / real d\<bar> \<le> 1 / 2"
proof -
  define q s where "q = n div d" and "s = n mod d"
  have n: "real n = real q * real d + real s" and s: "s < d"
    using assms by (simp_all add: q_def s_def flip: of_nat_mult of_nat_add)
  have "rhe n d = (if d < 2 * s \<or> (2 * s = d \<and> odd q) then Suc q else q)"
    by (simp add: rhe_def q_def s_def Let_def)
  moreover have "real n / real d = real q + real s / real d"
    using n assms by (simp add: field_simps)
  moreover have "2 * s \<le> d \<Longrightarrow> real s / real d \<le> 1 / 2" "d \<le> 2 * s \<Longrightarrow> 1 / 2 \<le> real s / real d"
    "real s / real d \<le> 1" "0 \<le> real s / real d"
    using assms s by (simp_all add: field_simps)
  ultimately show ?thesis
    by (auto simp: abs_le_iff)
qed

section \<open>The binary exponent\<close>

text \<open>What \<open>exp_of\<close> computes: the number has 53 bits before the point, or the exponent is the least one.\<close>

definition bin_exp :: "real \<Rightarrow> int \<Rightarrow> bool" where
  "bin_exp x e \<longleftrightarrow> -1074 \<le> e \<and> x < 2 ^ 53 * 2 powi e \<and> (e = -1074 \<or> 2 ^ 52 * 2 powi e \<le> x)"

lemma powi_le: "(a :: int) \<le> b \<Longrightarrow> (2 :: real) powi a \<le> 2 powi b"
  by (rule power_int_increasing) simp_all

lemma powi_add: "(2 :: real) powi (a + b) = 2 powi a * 2 powi b"
  by (simp add: power_int_add)

lemma powi_Suc: "(2 :: real) powi (e + 1) = 2 * 2 powi e"
  by (simp add: power_int_add)

lemma bin_exp_unique:
  assumes "bin_exp x e" "bin_exp x f"
  shows "e = f"
proof -
  have "\<not> e < f" if "bin_exp x e" "bin_exp x f" for e f
  proof
    assume "e < f"
    then have "2 * 2 powi e \<le> (2 :: real) powi f"
      using powi_le [of "e + 1" f] by (simp add: powi_Suc)
    then show False
      using that \<open>e < f\<close> by (auto simp: bin_exp_def)
  qed
  then show ?thesis
    using assms by (meson linorder_neqE)
qed

lemma bitlen_real:
  assumes "0 < n"
  shows "2 powi (int (bitlen n) - 1) \<le> real n" "real n < 2 powi int (bitlen n)"
proof -
  have b: "2 ^ (bitlen n - 1) \<le> n" "n < 2 ^ bitlen n" "0 < bitlen n"
    using bitlen_bounds [OF assms] by auto
  then have i: "int (bitlen n) - 1 = int (bitlen n - 1)"
    by simp
  have "real (2 ^ (bitlen n - 1)) \<le> real n" "real n < real (2 ^ bitlen n)"
    using b(1,2) by (simp_all only: of_nat_le_iff of_nat_less_iff)
  then show "2 powi (int (bitlen n) - 1) \<le> real n" "real n < 2 powi int (bitlen n)"
    unfolding i power_int_of_nat of_nat_power of_nat_numeral .
qed

lemma exp_of_bin_exp:
  assumes "0 < n" "0 < d"
  shows "bin_exp (real n / real d) (exp_of n d)"
proof -
  let ?x = "real n / real d"
  define e0 where "e0 = int (bitlen n) - int (bitlen d) - 53"
  obtain n' d' where nd: "scale 2 e0 n d = (n', d')"
    by (cases "scale 2 e0 n d")
  note sc = scale_real [OF nd _ assms(2)]
  have q: "real n' / real d' = ?x / 2 powi e0"
    using sc(1) by simp
  have lt: "n' < d' * 2 ^ 53 \<longleftrightarrow> ?x < 2 ^ 53 * 2 powi e0"
  proof -
    have "n' < d' * 2 ^ 53 \<longleftrightarrow> real n' < real d' * 2 ^ 53"
      by (simp flip: of_nat_less_iff [where ?'a = real])
    also have "\<dots> \<longleftrightarrow> real n' / real d' < 2 ^ 53"
      using sc(2) by (simp add: field_simps)
    also have "\<dots> \<longleftrightarrow> ?x < 2 ^ 53 * 2 powi e0"
      unfolding q by (rule pos_divide_less_eq) simp
    finally show ?thesis .
  qed
  have e: "exp_of n d = max (-1074) (if ?x < 2 ^ 53 * 2 powi e0 then e0 else e0 + 1)"
    unfolding exp_of_def e0_def [symmetric] Let_def nd prod.case lt ..
  have low: "2 ^ 52 * 2 powi e0 \<le> ?x"
  proof -
    have "2 ^ 52 * 2 powi e0 * real d \<le> 2 ^ 52 * 2 powi e0 * 2 powi int (bitlen d)"
      using bitlen_real(2) [OF assms(2)] by (intro mult_left_mono) auto
    also have "\<dots> = 2 powi (52 + e0 + int (bitlen d))"
      by (simp add: power_int_add)
    also have "52 + e0 + int (bitlen d) = int (bitlen n) - 1"
      by (simp add: e0_def)
    finally show ?thesis
      using bitlen_real(1) [OF assms(1)] assms(2) by (simp add: pos_le_divide_eq)
  qed
  have up: "?x < 2 ^ 54 * 2 powi e0"
  proof -
    have "real n < 2 powi int (bitlen n)"
      by (rule bitlen_real(2) [OF assms(1)])
    also have "int (bitlen n) = 54 + e0 + (int (bitlen d) - 1)"
      by (simp add: e0_def)
    also have "(2 :: real) powi (54 + e0 + (int (bitlen d) - 1)) = 2 ^ 54 * 2 powi e0 * 2 powi (int (bitlen d) - 1)"
      unfolding powi_add by simp
    also have "\<dots> \<le> 2 ^ 54 * 2 powi e0 * real d"
      using bitlen_real(1) [OF assms(2)] by (intro mult_left_mono) auto
    finally show ?thesis
      using assms(2) by (simp add: pos_divide_less_eq)
  qed
  let ?e1 = "if ?x < 2 ^ 53 * 2 powi e0 then e0 else e0 + 1"
  have one: "?x < 2 ^ 53 * 2 powi ?e1" "2 ^ 52 * 2 powi ?e1 \<le> ?x"
    using low up by (auto simp: powi_Suc)
  show ?thesis
  proof (cases "-1074 \<le> ?e1")
    case True
    then show ?thesis
      using one unfolding e bin_exp_def by (simp add: max_def)
  next
    case False
    then have "2 powi ?e1 \<le> (2 :: real) powi -1074"
      by (intro powi_le) simp
    then have "?x < 2 ^ 53 * 2 powi -1074"
      using one(1) by (meson less_le_trans mult_left_mono zero_le_numeral zero_le_power)
    then show ?thesis
      using False unfolding e bin_exp_def by simp
  qed
qed

section \<open>Rounding to a double\<close>

text \<open>
  A fraction that is nearer to a number than half its last bit, and a quarter of it below a power of two,
  is rounded to the number.
\<close>

lemma round64_near:
  assumes c: "canonical (Fin s m e)" "0 < m" and pos: "0 < n" "0 < d"
    and near: "\<bar>real n / real d - real m * 2 powi e\<bar> < 2 powi e / 2"
    and below: "m = 2 ^ 52 \<Longrightarrow> \<bar>real n / real d - real m * 2 powi e\<bar> < 2 powi e / 4"
  shows "round64 s n d = Fin s m e"
proof -
  let ?x = "real n / real d"
  have m: "m < 2 ^ 53" and e: "-1074 \<le> e" "e \<le> 971" and norm: "m < 2 ^ 52 \<Longrightarrow> e = -1074"
    using c(1) by (auto simp: canonical_def)
  have p: "(0 :: real) < 2 powi e"
    by simp
  have rounds: "rhe n' d' = k"
    if "scale 2 f n d = (n', d')" "\<bar>?x - real k * 2 powi f\<bar> < 2 powi f / 2" for f n' d' k
  proof (rule rhe_unique)
    note sc = scale_real [OF that(1) _ pos(2)]
    show "0 < d'"
      using sc(2) by simp
    have "real n' / real d' - real k = (?x - real k * 2 powi f) / 2 powi f"
      using sc(1) by (simp add: diff_divide_distrib)
    then have "\<bar>real n' / real d' - real k\<bar> = \<bar>?x - real k * 2 powi f\<bar> / 2 powi f"
      by (simp add: abs_divide)
    also have "\<dots> < 1 / 2"
      using that(2) by (simp add: pos_divide_less_eq)
    finally show "\<bar>real n' / real d' - real k\<bar> < 1 / 2" .
  qed
  have step: "round64 s n d = (let (m', e') = (if k = 2 ^ 53 then (2 ^ 52, f + 1) else (k, f))
      in if 971 < e' then Inf s else Fin s m' e')"
    if "exp_of n d = f" "\<bar>?x - real k * 2 powi f\<bar> < 2 powi f / 2" for f k
  proof -
    obtain n' d' where sc: "scale 2 f n d = (n', d')"
      by (cases "scale 2 f n d")
    show ?thesis
      unfolding round64_def that(1) sc prod.case rounds [OF sc that(2)] Let_def using pos(1) by simp
  qed
  have ex: "bin_exp ?x (exp_of n d)"
    using pos by (rule exp_of_bin_exp)
  have mb: "real m \<le> 2 ^ 53 - 1"
  proof -
    have "real m \<le> real (2 ^ 53 - 1)"
      using m by (subst of_nat_le_iff) simp
    then show ?thesis
      by simp
  qed
  have up: "?x < 2 ^ 53 * 2 powi e"
  proof -
    have "real m * 2 powi e \<le> (2 ^ 53 - 1) * 2 powi e"
      using mb p by (intro mult_right_mono) auto
    also have "\<dots> = 2 ^ 53 * 2 powi e - 2 powi e"
      by (simp add: left_diff_distrib)
    finally show ?thesis
      using near p by linarith
  qed
  show ?thesis
  proof (cases "e = -1074 \<or> 2 ^ 52 * 2 powi e \<le> ?x")
    case True
    then have "exp_of n d = e"
      using up e by (intro bin_exp_unique [OF ex]) (simp add: bin_exp_def)
    from step [OF this near] show ?thesis
      using m e by simp
  next
    case False
    then have e1: "-1073 \<le> e" and xl: "?x < 2 ^ 52 * 2 powi e"
      using e(1) by auto
    have "m = 2 ^ 52"
    proof (rule ccontr)
      assume "m \<noteq> 2 ^ 52"
      then have "2 ^ 52 + 1 \<le> m"
        using norm False by force
      then have "real (2 ^ 52 + 1) \<le> real m"
        by (subst of_nat_le_iff)
      then have "(2 ^ 52 + 1) * 2 powi e \<le> real m * 2 powi e"
        using p by (intro mult_right_mono) auto
      also have "(2 ^ 52 + 1) * 2 powi e = 2 ^ 52 * 2 powi e + (2 :: real) powi e"
        by (simp add: distrib_right)
      finally show False
        using near xl p by linarith
    qed
    have half: "(2 :: real) powi e = 2 * 2 powi (e - 1)"
      using powi_Suc [of "e - 1"] by simp
    have q: "\<bar>?x - real (2 ^ 53) * 2 powi (e - 1)\<bar> < 2 powi (e - 1) / 2"
      using below [OF \<open>m = 2 ^ 52\<close>] unfolding \<open>m = 2 ^ 52\<close> half by simp
    have "bin_exp ?x (e - 1)"
      using xl q e1 unfolding half bin_exp_def by (auto simp: abs_less_iff)
    then have "exp_of n d = e - 1"
      by (rule bin_exp_unique [OF ex])
    from step [OF this q] show ?thesis
      using \<open>m = 2 ^ 52\<close> e by simp
  qed
qed

section \<open>The decimal exponent and the digits\<close>

lemma declen_bounds: "0 < n \<Longrightarrow> 10 ^ (declen n - 1) \<le> n \<and> n < 10 ^ declen n \<and> 0 < declen n"
proof (induction n rule: declen.induct)
  case (1 n)
  show ?case
  proof (cases "n div 10 = 0")
    case True
    then show ?thesis
      using "1.prems" by (auto simp: declen.simps [of n] declen.simps [of 0] div_eq_0_iff)
  next
    case False
    then have ih: "10 ^ (declen (n div 10) - 1) \<le> n div 10" "n div 10 < 10 ^ declen (n div 10)" "0 < declen (n div 10)"
      using 1 by auto
    have len: "declen n = Suc (declen (n div 10))"
      using "1.prems" by (simp add: declen.simps [of n])
    have "10 * 10 ^ (declen (n div 10) - 1) \<le> n"
      using ih(1) by linarith
    moreover have "10 * 10 ^ (declen (n div 10) - 1) = (10 :: nat) ^ declen (n div 10)"
      using ih(3) by (simp flip: power_Suc)
    moreover have "n < 10 * 10 ^ declen (n div 10)"
      using ih(2) by linarith
    ultimately show ?thesis
      by (simp add: len)
  qed
qed

lemma dec_exp_real:
  assumes "0 < n" "0 < d"
  shows "10 powi dec_exp n d \<le> real n / real d \<and> real n / real d < 10 * 10 powi dec_exp n d"
proof (cases "d \<le> n")
  case True
  define v where "v = n div d"
  have v: "0 < v"
    using True assms by (simp add: v_def div_greater_zero_iff)
  note b = declen_bounds [OF v]
  have "v * d \<le> n" "n < (v + 1) * d"
    using dividend_less_div_times [OF assms(2), of n] by (simp_all add: v_def algebra_simps)
  then have "real (v * d) \<le> real n" "real n < real ((v + 1) * d)"
    by (simp_all only: of_nat_le_iff of_nat_less_iff)
  then have x: "real v \<le> real n / real d" "real n / real d < real (v + 1)"
    using assms(2) by (simp_all add: field_simps)
  have "real (10 ^ (declen v - 1)) \<le> real v" "real (v + 1) \<le> real (10 ^ declen v)"
    using b by (simp_all only: of_nat_le_iff) simp
  then have "real (10 ^ (declen v - 1)) \<le> real n / real d" "real n / real d < real (10 ^ declen v)"
    using x by linarith+
  moreover have "dec_exp n d = int (declen v - 1)"
    using True b by (simp add: dec_exp_def v_def)
  moreover have "real (10 ^ declen v) = 10 * 10 ^ (declen v - 1)"
    using b by (simp flip: power_Suc)
  ultimately show ?thesis
    by (simp add: power_int_of_nat)
next
  case False
  define v where "v = d div n"
  have v: "0 < v"
    using False assms by (simp add: v_def div_greater_zero_iff)
  note b = declen_bounds [OF v]
  have "v * n \<le> d" "d < (v + 1) * n"
    using dividend_less_div_times [OF assms(1), of d] by (simp_all add: v_def algebra_simps)
  moreover have "10 ^ (declen v - 1) * n \<le> v * n" "(v + 1) * n \<le> 10 ^ declen v * n"
    using b by (intro mult_right_mono; simp)+
  ultimately have d: "10 ^ (declen v - 1) * n \<le> d" "d < 10 ^ declen v * n"
    by linarith+
  have "real (10 ^ (declen v - 1) * n) \<le> real d" "real d < real (10 ^ declen v * n)"
    using d by (simp_all only: of_nat_le_iff of_nat_less_iff)
  then have x: "10 ^ (declen v - 1) * real n \<le> real d" "real d < 10 * 10 ^ (declen v - 1) * real n"
    using b by (simp_all flip: power_Suc)
  have k: "dec_exp n d = (if d \<le> n * 10 ^ (declen v - 1) then - int (declen v - 1) else - int (declen v))"
    using False by (simp add: dec_exp_def v_def Let_def)
  show ?thesis
  proof (cases "d \<le> n * 10 ^ (declen v - 1)")
    case True
    then have "real d \<le> real (n * 10 ^ (declen v - 1))"
      by (simp only: of_nat_le_iff)
    then show ?thesis
      using True x(1) assms by (simp add: k power_int_minus field_simps)
  next
    case False
    then have "real (n * 10 ^ (declen v - 1)) < real d"
      by (simp only: of_nat_less_iff)
    then have lt: "real n * 10 ^ (declen v - 1) < real d"
      by simp
    have w: "(10 :: real) powi - int (declen v) = 1 / (10 * 10 ^ (declen v - 1))"
      using b by (simp add: power_int_minus divide_inverse flip: power_Suc)
    have kk: "dec_exp n d = - int (declen v)"
      using False by (simp add: k)
    show ?thesis
      unfolding kk w using lt x(2) assms by (simp add: field_simps)
  qed
qed

text \<open>The digits and the exponent \<open>dec_round\<close> returns, and how near they are.\<close>

lemma dec_round_real:
  assumes "0 < n" "0 < d" "0 < P" "dec_round P n d = (D, x)"
  shows "D < 10 ^ P" and "0 < D"
    and "\<bar>real D * 10 powi (x - int P + 1) - real n / real d\<bar> \<le> real n / real d / (2 * 10 ^ (P - 1))"
proof -
  let ?v = "real n / real d"
  define k where "k = dec_exp n d"
  have k: "10 powi k \<le> ?v" "?v < 10 * 10 powi k"
    using dec_exp_real [OF assms(1,2)] by (simp_all add: k_def)
  obtain n' d' where sc: "scale 10 (k - int P + 1) n d = (n', d')"
    by (cases "scale 10 (k - int P + 1) n d")
  note real = scale_real [OF sc _ assms(2)]
  define u where "u = (10 :: real) powi (k - int P + 1)"
  have u: "0 < u" and ku: "10 powi k = 10 ^ (P - 1) * u"
  proof -
    have "k = int (P - 1) + (k - int P + 1)"
      using assms(3) by simp
    then have "(10 :: real) powi k = 10 powi int (P - 1) * u"
      unfolding u_def by (metis power_int_add zero_neq_numeral)
    then show "10 powi k = 10 ^ (P - 1) * u"
      by simp
  qed (simp add: u_def)
  have q: "real n' / real d' = ?v / u"
    using real(1) by (simp add: u_def)
  define R where "R = rhe n' d'"
  have R: "\<bar>real R - ?v / u\<bar> \<le> 1 / 2"
    using rhe_near [of d' n'] real(2) unfolding q R_def by simp
  have P10: "10 * 10 ^ (P - 1) = (10 :: 'a :: comm_semiring_1) ^ P"
    using assms(3) by (simp flip: power_Suc)
  have bounds: "10 ^ (P - 1) \<le> ?v / u" "?v / u < 10 ^ P"
    using k u unfolding ku P10 [symmetric] pos_le_divide_eq [OF u] pos_divide_less_eq [OF u] by (simp_all only: mult.assoc)
  have "real R < 10 ^ P + 1" "10 ^ (P - 1) - 1 < real R"
    using R bounds by linarith+
  then have "real R < real (10 ^ P + 1)" "real (10 ^ (P - 1)) < real (R + 1)"
    by simp_all
  then have R2: "R \<le> 10 ^ P" "10 ^ (P - 1) \<le> R"
    unfolding of_nat_less_iff by simp_all
  have near: "\<bar>real R * u - ?v\<bar> \<le> ?v / (2 * 10 ^ (P - 1))"
  proof -
    have "\<bar>real R * u - ?v\<bar> = \<bar>real R - ?v / u\<bar> * u"
    proof -
      have "real R * u - ?v = (real R - ?v / u) * u"
        using u by (simp add: left_diff_distrib)
      then show ?thesis
        using u by (simp add: abs_mult)
    qed
    also have "\<dots> \<le> 1 / 2 * u"
      using R u by (intro mult_right_mono) auto
    also have "\<dots> \<le> ?v / (2 * 10 ^ (P - 1))"
    proof -
      have half: "1 / 2 * u \<le> w / (2 * q)" if "q * u \<le> w" "0 < q" for w q :: real
        using that by (simp add: field_simps)
      show ?thesis
        by (rule half [OF k(1) [unfolded ku]]) simp
    qed
    finally show ?thesis .
  qed
  have run: "(D, x) = (if R = 10 ^ P then (10 ^ (P - 1), k + 1) else (R, k))"
    using assms(4) unfolding dec_round_def k_def [symmetric] sc prod.case R_def [symmetric] Let_def by simp
  have "(10 :: nat) ^ (P - 1) < 10 ^ P" "0 < R"
    using assms(3) less_le_trans [OF _ R2(2), of 0] by simp_all
  then show "D < 10 ^ P" "0 < D"
    using run R2(1) by (simp_all split: if_splits)
  have "real D * 10 powi (x - int P + 1) = real R * u"
  proof (cases "R = 10 ^ P")
    case True
    have "10 powi (k + 1 - int P + 1) = 10 * u"
      using power_int_add [of "10 :: real" 1 "k - int P + 1"] by (simp add: u_def algebra_simps)
    then show ?thesis
      using True run by (simp flip: P10)
  qed (use run in \<open>simp add: u_def\<close>)
  then show "\<bar>real D * 10 powi (x - int P + 1) - ?v\<bar> \<le> ?v / (2 * 10 ^ (P - 1))"
    using near by simp
qed

text \<open>With 17 digits that is near enough.\<close>

lemma round64_dec_round_17:
  assumes c: "canonical (Fin s m e)" "0 < m"
    and nd: "scale 2 (- e) m 1 = (n, d)" and D: "dec_round 17 n d = (D, x)"
    and q: "real n' / real d' = real D * 10 powi (x - 16)" "0 < d'"
  shows "round64 s n' d' = Fin s m e"
proof -
  have v: "real n / real d = real m * 2 powi e" "0 < d" "0 < n"
    using scale_real [OF nd] c(2) by (simp_all add: power_int_minus field_simps)
  have close: "\<bar>real n' / real d' - real m * 2 powi e\<bar> \<le> real m * 2 powi e / (2 * 10 ^ 16)"
    using dec_round_real(3) [OF v(3,2) _ D] unfolding v(1) q by simp
  have n': "0 < n'"
  proof -
    have "0 < real n' / real d'"
      unfolding q using dec_round_real(2) [OF v(3,2) _ D] by simp
    then show ?thesis
      using q(2) by (simp add: zero_less_divide_iff)
  qed
  show ?thesis
  proof (rule round64_near [OF c n' q(2)])
    have "real m \<le> 2 ^ 53"
      using c(1) by (simp add: canonical_def)
    then have "real m * 2 powi e / (2 * 10 ^ 16) \<le> 2 ^ 53 * 2 powi e / (2 * 10 ^ 16)"
      by (intro divide_right_mono mult_right_mono) auto
    moreover have "2 ^ 53 * 2 powi e / (2 * 10 ^ 16) < (2 :: real) powi e / 2"
      by (simp add: field_simps)
    ultimately show "\<bar>real n' / real d' - real m * 2 powi e\<bar> < 2 powi e / 2"
      using close by (meson le_less_trans)
    show "\<bar>real n' / real d' - real m * 2 powi e\<bar> < 2 powi e / 4" if "m = 2 ^ 52"
    proof -
      have "real m * 2 powi e / (2 * 10 ^ 16) < (2 :: real) powi e / 4"
        unfolding that by (simp add: field_simps)
      then show ?thesis
        using close by (meson le_less_trans)
    qed
  qed
qed

section \<open>Reading the text back\<close>

lemma digit_byte: "n < 10 \<Longrightarrow> is_digit (of_nat (48 + n)) \<and> digit_val (of_nat (48 + n)) = n"
proof -
  assume "n < 10"
  then have "unat (of_nat (48 + n) :: u8) = 48 + n"
    by (simp only: unat_of_nat) simp
  then show ?thesis
    using \<open>n < 10\<close> unfolding is_digit_def digit_val_def word_le_nat_alt by simp
qed

lemma digits_val_append: "digits_val (a @ b) = digits_val a * 10 ^ length b + digits_val b"
proof (induction b rule: rev_induct)
  case (snoc c b)
  then show ?case
    by (simp add: digits_val_def algebra_simps)
qed (simp add: digits_val_def)

lemma digits_val_zeros: "digits_val (replicate k 0x30) = 0"
proof (induction k)
  case (Suc k)
  then show ?case
    using digits_val_append [of "[0x30]" "replicate k 0x30"] by (simp add: digits_val_def digit_val_def)
qed (simp add: digits_val_def)

lemma dec_digits_val: "digits_val (dec_digits k n) = n mod 10 ^ k"
proof (induction k n rule: dec_digits.induct)
  case (2 k n)
  have "digits_val [of_nat (48 + n mod 10)] = n mod 10"
    using digit_byte [of "n mod 10"] by (simp add: digits_val_def del: of_nat_add)
  then have "digits_val (dec_digits (Suc k) n) = n div 10 mod 10 ^ k * 10 + n mod 10"
    using 2 by (simp add: digits_val_append del: of_nat_add)
  also have "\<dots> = n mod 10 ^ Suc k"
    using mod_mult2_eq [of n 10 "10 ^ k"] by simp
  finally show ?case .
qed (simp add: digits_val_def)

lemma dec_digits_digits: "\<forall>b \<in> set (dec_digits k n). is_digit b"
  by (induction k n rule: dec_digits.induct) (auto simp: digit_byte simp del: of_nat_add)

text \<open>The bytes a number is made of.\<close>

definition number_byte :: "u8 \<Rightarrow> bool" where
  "number_byte b \<longleftrightarrow> is_digit b \<or> b = 0x2D \<or> b = 0x2B \<or> b = 0x2E \<or> b = 0x65"

lemma number_bytes_layout:
  assumes "\<forall>b \<in> set ds. number_byte b"
  shows "\<forall>b \<in> set (layout_g P ds x). number_byte b"
proof -
  have parts: "\<forall>b \<in> set (take k ds). number_byte b" "\<forall>b \<in> set (drop k ds). number_byte b" for k
    using assms by (auto dest: in_set_takeD in_set_dropD)
  have strip: "\<forall>b \<in> set (strip_zeros us). number_byte b" if "\<forall>b \<in> set us. number_byte b" for us
    using that by (auto simp: strip_zeros_def dest: set_dropWhileD)
  have frac: "\<forall>b \<in> set (fraction us). number_byte b" if "\<forall>b \<in> set us. number_byte b" for us
    using that by (simp add: fraction_def) (simp add: number_byte_def)
  have zero: "number_byte 0x30" "\<forall>b \<in> set (replicate k 0x30). number_byte b" for k
    by (simp_all add: number_byte_def is_digit_def)
  have expo: "\<forall>b \<in> set (exp_text x). number_byte b"
    using dec_digits_digits [of "max 2 (declen (nat \<bar>x\<bar>))" "nat \<bar>x\<bar>"] by (auto simp: exp_text_def number_byte_def)
  have behind: "\<forall>b \<in> set (fraction (strip_zeros (drop k ds))). number_byte b"
      "\<forall>b \<in> set (fraction (replicate k 0x30 @ strip_zeros ds)). number_byte b" for k
    using frac strip [OF parts(2)] strip [OF assms] zero(2) by (metis Un_iff set_append)+
  show ?thesis
    using parts(1) zero(1) expo behind by (simp add: layout_g_def ball_Un)
qed

lemma number_bytes_fmt_g:
  assumes "finite_dbl d"
  shows "\<forall>b \<in> set (fmt_g P d). number_byte b"
proof -
  have "\<forall>b \<in> set (layout_g P (dec_digits P D) x). number_byte b" for D x
    using dec_digits_digits by (intro number_bytes_layout) (auto simp: number_byte_def)
  then show ?thesis
    using assms by (cases d) (auto simp: fmt_g_def finite_dbl_def number_byte_def is_digit_def split: prod.splits)
qed

text \<open>Dropping the zeros at the end divides by a power of ten.\<close>

lemma strip_zeros_split: "ds = strip_zeros ds @ replicate (length ds - length (strip_zeros ds)) 0x30"
proof -
  have t: "takeWhile (\<lambda>b. b = 0x30) (rev ds) = replicate (length (takeWhile (\<lambda>b. b = 0x30) (rev ds))) (0x30 :: u8)"
    by (rule replicate_eqI) (auto dest: set_takeWhileD)
  have "rev ds = takeWhile (\<lambda>b. b = 0x30) (rev ds) @ dropWhile (\<lambda>b. b = 0x30) (rev ds)"
    by simp
  then have "ds = strip_zeros ds @ rev (takeWhile (\<lambda>b. b = 0x30) (rev ds))"
    unfolding strip_zeros_def by (metis rev_append rev_rev_ident)
  then have "ds = strip_zeros ds @ replicate (length (takeWhile (\<lambda>b. b = 0x30) (rev ds))) 0x30"
    by (subst (asm) t) simp
  moreover from this have "length ds = length (strip_zeros ds) + length (takeWhile (\<lambda>b. b = 0x30) (rev ds))"
    by (metis length_append length_replicate)
  ultimately show ?thesis
    by simp
qed

lemma digits_val_strip: "digits_val (a @ ds) = digits_val (a @ strip_zeros ds) * 10 ^ (length ds - length (strip_zeros ds))"
  by (subst strip_zeros_split [of ds], simp only: append_assoc [symmetric] digits_val_append [of "a @ strip_zeros ds"])
    (simp add: digits_val_zeros)

lemma strip_zeros_digits: "\<forall>b \<in> set ds. is_digit b \<Longrightarrow> \<forall>b \<in> set (strip_zeros ds). is_digit b"
  by (auto simp: strip_zeros_def dest: set_dropWhileD)

text \<open>The text of a number without its sign: digits, a fraction, and an exponent or nothing.\<close>

definition stops :: "bytes \<Rightarrow> bool" where
  "stops r \<longleftrightarrow> (case r of [] \<Rightarrow> True | b # _ \<Rightarrow> \<not> is_digit b \<and> b \<noteq> 0x2E \<and> b \<noteq> 0x65 \<and> b \<noteq> 0x45)"

lemma takeWhile_digits:
  assumes "\<forall>b \<in> set ds. is_digit b" "r = [] \<or> \<not> is_digit (hd r)"
  shows "takeWhile is_digit (ds @ r) = ds" "dropWhile is_digit (ds @ r) = r"
  using assms by (cases r; simp add: takeWhile_append2 dropWhile_append2)+

lemma strip_sign_digit: "is_digit b \<Longrightarrow> strip_sign (b # r) = (False, b # r)"
  by (auto simp: strip_sign_def is_digit_def)

lemma exponent_part_exp_text: "exponent_part (exp_text x @ r) = (x, r)" if "r = [] \<or> \<not> is_digit (hd r)"
proof -
  define ds where "ds = dec_digits (max 2 (declen (nat \<bar>x\<bar>))) (nat \<bar>x\<bar>)"
  have v: "digits_val ds = nat \<bar>x\<bar>"
  proof -
    have "nat \<bar>x\<bar> < 10 ^ max 2 (declen (nat \<bar>x\<bar>))"
    proof (cases "nat \<bar>x\<bar> = 0")
      case False
      have "(10 :: nat) ^ declen (nat \<bar>x\<bar>) \<le> 10 ^ max 2 (declen (nat \<bar>x\<bar>))"
        by (intro power_increasing) auto
      then show ?thesis
        using declen_bounds [of "nat \<bar>x\<bar>"] False by linarith
    qed simp
    then show ?thesis
      by (simp add: ds_def dec_digits_val)
  qed
  have ne: "ds \<noteq> []"
    using length_dec_digits [of "max 2 (declen (nat \<bar>x\<bar>))" "nat \<bar>x\<bar>"] by (auto simp: ds_def simp del: length_dec_digits)
  have tw: "takeWhile is_digit (ds @ r) = ds" "dropWhile is_digit (ds @ r) = r"
    using takeWhile_digits [of ds r] dec_digits_digits that by (auto simp: ds_def)
  have "exp_text x @ r = 0x65 # (if x < 0 then 0x2D else 0x2B) # ds @ r"
    by (simp add: exp_text_def ds_def)
  then show ?thesis
    using tw ne by (simp add: exponent_part_def strip_sign_def v)
qed

lemma exponent_part_stops: "stops r \<Longrightarrow> exponent_part r = (0, r)"
  by (cases r) (auto simp: exponent_part_def stops_def)

definition num_text :: "bytes \<Rightarrow> bytes \<Rightarrow> int option \<Rightarrow> bytes" where
  "num_text ip fp x = ip @ fraction fp @ (case x of None \<Rightarrow> [] | Some i \<Rightarrow> exp_text i)"

definition num_ratio :: "bytes \<Rightarrow> bytes \<Rightarrow> int option \<Rightarrow> nat \<times> nat" where
  "num_ratio ip fp x = scale 10 (int (length fp) - (case x of None \<Rightarrow> 0 | Some i \<Rightarrow> i)) (digits_val (ip @ fp)) 1"

lemma strtod_num_text:
  assumes "\<forall>b \<in> set ip. is_digit b" "\<forall>b \<in> set fp. is_digit b" "ip \<noteq> []" "stops r"
  shows "strtod ((if s then [0x2D] else []) @ num_text ip fp x @ r) =
    Some (round64 s (fst (num_ratio ip fp x)) (snd (num_ratio ip fp x)), r)"
proof -
  let ?ex = "(case x of None \<Rightarrow> [] | Some i \<Rightarrow> exp_text i) @ r"
  let ?t = "ip @ fraction fp @ ?ex"
  obtain b ip' where ip: "ip = b # ip'"
    using assms(3) by (cases ip) auto
  have sign: "strip_sign ((if s then [0x2D] else []) @ ?t) = (s, ?t)"
    using assms(1) ip by (auto simp: strip_sign_digit) (simp add: strip_sign_def)
  have e: "?ex = [] \<or> \<not> is_digit (hd ?ex)" "?ex = [] \<or> hd ?ex \<noteq> 0x2E"
    using assms(4) by (auto simp: exp_text_def is_digit_def stops_def split: option.split list.splits)
  then have f: "fraction fp @ ?ex = [] \<or> \<not> is_digit (hd (fraction fp @ ?ex))"
    by (auto simp: fraction_def is_digit_def)
  note tw = takeWhile_digits [OF assms(1) f]
  have frac: "fraction_part ip (fraction fp @ ?ex) = (fp, ?ex)"
  proof (cases "fp = []")
    case True
    then show ?thesis
      using e(2) by (cases ?ex) (auto simp: fraction_part_def fraction_def)
  next
    case False
    then show ?thesis
      using takeWhile_digits [OF assms(2) e(1)] assms(3) by (simp add: fraction_part_def fraction_def)
  qed
  have ex: "exponent_part ?ex = (case x of None \<Rightarrow> 0 | Some i \<Rightarrow> i, r)"
    using assms(4) exponent_part_exp_text [of r] exponent_part_stops [OF assms(4)]
    by (auto simp: stops_def split: option.split list.splits)
  have "num_text ip fp x @ r = ?t"
    by (simp add: num_text_def)
  then show ?thesis
    using assms(3) sign tw frac ex by (simp add: strtod_def num_ratio_def Let_def split: prod.split)
qed

lemma strip_value:
  "real (digits_val (a @ strip_zeros b)) / 10 powi (int (length (strip_zeros b)) - y) =
   real (digits_val (a @ b)) * 10 powi (y - int (length b))"
proof -
  let ?l = "length (strip_zeros b)"
  have "digits_val (a @ b) = digits_val (a @ strip_zeros b) * 10 ^ (length b - ?l)"
    by (rule digits_val_strip)
  then have "real (digits_val (a @ b)) = real (digits_val (a @ strip_zeros b)) * 10 powi int (length b - ?l)"
    by simp
  moreover have "(10 :: real) powi int (length b - ?l) * 10 powi (y - int (length b)) = 10 powi (y - int ?l)"
  proof -
    have "int (length b - ?l) + (y - int (length b)) = y - int ?l"
      using length_strip_zeros [of b] by simp
    then show ?thesis
      by (metis power_int_add zero_neq_numeral)
  qed
  moreover have "(10 :: real) powi (y - int ?l) = 1 / 10 powi (int ?l - y)"
    by (metis minus_diff_eq power_int_minus_divide)
  ultimately show ?thesis
    by (simp add: mult.assoc)
qed

lemma num_ratio_real:
  assumes "num_ratio ip fp x = (n, d)"
  shows "0 < d" and "real n / real d = real (digits_val (ip @ fp)) / 10 powi (int (length fp) - (case x of None \<Rightarrow> 0 | Some i \<Rightarrow> i))"
  using scale_real [OF assms [unfolded num_ratio_def]] by simp_all

lemma layout_num_text:
  assumes "length ds = P" "0 < P" "\<forall>b \<in> set ds. is_digit b"
  obtains ip fp y where "layout_g P ds x = num_text ip fp y" "\<forall>b \<in> set ip. is_digit b" "\<forall>b \<in> set fp. is_digit b" "ip \<noteq> []"
    "\<And>n d. num_ratio ip fp y = (n, d) \<Longrightarrow> 0 < d \<and> real n / real d = real (digits_val ds) * 10 powi (x - int P + 1)"
proof -
  have digs: "\<forall>b \<in> set (take k ds). is_digit b" "\<forall>b \<in> set (drop k ds). is_digit b"
      "\<forall>b \<in> set (strip_zeros (drop k ds)). is_digit b" "\<forall>b \<in> set (strip_zeros ds). is_digit b" for k
  proof -
    show "\<forall>b \<in> set (take k ds). is_digit b" and d: "\<forall>b \<in> set (drop k ds). is_digit b"
      using assms(3) by (auto dest: in_set_takeD in_set_dropD)
    show "\<forall>b \<in> set (strip_zeros (drop k ds)). is_digit b" "\<forall>b \<in> set (strip_zeros ds). is_digit b"
      by (rule strip_zeros_digits [OF d], rule strip_zeros_digits [OF assms(3)])
  qed
  have z: "is_digit 0x30"
    by (simp add: is_digit_def)
  have front: "digits_val (0x30 # replicate k 0x30 @ b) = digits_val b" for k b
    using digits_val_append [of "replicate (Suc k) 0x30" b] digits_val_zeros [of "Suc k"] by simp
  consider (point) "-4 \<le> x" "x < int P" "0 \<le> x" | (small) "-4 \<le> x" "x < int P" "x < 0" | (power) "\<not> (-4 \<le> x \<and> x < int P)"
    by linarith
  then show ?thesis
  proof cases
    case point
    let ?a = "take (nat x + 1) ds" and ?b = "drop (nat x + 1) ds"
    show ?thesis
    proof (rule that [of ?a "strip_zeros ?b" None])
      show "layout_g P ds x = num_text ?a (strip_zeros ?b) None"
        using point by (simp add: layout_g_def num_text_def)
      show "?a \<noteq> []"
        using assms(1,2) by auto
      fix n d
      assume "num_ratio ?a (strip_zeros ?b) None = (n, d)"
      note r = num_ratio_real [OF this]
      show "0 < d \<and> real n / real d = real (digits_val ds) * 10 powi (x - int P + 1)"
        using r strip_value [of ?a ?b 0] assms(1) point by (simp add: algebra_simps)
    qed (rule digs)+
  next
    case small
    let ?z = "replicate (nat (- x) - 1) (0x30 :: u8)"
    show ?thesis
    proof (rule that [of "[0x30]" "?z @ strip_zeros ds" None])
      show "layout_g P ds x = num_text [0x30] (?z @ strip_zeros ds) None"
        using small by (simp add: layout_g_def num_text_def)
      fix n d
      assume "num_ratio [0x30] (?z @ strip_zeros ds) None = (n, d)"
      note r = num_ratio_real [OF this]
      have "real n / real d = real (digits_val ((0x30 # ?z) @ strip_zeros ds)) /
          10 powi (int (length (strip_zeros ds)) - (- int (length ?z)))"
        using r(2) by (simp add: algebra_simps)
      also have "\<dots> = real (digits_val ((0x30 # ?z) @ ds)) * 10 powi (- int (length ?z) - int (length ds))"
        by (rule strip_value)
      also have "\<dots> = real (digits_val ds) * 10 powi (x - int P + 1)"
        using small assms(1) by (simp add: front algebra_simps)
      finally show "0 < d \<and> real n / real d = real (digits_val ds) * 10 powi (x - int P + 1)"
        using r(1) by simp
    qed (use digs z in \<open>auto\<close>)
  next
    case power
    let ?a = "take 1 ds" and ?b = "drop 1 ds"
    show ?thesis
    proof (rule that [of ?a "strip_zeros ?b" "Some x"])
      show "layout_g P ds x = num_text ?a (strip_zeros ?b) (Some x)"
        using power by (auto simp: layout_g_def num_text_def)
      show "?a \<noteq> []"
        using assms(1,2) by auto
      fix n d
      assume "num_ratio ?a (strip_zeros ?b) (Some x) = (n, d)"
      note r = num_ratio_real [OF this]
      show "0 < d \<and> real n / real d = real (digits_val ds) * 10 powi (x - int P + 1)"
        using r strip_value [of ?a ?b x] assms(1,2) by (simp add: algebra_simps)
    qed (rule digs)+
  qed
qed

text \<open>Reading a printed number: with 17 digits it is the number itself.\<close>

lemma strtod_fmt_g:
  assumes "canonical d" "finite_dbl d" "0 < P"
  obtains d' where "\<And>r. stops r \<Longrightarrow> strtod (fmt_g P d @ r) = Some (d', r)" "P = 17 \<or> dbl_eq d' d \<Longrightarrow> d' = d"
proof -
  obtain s m e where d: "d = Fin s m e"
    using assms(2) by (cases d) (auto simp: finite_dbl_def)
  let ?sg = "if s then [0x2D] else []"
  show ?thesis
  proof (cases "m = 0")
    case True
    then have "e = -1074"
      using assms(1) by (simp add: d canonical_def)
    have "fmt_g P d = ?sg @ num_text [0x30] [] None" "num_ratio [0x30] [] None = (0, 1)"
      using True by (simp_all add: d fmt_g_def num_text_def fraction_def num_ratio_def scale_def digits_val_def digit_val_def)
    then have "strtod (fmt_g P d @ r) = Some (Fin s 0 (-1074), r)" if "stops r" for r
      using strtod_num_text [of "[0x30]" "[]" r s None] that by (simp add: is_digit_def round64_def)
    then show ?thesis
      using True \<open>e = -1074\<close> by (intro that [of d]) (simp_all add: d)
  next
    case False
    obtain n den where nd: "scale 2 (- e) m 1 = (n, den)"
      by (cases "scale 2 (- e) m 1")
    obtain D x where D: "dec_round P n den = (D, x)"
      by (cases "dec_round P n den")
    have pos: "0 < n" "0 < den"
      using scale_real [OF nd] False by simp_all
    note dr = dec_round_real [OF pos assms(3) D]
    obtain ip fp y where lay: "layout_g P (dec_digits P D) x = num_text ip fp y"
      and digs: "\<forall>b \<in> set ip. is_digit b" "\<forall>b \<in> set fp. is_digit b" "ip \<noteq> []"
      and val: "\<And>n d. num_ratio ip fp y = (n, d) \<Longrightarrow>
          0 < d \<and> real n / real d = real (digits_val (dec_digits P D)) * 10 powi (x - int P + 1)"
      by (rule layout_num_text [of "dec_digits P D" P x]) (use assms(3) dec_digits_digits in auto)
    obtain n' d' where nd': "num_ratio ip fp y = (n', d')"
      by (cases "num_ratio ip fp y")
    have ratio: "0 < d'" "real n' / real d' = real D * 10 powi (x - int P + 1)"
      using val [OF nd'] dr(1) by (simp_all add: dec_digits_val)
    have n': "0 < n'"
    proof -
      have "0 < real n' / real d'"
        unfolding ratio(2) using dr(2) by simp
      then show ?thesis
        using ratio(1) by (simp add: zero_less_divide_iff)
    qed
    have "fmt_g P d = ?sg @ num_text ip fp y"
      using False by (simp add: d fmt_g_def nd D lay del: One_nat_def)
    then have "strtod (fmt_g P d @ r) = Some (round64 s n' d', r)" if "stops r" for r
      using strtod_num_text [OF digs that, of s y] nd' by simp
    moreover have "round64 s n' d' = d" if "P = 17"
      using assms(1) False nd D ratio that unfolding d by (intro round64_dec_round_17) simp_all
    moreover have "round64 s n' d' = d" if "dbl_eq (round64 s n' d') d"
      using that False by (auto simp: d dbl_eq_def split: dbl.splits)
    ultimately show ?thesis
      by (intro that [of "round64 s n' d'"]) auto
  qed
qed

end
