(* ===== verification/CJsonMinify.thy ===== *)
theory CJsonMinify
  imports CJsonPrint Decimal
begin

text \<open>
  \<open>cJSON_Minify\<close> of \<open>jsonRead/cJSON.c\<close>: white space and comments are squeezed out of a text in place. The
  pointers \<open>json\<close> and \<open>into\<close> are the indices \<open>i\<close> and \<open>j\<close> into one buffer.

  \<open>minified\<close> is the function on texts that the routine implements; it has no value for a text that ends
  inside a comment or a string, and there the routine reads past the end of its buffer. The theory also shows
  that minifying what \<open>cJSON_Print\<close> prints gives what \<open>cJSON_PrintUnformatted\<close> prints.
\<close>

section \<open>The code\<close>

text \<open>The loop over a \<open>//\<close> comment.\<close>

function minify_line :: "bytes \<Rightarrow> nat \<Rightarrow> nat cres" where
  "minify_line buf i =
     cbind (byte_at buf i) (\<lambda>b. if b \<noteq> 0 \<and> b \<noteq> 0x0A then minify_line buf (i + 1) else Inr i)"
  by pat_completeness auto
termination
  by (relation "measure (\<lambda>(buf, i). length buf - i)") (auto simp: byte_at_eq_Inr)

declare minify_line.simps [simp del]

text \<open>The loop over a \<open>/*\<close> comment; the step over its end is made whether it was found or not.\<close>

function minify_block :: "bytes \<Rightarrow> nat \<Rightarrow> nat cres" where
  "minify_block buf i =
     cbind (byte_at buf i) (\<lambda>b.
     if b = 0 then Inr (i + 2)
     else if b = 0x2A then
       cbind (byte_at buf (i + 1)) (\<lambda>c. if c = 0x2F then Inr (i + 2) else minify_block buf (i + 1))
     else minify_block buf (i + 1))"
  by pat_completeness auto
termination
  by (relation "measure (\<lambda>(buf, i). length buf - i)") (auto simp: byte_at_eq_Inr)

declare minify_block.simps [simp del]

text \<open>\<open>*into++ = *json++\<close>\<close>

definition move_byte :: "bytes \<Rightarrow> nat \<Rightarrow> nat \<Rightarrow> bytes cres" where
  "move_byte buf i j = cbind (byte_at buf i) (put_byte buf j)"

text \<open>The loop over a string, behind its opening quote.\<close>

function minify_chars :: "bytes \<Rightarrow> nat \<Rightarrow> nat \<Rightarrow> (bytes \<times> nat \<times> nat) cres" where
  "minify_chars buf i j =
     cbind (byte_at buf i) (\<lambda>b.
     if b = 0 \<or> b = 0x22 then Inr (buf, i, j)
     else if b = 0x5C then
       cbind (move_byte buf i j) (\<lambda>buf'.
       cbind (move_byte buf' (i + 1) (j + 1)) (\<lambda>buf''. minify_chars buf'' (i + 2) (j + 2)))
     else cbind (move_byte buf i j) (\<lambda>buf'. minify_chars buf' (i + 1) (j + 1)))"
  by pat_completeness auto
termination
  by (relation "measure (\<lambda>(buf, i, j). length buf - i)")
    (auto simp: move_byte_def byte_at_eq_Inr put_byte_eq_Inr cbind_eq_Inr)

declare minify_chars.simps [simp del]

definition minify_string :: "bytes \<Rightarrow> nat \<Rightarrow> nat \<Rightarrow> (bytes \<times> nat \<times> nat) cres" where
  "minify_string buf i j =
     cbind (move_byte buf i j) (\<lambda>buf.
     cbind (minify_chars buf (i + 1) (j + 1)) (\<lambda>(buf, i, j).
     cbind (move_byte buf i j) (\<lambda>buf. Inr (buf, i + 1, j + 1))))"

text \<open>One round of the outer loop, for a byte that is not NUL.\<close>

definition minify_round :: "bytes \<Rightarrow> nat \<Rightarrow> nat \<Rightarrow> u8 \<Rightarrow> (bytes \<times> nat \<times> nat) cres" where
  "minify_round buf i j b =
     (if b = 0x20 \<or> b = 0x09 \<or> b = 0x0D \<or> b = 0x0A then Inr (buf, i + 1, j)
      else cbind (if b = 0x2F then byte_at buf (i + 1) else Inr 0) (\<lambda>c.
        if b = 0x2F \<and> c = 0x2F then cbind (minify_line buf i) (\<lambda>i. Inr (buf, i, j))
        else if b = 0x2F \<and> c = 0x2A then cbind (minify_block buf i) (\<lambda>i. Inr (buf, i, j))
        else if b = 0x22 then minify_string buf i j
        else cbind (move_byte buf i j) (\<lambda>buf. Inr (buf, i + 1, j + 1))))"

lemma minify_line_ge: "minify_line buf i = Inr i' \<Longrightarrow> i \<le> i' \<and> i' < length buf"
proof (induction buf i rule: minify_line.induct)
  case (1 buf i)
  then show ?case
    by (subst (asm) minify_line.simps) (fastforce simp: cbind_eq_Inr byte_at_eq_Inr split: if_splits)
qed

lemma minify_block_gt: "minify_block buf i = Inr i' \<Longrightarrow> i < i'"
proof (induction buf i rule: minify_block.induct)
  case (1 buf i)
  from 1(3) obtain b where b: "byte_at buf i = Inr b"
    by (subst (asm) minify_block.simps) (auto simp: cbind_eq_Inr)
  have next_byte: "minify_block buf (i + 1) = Inr i' \<Longrightarrow> i < i'"
    if "b \<noteq> 0" "b \<noteq> 0x2A \<or> (\<exists>c. byte_at buf (i + 1) = Inr c \<and> c \<noteq> 0x2F)"
    using that 1(1,2) b by (cases "b = 0x2A") fastforce+
  from 1(3) b next_byte show ?case
    by (subst (asm) minify_block.simps) (auto simp: cbind_eq_Inr split: if_splits)
qed

lemma move_byte_length: "move_byte buf i j = Inr buf' \<Longrightarrow> length buf' = length buf \<and> i < length buf"
  by (auto simp: move_byte_def cbind_eq_Inr byte_at_eq_Inr put_byte_eq_Inr)

lemma minify_chars_ge: "minify_chars buf i j = Inr (buf', i', j') \<Longrightarrow> i \<le> i' \<and> length buf' = length buf"
proof (induction buf i j rule: minify_chars.induct)
  case (1 buf i j)
  have escaped: "i \<le> i' \<and> length buf' = length buf"
    if "byte_at buf i = Inr 0x5C" "move_byte buf i j = Inr x" "move_byte x (i + 1) (j + 1) = Inr y"
      "minify_chars y (i + 2) (j + 2) = Inr (buf', i', j')" for x y
    using 1(1) [OF that(1) _ _ that(2,3,4)] that(2,3) by (auto dest!: move_byte_length)
  have other: "i \<le> i' \<and> length buf' = length buf"
    if "byte_at buf i = Inr b" "\<not> (b = 0 \<or> b = 0x22)" "b \<noteq> 0x5C" "move_byte buf i j = Inr x"
      "minify_chars x (i + 1) (j + 1) = Inr (buf', i', j')" for b x
    using 1(2) [OF that] that(4) by (auto dest!: move_byte_length)
  from 1(3) show ?case
    by (subst (asm) minify_chars.simps) (auto simp: cbind_eq_Inr split: if_splits dest: escaped other)
qed

lemma minify_round_progress:
  assumes "byte_at buf i = Inr b" "minify_round buf i j b = Inr (buf', i', j')"
  shows "length buf' = length buf \<and> i < i'"
proof -
  have "i < i'" if "minify_line buf i = Inr i'" "b = 0x2F" for i'
    using assms(1) that by (subst (asm) minify_line.simps) (auto dest: minify_line_ge)
  with assms show ?thesis
    by (auto simp: minify_round_def minify_string_def cbind_eq_Inr split: if_splits
        dest!: minify_block_gt minify_chars_ge move_byte_length)
qed

text \<open>\<open>*into\<close> is written behind the loop; a null pointer is left alone.\<close>

function minify_loop :: "bytes \<Rightarrow> nat \<Rightarrow> nat \<Rightarrow> bytes cres" where
  "minify_loop buf i j =
     cbind (byte_at buf i) (\<lambda>b.
     if b = 0 then put_byte buf j 0
     else cbind (minify_round buf i j b) (\<lambda>(buf, i, j). minify_loop buf i j))"
  by pat_completeness auto
termination
  by (relation "measure (\<lambda>(buf, i, j). length buf - i)")
    (auto simp: byte_at_eq_Inr dest!: minify_round_progress [rotated])

declare minify_loop.simps [simp del]

definition cJSON_Minify :: "bytes option \<Rightarrow> bytes option cres" where
  "cJSON_Minify json =
     (case json of None \<Rightarrow> Inr None | Some buf \<Rightarrow> cbind (minify_loop buf 0 0) (\<lambda>buf. Inr (Some buf)))"

section \<open>The function on texts\<close>

definition after_line :: "bytes \<Rightarrow> bytes" where
  "after_line s = dropWhile (\<lambda>b. b \<noteq> 0x0A) s"

fun after_block :: "bytes \<Rightarrow> bytes option" where
  "after_block [] = None"
| "after_block (b # s) = (if b = 0x2A \<and> take 1 s = [0x2F] then Some (tl s) else after_block s)"

text \<open>The rest of a string literal behind its opening quote, the closing one included, and what is behind it.\<close>

fun rest_of_string :: "bytes \<Rightarrow> (bytes \<times> bytes) option" where
  "rest_of_string [] = None"
| "rest_of_string (b # s) =
     (if b = 0x22 then Some ([b], s)
      else if b = 0x5C then
        (case s of [] \<Rightarrow> None | c # s' \<Rightarrow> map_option (\<lambda>(q, r). (b # c # q, r)) (rest_of_string s'))
      else map_option (\<lambda>(q, r). (b # q, r)) (rest_of_string s))"

lemma length_after_line: "length (after_line s) \<le> length s"
  by (simp add: after_line_def length_dropWhile_le)

lemma length_after_block: "after_block s = Some r \<Longrightarrow> length r < length s"
  by (induction s) (auto split: if_splits)

lemma rest_of_string_append: "rest_of_string s = Some (q, r) \<Longrightarrow> s = q @ r"
  by (induction s arbitrary: q r rule: rest_of_string.induct) (auto split: if_splits list.splits)

function minified :: "bytes \<Rightarrow> bytes option" where
  "minified [] = Some []"
| "minified (b # s) =
     (if b = 0x20 \<or> b = 0x09 \<or> b = 0x0D \<or> b = 0x0A then minified s
      else if b = 0x2F \<and> take 1 s = [0x2F] then minified (after_line s)
      else if b = 0x2F \<and> take 1 s = [0x2A] then
        (case after_block s of None \<Rightarrow> None | Some r \<Rightarrow> minified r)
      else if b = 0x22 then
        (case rest_of_string s of None \<Rightarrow> None | Some (q, r) \<Rightarrow> map_option ((@) (b # q)) (minified r))
      else map_option ((#) b) (minified s))"
  by pat_completeness auto
termination
  by (relation "measure length")
    (auto simp: length_after_line less_Suc_eq_le dest!: length_after_block rest_of_string_append)

section \<open>The routine and the function\<close>

text \<open>
  \<open>stage orig buf i d r\<close>: of the text \<open>orig\<close>, the bytes \<open>d\<close> have been written back so far and \<open>r\<close> is still to
  be read, from index \<open>i\<close> on.
\<close>

definition stage :: "bytes \<Rightarrow> bytes \<Rightarrow> nat \<Rightarrow> bytes \<Rightarrow> bytes \<Rightarrow> bool" where
  "stage orig buf i d r \<longleftrightarrow> buf = d @ drop (length d) orig \<and> drop i orig = r \<and> length d \<le> i"

lemma stage_byte: "stage orig buf i d r \<Longrightarrow> byte_at buf i = (case r of [] \<Rightarrow> Inl OutOfBounds | b # _ \<Rightarrow> Inr b)"
  by (cases r) (auto simp: stage_def byte_at_def nth_append nth_via_drop drop_eq_Nil
      intro: ccontr dest: arg_cong [where f = length])

lemma stage_skip: "stage orig buf i d (b # r) \<Longrightarrow> stage orig buf (i + 1) d r"
  by (auto simp: stage_def drop_Suc tl_drop [symmetric])

lemma stage_move:
  assumes "stage orig buf i d (b # r)"
  shows "\<exists>buf'. move_byte buf i (length d) = Inr buf' \<and> stage orig buf' (i + 1) (d @ [b]) r"
proof -
  from assms have byte: "byte_at buf i = Inr b" by (simp add: stage_byte)
  from assms have len: "length d < length orig"
    by (cases "length d < length orig") (auto simp: stage_def)
  with assms have put: "put_byte buf (length d) b = Inr (d @ b # drop (Suc (length d)) orig)"
    by (simp add: stage_def put_byte_def list_update_append Cons_nth_drop_Suc [symmetric])
  from assms have "stage orig (d @ b # drop (Suc (length d)) orig) (i + 1) (d @ [b]) r"
    by (auto simp: stage_def drop_Suc tl_drop [symmetric])
  with byte put show ?thesis by (simp add: move_byte_def)
qed

lemma stage_past: "length orig \<le> i \<Longrightarrow> minify_loop buf i j = Inl OutOfBounds" if "length buf = length orig"
  using that by (simp add: minify_loop.simps [of buf])

lemma stage_length: "stage orig buf i d (b # r) \<Longrightarrow> length buf = length orig"
  by (cases "length d \<le> length orig") (auto simp: stage_def)

lemma minify_line_run:
  assumes "nul_free r" "stage orig buf i d (r @ 0 # rest)"
  shows "\<exists>i'. minify_line buf i = Inr i' \<and> stage orig buf i' d (after_line r @ 0 # rest)"
  using assms
proof (induction r arbitrary: i)
  case Nil
  then show ?case
    by (auto simp: minify_line.simps [of buf i] stage_byte after_line_def)
next
  case (Cons b r)
  then have "byte_at buf i = Inr b" "stage orig buf (i + 1) d (r @ 0 # rest)"
    by (auto simp: stage_byte dest: stage_skip)
  with Cons show ?case
    by (auto simp: minify_line.simps [of buf i] after_line_def)
qed

lemma minify_block_run:
  assumes "nul_free r" "stage orig buf i d (r @ 0 # rest)"
  shows "\<exists>i'. minify_block buf i = Inr i' \<and>
    (case after_block r of None \<Rightarrow> rest = [] \<longrightarrow> length orig \<le> i' | Some r' \<Rightarrow> stage orig buf i' d (r' @ 0 # rest))"
  using assms
proof (induction r arbitrary: i)
  case Nil
  then have "rest = [] \<longrightarrow> length orig \<le> i + 1"
    by (auto simp: stage_def dest: arg_cong [where f = length])
  with Nil show ?case
    by (auto simp: minify_block.simps [of buf i] stage_byte)
next
  case (Cons b r)
  then have here: "byte_at buf i = Inr b" "stage orig buf (i + 1) d (r @ 0 # rest)"
    by (auto simp: stage_byte dest: stage_skip)
  then obtain c where c: "byte_at buf (i + 1) = Inr c" "c = 0x2F \<longleftrightarrow> take 1 r = [0x2F]"
    by (cases r) (auto simp: stage_byte)
  show ?case
  proof (cases "b = 0x2A \<and> c = 0x2F")
    case True
    then obtain r' where "r = 0x2F # r'"
      using c by (cases r) auto
    with here(2) have "stage orig buf (i + 2) d (r' @ 0 # rest)"
      by (auto dest: stage_skip)
    with True here(1) c show ?thesis
      by (auto simp: minify_block.simps [of buf i] \<open>r = 0x2F # r'\<close>)
  next
    case False
    from Cons.prems(1) Cons.IH [OF _ here(2)] obtain i' where
      "minify_block buf (i + 1) = Inr i'"
      "case after_block r of None \<Rightarrow> rest = [] \<longrightarrow> length orig \<le> i' | Some r' \<Rightarrow> stage orig buf i' d (r' @ 0 # rest)"
      by auto
    with False here(1) c Cons.prems(1) show ?thesis
      by (auto simp: minify_block.simps [of buf i])
  qed
qed

text \<open>The closing quote, or the NUL in its place, is still to be moved when the loop ends.\<close>

lemma minify_chars_run:
  assumes "nul_free r" "stage orig buf i d (r @ 0 # rest)"
  shows "case rest_of_string r of
      None \<Rightarrow> rest = [] \<longrightarrow> (\<exists>buf' i' d'. minify_chars buf i (length d) = Inr (buf', i', length d') \<and>
        stage orig buf' i' d' [0]) \<or> minify_chars buf i (length d) = Inl OutOfBounds
    | Some (q, r') \<Rightarrow> \<exists>buf' i'. minify_chars buf i (length d) = Inr (buf', i', length (d @ butlast q)) \<and>
        stage orig buf' i' (d @ butlast q) (0x22 # r' @ 0 # rest) \<and> q \<noteq> [] \<and> List.last q = 0x22"
  using assms
proof (induction r arbitrary: buf i d rule: rest_of_string.induct)
  case 1
  then show ?case
    by (auto simp: minify_chars.simps [of buf i] stage_byte)
next
  case (2 b s)
  then have here: "byte_at buf i = Inr b" "b \<noteq> 0"
    by (auto simp: stage_byte)
  from 2(4) obtain buf1 where move1: "move_byte buf i (length d) = Inr buf1"
      "stage orig buf1 (i + 1) (d @ [b]) (s @ 0 # rest)"
    using stage_move [of orig buf i d b "s @ 0 # rest"] by auto
  consider "b = 0x22" | "b = 0x5C" "s = []" | c s' where "b = 0x5C" "s = c # s'" | "b \<noteq> 0x22" "b \<noteq> 0x5C"
    by (cases s) auto
  then show ?case
  proof cases
    case 1
    with 2(4) here show ?thesis
      by (auto simp: minify_chars.simps [of buf i])
  next
    case 2
    with move1(2) obtain buf2 where move2: "move_byte buf1 (i + 1) (length d + 1) = Inr buf2"
        "stage orig buf2 (i + 2) (d @ [b, 0]) rest"
      using stage_move [of orig buf1 "i + 1" "d @ [b]" 0 rest] by auto
    from stage_byte [OF move2(2)] have "rest = [] \<longrightarrow> minify_chars buf2 (i + 2) (length d + 2) = Inl OutOfBounds"
      by (simp add: minify_chars.simps [of buf2])
    with here move1(1) move2(1) 2 show ?thesis
      by (simp add: minify_chars.simps [of buf i])
  next
    case 3
    with move1(2) obtain buf2 where move2: "move_byte buf1 (i + 1) (length d + 1) = Inr buf2"
        "stage orig buf2 (i + 2) (d @ [b, c]) (s' @ 0 # rest)"
      using stage_move [of orig buf1 "i + 1" "d @ [b]" c "s' @ 0 # rest"] by auto
    have "minify_chars buf i (length d) = minify_chars buf2 (i + 2) (length (d @ [b, c]))"
      using here move1(1) move2(1) 3 by (simp add: minify_chars.simps [of buf i])
    with 3 2(1) [OF _ _ _ _ move2(2)] 2(3) show ?thesis
      by (auto split: option.splits)
  next
    case 4
    have "minify_chars buf i (length d) = minify_chars buf1 (i + 1) (length (d @ [b]))"
      using here move1(1) 4 by (simp add: minify_chars.simps [of buf i])
    with 4 2(2) [OF _ _ _ move1(2)] 2(3) show ?thesis
      by (auto split: option.splits)
  qed
qed

lemma minify_string_run:
  assumes "nul_free r" "stage orig buf i d (0x22 # r @ 0 # rest)"
  shows "case rest_of_string r of
      None \<Rightarrow> rest = [] \<longrightarrow> minify_string buf i (length d) = Inl OutOfBounds \<or>
        (\<exists>buf' i' j'. minify_string buf i (length d) = Inr (buf', i', j') \<and>
          length buf' = length orig \<and> length orig \<le> i')
    | Some (q, r') \<Rightarrow> \<exists>buf' i'. minify_string buf i (length d) = Inr (buf', i', length (d @ 0x22 # q)) \<and>
        stage orig buf' i' (d @ 0x22 # q) (r' @ 0 # rest)"
proof -
  from stage_move [OF assms(2)] obtain buf1 where move1: "move_byte buf i (length d) = Inr buf1"
    "stage orig buf1 (i + 1) (d @ [0x22]) (r @ 0 # rest)" by auto
  note chars = minify_chars_run [OF assms(1) move1(2)]
  show ?thesis
  proof (cases "rest_of_string r")
    case None
    with chars consider "rest \<noteq> []" | "minify_chars buf1 (i + 1) (length d + 1) = Inl OutOfBounds"
      | buf2 i' d' where "minify_chars buf1 (i + 1) (length d + 1) = Inr (buf2, i', length d')"
        "stage orig buf2 i' d' [0]" by auto
    then show ?thesis
    proof cases
      case 1
      with None show ?thesis by simp
    next
      case 2
      with move1(1) None show ?thesis by (simp add: minify_string_def)
    next
      case 3
      from stage_move [of orig buf2 i' d' 0 "[]"] 3(2) obtain buf3 where move3:
        "move_byte buf2 i' (length d') = Inr buf3" "stage orig buf3 (i' + 1) (d' @ [0]) []" by auto
      with 3(2) have "length orig \<le> i' + 1" "length buf3 = length orig"
        by (auto simp: stage_def dest!: move_byte_length stage_length)
      with move1(1) 3(1) move3(1) None show ?thesis by (simp add: minify_string_def)
    qed
  next
    case (Some a)
    then obtain q r' where q: "rest_of_string r = Some (q, r')" by (cases a) auto
    with chars obtain buf2 i' where chars2:
      "minify_chars buf1 (i + 1) (length d + 1) = Inr (buf2, i', length (d @ 0x22 # butlast q))"
      "stage orig buf2 i' (d @ 0x22 # butlast q) (0x22 # r' @ 0 # rest)" "q \<noteq> []" "List.last q = 0x22" by auto
    then have whole: "butlast q @ [0x22] = q" by (metis append_butlast_last_id)
    from stage_move [OF chars2(2)] whole obtain buf3 where
      "move_byte buf2 i' (length (d @ 0x22 # butlast q)) = Inr buf3"
      "stage orig buf3 (i' + 1) (d @ 0x22 # q) (r' @ 0 # rest)" by auto
    with move1(1) chars2(1,3) q show ?thesis
      by (cases q) (auto simp: minify_string_def)
  qed
qed

lemma nul_free_parts:
  "nul_free s \<Longrightarrow> nul_free (after_line s)"
  "nul_free s \<Longrightarrow> after_block s = Some r \<Longrightarrow> nul_free r"
  "nul_free s \<Longrightarrow> rest_of_string s = Some (q, r) \<Longrightarrow> nul_free r"
proof -
  show "nul_free s \<Longrightarrow> nul_free (after_line s)"
    by (auto simp: nul_free_def after_line_def dest: set_dropWhileD)
  show "nul_free s \<Longrightarrow> after_block s = Some r \<Longrightarrow> nul_free r"
    by (induction s) (auto split: if_splits simp: nul_free_def dest: list.set_sel(2) [rotated])
  show "nul_free s \<Longrightarrow> rest_of_string s = Some (q, r) \<Longrightarrow> nul_free r"
    by (auto dest!: rest_of_string_append)
qed

text \<open>How a run ends that has written \<open>d\<close> and is to add the text \<open>m\<close>.\<close>

definition ends :: "bytes \<Rightarrow> bytes \<Rightarrow> bytes \<Rightarrow> bytes option \<Rightarrow> bytes cres \<Rightarrow> bool" where
  "ends orig rest d m res \<longleftrightarrow>
     (case m of
        None \<Rightarrow> rest = [] \<longrightarrow> res = Inl OutOfBounds
      | Some t \<Rightarrow> res = Inr ((d @ t) @ 0 # drop (length (d @ t) + 1) orig))"

lemma ends_append: "ends orig rest (d @ u) m res \<Longrightarrow> ends orig rest d (map_option ((@) u) m) res"
  by (cases m) (simp_all add: ends_def)

lemma minify_loop_run:
  assumes "nul_free r" "stage orig buf i d (r @ 0 # rest)"
  shows "ends orig rest d (minified r) (minify_loop buf i (length d))"
  using assms
proof (induction r arbitrary: buf i d rule: minified.induct)
  case 1
  then have "length d < length orig"
    by (cases "length d < length orig") (auto simp: stage_def)
  with 1 show ?case
    by (auto simp: minify_loop.simps [of buf i] stage_byte ends_def)
      (auto simp: stage_def list_update_append Cons_nth_drop_Suc [symmetric])
next
  case (2 b s)
  then have here: "byte_at buf i = Inr b" "b \<noteq> 0" "nul_free s" "length buf = length orig"
    by (auto simp: stage_byte dest: stage_length)
  have step: "minify_loop buf i (length d) =
    cbind (minify_round buf i (length d) b) (\<lambda>(buf, i, j). minify_loop buf i j)"
    using here by (simp add: minify_loop.simps [of buf i])
  from 2 have skip: "stage orig buf (i + 1) d (s @ 0 # rest)"
    by (auto dest: stage_skip)
  then obtain c where c: "byte_at buf (i + 1) = Inr c"
      "\<And>x. x \<noteq> 0 \<Longrightarrow> c = x \<longleftrightarrow> take 1 s = [x]"
    by (cases s) (auto simp: stage_byte)
  consider (space) "b = 0x20 \<or> b = 0x09 \<or> b = 0x0D \<or> b = 0x0A"
    | (line) "b = 0x2F" "take 1 s = [0x2F]" | (block) "b = 0x2F" "take 1 s = [0x2A]"
    | (string) "b = 0x22" | (other) "\<not> (b = 0x20 \<or> b = 0x09 \<or> b = 0x0D \<or> b = 0x0A)"
        "\<not> (b = 0x2F \<and> take 1 s = [0x2F])" "\<not> (b = 0x2F \<and> take 1 s = [0x2A])" "b \<noteq> 0x22"
    by blast
  then show ?case
  proof cases
    case space
    with step 2(1) [OF _ here(3) skip] show ?thesis
      by (auto simp: minify_round_def)
  next
    case line
    from 2(6,7) minify_line_run [of "b # s" orig buf i d] obtain i' where
      "minify_line buf i = Inr i'" "stage orig buf i' d (after_line (b # s) @ 0 # rest)" by auto
    with line 2(2) [OF _ _ nul_free_parts(1) [OF here(3)], of buf i' d] c step show ?thesis
      by (auto simp: minify_round_def after_line_def)
  next
    case block
    from 2(6,7) minify_block_run [of "b # s" orig buf i d] obtain i' where ended:
      "minify_block buf i = Inr i'"
      "case after_block (b # s) of None \<Rightarrow> rest = [] \<longrightarrow> length orig \<le> i' | Some r \<Rightarrow> stage orig buf i' d (r @ 0 # rest)" by auto
    with block c step have loop: "minify_loop buf i (length d) = minify_loop buf i' (length d)"
      by (simp add: minify_round_def)
    show ?thesis
    proof (cases "after_block s")
      case None
      with ended(2) block loop stage_past [OF here(4)] show ?thesis by (auto simp: ends_def)
    next
      case (Some r)
      with ended(2) block loop 2(3) [OF _ _ _ Some nul_free_parts(2) [OF here(3) Some], of buf i' d]
      show ?thesis by auto
    qed
  next
    case string
    with step have loop: "minify_loop buf i (length d) =
      cbind (minify_string buf i (length d)) (\<lambda>(buf, i, j). minify_loop buf i j)"
      by (simp add: minify_round_def)
    show ?thesis
    proof (cases "rest_of_string s")
      case None
      with minify_string_run [OF here(3), of orig buf i d rest] 2(7) string loop show ?thesis
        by (auto simp: stage_past ends_def)
    next
      case (Some a)
      then obtain q r where q: "rest_of_string s = Some (q, r)" by (cases a) auto
      with minify_string_run [OF here(3), of orig buf i d rest] 2(7) string obtain buf' i' where
        "minify_string buf i (length d) = Inr (buf', i', length (d @ 0x22 # q))"
        "stage orig buf' i' (d @ 0x22 # q) (r @ 0 # rest)" by auto
      with loop 2(4) [OF _ _ _ _ q refl nul_free_parts(3) [OF here(3) q], of buf' i' "d @ 0x22 # q"] string
      have "ends orig rest (d @ b # q) (minified r) (minify_loop buf i (length d))" by simp
      with string q ends_append show ?thesis by auto
    qed
  next
    case other
    from stage_move [of orig buf i d b "s @ 0 # rest"] 2(7) obtain buf' where
      "move_byte buf i (length d) = Inr buf'" "stage orig buf' (i + 1) (d @ [b]) (s @ 0 # rest)" by auto
    with other step c 2(5) [OF _ _ _ _ here(3), of buf' "i + 1" "d @ [b]"]
    have "ends orig rest (d @ [b]) (minified s) (minify_loop buf i (length d))"
      by (auto simp: minify_round_def)
    moreover have "minified (b # s) = map_option ((@) [b]) (minified s)"
      using other by (cases "minified s") auto
    ultimately show ?thesis using ends_append by auto
  qed
qed

lemma minify_run:
  assumes "nul_free s"
  shows "ends (s @ 0 # rest) rest [] (minified s) (minify_loop (s @ 0 # rest) 0 0)"
  using minify_loop_run [OF assms, of "s @ 0 # rest" "s @ 0 # rest" 0 "[]" rest] by (simp add: stage_def)

text \<open>
  C16: \<open>cJSON_Minify\<close> leaves in its buffer the text without white space and comments (the strings untouched),
  terminated, and the bytes behind it as they were; it returns on every text. A text that ends inside a comment
  or a string is the exception: there the routine steps over the terminator and, when the buffer ends with it,
  reads outside the buffer.
\<close>

theorem cJSON_Minify_correct:
  assumes "nul_free s"
  shows "cJSON_Minify (Some (s @ [0])) =
    (case minified s of
       None \<Rightarrow> Inl OutOfBounds
     | Some t \<Rightarrow> Inr (Some (t @ 0 # drop (length t + 1) (s @ [0]))))"
  using minify_run [OF assms, of "[]"] by (simp add: ends_def cJSON_Minify_def split: option.splits)

theorem cJSON_Minify_correct_witness:
  "cJSON_Minify (Some (map of_char ''[1, /*x*/ 2]'' @ [0])) =
     Inr (Some (map of_char ''[1,2]'' @ 0 # map of_char ''x*/ 2]'' @ [0])) \<and>
   cJSON_Minify (Some (map of_char ''1 /*/'' @ [0])) = Inr (Some (map of_char ''1'' @ 0 # map of_char ''/*/'' @ [0])) \<and>
   cJSON_Minify (Some (map of_char ''1 /*'' @ [0])) = Inl OutOfBounds"
proof -
  have "minified (map of_char ''[1, /*x*/ 2]'') = Some (map of_char ''[1,2]'')"
    "minified (map of_char ''1 /*/'') = Some (map of_char ''1'')" "minified (map of_char ''1 /*'') = None"
    by simp_all
  then show ?thesis
    using cJSON_Minify_correct [of "map of_char ''[1, /*x*/ 2]''"] cJSON_Minify_correct [of "map of_char ''1 /*/''"]
      cJSON_Minify_correct [of "map of_char ''1 /*''"]
    by simp
qed

section \<open>What the printing functions print\<close>

text \<open>\<open>t\<close> is squeezed to \<open>u\<close>, whatever is behind it.\<close>

definition minifies :: "bytes \<Rightarrow> bytes \<Rightarrow> bool" where
  "minifies t u \<longleftrightarrow> (\<forall>r. minified (t @ r) = map_option ((@) u) (minified r))"

lemma minifies_Nil: "minifies [] []"
  by (simp add: minifies_def map_option_case split: option.split)

lemma minifies_append: "minifies t u \<Longrightarrow> minifies t' u' \<Longrightarrow> minifies (t @ t') (u @ u')"
  by (simp add: minifies_def map_option_case split: option.split)

definition plain :: "u8 \<Rightarrow> bool" where
  "plain b \<longleftrightarrow> b \<notin> {0x20, 0x09, 0x0D, 0x0A, 0x2F, 0x22}"

lemma minifies_plain: "list_all plain t \<Longrightarrow> minifies t t"
proof (induction t)
  case (Cons b t)
  then have "minifies [b] [b]"
    by (simp add: minifies_def plain_def map_option_case split: option.split)
  with Cons minifies_append [of "[b]" "[b]" t t] show ?case by simp
qed (rule minifies_Nil)

lemma minifies_space: "set t \<subseteq> {0x20, 0x09, 0x0D, 0x0A} \<Longrightarrow> minifies t []"
proof (induction t)
  case (Cons b t)
  then have "minifies [b] []"
    by (auto simp: minifies_def map_option_case split: option.split)
  with Cons minifies_append [of "[b]" "[]" t "[]"] show ?case by simp
qed (rule minifies_Nil)

lemma lower_hex_inside: "lower_hex n \<noteq> 0x22 \<and> lower_hex n \<noteq> 0x5C" if "n < 16"
  using that by (auto simp: lower_hex_def add_eq_0_iff)

lemma rest_of_string_inside:
  "list_all (\<lambda>b. b \<noteq> 0x22 \<and> b \<noteq> 0x5C) t \<Longrightarrow>
   rest_of_string (t @ q) = map_option (\<lambda>(u, r). (t @ u, r)) (rest_of_string q)"
  by (induction t) (auto simp: map_option_case split: option.split)

lemma rest_of_string_esc: "rest_of_string (esc b @ q) = map_option (\<lambda>(u, r). (esc b @ u, r)) (rest_of_string q)"
proof -
  consider "31 < b \<and> b \<noteq> 0x22 \<and> b \<noteq> 0x5C" | e where "esc b = [0x5C, e]"
    | "b < 32" "esc b = 0x5C # unicode_escape b"
    by (cases "31 < b \<and> b \<noteq> 0x22 \<and> b \<noteq> 0x5C"; cases "short_escape b")
      (auto simp: esc_def short_escape_def word_less_nat_alt not_less)
  then show ?thesis
  proof cases
    case 3
    from nibble_bounds [of b] have "list_all (\<lambda>b. b \<noteq> 0x22 \<and> b \<noteq> 0x5C) (tl (unicode_escape b))"
      by (simp add: unicode_escape_def lower_hex_inside)
    from rest_of_string_inside [OF this] 3(2) show ?thesis
      by (auto simp: unicode_escape_def map_option_case split: option.split)
  qed (auto simp: esc_def map_option_case split: option.split)
qed

lemma minifies_quoted: "minifies (quoted s) (quoted s)"
proof -
  have "rest_of_string (concat (map esc str) @ 0x22 # r) = Some (concat (map esc str) @ [0x22], r)" for str r
    by (induction str) (simp_all add: rest_of_string_esc)
  then show ?thesis
    by (simp add: minifies_def quoted_def)
qed

lemma plain_fmt_g: "finite_dbl d \<Longrightarrow> list_all plain (fmt_g P d)"
  using number_bytes_fmt_g [of d P] by (auto simp: list_all_iff number_byte_def is_digit_def plain_def)

lemma plain_number_text: "list_all plain (number_text d)"
  using plain_fmt_g
  by (auto simp: number_text_def Let_def s_null_def plain_def split: option.split)

text \<open>The text of a raw item is the caller's: it is printed as it is, and squeezed like the rest.\<close>

primrec no_raw :: "cJSON \<Rightarrow> bool" where
  "no_raw (Item ty vs vi vd nm ks) \<longleftrightarrow> ty AND 0xFF \<noteq> cJSON_Raw \<and> list_all id (map no_raw ks)"

lemma minifies_array:
  assumes "\<And>tx e d t. tx \<in> set txs \<Longrightarrow> tx True d = Some t \<Longrightarrow> \<exists>u. tx False e = Some u \<and> minifies t u"
    "array_text txs True d = Some t"
  shows "\<exists>u. array_text txs False e = Some u \<and> minifies t u"
  using assms
proof (induction txs arbitrary: t)
  case Nil
  then show ?case by (auto intro: minifies_plain simp: plain_def)
next
  case (Cons tx txs)
  from Cons.prems(2) obtain t1 t2 where t: "tx True d = Some t1" "array_text txs True d = Some t2"
    "t = t1 @ (if txs \<noteq> [] then [0x2C, 0x20] else []) @ t2"
    by (auto split: option.splits)
  from Cons.prems(1) [of tx d t1 e] t(1) obtain u1 where u1: "tx False e = Some u1" "minifies t1 u1" by auto
  have "\<exists>u. array_text txs False e = Some u \<and> minifies t2 u"
    using Cons.IH [OF _ t(2)] Cons.prems(1) by simp
  then obtain u2 where u2: "array_text txs False e = Some u2" "minifies t2 u2"
    by auto
  have "minifies (if txs \<noteq> [] then [0x2C, 0x20] else []) (if txs \<noteq> [] then [0x2C] else [])"
    using minifies_append [OF minifies_plain [of "[0x2C]"] minifies_space [of "[0x20]"]]
    by (simp add: plain_def minifies_Nil)
  with u1(2) u2(2) have "minifies t (u1 @ (if txs \<noteq> [] then [0x2C] else []) @ u2)"
    unfolding t(3) by (intro minifies_append)
  with u1(1) u2(1) show ?case by (simp split: if_splits)
qed

lemma minifies_tabs: "minifies (if fm then tabs d else []) []"
  by (auto simp: tabs_def intro: minifies_space)

lemma minifies_object:
  assumes "\<And>nm tx e d t. (nm, tx) \<in> set txs \<Longrightarrow> tx True d = Some t \<Longrightarrow> \<exists>u. tx False e = Some u \<and> minifies t u"
    "object_text txs True d = Some t"
  shows "\<exists>u. object_text txs False e = Some u \<and> minifies t u"
  using assms
proof (induction txs arbitrary: t)
  case Nil
  then show ?case
    using minifies_append [OF minifies_tabs [of True "d - 1"] minifies_plain [of "[0x7D]"]]
    by (simp add: plain_def)
next
  case (Cons m txs)
  obtain nm tx where m: "m = (nm, tx)" by (cases m)
  from Cons.prems(2) m obtain t1 t2 where t: "tx True d = Some t1" "object_text txs True d = Some t2"
    "t = tabs d @ quoted nm @ [0x3A, 0x09] @ t1 @ (if txs \<noteq> [] then [0x2C] else []) @ [0x0A] @ t2"
    by (auto split: option.splits)
  from Cons.prems(1) [of nm tx d t1 e] t(1) m obtain u1 where u1: "tx False e = Some u1" "minifies t1 u1" by auto
  have "\<exists>u. object_text txs False e = Some u \<and> minifies t2 u"
    by (rule Cons.IH [OF _ t(2)]) (rule Cons.prems(1), auto)
  then obtain u2 where u2: "object_text txs False e = Some u2" "minifies t2 u2"
    by auto
  have colon: "minifies [0x3A, 0x09] [0x3A]" and comma: "minifies [0x2C] [0x2C]" and line: "minifies [0x0A] []"
    using minifies_append [OF minifies_plain [of "[0x3A]"] minifies_space [of "[0x09]"]]
    by (simp_all add: plain_def minifies_plain minifies_space)
  have "minifies t ([] @ quoted nm @ [0x3A] @ u1 @ (if txs \<noteq> [] then [0x2C] else []) @ [] @ u2)"
    unfolding t(3) using u1(2) u2(2) minifies_tabs [of True d] colon comma line
    by (intro minifies_append minifies_quoted) (auto simp: minifies_Nil)
  with m u1(1) u2(1) show ?case by simp
qed

lemma minifies_item:
  assumes "no_raw x" "item_text x True d = Some t"
  shows "\<exists>u. item_text x False e = Some u \<and> minifies t u"
  using assms
proof (induction x arbitrary: d e t)
  case (Item ty vs vi vd nm ks)
  let ?txs = "map (\<lambda>k. (istring k, item_text k)) ks"
  have IH: "\<exists>u. tx False e' = Some u \<and> minifies t' u"
    if "(n, tx) \<in> set ?txs" "tx True d' = Some t'" for n tx d' e' t'
    using that Item.IH Item.prems(1) by (auto simp: list_all_iff)
  have array: "\<exists>u. array_text (map snd ?txs) False e' = Some u \<and> minifies t' u"
    if "array_text (map snd ?txs) True d' = Some t'" for d' e' t'
    using minifies_array [OF _ that] IH by fastforce
  have object: "\<exists>u. object_text ?txs False e' = Some u \<and> minifies t' u"
    if "object_text ?txs True d' = Some t'" for d' e' t'
    using minifies_object [OF _ that] IH by blast
  have brackets: "minifies [0x5B] [0x5B]" "minifies [0x7B, 0x0A] [0x7B]"
    using minifies_append [OF minifies_plain [of "[0x7B]"] minifies_space [of "[0x0A]"]]
    by (simp_all add: plain_def minifies_plain)
  have words: "minifies s_null s_null" "minifies s_false s_false" "minifies s_true s_true"
    by (auto intro!: minifies_plain simp: s_null_def s_false_def s_true_def plain_def)
  show ?case
  proof (cases "ty AND 0xFF = cJSON_Array \<or> ty AND 0xFF = cJSON_Object")
    case False
    with Item.prems words show ?thesis
      by (auto simp: Let_def minifies_plain [OF plain_number_text] minifies_quoted split: if_splits)
  next
    case True
    then show ?thesis
    proof (elim disjE)
      assume kind: "ty AND 0xFF = cJSON_Array"
      with Item.prems(2) obtain t' where t': "array_text (map snd ?txs) True (d + 1) = Some t'" "t = [0x5B] @ t'"
        by (auto simp: cJSON_types)
      from array [OF t'(1), of "e + 1"] kind t'(2) minifies_append [OF brackets(1)] show ?thesis
        by (auto simp: cJSON_types)
    next
      assume kind: "ty AND 0xFF = cJSON_Object"
      with Item.prems(2) obtain t' where t': "object_text ?txs True (d + 1) = Some t'" "t = [0x7B, 0x0A] @ t'"
        by (auto simp: cJSON_types)
      from object [OF t'(1), of "e + 1"] kind t'(2) minifies_append [OF brackets(2)] show ?thesis
        by (auto simp: cJSON_types)
    qed
  qed
qed

lemma set_after_block: "after_block s = Some r \<Longrightarrow> set r \<subseteq> set s"
  by (induction s) (auto split: if_splits dest: list.set_sel(2) [rotated])

lemma set_minified: "minified s = Some t \<Longrightarrow> set t \<subseteq> set s"
proof (induction s arbitrary: t rule: minified.induct)
  case (2 b s)
  have "set (after_line s) \<subseteq> set s"
    by (auto simp: after_line_def dest: set_dropWhileD)
  with 2 show ?case
    by (auto split: if_splits option.splits dest!: set_after_block rest_of_string_append) blast+
qed simp

lemma minify_print_run:
  assumes "item_wf x" "no_raw x" "cJSON_Print (Some x) h = Inr (Some b, h')"
  shows "\<exists>b'. cJSON_Minify (Some b) = Inr (Some b') \<and> item_text x False 0 = Some (c_str b') \<and> terminated b'"
proof -
  from print_prints [OF assms(1), of True h] assms(3) have b: "terminated b" "item_text x True 0 = Some (c_str b)"
    by (simp_all add: prints_def cJSON_Print_def)
  from minifies_item [OF assms(2) b(2), of 0] obtain u where
    u: "item_text x False 0 = Some u" "minifies (c_str b) u" by auto
  from u(2) have squeezed: "minified (c_str b) = Some u"
    by (auto simp: minifies_def dest: spec [of _ "[]"])
  from b(1) obtain rest where split: "b = c_str b @ 0 # rest"
    by (metis terminated_split)
  have "minify_loop b 0 0 = Inr (u @ 0 # drop (length u + 1) b)"
    using minify_run [OF nul_free_c_str [of b], of rest] squeezed split by (simp add: ends_def)
  moreover have "c_str (u @ 0 # r) = u" for r
    using set_minified [OF squeezed] nul_free_c_str [of b] by (intro c_str_nul_free) (auto simp: nul_free_def)
  ultimately show ?thesis
    using u(1) by (auto simp: cJSON_Minify_def terminated_def)
qed



end
