(* ===== verification/Getopt.thy ===== *)
theory Getopt
  imports Prelude
begin

text \<open>
  \<open>getopt4windows/getopt.c\<close>: the option scanner. Its global variables and the static \<open>sp\<close> are the fields of
  \<open>getopt_state\<close>; \<open>optarg\<close> is an index into \<open>argv\<close> and an offset in that argument. What \<open>ERR\<close> writes to
  \<open>stderr\<close> is collected in \<open>err_text\<close>. \<open>char\<close> is signed, as with the compilers the file is for.

  \<open>words\<close> and \<open>letters\<close> are the grammar of a command line. Calling \<open>getopt\<close> until it returns \<open>EOF\<close> delivers
  the options the grammar finds and leaves \<open>optind\<close> at the first operand.
\<close>

section \<open>The code\<close>

record getopt_state =
  opterr :: int
  optind :: nat
  optopt :: int
  optarg :: "(nat \<times> nat) option"
  sp :: nat
  err_text :: bytes

definition getopt_start :: getopt_state where
  "getopt_start = \<lparr>opterr = 1, optind = 1, optopt = 0, optarg = None, sp = 1, err_text = []\<rparr>"

text \<open>\<open>argv[i][j]\<close>; \<open>argv[argc]\<close> is a null pointer.\<close>

definition arg_byte :: "bytes list \<Rightarrow> nat \<Rightarrow> nat \<Rightarrow> u8 cres" where
  "arg_byte argv i j =
     (if i < length argv then byte_at (argv ! i) j else if i = length argv then Inl NullDeref else Inl OutOfBounds)"

text \<open>\<open>strchr\<close>: the index of the first \<open>c\<close>, the terminator being part of the string.\<close>

definition strchr :: "bytes \<Rightarrow> u8 \<Rightarrow> nat option cres" where
  "strchr s c =
     cbind (strlen s) (\<lambda>n.
       let k = length (takeWhile (\<lambda>b. b \<noteq> c) (c_str s))
       in Inr (if c = 0 then Some n else if k < n then Some k else None))"

text \<open>The macro \<open>ERR\<close>; the newline it puts into \<open>errbuf\<close> is never written.\<close>

definition ERR :: "bytes list \<Rightarrow> bytes \<Rightarrow> u8 \<Rightarrow> getopt_state \<Rightarrow> getopt_state cres" where
  "ERR argv s c st =
     (if opterr st = 0 then Inr st
      else case argv of
          [] \<Rightarrow> Inl NullDeref
        | prog # _ \<Rightarrow> cbind (strlen prog) (\<lambda>_. Inr (st\<lparr>err_text := err_text st @ c_str prog @ s @ [c]\<rparr>)))"

definition next_letter :: "u8 \<Rightarrow> getopt_state \<Rightarrow> getopt_state" where
  "next_letter b st = (if b = 0 then st\<lparr>optind := optind st + 1, sp := 1\<rparr> else st\<lparr>sp := sp st + 1\<rparr>)"

text \<open>The part behind the test for the end of the options.\<close>

definition getopt_option :: "bytes list \<Rightarrow> bytes \<Rightarrow> getopt_state \<Rightarrow> (int \<times> getopt_state) cres" where
  "getopt_option argv opts st0 =
     cbind (arg_byte argv (optind st0) (sp st0)) (\<lambda>c.
     let st = st0\<lparr>optopt := sint c\<rparr> in
     cbind (if c = 0x3A then Inr None else strchr opts c) (\<lambda>cp.
     case cp of
       None \<Rightarrow>
         cbind (ERR argv (map of_char '': illegal option -- '') c st) (\<lambda>st.
         cbind (arg_byte argv (optind st) (sp st + 1)) (\<lambda>b. Inr (0x3F, next_letter b st)))
     | Some k \<Rightarrow>
         cbind (byte_at opts (k + 1)) (\<lambda>colon.
         cbind (arg_byte argv (optind st) (sp st + 1)) (\<lambda>b.
         if colon = 0x3A then
           if b \<noteq> 0 then
             Inr (sint c, st\<lparr>optarg := Some (optind st, sp st + 1), optind := optind st + 1, sp := 1\<rparr>)
           else if length argv \<le> optind st + 1 then
             cbind (ERR argv (map of_char '': option requires an argument -- '') c (st\<lparr>optind := optind st + 1\<rparr>)) (\<lambda>st.
             Inr (0x3F, st\<lparr>sp := 1\<rparr>))
           else Inr (sint c, st\<lparr>optarg := Some (optind st + 1, 0), optind := optind st + 2, sp := 1\<rparr>)
         else Inr (sint c, (next_letter b st)\<lparr>optarg := None\<rparr>)))))"

definition getopt :: "bytes list \<Rightarrow> bytes \<Rightarrow> getopt_state \<Rightarrow> (int \<times> getopt_state) cres" where
  "getopt argv opts st =
     (if sp st \<noteq> 1 then getopt_option argv opts st
      else if length argv \<le> optind st then Inr (- 1, st)
      else cbind (arg_byte argv (optind st) 0) (\<lambda>b.
           if b \<noteq> 0x2D then Inr (- 1, st)
           else cbind (arg_byte argv (optind st) 1) (\<lambda>b'.
           if b' = 0 then Inr (- 1, st)
           else cbind (strlen (argv ! optind st)) (\<lambda>_.
           if c_str (argv ! optind st) = [0x2D, 0x2D] then Inr (- 1, st\<lparr>optind := optind st + 1\<rparr>)
           else getopt_option argv opts st))))"

section \<open>A program's loop\<close>

text \<open>
  \<open>while ((opt = getopt(argc, argv, opts)) != -1)\<close> with what the body can read after each call: the value,
  \<open>optopt\<close> and the text of \<open>optarg\<close>. The first argument is fuel.
\<close>

type_synonym event = "int \<times> int \<times> bytes option"

definition arg_text :: "bytes list \<Rightarrow> getopt_state \<Rightarrow> bytes option" where
  "arg_text argv st = (case optarg st of None \<Rightarrow> None | Some (i, j) \<Rightarrow> Some (c_str (drop j (argv ! i))))"

fun getopt_loop :: "nat \<Rightarrow> bytes list \<Rightarrow> bytes \<Rightarrow> getopt_state \<Rightarrow> (event list \<times> getopt_state) cres" where
  "getopt_loop 0 argv opts st = Inl Diverged"
| "getopt_loop (Suc n) argv opts st =
     cbind (getopt argv opts st) (\<lambda>(r, st').
     if r = - 1 then Inr ([], st')
     else cbind (getopt_loop n argv opts st') (\<lambda>(evs, st''). Inr ((r, optopt st', arg_text argv st') # evs, st'')))"

section \<open>The grammar of a command line\<close>

text \<open>Whether a letter is an option of \<open>opts\<close>, and if so whether it takes an argument.\<close>

definition opt_kind :: "bytes \<Rightarrow> u8 \<Rightarrow> bool option" where
  "opt_kind opts c =
     (if c = 0x3A \<or> c \<notin> set opts then None else Some (take 1 (tl (dropWhile (\<lambda>b. b \<noteq> c) opts)) = [0x3A]))"

definition event :: "event \<Rightarrow> event list \<times> bytes list \<Rightarrow> event list \<times> bytes list" where
  "event e r = (e # fst r, snd r)"

text \<open>
  The options and the operands of the arguments \<open>as\<close>, and of the letters \<open>cs\<close> of an argument followed by
  \<open>as\<close>. An error leaves \<open>optarg\<close> as it was: \<open>oa\<close> is its text.
\<close>

function words :: "bytes \<Rightarrow> bytes option \<Rightarrow> bytes list \<Rightarrow> event list \<times> bytes list"
  and letters :: "bytes \<Rightarrow> bytes option \<Rightarrow> bytes \<Rightarrow> bytes list \<Rightarrow> event list \<times> bytes list" where
  "words opts oa [] = ([], [])"
| "words opts oa (a # as) =
     (if take 1 a \<noteq> [0x2D] \<or> a = [0x2D] then ([], a # as)
      else if a = [0x2D, 0x2D] then ([], as)
      else letters opts oa (tl a) as)"
| "letters opts oa [] as = words opts oa as"
| "letters opts oa (c # cs) as =
     (case opt_kind opts c of
        None \<Rightarrow> event (0x3F, sint c, oa) (letters opts oa cs as)
      | Some arg \<Rightarrow>
          if \<not> arg then event (sint c, sint c, None) (letters opts None cs as)
          else if cs \<noteq> [] then event (sint c, sint c, Some cs) (words opts (Some cs) as)
          else (case as of
                  [] \<Rightarrow> ([(0x3F, sint c, oa)], [])
                | a # as' \<Rightarrow> event (sint c, sint c, Some a) (words opts (Some a) as')))"
  by pat_completeness auto
termination
  by (relation "measure (\<lambda>x. case x of
        Inl (_, _, as) \<Rightarrow> 2 * (\<Sum>a \<leftarrow> as. length a + 1)
      | Inr (_, _, cs, as) \<Rightarrow> 2 * length cs + 2 * (\<Sum>a \<leftarrow> as. length a + 1) + 1)") auto

section \<open>The scanner follows the grammar\<close>

abbreviation z :: "bytes \<Rightarrow> bytes" where
  "z s \<equiv> s @ [0]"

lemma strchr_string:
  assumes "nul_free opts" "c \<noteq> 0"
  shows "strchr (z opts) c =
    Inr (if c \<in> set opts then Some (length (takeWhile (\<lambda>b. b \<noteq> c) opts)) else None)"
proof -
  have "c \<in> set opts \<longleftrightarrow> length (takeWhile (\<lambda>b. b \<noteq> c) opts) < length opts"
    by (induction opts) auto
  with assms show ?thesis
    by (simp add: strchr_def strlen_nul_free c_str_nul_free)
qed

lemma byte_behind_option:
  assumes "c \<in> set opts"
  shows "byte_at (z opts) (length (takeWhile (\<lambda>b. b \<noteq> c) opts) + 1) = Inr (hd (z (tl (dropWhile (\<lambda>b. b \<noteq> c) opts))))"
proof -
  have "byte_at (b # s) (Suc k) = byte_at s k" "byte_at (z s) 0 = Inr (hd (z s))" for b k s
    by (simp_all add: byte_at_def hd_conv_nth)
  with assms show ?thesis
    by (induction opts) auto
qed

lemma colon_behind: "hd (z s) = 0x3A \<longleftrightarrow> take 1 s = [0x3A]"
  by (cases s) auto

text \<open>Where a call finds the scanner: between arguments, and in front of a letter.\<close>

definition at_words :: "bytes list \<Rightarrow> getopt_state \<Rightarrow> bytes list \<Rightarrow> bool" where
  "at_words argv st as \<longleftrightarrow> sp st = 1 \<and> drop (optind st) argv = map z as"

definition at_letters :: "bytes list \<Rightarrow> getopt_state \<Rightarrow> bytes \<Rightarrow> bytes list \<Rightarrow> bool" where
  "at_letters argv st cs as \<longleftrightarrow>
     0 < sp st \<and> optind st < length argv \<and> drop (sp st) (argv ! optind st) = z cs \<and>
     drop (optind st + 1) argv = map z as"

definition goes_on :: "bytes list \<Rightarrow> getopt_state \<Rightarrow> bytes \<Rightarrow> bytes list \<Rightarrow> bool" where
  "goes_on argv st cs as \<longleftrightarrow> (if cs = [] then at_words argv st as else at_letters argv st cs as \<and> sp st \<noteq> 1)"

lemma goes_on_optarg [simp]: "goes_on argv (st\<lparr>optarg := x\<rparr>) cs as = goes_on argv st cs as"
  by (simp add: goes_on_def at_words_def at_letters_def)

lemma arg_byte_drop:
  "i < length argv \<Longrightarrow> drop j (argv ! i) = b # r \<Longrightarrow> arg_byte argv i j = Inr b"
  by (auto simp: arg_byte_def byte_at_def nth_via_drop intro: ccontr)

lemma at_letters_bytes:
  assumes "at_letters argv st (c # cs) as"
  shows "arg_byte argv (optind st) (sp st) = Inr c"
    "arg_byte argv (optind st) (sp st + 1) = Inr (hd (z cs))"
proof -
  from assms have here: "optind st < length argv" "drop (sp st) (argv ! optind st) = c # z cs"
    by (auto simp: at_letters_def)
  then have "drop (sp st + 1) (argv ! optind st) = z cs"
    by (simp add: drop_Suc tl_drop [symmetric])
  then have "drop (sp st + 1) (argv ! optind st) = hd (z cs) # tl (z cs)"
    by simp
  with here show "arg_byte argv (optind st) (sp st + 1) = Inr (hd (z cs))"
    by (intro arg_byte_drop)
  from here show "arg_byte argv (optind st) (sp st) = Inr c"
    by (intro arg_byte_drop)
qed

lemma next_letter_goes_on:
  assumes "at_letters argv st (c # cs) as" "nul_free cs" "sp st' = sp st" "optind st' = optind st"
  shows "goes_on argv (next_letter (hd (z cs)) st') cs as"
proof (cases cs)
  case Nil
  with assms show ?thesis
    by (auto simp: goes_on_def at_words_def at_letters_def next_letter_def)
next
  case (Cons b cs')
  with assms show ?thesis
    by (auto simp: goes_on_def at_letters_def next_letter_def drop_Suc tl_drop [symmetric])
qed

lemma ERR_run: "\<exists>t. ERR (z prog # argv) s c st = Inr (st\<lparr>err_text := t\<rparr>)" if "nul_free prog"
proof (cases "opterr st = 0")
  case True
  then show ?thesis
    by (intro exI [of _ "err_text st"]) (simp add: ERR_def)
next
  case False
  with that show ?thesis by (auto simp: ERR_def strlen_nul_free)
qed

lemma getopt_option_run:
  assumes "nul_free opts" "nul_free prog" "nul_free cs" "c \<noteq> 0" "at_letters (z prog # args) st (c # cs) as"
  shows "case opt_kind opts c of
      None \<Rightarrow> \<exists>st'. getopt_option (z prog # args) (z opts) st = Inr (0x3F, st') \<and>
        optopt st' = sint c \<and> optarg st' = optarg st \<and> goes_on (z prog # args) st' cs as
    | Some arg \<Rightarrow> \<exists>r st'. getopt_option (z prog # args) (z opts) st = Inr (r, st') \<and> optopt st' = sint c \<and>
        (if \<not> arg then r = sint c \<and> optarg st' = None \<and> goes_on (z prog # args) st' cs as
         else if cs \<noteq> [] then
           r = sint c \<and> optarg st' = Some (optind st, sp st + 1) \<and> at_words (z prog # args) st' as
         else if as = [] then r = 0x3F \<and> optarg st' = optarg st \<and> at_words (z prog # args) st' []
         else r = sint c \<and> optarg st' = Some (optind st + 1, 0) \<and> at_words (z prog # args) st' (tl as))"
proof (cases "opt_kind opts c")
  case None
  then have cp: "(if c = 0x3A then Inr None else strchr (z opts) c) = Inr None"
    using assms by (auto simp: strchr_string opt_kind_def split: if_splits)
  obtain t where t: "ERR (z prog # args) (map of_char '': illegal option -- '') c (st\<lparr>optopt := sint c\<rparr>) =
      Inr (st\<lparr>optopt := sint c, err_text := t\<rparr>)"
    using ERR_run [OF assms(2)] by force
  let ?st = "st\<lparr>optopt := sint c, err_text := t\<rparr>"
  have "goes_on (z prog # args) (next_letter (hd (z cs)) ?st) cs as"
    by (rule next_letter_goes_on [OF assms(5,3)]) simp_all
  with None cp t at_letters_bytes [OF assms(5)] show ?thesis
    by (simp add: getopt_option_def) (simp add: next_letter_def)
next
  case (Some arg)
  then have cp: "(if c = 0x3A then Inr None else strchr (z opts) c) =
      Inr (Some (length (takeWhile (\<lambda>b. b \<noteq> c) opts)))" and c: "c \<in> set opts"
      and arg: "arg \<longleftrightarrow> hd (z (tl (dropWhile (\<lambda>b. b \<noteq> c) opts))) = 0x3A"
    using assms by (auto simp: strchr_string opt_kind_def colon_behind split: if_splits)
  note run = cp byte_behind_option [OF c] at_letters_bytes [OF assms(5)]
  from assms(5) have behind: "drop (optind st + 1) (z prog # args) = map z as" "optind st < Suc (length args)"
    by (auto simp: at_letters_def)
  consider "\<not> arg" | "arg" "cs \<noteq> []" | "arg" "cs = []" "as = []" | a as' where "arg" "cs = []" "as = a # as'"
    by (cases as) auto
  then show ?thesis
  proof cases
    case 1
    have "goes_on (z prog # args) ((next_letter (hd (z cs)) (st\<lparr>optopt := sint c\<rparr>))\<lparr>optarg := None\<rparr>) cs as"
      using next_letter_goes_on [OF assms(5,3), of "st\<lparr>optopt := sint c\<rparr>"] by simp
    with 1 Some arg run show ?thesis
      by (simp add: getopt_option_def) (simp add: next_letter_def)
  next
    case 2
    then have "hd (z cs) \<noteq> 0"
      using assms(3) by (cases cs) auto
    with 2 Some arg run behind show ?thesis
      by (simp add: getopt_option_def at_words_def)
  next
    case 3
    obtain t where "ERR (z prog # args) (map of_char '': option requires an argument -- '') c
        (st\<lparr>optopt := sint c, optind := optind st + 1\<rparr>) =
        Inr (st\<lparr>optopt := sint c, optind := optind st + 1, err_text := t\<rparr>)"
      using ERR_run [OF assms(2)] by force
    with 3 Some arg run behind show ?thesis
      by (simp add: getopt_option_def at_words_def)
  next
    case 4
    then have "\<not> length args \<le> optind st" "drop (optind st + 2) (z prog # args) = map z as'"
      using behind by (auto simp: drop_Suc tl_drop [symmetric] intro: ccontr)
    with 4 Some arg run show ?thesis
      by (simp add: getopt_option_def at_words_def)
  qed
qed

text \<open>The rest of a program's loop behind a call.\<close>

definition getopt_rest ::
    "nat \<Rightarrow> bytes list \<Rightarrow> bytes \<Rightarrow> int \<times> getopt_state \<Rightarrow> (event list \<times> getopt_state) cres" where
  "getopt_rest n argv opts = (\<lambda>(r, st').
     if r = - 1 then Inr ([], st')
     else cbind (getopt_loop n argv opts st') (\<lambda>(evs, st''). Inr ((r, optopt st', arg_text argv st') # evs, st'')))"

lemma getopt_loop_Suc: "getopt_loop (Suc n) argv opts st = cbind (getopt argv opts st) (getopt_rest n argv opts)"
  by (simp add: getopt_rest_def)

declare getopt_loop.simps(2) [simp del]

text \<open>The loop delivers what the grammar finds.\<close>

definition delivers :: "bytes list \<Rightarrow> (event list \<times> getopt_state) cres \<Rightarrow> event list \<times> bytes list \<Rightarrow> bool" where
  "delivers argv res w \<longleftrightarrow>
     (\<exists>st. res = Inr (fst w, st) \<and> drop (optind st) argv = map z (snd w))"

lemma delivers_rest:
  assumes "delivers argv (getopt_loop n argv opts st') w" "r \<noteq> - 1" "optopt st' = c" "arg_text argv st' = oa"
  shows "delivers argv (getopt_rest n argv opts (r, st')) (event (r, c, oa) w)"
  using assms by (auto simp: delivers_def getopt_rest_def event_def)

lemma delivers_words:
  assumes "at_words argv st (a # as)" "nul_free a"
    and "take 1 a = [0x2D] \<Longrightarrow> a \<noteq> [0x2D] \<Longrightarrow> a \<noteq> [0x2D, 0x2D] \<Longrightarrow>
      delivers argv (cbind (getopt_option argv opts st) (getopt_rest n argv opts)) (letters o' oa (tl a) as)"
  shows "delivers argv (getopt_loop (Suc n) argv opts st) (words o' oa (a # as))"
proof -
  from assms(1) have here: "sp st = 1" "optind st < length argv" "argv ! optind st = z a"
    "drop (optind st + 1) argv = map z as" "drop (optind st) argv = z a # map z as"
    by (auto simp: at_words_def drop_Suc tl_drop [symmetric] nth_via_drop intro: ccontr)
  then have byte: "arg_byte argv (optind st) k = byte_at (z a) k" for k
    by (simp add: arg_byte_def)
  consider "a = []" | b where "a = [b]" | b b' a' where "a = b # b' # a'"
    by (cases a; cases "tl a") auto
  then show ?thesis
  proof cases
    case 3
    with assms(2) have "b' \<noteq> 0" "c_str (argv ! optind st) = a" "strlen (argv ! optind st) = Inr (length a)"
      using here c_str_nul_free [OF assms(2), of "[]"] strlen_nul_free [OF assms(2), of "[]"] by auto
    with 3 here byte assms(3) show ?thesis
      by (auto simp: getopt_loop_Suc getopt_def delivers_def getopt_rest_def [of n argv opts])
  qed (use here byte in \<open>auto simp: getopt_loop_Suc getopt_def delivers_def getopt_rest_def [of n argv opts]\<close>)
qed

lemma arg_text_rest:
  assumes "at_letters argv st (c # cs) as" "nul_free cs" "optarg st' = Some (optind st, sp st + 1)"
  shows "arg_text argv st' = Some cs"
proof -
  from assms(1) have "drop (sp st + 1) (argv ! optind st) = z cs"
    by (simp add: at_letters_def drop_Suc tl_drop [symmetric])
  with assms(2,3) show ?thesis
    by (simp add: arg_text_def c_str_nul_free)
qed

lemma arg_text_next:
  assumes "at_letters argv st cs (a # as)" "nul_free a" "optarg st' = Some (optind st + 1, 0)"
  shows "arg_text argv st' = Some a"
proof -
  from assms(1) have "argv ! (optind st + 1) = z a"
    by (auto simp: at_letters_def intro: nth_via_drop)
  with assms(2,3) show ?thesis
    by (simp add: arg_text_def c_str_nul_free)
qed

lemma delivers_goes_on:
  assumes "goes_on argv st cs as"
    and "(at_letters argv st cs as \<longrightarrow> cs \<noteq> [] \<longrightarrow>
        delivers argv (cbind (getopt_option argv opts st) (getopt_rest n argv opts)) w) \<and>
      (at_words argv st as \<longrightarrow> cs = [] \<longrightarrow> delivers argv (getopt_loop (Suc n) argv opts st) w)"
  shows "delivers argv (getopt_loop (Suc n) argv opts st) w"
  using assms by (auto simp: goes_on_def getopt_loop_Suc getopt_def split: if_splits)

lemma sint_char_not_eof: "c \<noteq> 0xFF \<Longrightarrow> sint (c :: u8) \<noteq> - 1"
proof
  assume "c \<noteq> 0xFF" "sint c = - 1"
  moreover have "c = word_of_int (sint c)"
    by simp
  ultimately have "c = - 1" by (simp only:) simp
  with \<open>c \<noteq> 0xFF\<close> show False by simp
qed

lemma getopt_loop_delivers:
  fixes prog args
  defines "argv \<equiv> z prog # args"
  assumes prog: "nul_free prog"
  shows "nul_free opts \<Longrightarrow> 0xFF \<notin> set opts \<Longrightarrow> at_words argv st as \<Longrightarrow> arg_text argv st = oa \<Longrightarrow>
      list_all nul_free as \<Longrightarrow> sum_list (map length as) \<le> n \<Longrightarrow>
      delivers argv (getopt_loop (Suc n) argv (z opts) st) (words opts oa as)"
    and "nul_free opts \<Longrightarrow> 0xFF \<notin> set opts \<Longrightarrow> arg_text argv st = oa \<Longrightarrow>
      nul_free cs \<Longrightarrow> list_all nul_free as \<Longrightarrow> length cs + sum_list (map length as) \<le> n \<Longrightarrow>
      (at_letters argv st cs as \<longrightarrow> cs \<noteq> [] \<longrightarrow>
        delivers argv (cbind (getopt_option argv (z opts) st) (getopt_rest n argv (z opts))) (letters opts oa cs as)) \<and>
      (at_words argv st as \<longrightarrow> cs = [] \<longrightarrow> delivers argv (getopt_loop (Suc n) argv (z opts) st) (letters opts oa cs as))"
proof (induction opts oa as and opts oa cs as arbitrary: st n and st n rule: words_letters.induct)
  case (1 opts oa)
  then show ?case
    by (auto simp: at_words_def getopt_loop_Suc getopt_def getopt_rest_def delivers_def)
next
  case (2 opts oa a as)
  show ?case
  proof (rule delivers_words)
    assume a: "take 1 a = [0x2D]" "a \<noteq> [0x2D]" "a \<noteq> [0x2D, 0x2D]"
    then have tl: "a = 0x2D # tl a" "tl a \<noteq> []"
      by (cases a; auto)+
    with 2 have "at_letters argv st (tl a) as"
      by (cases a) (auto simp: at_words_def at_letters_def drop_Suc tl_drop [symmetric] nth_via_drop intro: ccontr)
    moreover have "nul_free (tl a)" "length (tl a) + sum_list (map length as) \<le> n"
      using 2 tl by (cases a; auto)+
    ultimately show "delivers argv (cbind (getopt_option argv (z opts) st) (getopt_rest n argv (z opts))) (letters opts oa (tl a) as)"
      using 2 a tl by auto
  qed (use 2 in auto)
next
  case (3 opts oa as)
  then show ?case by simp
next
  case (4 opts oa c cs as)
  show ?case
  proof (intro conjI impI)
    assume at: "at_letters argv st (c # cs) as"
    from 4(10) obtain n' where n: "n = Suc n'" "length cs + sum_list (map length as) \<le> n'"
      by (cases n) auto
    have cs: "nul_free cs" "c \<noteq> 0"
      using 4 by simp_all
    note run = getopt_option_run [OF 4(5) prog cs at [unfolded argv_def], folded argv_def]
    show "delivers argv (cbind (getopt_option argv (z opts) st) (getopt_rest n argv (z opts))) (letters opts oa (c # cs) as)"
    proof (cases "opt_kind opts c")
      case None
      with run obtain st' where st': "getopt_option argv (z opts) st = Inr (0x3F, st')"
        "optopt st' = sint c" "optarg st' = optarg st" "goes_on argv st' cs as" by auto
      then have oa: "arg_text argv st' = oa"
        using 4(7) by (simp add: arg_text_def)
      note goes = delivers_goes_on [OF st'(4) 4(1) [OF None 4(5,6) oa cs(1) 4(9) n(2)]]
      from delivers_rest [OF goes _ st'(2) oa, of "0x3F"] None st'(1) n(1) show ?thesis
        by simp
    next
      case (Some arg)
      then have "sint c \<noteq> - 1"
        using 4(6) by (intro sint_char_not_eof) (auto simp: opt_kind_def split: if_splits)
      show ?thesis
      proof (cases "arg \<and> cs = [] \<and> as = []")
        case True
        with run Some obtain st' where "getopt_option argv (z opts) st = Inr (0x3F, st')"
          "optopt st' = sint c" "optarg st' = optarg st" "at_words argv st' []" by auto
        moreover from this have "arg_text argv st' = oa"
          using 4(7) by (simp add: arg_text_def)
        moreover have "delivers argv (getopt_loop n argv (z opts) st') ([], [])"
          using \<open>at_words argv st' []\<close>
          by (auto simp: n(1) at_words_def getopt_loop_Suc getopt_def getopt_rest_def delivers_def)
        ultimately show ?thesis
          using True Some delivers_rest [of argv n "z opts" st' "([], [])" "0x3F" "sint c" oa]
          by (simp add: event_def)
      next
        case False
        from run [unfolded Some option.case] obtain r st' where run':
          "getopt_option argv (z opts) st = Inr (r, st')" "optopt st' = sint c"
          "if \<not> arg then r = sint c \<and> optarg st' = None \<and> goes_on argv st' cs as
           else if cs \<noteq> [] then r = sint c \<and> optarg st' = Some (optind st, sp st + 1) \<and> at_words argv st' as
           else if as = [] then r = 0x3F \<and> optarg st' = optarg st \<and> at_words argv st' []
           else r = sint c \<and> optarg st' = Some (optind st + 1, 0) \<and> at_words argv st' (tl as)"
          by blast
        with False have st': "getopt_option argv (z opts) st = Inr (sint c, st')" "optopt st' = sint c"
          "if \<not> arg then optarg st' = None \<and> goes_on argv st' cs as
           else if cs \<noteq> [] then optarg st' = Some (optind st, sp st + 1) \<and> at_words argv st' as
           else optarg st' = Some (optind st + 1, 0) \<and> at_words argv st' (tl as)"
          by (simp_all split: if_splits)
        note rest = delivers_rest [OF _ \<open>sint c \<noteq> - 1\<close> st'(2)]
        consider "\<not> arg" | "arg" "cs \<noteq> []" | a as' where "arg" "cs = []" "as = a # as'"
          using False by (cases as) auto
        then show ?thesis
        proof cases
          case 1
          then have "arg_text argv st' = None" "goes_on argv st' cs as"
            using st'(3) by (simp_all add: arg_text_def)
          with 1 Some st'(1) n(1) rest [OF delivers_goes_on [OF _ 4(2) [OF Some 1 4(5,6) _ cs(1) 4(9) n(2)]]]
          show ?thesis by simp
        next
          case 2
          then have "arg_text argv st' = Some cs" "at_words argv st' as"
            using st'(3) arg_text_rest [OF at cs(1)] by simp_all
          moreover have "sum_list (map length as) \<le> n'"
            using n(2) by simp
          ultimately show ?thesis
            using 2 Some st'(1) n(1) rest [OF 4(3) [OF Some _ 2(2) 4(5,6) _ _ 4(9)]] by simp
        next
          case 3
          then have "arg_text argv st' = Some a" "at_words argv st' as'"
            using st'(3) arg_text_next [of argv st "c # cs" a as'] at 4(9) by simp_all
          moreover have "sum_list (map length as') \<le> n'" "list_all nul_free as'"
            using n(2) 4(9) 3 by simp_all
          ultimately show ?thesis
            using 3 Some st'(1) n(1) rest [OF 4(4) [OF Some _ _ 3(3) 4(5,6)]] by simp
        qed
      qed
    qed
  qed simp
qed

text \<open>
  C28: Calling \<open>getopt\<close> until it returns \<open>EOF\<close> delivers the options of the command line as the grammar finds
  them: letters bundled behind a minus sign, an argument behind its letter or in the next argument, an illegal
  letter or a missing argument as \<open>?\<close>, the end at \<open>--\<close> (skipped), at a lone minus sign or at the first operand,
  where \<open>optind\<close> is then. As many calls as there are letters, and one more, are enough, and no call reads
  outside the arguments.
\<close>

theorem getopt_follows_grammar:
  assumes "nul_free prog" "list_all nul_free args" "nul_free opts" "0xFF \<notin> set opts"
    and "sum_list (map length args) < fuel"
  shows "\<exists>st. getopt_loop fuel (map z (prog # args)) (z opts) getopt_start = Inr (fst (words opts None args), st) \<and>
    drop (optind st) (map z (prog # args)) = map z (snd (words opts None args))"
proof -
  from assms(5) obtain n where "fuel = Suc n" "sum_list (map length args) \<le> n"
    by (cases fuel) auto
  with getopt_loop_delivers(1) [OF assms(1,3,4), of "map z args" getopt_start args None n] assms(2) show ?thesis
    by (simp add: at_words_def getopt_start_def arg_text_def delivers_def)
qed

theorem getopt_follows_grammar_witness:
  "\<exists>st. getopt_loop 20 (map z (map (map of_char) [''p'', ''-ab'', ''-ofile'', ''-'', ''x''])) (z (map of_char ''ao:'')) getopt_start =
     Inr ([(97, 97, None), (63, 98, None), (111, 111, Some (map of_char ''file''))], st) \<and>
   drop (optind st) (map z (map (map of_char) [''p'', ''-ab'', ''-ofile'', ''-'', ''x''])) = map z (map (map of_char) [''-'', ''x''])"
proof -
  have "words (map of_char ''ao:'') None (map (map of_char) [''-ab'', ''-ofile'', ''-'', ''x'']) =
    ([(97, 97, None), (63, 98, None), (111, 111, Some (map of_char ''file''))], map (map of_char) [''-'', ''x''])"
    by (simp add: opt_kind_def event_def)
  with getopt_follows_grammar [of "map of_char ''p''" "map (map of_char) [''-ab'', ''-ofile'', ''-'', ''x'']"
      "map of_char ''ao:''" 20]
  show ?thesis by (simp add: nul_free_def)
qed

end
