(* ===== verification/MemPhy.thy ===== *)
theory MemPhy
  imports Posix
begin

text \<open>
  \<open>memPhy2Virt/memPhy2Virt.c\<close> and \<open>memPhy2Virt/main.c\<close>: reading and writing physical memory through
  \<open>/dev/mem\<close>. The machine keeps the physical memory, the page table of the process and the descriptors; where
  \<open>mmap\<close> puts a mapping is a function \<open>place\<close> of the pages in use, and \<open>placed_well\<close> says what the kernel
  promises of it. A load or a store outside the mapped pages is a fault. Memory is plain memory here: what the
  registers of a device do when they are touched, and unaligned accesses a processor refuses, are not modelled.
\<close>

section \<open>The machine\<close>

record machine =
  phys :: "u64 \<Rightarrow> u8"
  pages :: "u64 \<Rightarrow> u64 option"
  place :: "(u64 \<Rightarrow> u64 option) \<Rightarrow> u64 \<Rightarrow> u64 option"
  big_endian :: bool
  files :: kernel

definition PAGE_SIZE :: u64 where
  "PAGE_SIZE = 0x1000"

definition PAGE_SIZE_MASK :: u64 where
  "PAGE_SIZE_MASK = 0xfffffffffffff000"

definition page :: "u64 \<Rightarrow> u64" where
  "page a = a AND PAGE_SIZE_MASK"

text \<open>The pages from \<open>b\<close> on, \<open>n\<close> bytes of them, show the memory from \<open>p\<close> on, or nothing any more.\<close>

definition in_window :: "u64 \<Rightarrow> u64 \<Rightarrow> u64 \<Rightarrow> bool" where
  "in_window b n a \<longleftrightarrow> page a = a \<and> a - b < n"

definition mmap :: "u64 \<Rightarrow> u64 \<Rightarrow> machine \<Rightarrow> u64 option \<times> machine" where
  "mmap n p m =
     (case (if n = 0 then None else place m (pages m) n) of
        None \<Rightarrow> (None, m)
      | Some b \<Rightarrow> (Some b, m\<lparr>pages := \<lambda>a. if in_window b n a then Some (p + (a - b)) else pages m a\<rparr>))"

definition munmap :: "u64 \<Rightarrow> u64 \<Rightarrow> machine \<Rightarrow> int \<times> machine" where
  "munmap b n m =
     (if page b \<noteq> b \<or> n = 0 then (- 1, m)
      else (0, m\<lparr>pages := \<lambda>a. if in_window b n a then None else pages m a\<rparr>))"

definition physical :: "machine \<Rightarrow> u64 \<Rightarrow> u64 cres" where
  "physical m a = (case pages m (page a) of None \<Rightarrow> Inl OutOfBounds | Some p \<Rightarrow> Inr (p + (a - page a)))"

fun load_bytes :: "nat \<Rightarrow> u64 \<Rightarrow> machine \<Rightarrow> bytes cres" where
  "load_bytes 0 a m = Inr []"
| "load_bytes (Suc n) a m =
     cbind (physical m a) (\<lambda>q. cbind (load_bytes n (a + 1) m) (\<lambda>bs. Inr (phys m q # bs)))"

fun store_bytes :: "bytes \<Rightarrow> u64 \<Rightarrow> machine \<Rightarrow> machine cres" where
  "store_bytes [] a m = Inr m"
| "store_bytes (b # bs) a m = cbind (physical m a) (\<lambda>q. store_bytes bs (a + 1) (m\<lparr>phys := (phys m)(q := b)\<rparr>))"

definition load32 :: "u64 \<Rightarrow> machine \<Rightarrow> u32 cres" where
  "load32 a m = cbind (load_bytes 4 a m) (\<lambda>bs. Inr (ld32 (big_endian m) bs))"

definition store32 :: "u32 \<Rightarrow> u64 \<Rightarrow> machine \<Rightarrow> machine cres" where
  "store32 v a m = store_bytes (mem32 (big_endian m) v) a m"

section \<open>The mapping\<close>

text \<open>The result, \<open>*page_diff\<close> and \<open>*size_in_page\<close>; the two are left alone when nothing has been opened.\<close>

definition memMap :: "u64 \<Rightarrow> u64 \<Rightarrow> u64 \<Rightarrow> u64 \<Rightarrow> machine \<Rightarrow> u64 option \<times> u64 \<times> u64 \<times> machine" where
  "memMap phy_addr size0 page_diff size_in_page m =
     (if size0 = 0 then (None, page_diff, size_in_page, m)
      else case fd_open (files m) of (fd, k) \<Rightarrow>
        let m = m\<lparr>files := k\<rparr> in
        if fd < 0 then (None, page_diff, size_in_page, m)
        else let phy_addr_in_page = phy_addr AND PAGE_SIZE_MASK;
                 page_diff = phy_addr - phy_addr_in_page;
                 size_in_page = ((size0 + page_diff - 1) AND PAGE_SIZE_MASK) + PAGE_SIZE
             in case mmap size_in_page phy_addr_in_page m of
                  (None, m) \<Rightarrow> (None, page_diff, size_in_page, m\<lparr>files := fd_close fd (files m)\<rparr>)
                | (Some addr, m) \<Rightarrow>
                    (Some (addr + page_diff), page_diff, size_in_page, m\<lparr>files := fd_close fd (files m)\<rparr>))"

definition memUnmap :: "u64 \<Rightarrow> u64 \<Rightarrow> u64 \<Rightarrow> machine \<Rightarrow> int \<times> machine" where
  "memUnmap virtAddr page_diff size_in_page m =
     (case munmap (virtAddr - page_diff) size_in_page m of (r, m) \<Rightarrow> (if r \<noteq> 0 then - 1 else 0, m))"

section \<open>Reading, writing and showing registers\<close>

definition unmap_result :: "u64 \<Rightarrow> u64 \<Rightarrow> u64 \<Rightarrow> machine \<Rightarrow> int \<times> machine" where
  "unmap_result virtAddr page_diff size_in_page m =
     (case memUnmap virtAddr page_diff size_in_page m of (ret, m) \<Rightarrow> (if 0 > ret then - 1 else 0, m))"

fun show_loop :: "nat \<Rightarrow> u32 \<Rightarrow> u64 \<Rightarrow> u64 \<Rightarrow> machine \<Rightarrow> (u64 \<times> u32) list cres" where
  "show_loop 0 i phyAddr tmpAddr m = Inr []"
| "show_loop (Suc n) i phyAddr tmpAddr m =
     cbind (load32 tmpAddr m) (\<lambda>value.
     cbind (show_loop n (i + 1) phyAddr (tmpAddr + 4) m) (\<lambda>shown. Inr ((phyAddr + ucast i * 4, value) # shown)))"

text \<open>The third component is what is printed: the address and the value of each line.\<close>

definition showRegValue :: "u64 \<Rightarrow> u32 \<Rightarrow> machine \<Rightarrow> (int \<times> machine \<times> (u64 \<times> u32) list) cres" where
  "showRegValue phyAddr len m =
     (case memMap phyAddr 1 0 0 m of
        (None, _, _, m) \<Rightarrow> Inr (- 1, m, [])
      | (Some virtAddr, page_diff, size_in_page, m) \<Rightarrow>
          cbind (show_loop (unat len) 0 phyAddr virtAddr m) (\<lambda>shown.
          case unmap_result virtAddr page_diff size_in_page m of (ret, m) \<Rightarrow> Inr (ret, m, shown)))"

definition readReg :: "u64 \<Rightarrow> u32 \<Rightarrow> machine \<Rightarrow> (int \<times> u32 \<times> machine) cres" where
  "readReg phyAddr value m =
     (case memMap phyAddr 1 0 0 m of
        (None, _, _, m) \<Rightarrow> Inr (- 1, value, m)
      | (Some virtAddr, page_diff, size_in_page, m) \<Rightarrow>
          cbind (load32 virtAddr m) (\<lambda>value.
          case unmap_result virtAddr page_diff size_in_page m of (ret, m) \<Rightarrow> Inr (ret, value, m)))"

definition writeReg :: "u64 \<Rightarrow> u32 \<Rightarrow> machine \<Rightarrow> (int \<times> machine) cres" where
  "writeReg phyAddr value m =
     (case memMap phyAddr 1 0 0 m of
        (None, _, _, m) \<Rightarrow> Inr (- 1, m)
      | (Some virtAddr, page_diff, size_in_page, m) \<Rightarrow>
          cbind (store32 value virtAddr m) (\<lambda>m. Inr (unmap_result virtAddr page_diff size_in_page m)))"

section \<open>Pages and windows\<close>

lemma page_plus_offset: "page a + (a AND 0xFFF) = a"
proof -
  have "page a + (a AND 0xFFF) = (page a AND (a AND 0xFFF)) + (page a OR (a AND 0xFFF))"
    by (simp add: plus_and_or)
  also have "page a AND (a AND 0xFFF) = 0"
    by (simp add: page_def PAGE_SIZE_MASK_def and.assoc and.left_commute)
  also have "page a OR (a AND 0xFFF) = a AND (PAGE_SIZE_MASK OR 0xFFF)"
    by (simp add: page_def bit.conj_disj_distrib)
  also have "PAGE_SIZE_MASK OR 0xFFF = - 1"
    by (simp add: PAGE_SIZE_MASK_def)
  finally show ?thesis
    by simp
qed

lemma unat_offset: "unat (a AND 0xFFF :: u64) = unat a mod 4096"
proof -
  have "a AND 0xFFF = take_bit 12 a"
    by (simp add: take_bit_eq_mask mask_eq_exp_minus_1)
  then show ?thesis
    by (simp add: unsigned_take_bit_eq) (simp add: take_bit_eq_mod)
qed

lemma unat_page: "unat (page a) = unat a - unat a mod 4096"
proof -
  have "page a = a - (a AND 0xFFF)"
    using page_plus_offset [of a] by (metis add_diff_cancel_right')
  moreover have "a AND 0xFFF \<le> a"
    by (simp add: word_le_nat_alt unat_offset)
  ultimately show ?thesis
    by (simp add: unat_sub unat_offset)
qed

lemma page_eq_iff: "page a = a \<longleftrightarrow> unat a mod 4096 = 0"
  using unat_page [of a] by (auto simp: word_unat_eq_iff)

lemma page_page [simp]: "page (page a) = page a"
  by (simp add: page_def and.assoc)

definition window_fits :: "u64 \<Rightarrow> u64 \<Rightarrow> bool" where
  "window_fits b n \<longleftrightarrow> page b = b \<and> unat b + unat n \<le> 2 ^ 64"

lemma unat_window:
  assumes "window_fits b n" "k < unat n"
  shows "unat (b + of_nat k) = unat b + k"
  using assms by (simp add: window_fits_def unat_word_ariths unat_of_nat)

lemma in_window_page:
  assumes "window_fits b n" "k < unat n"
  shows "in_window b n (page (b + of_nat k))"
proof -
  have b: "unat b mod 4096 = 0"
    using assms(1) by (simp add: window_fits_def page_eq_iff)
  have p: "unat (page (b + of_nat k)) = unat b + (k - k mod 4096)"
  proof -
    have "(unat b + k) mod 4096 = k mod 4096"
      using b by (simp add: mod_add_eq [symmetric])
    then show ?thesis
      by (simp add: unat_page unat_window [OF assms])
  qed
  then have "unat (page (b + of_nat k) - b) = k - k mod 4096"
    by (subst unat_sub) (simp_all add: word_le_nat_alt)
  with assms(2) show ?thesis
    by (auto simp: in_window_def word_less_nat_alt)
qed

definition mapped :: "u64 \<Rightarrow> u64 \<Rightarrow> u64 \<Rightarrow> machine \<Rightarrow> machine" where
  "mapped b n p m = m\<lparr>pages := \<lambda>a. if in_window b n a then Some (p + (a - b)) else pages m a\<rparr>"

lemma mapped_sel [simp]:
  "phys (mapped b n p m) = phys m" "big_endian (mapped b n p m) = big_endian m" "files (mapped b n p m) = files m"
  by (simp_all add: mapped_def)

lemma physical_mapped:
  assumes "window_fits b n" "k < unat n"
  shows "physical (mapped b n p m) (b + of_nat k) = Inr (p + of_nat k)"
  using in_window_page [OF assms] by (simp add: physical_def mapped_def)

text \<open>What \<open>mmap\<close> promises of the place it takes: whole pages, inside the address space, not in use.\<close>

definition placed_well :: "machine \<Rightarrow> bool" where
  "placed_well m \<longleftrightarrow>
     (\<forall>n b. place m (pages m) n = Some b \<longrightarrow>
        window_fits b n \<and> (\<forall>a. in_window b n a \<longrightarrow> pages m a = None))"

lemma munmap_mapped:
  assumes "window_fits b n" "n \<noteq> 0" "\<forall>a. in_window b n a \<longrightarrow> pages m a = None"
  shows "munmap b n (mapped b n p m) = (0, m)"
proof -
  have "(\<lambda>a. if in_window b n a then None else pages (mapped b n p m) a) = pages m"
    using assms(3) by (auto simp: mapped_def)
  moreover have "(mapped b n p m)\<lparr>pages := pages m\<rparr> = m"
    by (simp add: mapped_def)
  ultimately show ?thesis
    using assms(1,2) by (simp add: munmap_def window_fits_def)
qed

section \<open>The mapping function\<close>

definition window_size :: "u64 \<Rightarrow> u64 \<Rightarrow> u64" where
  "window_size phy size0 = page (size0 + (phy - page phy) - 1) + PAGE_SIZE"

lemma phy_minus_page: "phy - page phy = phy AND 0xFFF"
  using page_plus_offset [of phy] by (metis add_diff_cancel_left')

lemma unat_window_size:
  assumes "size0 \<noteq> 0" "unat size0 + 8192 \<le> 2 ^ 64"
  shows "unat (window_size phy size0) = (unat size0 + unat phy mod 4096 - 1) div 4096 * 4096 + 4096"
proof -
  let ?s = "unat size0 + unat phy mod 4096 - 1"
  have s: "0 < unat size0" "unat phy mod 4096 < 4096"
    using assms(1) by (simp_all add: unat_gt_0)
  have "unat (size0 + (phy - page phy)) = unat size0 + unat phy mod 4096"
    using assms(2) s(2) by (simp add: phy_minus_page unat_word_ariths unat_offset)
  then have "unat (size0 + (phy - page phy) - 1) = ?s"
    using s by (subst unat_sub) (simp_all add: word_le_nat_alt)
  then have "unat (page (size0 + (phy - page phy) - 1)) = ?s div 4096 * 4096"
    by (simp add: unat_page minus_mod_eq_div_mult)
  moreover have "?s div 4096 * 4096 \<le> ?s"
    by simp
  ultimately show ?thesis
    using assms(2) s by (simp add: window_size_def PAGE_SIZE_def unat_word_ariths)
qed

definition can_map :: "machine \<Rightarrow> u64 \<Rightarrow> u64 \<Rightarrow> bool" where
  "can_map m n b \<longleftrightarrow> length (open_fds (files m)) < max_fds (files m) \<and> place m (pages m) n = Some b"

lemma fd_open_room:
  "if length (open_fds k) < max_fds k then \<exists>d. 0 \<le> d \<and> fd_open k = (d, k\<lparr>open_fds := d # open_fds k\<rparr>)
   else fd_open k = (- 1, k)"
  using lowest_free_nonneg by (simp add: fd_open_def Let_def)

lemma memMap_cases:
  assumes "size0 \<noteq> 0" "window_size phy size0 \<noteq> 0"
  obtains (null) pd sip where "memMap phy size0 pd0 sip0 m = (None, pd, sip, m)" "\<nexists>b. can_map m (window_size phy size0) b"
  | (window) b where "can_map m (window_size phy size0) b"
      "memMap phy size0 pd0 sip0 m =
        (Some (b + (phy - page phy)), phy - page phy, window_size phy size0, mapped b (window_size phy size0) (page phy) m)"
proof -
  consider "fd_open (files m) = (- 1, files m)" "\<not> length (open_fds (files m)) < max_fds (files m)"
    | d where "0 \<le> d" "fd_open (files m) = (d, (files m)\<lparr>open_fds := d # open_fds (files m)\<rparr>)"
      "length (open_fds (files m)) < max_fds (files m)"
    using fd_open_room [of "files m"] by (auto split: if_splits)
  then show thesis
  proof cases
    case 1
    with assms(1) null show thesis
      by (simp add: memMap_def can_map_def)
  next
    case 2
    let ?m = "m\<lparr>files := (files m)\<lparr>open_fds := d # open_fds (files m)\<rparr>\<rparr>"
    have closed: "fd_close d (files ?m) = files m"
      by simp
    show thesis
    proof (cases "place m (pages m) (window_size phy size0)")
      case None
      with assms 2 null closed show thesis
        by (simp add: memMap_def Let_def mmap_def can_map_def window_size_def page_def [symmetric])
    next
      case (Some b)
      with assms 2 window closed show thesis
        by (simp add: memMap_def Let_def mmap_def can_map_def mapped_def window_size_def page_def [symmetric] cong: if_cong)
    qed
  qed
qed

text \<open>
  C29: A mapping shows what was asked for: the whole pages around the \<open>size\<close> bytes of physical memory from
  \<open>phy_addr\<close> on and no page more, every byte at the address computed from the result. The descriptor is closed
  on every path, a mapping that fails changes nothing, and \<open>_memUnmap\<close> with the two numbers handed back takes
  exactly this mapping away again.
\<close>

theorem memMap_correct:
  assumes "placed_well m" "size0 \<noteq> 0" "unat size0 + 8192 \<le> 2 ^ 64"
  shows "case memMap phy size0 pd0 sip0 m of
      (None, _, _, m') \<Rightarrow> m' = m
    | (Some v, d, n, m') \<Rightarrow>
        (\<forall>k < unat size0. physical m' (v + of_nat k) = Inr (phy + of_nat k)) \<and>
        files m' = files m \<and> phys m' = phys m \<and> memUnmap v d n m' = (0, m) \<and>
        page n = n \<and> unat d + unat size0 \<le> unat n \<and> unat n < unat d + unat size0 + 4096"
proof -
  let ?n = "window_size phy size0" and ?d = "phy - page phy"
  have n: "unat ?n = (unat size0 + unat phy mod 4096 - 1) div 4096 * 4096 + 4096"
    by (rule unat_window_size [OF assms(2,3)])
  have d: "unat ?d = unat phy mod 4096"
    by (simp add: phy_minus_page unat_offset)
  have s: "0 < unat size0"
    using assms(2) by (simp add: unat_gt_0)
  have "?n \<noteq> 0"
    using n by (auto simp: unat_eq_zero [symmetric])
  with assms(2) show ?thesis
  proof (cases rule: memMap_cases [of size0 phy pd0 sip0 m])
    case (window b)
    with assms(1) have fits: "window_fits b ?n" "\<forall>a. in_window b ?n a \<longrightarrow> pages m a = None"
      by (auto simp: placed_well_def can_map_def)
    have bounds: "unat ?d + unat size0 \<le> unat ?n" "unat ?n < unat ?d + unat size0 + 4096"
      using n d s div_mult_mod_eq [of "unat size0 + unat phy mod 4096 - 1" 4096]
        mod_less_divisor [of 4096 "unat size0 + unat phy mod 4096 - 1"] by linarith+
    have "physical (mapped b ?n (page phy) m) (b + ?d + of_nat k) = Inr (phy + of_nat k)" if "k < unat size0" for k
      using physical_mapped [OF fits(1), of "unat ?d + k" "page phy" m] that bounds(1)
      by (simp add: add.assoc [symmetric])
    moreover have "memUnmap (b + ?d) ?d ?n (mapped b ?n (page phy) m) = (0, m)"
      using munmap_mapped [OF fits(1) \<open>?n \<noteq> 0\<close> fits(2)] by (simp add: memUnmap_def)
    moreover have "page ?n = ?n"
      by (simp add: page_eq_iff n)
    ultimately show ?thesis
      using window(2) bounds by simp
  qed simp
qed

section \<open>The registers\<close>

lemma window_size_1: "window_size phy 1 = 0x1000"
proof -
  have "unat phy mod 4096 div 4096 = 0"
    by simp
  then have "unat (window_size phy 1) = 4096"
    using unat_window_size [of 1 phy] by simp
  then show ?thesis
    by (simp add: word_unat_eq_iff)
qed

lemma reg_cases:
  assumes "placed_well m"
  obtains (null) pd sip where "memMap phy 1 0 0 m = (None, pd, sip, m)" "\<nexists>b. can_map m 0x1000 b"
  | (window) b where "can_map m 0x1000 b" "window_fits b 0x1000" "\<forall>a. in_window b 0x1000 a \<longrightarrow> pages m a = None"
      "memMap phy 1 0 0 m =
        (Some (b + (phy - page phy)), phy - page phy, 0x1000, mapped b 0x1000 (page phy) m)"
proof -
  have "(1 :: u64) \<noteq> 0" "window_size phy 1 \<noteq> 0"
    by (simp_all add: window_size_1)
  then show thesis
  proof (cases rule: memMap_cases [of 1 phy 0 0 m])
    case (null pd sip)
    with that(1) show thesis by (simp add: window_size_1)
  next
    case (window b)
    with assms have "window_fits b 0x1000" "\<forall>a. in_window b 0x1000 a \<longrightarrow> pages m a = None"
      by (auto simp: placed_well_def can_map_def window_size_1)
    with window that(2) show thesis by (simp add: window_size_1)
  qed
qed

lemma load_bytes_run:
  assumes "\<And>k. k < n \<Longrightarrow> physical m (a + of_nat k) = Inr (q + of_nat k)"
  shows "load_bytes n a m = Inr (map (\<lambda>k. phys m (q + of_nat k)) [0..<n])"
  using assms
proof (induction n arbitrary: a q)
  case (Suc n)
  have "physical m (a + 1 + of_nat k) = Inr (q + 1 + of_nat k)" if "k < n" for k
    using Suc.prems [of "Suc k"] that by (simp add: ac_simps)
  note rest = Suc.IH [OF this]
  have "physical m a = Inr q"
    using Suc.prems [of 0] by simp
  with rest show ?case
    by (simp add: upt_conv_Cons map_Suc_upt [symmetric] ac_simps del: upt_Suc)
qed simp

fun write_phys :: "(u64 \<Rightarrow> u8) \<Rightarrow> u64 \<Rightarrow> bytes \<Rightarrow> u64 \<Rightarrow> u8" where
  "write_phys f q [] = f"
| "write_phys f q (b # bs) = write_phys (f(q := b)) (q + 1) bs"

lemma store_bytes_run:
  assumes "\<And>k. k < length bs \<Longrightarrow> physical m (a + of_nat k) = Inr (q + of_nat k)"
  shows "store_bytes bs a m = Inr (m\<lparr>phys := write_phys (phys m) q bs\<rparr>)"
  using assms
proof (induction bs arbitrary: a q m)
  case (Cons b bs)
  let ?m = "m\<lparr>phys := (phys m)(q := b)\<rparr>"
  have "physical ?m (a + 1 + of_nat k) = Inr (q + 1 + of_nat k)" if "k < length bs" for k
    using Cons.prems [of "Suc k"] that by (simp add: ac_simps physical_def)
  note rest = Cons.IH [OF this]
  have "physical m a = Inr q"
    using Cons.prems [of 0] by simp
  with rest show ?case by (simp add: fun_upd_def)
qed simp

lemma write_phys_outside: "length bs \<le> unat (x - q) \<Longrightarrow> length bs < 2 ^ 64 \<Longrightarrow> write_phys f q bs x = f x"
proof (induction bs arbitrary: f q)
  case (Cons b bs)
  then have "x - q \<noteq> 0"
    by auto
  then have "unat (x - (q + 1)) = unat (x - q) - 1"
    by (simp add: diff_diff_eq [symmetric] unat_minus_one)
  with Cons show ?case
    by auto
qed simp

lemma read_write_phys:
  assumes "length bs < 2 ^ 64"
  shows "map (\<lambda>k. write_phys f q bs (q + of_nat k)) [0..<length bs] = bs"
  using assms
proof (induction bs arbitrary: f q)
  case (Cons b bs)
  have "write_phys (f(q := b)) (q + 1) bs q = b"
    using write_phys_outside [of bs q "q + 1" "f(q := b)"] Cons.prems
    by (simp add: unsigned_minus_1_eq_mask mask_eq_exp_minus_1)
  moreover have "map (\<lambda>k. write_phys (f(q := b)) (q + 1) bs (q + of_nat (Suc k))) [0..<length bs] = bs"
    using Cons.IH [of "f(q := b)" "q + 1"] Cons.prems by (simp add: ac_simps fun_upd_def)
  ultimately show ?case
    by (simp add: upt_conv_Cons map_Suc_upt [symmetric] comp_def del: upt_Suc of_nat_Suc)
qed simp

text \<open>The word at a physical address.\<close>

definition reg_at :: "machine \<Rightarrow> u64 \<Rightarrow> u32" where
  "reg_at m q = ld32 (big_endian m) (map (\<lambda>k. phys m (q + of_nat k)) [0..<4])"

lemma physical_reg:
  assumes "window_fits b 0x1000" "unat phy mod 4096 + k < 4096"
  shows "physical (mapped b 0x1000 (page phy) m) (b + (phy - page phy) + of_nat k) = Inr (phy + of_nat k)"
proof -
  have "unat (phy - page phy) + k < unat (0x1000 :: u64)"
    using assms(2) by (simp add: phy_minus_page unat_offset)
  note physical_mapped [OF assms(1) this, of "page phy" m]
  moreover have "b + of_nat (unat (phy - page phy) + k) = b + (phy - page phy) + of_nat k"
    "page phy + of_nat (unat (phy - page phy) + k) = phy + of_nat k"
    by simp_all
  ultimately show ?thesis
    by (simp add: add.assoc)
qed

lemma load32_reg:
  assumes "window_fits b 0x1000" "unat phy mod 4096 + j + 4 \<le> 4096"
  shows "load32 (b + (phy - page phy) + of_nat j) (mapped b 0x1000 (page phy) m) = Inr (reg_at m (phy + of_nat j))"
proof -
  have "load_bytes 4 (b + (phy - page phy) + of_nat j) (mapped b 0x1000 (page phy) m) =
      Inr (map (\<lambda>k. phys (mapped b 0x1000 (page phy) m) (phy + of_nat j + of_nat k)) [0..<4])"
    using physical_reg [OF assms(1), of phy "j + k" for k] assms(2)
    by (intro load_bytes_run) (simp add: add.assoc [symmetric])
  then show ?thesis
    by (simp add: load32_def reg_at_def)
qed

lemma mapped_phys: "(mapped b n p m)\<lparr>phys := f\<rparr> = mapped b n p (m\<lparr>phys := f\<rparr>)"
  by (simp add: mapped_def cong: if_cong)

lemma store32_reg:
  assumes "window_fits b 0x1000" "unat phy mod 4096 + 4 \<le> 4096"
  shows "store32 v (b + (phy - page phy)) (mapped b 0x1000 (page phy) m) =
    Inr (mapped b 0x1000 (page phy) (m\<lparr>phys := write_phys (phys m) phy (mem32 (big_endian m) v)\<rparr>))"
proof -
  have "store_bytes (mem32 (big_endian m) v) (b + (phy - page phy)) (mapped b 0x1000 (page phy) m) =
    Inr ((mapped b 0x1000 (page phy) m)\<lparr>phys := write_phys (phys (mapped b 0x1000 (page phy) m)) phy (mem32 (big_endian m) v)\<rparr>)"
    using assms(2) by (intro store_bytes_run physical_reg [OF assms(1)]) simp
  then show ?thesis
    by (simp add: store32_def mapped_phys)
qed

lemma unmap_reg:
  assumes "window_fits b 0x1000" "\<forall>a. in_window b 0x1000 a \<longrightarrow> pages m a = None"
  shows "unmap_result (b + d) d 0x1000 (mapped b 0x1000 p m) = (0, m)"
  using munmap_mapped [OF assms(1) _ assms(2)] by (simp add: unmap_result_def memUnmap_def)

lemma reg_at_written: "reg_at (m\<lparr>phys := write_phys (phys m) q (mem32 (big_endian m) v)\<rparr>) q = v"
  using read_write_phys [of "mem32 (big_endian m) v" "phys m" q] ld32_mem32 [of "big_endian m" v "[]"]
  by (simp add: reg_at_def)

lemma registers_run:
  assumes "placed_well m" "unat phy mod 4096 \<le> 4092"
  shows "if \<exists>b. can_map m 0x1000 b
    then readReg phy u m = Inr (0, reg_at m phy, m) \<and>
      (\<exists>m'. writeReg phy v m = Inr (0, m') \<and> readReg phy u m' = Inr (0, v, m') \<and>
        m' = m\<lparr>phys := phys m'\<rparr> \<and> (\<forall>x. 4 \<le> unat (x - phy) \<longrightarrow> phys m' x = phys m x))
    else readReg phy u m = Inr (- 1, u, m) \<and> writeReg phy v m = Inr (- 1, m)"
proof -
  have read: "readReg phy u m = (if \<exists>b. can_map m 0x1000 b then Inr (0, reg_at m phy, m) else Inr (- 1, u, m))"
    if "placed_well m" for m
    using that
  proof (cases rule: reg_cases [of m phy])
    case (window b)
    with load32_reg [OF window(2), of phy 0 m] unmap_reg [OF window(2,3)] assms(2) show ?thesis
      by (auto simp: readReg_def)
  qed (simp add: readReg_def)
  show ?thesis
    using assms(1)
  proof (cases rule: reg_cases [of m phy])
    case (null pd sip)
    then show ?thesis
      using read [OF assms(1)] by (simp add: writeReg_def)
  next
    case (window b)
    let ?m = "m\<lparr>phys := write_phys (phys m) phy (mem32 (big_endian m) v)\<rparr>"
    have "writeReg phy v m = Inr (0, ?m)"
      using window store32_reg [OF window(2), of phy v m] unmap_reg [of b ?m] assms(2)
      by (simp add: writeReg_def)
    moreover have "placed_well ?m" "can_map ?m 0x1000 b"
      using assms(1) window(1) by (simp_all add: placed_well_def can_map_def)
    then have "readReg phy u ?m = Inr (0, v, ?m)"
      using read reg_at_written [of m phy v] by auto
    moreover have "phys ?m x = phys m x" if "4 \<le> unat (x - phy)" for x
      using write_phys_outside [of "mem32 (big_endian m) v" x phy "phys m"] that by simp
    moreover have "readReg phy u m = Inr (0, reg_at m phy, m)"
      using read [OF assms(1)] window(1) by auto
    ultimately show ?thesis
      using window(1) by auto
  qed
qed

text \<open>
  C30: A register whose four bytes lie in one page is read and written without a fault: \<open>readReg\<close> gives the word
  in memory and changes nothing, \<open>writeReg\<close> changes these four bytes only, and what has been written is what
  is read. When the mapping cannot be made both return -1 and leave everything as it was.
\<close>

theorem registers_correct:
  assumes "placed_well m" "unat phy mod 4096 \<le> 4092"
  shows "if \<exists>b. can_map m 0x1000 b
    then readReg phy u m = Inr (0, reg_at m phy, m) \<and>
      (\<exists>m'. writeReg phy v m = Inr (0, m') \<and> readReg phy u m' = Inr (0, v, m') \<and>
        m' = m\<lparr>phys := phys m'\<rparr> \<and> (\<forall>x. 4 \<le> unat (x - phy) \<longrightarrow> phys m' x = phys m x))
    else readReg phy u m = Inr (- 1, u, m) \<and> writeReg phy v m = Inr (- 1, m)"
  using assms by (rule registers_run)

lemma next_register:
  assumes "unat (i :: u32) + Suc n < 2 ^ 32"
  shows "unat (i + 1) = unat i + 1" "ucast i * 4 = (of_nat (4 * unat i) :: u64)"
    "x + of_nat (4 * unat i) + 4 = x + (of_nat (4 * unat (i + 1)) :: u64)"
proof -
  show *: "unat (i + 1) = unat i + 1"
    using assms by (simp add: unat_word_ariths)
  show "ucast i * 4 = (of_nat (4 * unat i) :: u64)"
    by simp
  show "x + of_nat (4 * unat i) + 4 = x + (of_nat (4 * unat (i + 1)) :: u64)"
    unfolding * by (simp add: algebra_simps)
qed

abbreviation shown :: "machine \<Rightarrow> u64 \<Rightarrow> nat \<Rightarrow> u64 \<times> u32" where
  "shown m phy j \<equiv> (phy + of_nat (4 * j), reg_at m (phy + of_nat (4 * j)))"

lemma show_loop_inside:
  assumes "window_fits b 0x1000" "unat phy mod 4096 + 4 * (unat i + n) \<le> 4096" "unat i + n < 2 ^ 32"
  shows "show_loop n i phy (b + (phy - page phy) + of_nat (4 * unat i)) (mapped b 0x1000 (page phy) m) =
    Inr (map (shown m phy) [unat i..<unat i + n])"
  using assms(2,3)
proof (induction n arbitrary: i)
  case (Suc n)
  note step = next_register [OF Suc.prems(2)]
  have "load32 (b + (phy - page phy) + of_nat (4 * unat i)) (mapped b 0x1000 (page phy) m) =
      Inr (reg_at m (phy + of_nat (4 * unat i)))"
    using Suc.prems(1) by (intro load32_reg [OF assms(1)]) simp
  moreover have "show_loop n (i + 1) phy (b + (phy - page phy) + of_nat (4 * unat i) + 4) (mapped b 0x1000 (page phy) m) =
      Inr (map (shown m phy) [unat i + 1..<unat i + Suc n])"
    unfolding step(3) using Suc.IH [of "i + 1"] Suc.prems step(1) by simp
  ultimately show ?case
    using step(2) by (simp add: upt_conv_Cons del: upt_Suc of_nat_mult)
qed simp

lemma load_bytes_fault:
  assumes "\<And>j. j < k \<Longrightarrow> physical m (a + of_nat j) = Inr (q + of_nat j)"
    "physical m (a + of_nat k) = Inl e" "k < n"
  shows "load_bytes n a m = Inl e"
  using assms
proof (induction n arbitrary: a k q)
  case (Suc n)
  show ?case
  proof (cases k)
    case 0
    with Suc.prems show ?thesis by simp
  next
    case (Suc k')
    have "physical m (a + 1 + of_nat j) = Inr (q + 1 + of_nat j)" if "j < k'" for j
      using Suc.prems(1) [of "Suc j"] that \<open>k = Suc k'\<close> by (simp add: ac_simps)
    moreover have "physical m (a + 1 + of_nat k') = Inl e" "k' < n"
      using Suc.prems(2,3) \<open>k = Suc k'\<close> by (simp_all add: ac_simps)
    ultimately have "load_bytes n (a + 1) m = Inl e"
      by (rule Suc.IH)
    moreover have "physical m a = Inr q"
      using Suc.prems(1) [of 0] \<open>k = Suc k'\<close> by simp
    ultimately show ?thesis by simp
  qed
qed simp

lemma load32_crossing:
  assumes "window_fits b 0x1000" "pages m (b + 0x1000) = None"
    "unat phy mod 4096 + j \<le> 4096" "4096 < unat phy mod 4096 + j + 4"
  shows "load32 (b + (phy - page phy) + of_nat j) (mapped b 0x1000 (page phy) m) = Inl OutOfBounds"
proof -
  let ?k = "4096 - (unat phy mod 4096 + j)" and ?M = "mapped b 0x1000 (page phy) m"
  have page: "page (b + 0x1000) = b + 0x1000"
  proof -
    have "unat (b + 0x1000) mod 4096 = 0"
      using assms(1) by (simp add: window_fits_def page_eq_iff unat_word_ariths mod_mod_cancel [of 4096 18446744073709551616])
    then show ?thesis by (simp add: page_eq_iff)
  qed
  have "(of_nat (unat (phy - page phy) + j + ?k) :: u64) = of_nat 4096"
    using assms(3) by (simp only: phy_minus_page unat_offset) simp
  then have there: "b + (phy - page phy) + of_nat j + of_nat ?k = b + 0x1000"
    by (simp add: add.assoc)
  have "physical ?M (b + 0x1000) = Inl OutOfBounds"
    using assms(2) page by (simp add: physical_def mapped_def in_window_def)
  then have "physical ?M (b + (phy - page phy) + of_nat j + of_nat ?k) = Inl OutOfBounds"
    by (simp only: there)
  moreover have "physical ?M (b + (phy - page phy) + of_nat j + of_nat i) = Inr (phy + of_nat j + of_nat i)" if "i < ?k" for i
    using physical_reg [OF assms(1), of phy "j + i" m] that by (simp add: add.assoc)
  moreover have "?k < 4"
    using assms(4) by simp
  ultimately have "load_bytes 4 (b + (phy - page phy) + of_nat j) ?M = Inl OutOfBounds"
    by (intro load_bytes_fault)
  then show ?thesis
    by (simp add: load32_def)
qed

lemma show_loop_crossing:
  assumes "window_fits b 0x1000" "pages m (b + 0x1000) = None"
    "unat phy mod 4096 + 4 * unat i \<le> 4096" "4096 < unat phy mod 4096 + 4 * (unat i + n)" "unat i + n < 2 ^ 32"
  shows "show_loop n i phy (b + (phy - page phy) + of_nat (4 * unat i)) (mapped b 0x1000 (page phy) m) = Inl OutOfBounds"
  using assms(3,4,5)
proof (induction n arbitrary: i)
  case (Suc n)
  note step = next_register [OF Suc.prems(3)]
  show ?case
  proof (cases "unat phy mod 4096 + 4 * unat i + 4 \<le> 4096")
    case True
    then have "load32 (b + (phy - page phy) + of_nat (4 * unat i)) (mapped b 0x1000 (page phy) m) =
        Inr (reg_at m (phy + of_nat (4 * unat i)))"
      by (intro load32_reg [OF assms(1)]) simp
    moreover have "show_loop n (i + 1) phy (b + (phy - page phy) + of_nat (4 * unat i) + 4) (mapped b 0x1000 (page phy) m) =
        Inl OutOfBounds"
      unfolding step(3) using Suc.IH [of "i + 1"] Suc.prems step(1) True by simp
    ultimately show ?thesis
      by (simp del: of_nat_mult)
  next
    case False
    then have "load32 (b + (phy - page phy) + of_nat (4 * unat i)) (mapped b 0x1000 (page phy) m) = Inl OutOfBounds"
      using Suc.prems(1) by (intro load32_crossing [OF assms(1,2)]) simp_all
    then show ?thesis by (simp del: of_nat_mult)
  qed
qed simp

text \<open>
  \<open>showRegValue\<close> maps the page of the first register only, whatever the number of registers. As long as they
  all lie in this page it prints each address with the word in memory, takes the mapping away and changes
  nothing; when they go on behind the page and nothing else is mapped there, the program faults.
\<close>

theorem showRegValue_bounds:
  assumes "placed_well m"
  shows "if unat phy mod 4096 + 4 * unat len \<le> 4096
    then showRegValue phy len m =
      (if \<exists>b. can_map m 0x1000 b then Inr (0, m, map (shown m phy) [0..<unat len]) else Inr (- 1, m, []))
    else \<forall>b. can_map m 0x1000 b \<and> pages m (b + 0x1000) = None \<longrightarrow> showRegValue phy len m = Inl OutOfBounds"
  using assms
proof (cases rule: reg_cases [of m phy])
  case (null pd sip)
  then show ?thesis by (simp add: showRegValue_def)
next
  case (window b)
  have len: "unat (0 :: u32) + unat len < 2 ^ 32"
    using unsigned_less [of len, where ?'a = nat] by simp
  have one: "b' = b" if "can_map m 0x1000 b'" for b'
    using that window(1) by (simp add: can_map_def)
  have map1: "memMap phy 1 0 0 m =
      (Some (b + (phy - page phy)), phy - page phy, 0x1000, mapped b 0x1000 (page phy) m)"
    by (rule window(4))
  show ?thesis
  proof (cases "unat phy mod 4096 + 4 * unat len \<le> 4096")
    case True
    have "show_loop (unat len) 0 phy (b + (phy - page phy)) (mapped b 0x1000 (page phy) m) =
        Inr (map (shown m phy) [0..<unat len])"
      using show_loop_inside [OF window(2) _ len, of phy m] True by simp
    then have "showRegValue phy len m = Inr (0, m, map (shown m phy) [0..<unat len])"
      unfolding showRegValue_def map1 by (simp add: unmap_reg [OF window(2,3)])
    moreover have "\<exists>b. can_map m 0x1000 b"
      using window(1) ..
    ultimately show ?thesis
      using True by simp
  next
    case False
    have "showRegValue phy len m = Inl OutOfBounds" if "pages m (b + 0x1000) = None"
    proof -
      have "show_loop (unat len) 0 phy (b + (phy - page phy)) (mapped b 0x1000 (page phy) m) = Inl OutOfBounds"
        using show_loop_crossing [OF window(2) that _ _ len, of phy] False by simp
      then show ?thesis
        unfolding showRegValue_def map1 by simp
    qed
    with False one show ?thesis by auto
  qed
qed

definition demo_machine :: machine where
  "demo_machine = \<lparr>phys = \<lambda>a. ucast a, pages = \<lambda>_. None, place = \<lambda>_ n. if n = 0x1000 then Some 0x7000 else None,
     big_endian = False, files = \<lparr>open_fds = [], max_fds = 8, ifaces = \<lambda>_. None, bind_ok = \<lambda>_. False\<rparr>\<rparr>"

lemma demo_machine_ok: "placed_well demo_machine" "(\<exists>b. can_map demo_machine 0x1000 b) = True"
    "can_map demo_machine 0x1000 0x7000"
  by (auto simp: placed_well_def window_fits_def demo_machine_def can_map_def page_def PAGE_SIZE_MASK_def)

theorem memMap_correct_witness:
  "case memMap 0x10ffe 2 0 0 demo_machine of
      (None, _, _, m') \<Rightarrow> m' = demo_machine
    | (Some v, d, n, m') \<Rightarrow> (\<forall>k < 2. physical m' (v + of_nat k) = Inr (0x10ffe + of_nat k)) \<and>
        memUnmap v d n m' = (0, demo_machine)"
  using memMap_correct [OF demo_machine_ok(1), of 2 "0x10ffe" 0 0]
  by (auto split: option.splits prod.splits)

theorem registers_correct_witness:
  "readReg 0x10004 0 demo_machine = Inr (0, reg_at demo_machine 0x10004, demo_machine) \<and>
   (\<exists>m'. writeReg 0x10004 0xcafe demo_machine = Inr (0, m') \<and> readReg 0x10004 0 m' = Inr (0, 0xcafe, m'))"
  using registers_correct [OF demo_machine_ok(1), of "0x10004" 0 "0xcafe"] demo_machine_ok(2) by auto

theorem showRegValue_bounds_witness:
  "showRegValue 0x10ff8 2 demo_machine =
     Inr (0, demo_machine, [(0x10ff8, reg_at demo_machine 0x10ff8), (0x10ffc, reg_at demo_machine 0x10ffc)]) \<and>
   showRegValue 0x10ff8 3 demo_machine = Inl OutOfBounds"
proof -
  have "can_map demo_machine 0x1000 0x7000 \<and> pages demo_machine (0x7000 + 0x1000) = None"
    using demo_machine_ok(3) by (simp add: demo_machine_def)
  moreover have "\<forall>b. can_map demo_machine 0x1000 b \<and> pages demo_machine (b + 0x1000) = None \<longrightarrow>
      showRegValue 0x10ff8 3 demo_machine = Inl OutOfBounds"
    using showRegValue_bounds [OF demo_machine_ok(1), of "0x10ff8" 3] by simp
  ultimately have "showRegValue 0x10ff8 3 demo_machine = Inl OutOfBounds"
    by blast
  with showRegValue_bounds [OF demo_machine_ok(1), of "0x10ff8" 2] demo_machine_ok(2) show ?thesis
    by (simp add: upt_rec)
qed

end
