(* ===== verification/MemPhyMain.thy ===== *)
theory MemPhyMain
  imports MemPhy EtherAddr
begin

text \<open>
  \<open>memPhy2Virt/main.c\<close>: the command line of the register tool. The program uses the \<open>getopt\<close> of the C
  library, which is not in the repository: what its calls return (the option and \<open>optarg\<close>, a string buffer)
  is the list the model is given. Messages on the error stream are dropped; the lines on the output stream
  are addresses with values.
\<close>

section \<open>Numbers\<close>

text \<open>\<open>strtoul\<close> for the two bases the program uses, 16 and 0 (the prefix tells); it saturates.\<close>

definition digits_in :: "nat \<Rightarrow> bytes \<Rightarrow> bytes" where
  "digits_in base s = takeWhile (\<lambda>b. case hex_value b of None \<Rightarrow> False | Some d \<Rightarrow> d < base) s"

definition number_in :: "nat \<Rightarrow> bytes \<Rightarrow> nat" where
  "number_in base ds = foldl (\<lambda>v b. base * v + (case hex_value b of None \<Rightarrow> 0 | Some d \<Rightarrow> d)) 0 ds"

definition strtoul :: "bytes \<Rightarrow> nat \<Rightarrow> u64" where
  "strtoul s base =
     (let (neg, s1) = strip_sign (dropWhile is_space s);
          hex = base = 16 \<or> strip_0x s1 \<noteq> s1;
          v = (if hex then number_in 16 (digits_in 16 (strip_0x s1))
               else if take 1 s1 = [0x30] then number_in 8 (digits_in 8 s1)
               else number_in 10 (digits_in 10 s1))
      in if 2 ^ 64 \<le> v then - 1 else if neg then - of_nat v else of_nat v)"

definition string2dec :: "bytes option \<Rightarrow> u64 cres" where
  "string2dec nptr =
     (case nptr of
        None \<Rightarrow> Inr (- 1)
      | Some p \<Rightarrow> cbind (strlen p) (\<lambda>_.
          if take 2 (c_str p) \<noteq> [0x30, 0x78] then Inr (strtoul (c_str p) 0) else Inr (strtoul (c_str p) 16)))"

section \<open>Options\<close>

definition s_read :: bytes where "s_read = map of_char ''read''"
definition s_write :: bytes where "s_write = map of_char ''write''"
definition s_show :: bytes where "s_show = map of_char ''show''"

record reg_args =
  mode :: bytes
  length_arg :: u64
  addr :: u64
  value_arg :: u64

definition no_args :: reg_args where
  "no_args = \<lparr>mode = replicate 10 0, length_arg = 0, addr = 0, value_arg = 0\<rparr>"

definition set_mode :: "bytes \<Rightarrow> reg_args \<Rightarrow> reg_args option cres" where
  "set_mode s a = cbind (strncpy (mode a) (s @ [0]) 9) (\<lambda>m. Inr (Some (a\<lparr>mode := m\<rparr>)))"

text \<open>One option; \<open>None\<close> is the exit after an invalid one.\<close>

definition reg_option :: "int \<Rightarrow> bytes option \<Rightarrow> reg_args \<Rightarrow> reg_args option cres" where
  "reg_option opt optarg a =
     (if opt = 0x68 then Inr (Some a)
      else if opt = 0x61 then cbind (string2dec optarg) (\<lambda>v. Inr (Some (a\<lparr>addr := v\<rparr>)))
      else if opt = 0x6C then cbind (string2dec optarg) (\<lambda>v. Inr (Some (a\<lparr>length_arg := v\<rparr>)))
      else if opt = 0x76 then cbind (string2dec optarg) (\<lambda>v. Inr (Some (a\<lparr>value_arg := v\<rparr>)))
      else if opt = 0x72 then set_mode s_read a
      else if opt = 0x73 then set_mode s_show a
      else if opt = 0x77 then set_mode s_write a
      else Inr None)"

fun reg_options :: "(int \<times> bytes option) list \<Rightarrow> reg_args \<Rightarrow> reg_args option cres" where
  "reg_options [] a = Inr (Some a)"
| "reg_options ((opt, optarg) # rest) a =
     cbind (reg_option opt optarg a) (\<lambda>r. case r of None \<Rightarrow> Inr None | Some a \<Rightarrow> reg_options rest a)"

section \<open>The three modes\<close>

definition mode_is :: "bytes \<Rightarrow> reg_args \<Rightarrow> bool" where
  "mode_is s a \<longleftrightarrow> take (length s) (c_str (mode a)) = s"

type_synonym lines_out = "(u64 \<times> u64) list"

definition run_mode :: "reg_args \<Rightarrow> machine \<Rightarrow> (int \<times> machine \<times> lines_out) cres" where
  "run_mode a m =
     (if mode_is s_read a then
        if addr a = 0 then Inr (1, m, [])
        else cbind (readReg (addr a) 0 m) (\<lambda>(ret, tmp_value, m).
             if ret < 0 then Inr (1, m, []) else Inr (0, m, [(addr a, ucast tmp_value)]))
      else if mode_is s_write a then
        if addr a = 0 \<or> value_arg a = 0 then Inr (1, m, [])
        else cbind (writeReg (addr a) (ucast (value_arg a AND 0xFFFFFFFF)) m) (\<lambda>(ret, m).
             if ret < 0 then Inr (1, m, []) else Inr (0, m, []))
      else if mode_is s_show a then
        if addr a = 0 \<or> length_arg a = 0 then Inr (1, m, [])
        else cbind (showRegValue (addr a) (ucast (length_arg a AND 0xFFFFFFFF)) m) (\<lambda>(ret, m, shown).
             if ret < 0 then Inr (1, m, map (\<lambda>(q, v). (q, ucast v)) shown)
             else Inr (0, m, map (\<lambda>(q, v). (q, ucast v)) shown))
      else Inr (1, m, []))"

definition reg_main :: "(int \<times> bytes option) list \<Rightarrow> machine \<Rightarrow> (int \<times> machine \<times> lines_out) cres" where
  "reg_main opts m =
     cbind (reg_options opts no_args) (\<lambda>r. case r of None \<Rightarrow> Inr (1, m, []) | Some a \<Rightarrow> run_mode a m)"

section \<open>A whole run\<close>

lemma strncpy_mode:
  "strncpy m (s_read @ [0]) 9 = Inr (s_read @ replicate 5 0 @ drop 9 m)"
  "strncpy m (s_write @ [0]) 9 = Inr (s_write @ replicate 4 0 @ drop 9 m)"
  "strncpy m (s_show @ [0]) 9 = Inr (s_show @ replicate 5 0 @ drop 9 m)"
  if "length m = 10"
  using that by (simp_all add: strncpy_def terminated_def strncpy_bytes_def c_str_def overlay_def s_read_def s_write_def s_show_def)

lemma modes:
  "mode_is s (a\<lparr>mode := u @ replicate (Suc n) 0 @ r\<rparr>) \<longleftrightarrow> take (length s) u = s" if "nul_free u"
  using that by (simp add: mode_is_def c_str_nul_free)

lemma set_mode_run:
  assumes "length (mode a) = 10"
  shows "set_mode s_read a = Inr (Some (a\<lparr>mode := s_read @ replicate (Suc 4) 0 @ drop 9 (mode a)\<rparr>))"
    "set_mode s_write a = Inr (Some (a\<lparr>mode := s_write @ replicate (Suc 3) 0 @ drop 9 (mode a)\<rparr>))"
    "set_mode s_show a = Inr (Some (a\<lparr>mode := s_show @ replicate (Suc 4) 0 @ drop 9 (mode a)\<rparr>))"
  using strncpy_mode [OF assms] by (simp_all add: set_mode_def numeral_eq_Suc)

lemma run_mode_write:
  assumes "mode_is s_write a" "\<not> mode_is s_read a" "writeReg (addr a) (ucast (value_arg a AND 0xFFFFFFFF)) m = Inr (0, m')"
  shows "run_mode a m = (if addr a = 0 \<or> value_arg a = 0 then Inr (1, m, []) else Inr (0, m', []))"
  using assms by (simp add: run_mode_def)

lemma run_mode_read:
  assumes "mode_is s_read a" "addr a \<noteq> 0" "readReg (addr a) 0 m = Inr (0, v, m')"
  shows "run_mode a m = Inr (0, m', [(addr a, ucast v)])"
  using assms by (simp add: run_mode_def)

text \<open>
  A run of the tool that writes a register and a run that reads it back: \<open>-w -a A -v V\<close> stores the low 32
  bits of \<open>V\<close>, and \<open>-r -a A\<close> then prints them and changes nothing. A zero for the address or the value is
  taken for a missing option: then the tool exits with 1 and nothing is written.
\<close>

theorem register_tool_roundtrip:
  assumes "placed_well m" "can_map m 0x1000 b" "string2dec (Some A) = Inr q" "string2dec (Some V) = Inr v"
    "unat q mod 4096 \<le> 4092"
  shows "\<exists>m'. reg_main [(0x77, None), (0x61, Some A), (0x76, Some V)] m =
      (if q = 0 \<or> v = 0 then Inr (1, m, []) else Inr (0, m', [])) \<and>
    (q \<noteq> 0 \<and> v \<noteq> 0 \<longrightarrow>
      reg_main [(0x72, None), (0x61, Some A)] m' = Inr (0, m', [(q, v AND 0xFFFFFFFF)]))"
proof -
  have len: "length (mode no_args) = 10"
    by (simp add: no_args_def)
  let ?w = "no_args\<lparr>mode := s_write @ replicate (Suc 3) 0 @ drop 9 (mode no_args), addr := q, value_arg := v\<rparr>"
  let ?r = "no_args\<lparr>mode := s_read @ replicate (Suc 4) 0 @ drop 9 (mode no_args), addr := q\<rparr>"
  have w: "reg_options [(0x77, None), (0x61, Some A), (0x76, Some V)] no_args = Inr (Some ?w)"
    using assms(3,4) by (simp add: reg_option_def set_mode_run [OF len] del: replicate_Suc)
  have r: "reg_options [(0x72, None), (0x61, Some A)] no_args = Inr (Some ?r)"
    using assms(3) by (simp add: reg_option_def set_mode_run [OF len] del: replicate_Suc)
  have is_write: "mode_is s_write ?w" "\<not> mode_is s_read ?w" and is_read: "mode_is s_read ?r"
    by (simp_all add: mode_is_def no_args_def c_str_def s_read_def s_write_def)
  have "\<exists>b. can_map m 0x1000 b"
    using assms(2) ..
  with registers_run [OF assms(1,5), of 0 "ucast (v AND 0xFFFFFFFF)"] obtain m' where
    "writeReg q (ucast (v AND 0xFFFFFFFF)) m = Inr (0, m')" "readReg q 0 m' = Inr (0, ucast (v AND 0xFFFFFFFF), m')"
    by (simp only: if_P) blast
  moreover have "ucast (ucast (v AND 0xFFFFFFFF) :: u32) = v AND 0xFFFFFFFF"
  proof -
    have "v AND 0xFFFFFFFF = take_bit 32 v"
      by (simp add: take_bit_eq_mask mask_eq_exp_minus_1)
    then show ?thesis
      by (auto simp: bit_simps intro: bit_word_eqI)
  qed
  ultimately have "run_mode ?w m = (if q = 0 \<or> v = 0 then Inr (1, m, []) else Inr (0, m', []))"
    "q \<noteq> 0 \<Longrightarrow> run_mode ?r m' = Inr (0, m', [(q, v AND 0xFFFFFFFF)])"
    using run_mode_write [OF is_write, of m m'] run_mode_read [OF is_read, of m' "ucast (v AND 0xFFFFFFFF)" m'] by simp_all
  moreover have "reg_main [(0x77, None), (0x61, Some A), (0x76, Some V)] m = run_mode ?w m"
    "reg_main [(0x72, None), (0x61, Some A)] m' = run_mode ?r m'"
    by (simp_all only: reg_main_def w r cbind_simps option.case)
  ultimately show ?thesis
    by (intro exI [of _ m']) simp
qed

theorem register_tool_roundtrip_witness:
  "\<exists>m'. reg_main [(0x77, None), (0x61, Some (map of_char ''0x10004'' @ [0])), (0x76, Some (map of_char ''255'' @ [0]))]
      demo_machine = Inr (0, m', []) \<and>
    reg_main [(0x72, None), (0x61, Some (map of_char ''0x10004'' @ [0]))] m' = Inr (0, m', [(0x10004, 255)])"
proof -
  have "string2dec (Some (map of_char ''0x10004'' @ [0])) = Inr 0x10004"
    "string2dec (Some (map of_char ''255'' @ [0])) = Inr 255"
    by (simp_all add: string2dec_def strlen_def terminated_def c_str_def strtoul_def strip_sign_def is_space_def
        strip_0x_def digits_in_def number_in_def hex_value_def)
  from register_tool_roundtrip [OF demo_machine_ok(1,3) this] show ?thesis
    by simp
qed

end
