(* ===== verification/Walkthrough.thy ===== *)
theory Walkthrough
  imports Prelude
begin

text \<open>
  \<open>walkthrough/walkthroughPath.c\<close>: the size of a directory tree, and three functions that delete in one.

  The file system is a tree below the path the program is given (\<open>base\<close>); a path is the list of names that
  leads from there. The list of a directory is what \<open>readdir\<close> delivers, the entries \<open>.\<close> and \<open>..\<close> among
  the others. \<open>Broken\<close> is an entry \<open>stat\<close> fails on, such as a dangling link; links to directories are not
  modelled. A directory may be unreadable (\<open>opendir\<close> fails) or closed for writing (nothing can be deleted in
  it), and \<open>opendir\<close> also fails when \<open>max_handles\<close> directories are open; \<open>dir_size\<close> is the size \<open>stat\<close> reports for a directory and
  \<open>yday\<close> the day of the year by the local time zone. The messages are dropped.

  The functions descend with \<open>n\<close> levels of fuel, and \<open>height\<close> is enough of it.
\<close>

section \<open>The file system\<close>

datatype entry =
    File (file_size: int) (file_mtime: int)
  | Dir (readable: bool) (writable: bool) (listing: "(bytes \<times> entry) list")
  | Broken

type_synonym path = "bytes list"

record walk =
  tree :: entry
  handles :: nat
  max_handles :: nat
  base :: bytes
  dir_size :: "path \<Rightarrow> int"
  now :: int
  yday :: "int \<Rightarrow> int"

definition dotted :: "bytes \<Rightarrow> bool" where
  "dotted n \<longleftrightarrow> n = [0x2E] \<or> n = [0x2E, 0x2E]"

definition proper :: "(bytes \<times> entry) list \<Rightarrow> (bytes \<times> entry) list" where
  "proper es = filter (\<lambda>(n, _). \<not> dotted n) es"

fun lookup :: "entry \<Rightarrow> path \<Rightarrow> entry option" where
  "lookup e [] = Some e"
| "lookup (Dir r w es) (n # p) = (case map_of es n of None \<Rightarrow> None | Some e \<Rightarrow> lookup e p)"
| "lookup _ (n # p) = None"

text \<open>The tree with its node at a path changed.\<close>

fun at :: "path \<Rightarrow> (entry \<Rightarrow> entry) \<Rightarrow> entry \<Rightarrow> entry" where
  "at [] f e = f e"
| "at (n # p) f (Dir r w es) = Dir r w (map (\<lambda>(k, e). if k = n then (k, at p f e) else (k, e)) es)"
| "at (n # p) f e = e"

fun without :: "bytes \<Rightarrow> entry \<Rightarrow> entry" where
  "without n (Dir r w es) = Dir r w (filter (\<lambda>(k, _). k \<noteq> n) es)"
| "without n e = e"

definition opendir :: "path \<Rightarrow> walk \<Rightarrow> (bytes \<times> entry) list option \<times> walk" where
  "opendir p s =
     (case lookup (tree s) p of
        Some (Dir r w es) \<Rightarrow>
          if r \<and> handles s < max_handles s then (Some es, s\<lparr>handles := handles s + 1\<rparr>) else (None, s)
      | _ \<Rightarrow> (None, s))"

definition closedir :: "walk \<Rightarrow> walk" where
  "closedir s = s\<lparr>handles := handles s - 1\<rparr>"

definition stat :: "path \<Rightarrow> walk \<Rightarrow> entry option" where
  "stat p s = (case lookup (tree s) p of Some Broken \<Rightarrow> None | r \<Rightarrow> r)"

text \<open>\<open>rmdir\<close> and \<open>remove\<close>; their results are not looked at. The base itself is not removed here.\<close>

definition may_delete :: "path \<Rightarrow> walk \<Rightarrow> bool" where
  "may_delete p s \<longleftrightarrow> p \<noteq> [] \<and> (case lookup (tree s) (butlast p) of Some (Dir r w es) \<Rightarrow> w | _ \<Rightarrow> False)"

definition unlink :: "path \<Rightarrow> walk \<Rightarrow> walk" where
  "unlink p s = s\<lparr>tree := at (butlast p) (without (last p)) (tree s)\<rparr>"

definition rmdir :: "path \<Rightarrow> walk \<Rightarrow> walk" where
  "rmdir p s =
     (case lookup (tree s) p of
        Some (Dir r w es) \<Rightarrow> if may_delete p s \<and> proper es = [] then unlink p s else s
      | _ \<Rightarrow> s)"

definition remove :: "path \<Rightarrow> walk \<Rightarrow> walk" where
  "remove p s =
     (case lookup (tree s) p of
        None \<Rightarrow> s
      | Some (Dir r w es) \<Rightarrow> rmdir p s
      | Some _ \<Rightarrow> if may_delete p s then unlink p s else s)"

section \<open>The code\<close>

definition PATH_MAX :: nat where
  "PATH_MAX = 4096"

definition path_length :: "bytes \<Rightarrow> path \<Rightarrow> nat" where
  "path_length b p = length b + (\<Sum>n \<leftarrow> p. length n + 1)"

text \<open>\<open>sprintf(filename, "%s/%s", path, dirp->d_name)\<close> into \<open>PATH_MAX\<close> bytes\<close>

definition filename :: "path \<Rightarrow> bytes \<Rightarrow> walk \<Rightarrow> path cres" where
  "filename p n s = (if path_length (base s) (p @ [n]) < PATH_MAX then Inr (p @ [n]) else Inl OutOfBounds)"

text \<open>\<open>long long\<close>\<close>

definition add64 :: "int \<Rightarrow> int \<Rightarrow> int cres" where
  "add64 a b = (if - (2 ^ 63) \<le> a + b \<and> a + b < 2 ^ 63 then Inr (a + b) else Inl Undefined)"

fun dir_size_loop ::
    "(path \<Rightarrow> walk \<Rightarrow> (int \<times> walk) cres) \<Rightarrow> path \<Rightarrow> (bytes \<times> entry) list \<Rightarrow> int \<Rightarrow> walk \<Rightarrow> (int \<times> walk) cres" where
  "dir_size_loop sub p [] sz s = Inr (sz, closedir s)"
| "dir_size_loop sub p ((n, _) # dirp) sz s =
     (if dotted n then dir_size_loop sub p dirp sz s
      else cbind (filename p n s) (\<lambda>q.
        case stat q s of
          None \<Rightarrow> Inr (- 1, closedir s)
        | Some (Dir _ _ _) \<Rightarrow>
            cbind (sub q s) (\<lambda>(d, s). cbind (add64 sz d) (\<lambda>sz. dir_size_loop sub p dirp sz s))
        | Some e \<Rightarrow> cbind (add64 sz (file_size e)) (\<lambda>sz. dir_size_loop sub p dirp sz s)))"

fun get_dir_size :: "nat \<Rightarrow> path \<Rightarrow> walk \<Rightarrow> (int \<times> walk) cres" where
  "get_dir_size 0 p s = Inl Diverged"
| "get_dir_size (Suc n) p s =
     (case opendir p s of
        (None, s) \<Rightarrow> Inr (- 1, s)
      | (Some dir, s) \<Rightarrow> dir_size_loop (get_dir_size n) p dir 0 s)"

fun delete_loop ::
    "(path \<Rightarrow> walk \<Rightarrow> walk cres) \<Rightarrow> path \<Rightarrow> (bytes \<times> entry) list \<Rightarrow> walk \<Rightarrow> walk cres" where
  "delete_loop sub p [] s = Inr (closedir s)"
| "delete_loop sub p ((n, _) # dirp) s =
     (if dotted n then delete_loop sub p dirp s
      else cbind (filename p n s) (\<lambda>q.
        case stat q s of
          None \<Rightarrow> Inr (closedir s)
        | Some (Dir _ _ _) \<Rightarrow> cbind (sub q s) (\<lambda>s. delete_loop sub p dirp (rmdir q s))
        | Some _ \<Rightarrow> delete_loop sub p dirp (remove q s)))"

fun deleteFileAndDir :: "nat \<Rightarrow> path \<Rightarrow> walk \<Rightarrow> walk cres" where
  "deleteFileAndDir 0 p s = Inl Diverged"
| "deleteFileAndDir (Suc n) p s =
     (case opendir p s of
        (None, s) \<Rightarrow> Inr s
      | (Some dir, s) \<Rightarrow> delete_loop (deleteFileAndDir n) p dir s)"

text \<open>\<open>deleteFile\<close>: directories, files over 300 MB and files that were changed more than three days ago.\<close>

fun delete_old_loop :: "nat \<Rightarrow> path \<Rightarrow> (bytes \<times> entry) list \<Rightarrow> walk \<Rightarrow> walk cres" where
  "delete_old_loop n p [] s = Inr (closedir s)"
| "delete_old_loop n p ((name, _) # dirp) s =
     (if dotted name then delete_old_loop n p dirp s
      else cbind (filename p name s) (\<lambda>q.
        case stat q s of
          None \<Rightarrow> Inr (closedir s)
        | Some (Dir _ _ _) \<Rightarrow> cbind (deleteFileAndDir n q s) (\<lambda>s. delete_old_loop n p dirp (rmdir q s))
        | Some e \<Rightarrow>
            if file_size e > 314572800 then delete_old_loop n p dirp (remove q s)
            else if yday s (now s) - yday s (file_mtime e) > 3 then delete_old_loop n p dirp (remove q s)
            else delete_old_loop n p dirp s))"

definition deleteFile :: "nat \<Rightarrow> path \<Rightarrow> walk \<Rightarrow> walk cres" where
  "deleteFile n p s =
     (case opendir p s of
        (None, s) \<Rightarrow> Inr s
      | (Some dir, s) \<Rightarrow> delete_old_loop n p dir s)"

text \<open>
  \<open>deleteMaxFile\<close>: the loop with \<open>i\<close>, \<open>deleteName\<close> (nothing at first: the array is not initialised) and \<open>size\<close>;
  \<open>None\<close> as a result is the return after a failed \<open>stat\<close>.
\<close>

definition st_size :: "path \<Rightarrow> entry \<Rightarrow> walk \<Rightarrow> int" where
  "st_size q e s = (case e of File n _ \<Rightarrow> n | _ \<Rightarrow> dir_size s q)"

fun max_loop ::
    "path \<Rightarrow> (bytes \<times> entry) list \<Rightarrow> int \<Rightarrow> path option \<Rightarrow> int \<Rightarrow> walk \<Rightarrow> path option option cres" where
  "max_loop p [] i deleteName sz s = Inr (Some deleteName)"
| "max_loop p ((n, _) # dirp) i deleteName sz s =
     (if dotted n then max_loop p dirp i deleteName sz s
      else cbind (filename p n s) (\<lambda>q.
        case stat q s of
          None \<Rightarrow> Inr None
        | Some e \<Rightarrow>
            if i = 0 then max_loop p dirp i (Some q) (st_size q e s) s
            else if sz < st_size q e s then max_loop p dirp (i + 1) (Some q) (st_size q e s) s
            else max_loop p dirp (i + 1) deleteName sz s))"

definition deleteMaxFile :: "path \<Rightarrow> walk \<Rightarrow> walk cres" where
  "deleteMaxFile p s =
     (case opendir p s of
        (None, s) \<Rightarrow> Inr s
      | (Some dir, s) \<Rightarrow>
          cbind (max_loop p dir 0 None 0 s) (\<lambda>r. case r of
            None \<Rightarrow> Inr (closedir s)
          | Some None \<Rightarrow> Inl Undefined
          | Some (Some deleteName) \<Rightarrow> Inr (closedir (remove deleteName s))))"

definition walk_main :: "nat \<Rightarrow> walk \<Rightarrow> (int \<times> walk) cres" where
  "walk_main n s =
     cbind (get_dir_size n [] s) (\<lambda>(dir_size, s). cbind (deleteMaxFile [] s) (\<lambda>s. Inr (dir_size, s)))"

section \<open>Trees\<close>

fun height :: "entry \<Rightarrow> nat" where
  "height (Dir r w es) = Suc (foldr max (map (\<lambda>x. height (snd x)) es) 0)"
| "height _ = 0"

fun well_named :: "entry \<Rightarrow> bool" where
  "well_named (Dir r w es) \<longleftrightarrow> distinct (map fst es) \<and> (\<forall>x \<in> set es. well_named (snd x))"
| "well_named _ \<longleftrightarrow> True"

text \<open>No path below a node of path length \<open>k\<close> is too long for the buffer.\<close>

fun fits :: "nat \<Rightarrow> entry \<Rightarrow> bool" where
  "fits k (Dir r w es) \<longleftrightarrow>
     (\<forall>x \<in> set es. k + length (fst x) + 1 < PATH_MAX \<and> fits (k + length (fst x) + 1) (snd x))"
| "fits k _ \<longleftrightarrow> True"

text \<open>No sum of sizes below a node leaves the range of \<open>long long\<close>.\<close>

fun mass :: "entry \<Rightarrow> int" where
  "mass (File n _) = \<bar>n\<bar>"
| "mass (Dir r w es) = 1 + (\<Sum>x \<leftarrow> es. mass (snd x))"
| "mass Broken = 1"

abbreviation is_dir :: "entry \<Rightarrow> bool" where
  "is_dir e \<equiv> (case e of Dir _ _ _ \<Rightarrow> True | _ \<Rightarrow> False)"

lemma foldr_max_le: "foldr max xs 0 \<le> (n :: nat) \<longleftrightarrow> (\<forall>x \<in> set xs. x \<le> n)"
  by (induction xs) auto

lemma height_entry: "height (Dir r w es) \<le> Suc n \<Longrightarrow> (k, e) \<in> set es \<Longrightarrow> height e \<le> n"
  by (auto simp: foldr_max_le)

lemma mass_nonneg: "0 \<le> mass e"
proof (induction e)
  case (Dir r w es)
  have "0 \<le> (\<Sum>x \<leftarrow> es. mass (snd x))"
    by (rule sum_list_nonneg) (auto intro: Dir)
  then show ?case by simp
qed simp_all

lemma lookup_append: "lookup e (p @ q) = Option.bind (lookup e p) (\<lambda>e. lookup e q)"
  by (induction e p rule: lookup.induct) (auto split: option.split)

lemma lookup_entry:
  assumes "lookup t p = Some (Dir r w es)" "distinct (map fst es)" "(n, e) \<in> set es"
  shows "lookup t (p @ [n]) = Some e"
  using assms by (simp add: lookup_append)

lemma path_length_snoc: "path_length b (p @ [n]) = path_length b p + length n + 1"
  by (simp add: path_length_def)

section \<open>The size of a tree\<close>

text \<open>
  What \<open>get_dir_size\<close> makes of a tree when \<open>h\<close> more directories can be opened: a directory that cannot be
  opened counts as -1, and one with an entry that \<open>stat\<close> fails on too, whatever else is in it.
\<close>

fun du :: "nat \<Rightarrow> entry \<Rightarrow> int" and du_list :: "nat \<Rightarrow> int \<Rightarrow> (bytes \<times> entry) list \<Rightarrow> int" where
  "du h (File n _) = n"
| "du h (Dir r w es) = (if r \<and> 0 < h then du_list (h - 1) 0 es else - 1)"
| "du h Broken = - 1"
| "du_list h sz [] = sz"
| "du_list h sz (x # es) =
     (if dotted (fst x) then du_list h sz es
      else if snd x = Broken then - 1
      else du_list h (sz + du h (snd x)) es)"

lemma mass_list_nonneg: "0 \<le> (\<Sum>x \<leftarrow> es. mass (snd x))"
  by (rule sum_list_nonneg) (auto simp: mass_nonneg)

lemma du_bound: "\<bar>du h e\<bar> \<le> mass e" and du_list_bound: "\<bar>du_list h sz es\<bar> \<le> 1 + \<bar>sz\<bar> + (\<Sum>x \<leftarrow> es. mass (snd x))"
proof (induction h e and h sz es rule: du_du_list.induct)
  case (5 h sz x es)
  then show ?case
    using mass_nonneg [of "snd x"] mass_list_nonneg [of es] by auto
next
  case (2 h r w es)
  then show ?case
    using mass_list_nonneg [of es] by auto
qed auto

definition walkable :: "path \<Rightarrow> entry \<Rightarrow> walk \<Rightarrow> bool" where
  "walkable p e s \<longleftrightarrow>
     lookup (tree s) p = Some e \<and> is_dir e \<and> well_named e \<and> fits (path_length (base s) p) e"

lemma walkable_entry:
  assumes "walkable p (Dir r w es) s" "(n, e) \<in> set es" "\<not> dotted n"
  shows "lookup (tree s) (p @ [n]) = Some e" "filename p n s = Inr (p @ [n])"
    "is_dir e \<Longrightarrow> walkable (p @ [n]) e s"
proof -
  show l: "lookup (tree s) (p @ [n]) = Some e"
    using assms by (auto simp: walkable_def intro: lookup_entry)
  have "path_length (base s) p + length n + 1 < PATH_MAX \<and> fits (path_length (base s) p + length n + 1) e"
    using assms by (fastforce simp: walkable_def)
  then show "filename p n s = Inr (p @ [n])" "is_dir e \<Longrightarrow> walkable (p @ [n]) e s"
    using assms l by (auto simp: filename_def path_length_snoc walkable_def)
qed

lemma walkable_handles [simp]: "walkable p e (s\<lparr>handles := k\<rparr>) = walkable p e s"
  by (simp add: walkable_def)

lemma filename_handles [simp]: "filename p n (s\<lparr>handles := k\<rparr>) = filename p n s"
  by (simp add: filename_def)

lemma get_dir_size_run:
  assumes "walkable p e s" "height e \<le> n" "mass e < 2 ^ 63"
  shows "get_dir_size n p s = Inr (du (max_handles s - handles s) e, s)"
  using assms
proof (induction n arbitrary: p e s)
  case 0
  then show ?case by (cases e) (auto simp: walkable_def)
next
  case (Suc n)
  from Suc.prems(1) obtain r w es where e: "e = Dir r w es"
    by (cases e) (auto simp: walkable_def)
  let ?h = "max_handles s - (handles s + 1)" and ?s = "s\<lparr>handles := handles s + 1\<rparr>"
  have loop: "dir_size_loop (get_dir_size n) p es' sz ?s = Inr (du_list ?h sz es', s)"
    if "set es' \<subseteq> set es" "\<bar>sz\<bar> + (\<Sum>x \<leftarrow> es'. mass (snd x)) < 2 ^ 63" for es' sz
    using that
  proof (induction es' arbitrary: sz)
    case Nil
    then show ?case by (simp add: closedir_def)
  next
    case (Cons x es')
    obtain m c where x: "x = (m, c)" by (cases x)
    note rest = mass_list_nonneg [of es']
    show ?case
    proof (cases "dotted m")
      case True
      with Cons x mass_nonneg [of c] show ?thesis by simp
    next
      case False
      note here = walkable_entry [OF Suc.prems(1) [unfolded e] _ False, of c]
      have c: "lookup (tree s) (p @ [m]) = Some c" "filename p m s = Inr (p @ [m])"
        using here(1,2) Cons.prems(1) x by auto
      have add: "add64 sz (du ?h c) = Inr (sz + du ?h c)" "\<bar>sz + du ?h c\<bar> \<le> \<bar>sz\<bar> + mass c"
        using du_bound [of ?h c] Cons.prems(2) rest x by (auto simp: add64_def)
      note step = Cons.IH [of "sz + du ?h c"]
      show ?thesis
      proof (cases "is_dir c")
        case True
        have "walkable (p @ [m]) c ?s" "height c \<le> n" "mass c < 2 ^ 63"
          using here(3) True Suc.prems(2) e Cons.prems x rest height_entry [of r w es n m c] by auto
        then have "get_dir_size n (p @ [m]) ?s = Inr (du ?h c, ?s)"
          using Suc.IH [of "p @ [m]" c ?s] by simp
        with True False c add step x Cons.prems show ?thesis
          by (cases c) (auto simp: stat_def)
      next
        case no_dir: False
        with False c add step x Cons.prems show ?thesis
          by (cases c) (auto simp: stat_def closedir_def)
      qed
    qed
  qed
  show ?case
  proof (cases "r \<and> handles s < max_handles s")
    case True
    with Suc.prems e loop [of es 0] show ?thesis
      by (auto simp: opendir_def walkable_def)
  next
    case False
    with Suc.prems e show ?thesis
      by (auto simp: opendir_def walkable_def)
  qed
qed

text \<open>A tree in which everything can be read and \<open>stat\<close> never fails, and the sum of its files.\<close>

fun clean :: "entry \<Rightarrow> bool" where
  "clean (File _ _) \<longleftrightarrow> True"
| "clean (Dir r w es) \<longleftrightarrow> r \<and> (\<forall>x \<in> set es. dotted (fst x) \<or> clean (snd x))"
| "clean Broken \<longleftrightarrow> False"

fun total :: "entry \<Rightarrow> int" where
  "total (File n _) = n"
| "total (Dir r w es) = (\<Sum>x \<leftarrow> es. if dotted (fst x) then 0 else total (snd x))"
| "total Broken = 0"

lemma du_total: "clean e \<Longrightarrow> height e \<le> h \<Longrightarrow> du h e = total e"
  and du_list_total: "\<forall>x \<in> set es. dotted (fst x) \<or> clean (snd x) \<Longrightarrow> \<forall>x \<in> set es. height (snd x) \<le> h \<Longrightarrow>
    du_list h sz es = sz + (\<Sum>x \<leftarrow> es. if dotted (fst x) then 0 else total (snd x))"
proof (induction h e and h sz es rule: du_du_list.induct)
  case (2 h r w es)
  then have "0 < h" "\<forall>x \<in> set es. height (snd x) \<le> h - 1"
    using foldr_max_le [of "map (\<lambda>x. height (snd x)) es" "h - 1"] by auto
  with 2 show ?case by auto
qed auto


definition demo_tree :: entry where
  "demo_tree = Dir True True
     [([0x2E], Broken), ([0x61], File 10 0), ([0x62], Dir True True [([0x78], File 5 0), ([0x79], Dir False True [])])]"

definition demo_walk :: walk where
  "demo_walk = \<lparr>tree = demo_tree, handles = 0, max_handles = 9, base = [0x2F], dir_size = \<lambda>_. 4096, now = 400, yday = \<lambda>d. d mod 365\<rparr>"

lemma demo_walkable: "walkable [] demo_tree demo_walk" "height demo_tree = 3"
  by (simp_all add: walkable_def demo_walk_def demo_tree_def path_length_def PATH_MAX_def)


section \<open>Deleting a tree\<close>

text \<open>What is left of a node when \<open>h\<close> more directories can be opened.\<close>

fun purge :: "nat \<Rightarrow> entry \<Rightarrow> entry"
  and purge_list :: "nat \<Rightarrow> bool \<Rightarrow> (bytes \<times> entry) list \<Rightarrow> (bytes \<times> entry) list" where
  "purge h (File n t) = File n t"
| "purge h (Dir r w es) = Dir r w (if r \<and> 0 < h then purge_list (h - 1) w es else es)"
| "purge h Broken = Broken"
| "purge_list h w [] = []"
| "purge_list h w (x # es) =
     (if dotted (fst x) then x # purge_list h w es
      else if snd x = Broken then x # es
      else if w \<and> (is_dir (snd x) \<longrightarrow> proper (listing (purge h (snd x))) = []) then purge_list h w es
      else (fst x, purge h (snd x)) # purge_list h w es)"

lemma lookup_at: "lookup (at p f t) p = map_option f (lookup t p)"
proof (induction p f t rule: at.induct)
  case (2 n p f r w es)
  have "map_of (map (\<lambda>(k, e). if k = n then (k, at p f e) else (k, e)) es) n = map_option (at p f) (map_of es n)"
    by (induction es) auto
  with 2 show ?case
    by (auto split: option.split dest: map_of_SomeD)
qed auto

lemma at_at: "at p f (at p g t) = at p (f \<circ> g) t"
  by (induction p g t rule: at.induct) auto

lemma at_append: "at (p @ q) f t = at p (at q f) t"
  by (induction p "at q f" t rule: at.induct) auto

lemma at_id: "well_named t \<Longrightarrow> lookup t p = Some e \<Longrightarrow> f e = e \<Longrightarrow> at p f t = t"
proof (induction p f t rule: at.induct)
  case (2 n p f r w es)
  have "(if k = n then (k, at p f c) else (k, c)) = (k, c)" if "(k, c) \<in> set es" for k c
  proof (cases "k = n")
    case True
    with that 2(2) have "map_of es n = Some c" by simp
    with 2 that True show ?thesis by fastforce
  qed simp
  then show ?case
    by (auto intro!: map_idI)
qed auto

lemma well_named_lookup: "well_named t \<Longrightarrow> lookup t p = Some e \<Longrightarrow> well_named e"
  by (induction t p rule: lookup.induct) (auto split: option.splits dest: map_of_SomeD)

lemma map_fst_at: "map fst (map (\<lambda>(k, e). if k = n then (k, g e) else (k, e)) es) = map fst es"
  by (induction es) auto

lemma well_named_at: "well_named t \<Longrightarrow> (\<And>e. lookup t p = Some e \<Longrightarrow> well_named (f e)) \<Longrightarrow> well_named (at p f t)"
proof (induction p f t rule: at.induct)
  case (2 n p f r w es)
  have "well_named (at p f c)" if "(n, c) \<in> set es" for c
  proof -
    from that 2(2) have "map_of es n = Some c" by simp
    with 2 that show ?thesis by fastforce
  qed
  moreover have "distinct (map fst (map (\<lambda>(k, e). if k = n then (k, at p f e) else (k, e)) es))"
    unfolding map_fst_at using 2(2) by simp
  moreover from 2(2) have "well_named b" if "(a, b) \<in> set es" for a b
    using that by force
  ultimately show ?case by auto
qed auto

lemma purge_names: "(a, b) \<in> set (purge_list h w es) \<Longrightarrow> a \<in> fst ` set es"
  by (induction es) (auto split: if_splits intro: rev_image_eqI)

lemma purge_distinct: "distinct (map fst es) \<Longrightarrow> distinct (map fst (purge_list h w es))"
  by (induction es) (auto dest: purge_names)

lemma well_named_purge: "well_named e \<Longrightarrow> well_named (purge h e)"
  and "\<forall>x \<in> set es. well_named (snd x) \<Longrightarrow> \<forall>x \<in> set (purge_list h w es). well_named (snd x)"
  by (induction h e and h w es rule: purge_purge_list.induct) (auto simp: purge_distinct)

lemma is_dir_purge: "is_dir (purge h e) = is_dir e"
  by (cases e) auto

definition put :: "path \<Rightarrow> entry \<Rightarrow> walk \<Rightarrow> walk" where
  "put p e s = s\<lparr>tree := at p (\<lambda>_. e) (tree s)\<rparr>"

lemma put_sel [simp]:
  "handles (put p e s) = handles s" "max_handles (put p e s) = max_handles s" "base (put p e s) = base s"
  "tree (put p e s) = at p (\<lambda>_. e) (tree s)" "(put p e s)\<lparr>handles := k\<rparr> = put p e (s\<lparr>handles := k\<rparr>)"
  by (simp_all add: put_def)

lemma put_put: "put p e (put p e' s) = put p e s"
  by (simp add: put_def at_at comp_def)

lemma put_id: "well_named (tree s) \<Longrightarrow> lookup (tree s) p = Some e \<Longrightarrow> put p e s = s"
  by (simp add: put_def at_id)

lemma put_entry:
  assumes "distinct (map fst (L @ (m, c) # R))"
  shows "put (p @ [m]) c' (put p (Dir r w (L @ (m, c) # R)) s) = put p (Dir r w (L @ (m, c') # R)) s"
proof -
  have "m \<notin> fst ` set L" "m \<notin> fst ` set R"
    using assms by auto
  then have "map (\<lambda>(k, e). if k = m then (k, c') else (k, e)) (L @ (m, c) # R) = L @ (m, c') # R"
    by (auto intro!: map_idI split: prod.splits) force+
  then show ?thesis
    by (simp add: put_def at_at at_append comp_def cong: if_cong)
qed

lemma unlink_entry:
  assumes "distinct (map fst (L @ (m, c) # R))"
  shows "unlink (p @ [m]) (put p (Dir r w (L @ (m, c) # R)) s) = put p (Dir r w (L @ R)) s"
proof -
  have "filter (\<lambda>(k, _). k \<noteq> m) K = K" if "m \<notin> fst ` set K" for K :: "(bytes \<times> entry) list"
    by (rule filter_True) (use that in force)
  with assms have "filter (\<lambda>(k, _). k \<noteq> m) (L @ (m, c) # R) = L @ R"
    by simp
  then show ?thesis
    by (simp add: unlink_def put_def at_at comp_def)
qed

lemma lookup_put:
  assumes "lookup (tree s) p = Some e0"
  shows "lookup (tree (put p e s)) p = Some e"
    "distinct (map fst es) \<Longrightarrow> (m, c) \<in> set es \<Longrightarrow> lookup (tree (put p (Dir r w es) s)) (p @ [m]) = Some c"
    "may_delete (p @ [m]) (put p (Dir r w es) s) = w"
  using assms by (auto simp: lookup_at lookup_append may_delete_def)

lemma rmdir_entry:
  assumes "lookup (tree s) p = Some e0" "distinct (map fst (L @ (m, c) # R))" "is_dir c"
  shows "rmdir (p @ [m]) (put p (Dir r w (L @ (m, c) # R)) s) =
    (if w \<and> proper (listing c) = [] then put p (Dir r w (L @ R)) s else put p (Dir r w (L @ (m, c) # R)) s)"
proof -
  have dist: "distinct (map fst (L @ (m, c') # R))" for c'
    using assms(2) by simp
  show ?thesis
    using lookup_put(2) [OF assms(1,2), of m c r w] lookup_put(3) [OF assms(1)] assms(3)
    by (cases c) (simp_all add: rmdir_def unlink_entry [OF dist])
qed

lemma purge_list_step:
  assumes "x = (m, c)" "\<not> dotted m" "c \<noteq> Broken"
  shows "purge_list h w (x # es) =
    (if w \<and> (is_dir c \<longrightarrow> proper (listing (purge h c)) = []) then [] else [(m, purge h c)]) @ purge_list h w es"
  using assms by simp

lemma delete_run:
  assumes "walkable p e s" "well_named (tree s)" "height e \<le> n"
  shows "deleteFileAndDir n p s = Inr (put p (purge (max_handles s - handles s) e) s)"
  using assms
proof (induction n arbitrary: p e s)
  case 0
  then show ?case by (cases e) (auto simp: walkable_def)
next
  case (Suc n)
  from Suc.prems(1) obtain r w es where e: "e = Dir r w es"
    by (cases e) (auto simp: walkable_def)
  let ?h = "max_handles s - (handles s + 1)" and ?s = "s\<lparr>handles := handles s + 1\<rparr>"
  have here: "lookup (tree ?s) p = Some (Dir r w es)" "well_named (Dir r w es)"
    using Suc.prems(1) e by (auto simp: walkable_def)
  have loop: "delete_loop (deleteFileAndDir n) p es' (put p (Dir r w (L @ es')) ?s) =
      Inr (put p (Dir r w (L @ purge_list ?h w es')) s)"
    if "set es' \<subseteq> set es" "distinct (map fst (L @ es'))" "\<forall>x \<in> set L. well_named (snd x)" for es' L
    using that
  proof (induction es' arbitrary: L)
    case Nil
    then show ?case by (simp add: closedir_def)
  next
    case (Cons x es')
    obtain m c where x: "x = (m, c)" by (cases x)
    let ?t = "put p (Dir r w (L @ (m, c) # es')) ?s"
    show ?case
    proof (cases "dotted m")
      case True
      then show ?thesis
        using Cons.IH [of "L @ [x]"] Cons.prems x here(2) by auto
    next
      case False
      have dist: "distinct (map fst (L @ (m, c') # es'))" for c'
        using Cons.prems(2) x by simp
      have mc: "(m, c) \<in> set es"
        using Cons.prems(1) x by simp
      note entry = walkable_entry [OF Suc.prems(1) [unfolded e] mc False]
      note look = lookup_put [OF here(1)]
      have c: "lookup (tree ?t) (p @ [m]) = Some c" "filename p m ?t = Inr (p @ [m])"
        "may_delete (p @ [m]) ?t = w"
        using look(2) [OF dist] look(3) entry(2) by (simp_all add: filename_def)
      have wn: "well_named c"
        using mc here(2) by auto
      have wn': "well_named (tree ?t)"
        unfolding put_sel using Suc.prems(2) Cons.prems x here(2)
        by (intro well_named_at) (auto simp: Ball_def)
      have skip: "delete_loop (deleteFileAndDir n) p es' (put p (Dir r w (L @ (m, c') # es')) ?s) =
          Inr (put p (Dir r w (L @ (m, c') # purge_list ?h w es')) s)" if "well_named c'" for c'
        using Cons.IH [of "L @ [(m, c')]"] Cons.prems that x by auto
      have drop: "delete_loop (deleteFileAndDir n) p es' (put p (Dir r w (L @ es')) ?s) =
          Inr (put p (Dir r w (L @ purge_list ?h w es')) s)"
        using Cons.IH [of L] Cons.prems x by auto
      show ?thesis
      proof (cases c)
        case Broken
        with False c x show ?thesis
          by (simp add: stat_def closedir_def)
      next
        case (File k t)
        with False c x skip [of c] drop show ?thesis
          by (auto simp: stat_def remove_def unlink_entry [OF dist])
      next
        case (Dir r' w' es'')
        have "walkable (p @ [m]) c ?t"
          using entry(3) c(1) Dir by (simp add: walkable_def)
        moreover have "height c \<le> n"
          using Suc.prems(3) e mc by (auto intro: height_entry)
        ultimately have sub: "deleteFileAndDir n (p @ [m]) ?t =
            Inr (put p (Dir r w (L @ (m, purge ?h c) # es')) ?s)"
          using Suc.IH [of "p @ [m]" c ?t] wn' by (simp add: put_entry [OF dist])
        have "is_dir (purge ?h c)"
          using Dir by (simp add: is_dir_purge)
        note rmdir_entry [OF here(1) dist this, of r w]
        moreover have "delete_loop (deleteFileAndDir n) p (x # es') ?t =
            delete_loop (deleteFileAndDir n) p es' (rmdir (p @ [m]) (put p (Dir r w (L @ (m, purge ?h c) # es')) ?s))"
          using Dir False c x sub by (simp add: stat_def del: purge.simps)
        moreover have "purge_list ?h w (x # es') =
            (if w \<and> proper (listing (purge ?h c)) = [] then [] else [(m, purge ?h c)]) @ purge_list ?h w es'"
          using purge_list_step [OF x False, of ?h w es'] Dir by (simp del: purge.simps)
        moreover note skip [OF well_named_purge [OF wn]] drop
        ultimately show ?thesis
          using x by (auto simp del: purge.simps purge_list.simps delete_loop.simps split: if_splits)
      qed
    qed
  qed
  show ?case
  proof (cases "r \<and> handles s < max_handles s")
    case True
    have "put p (Dir r w es) ?s = ?s"
      using put_id [of ?s p "Dir r w es"] here(1) Suc.prems(2) by simp
    with True loop [of es "[]"] here e show ?thesis
      by (simp add: opendir_def)
  next
    case False
    then have "purge (max_handles s - handles s) e = e"
      using e by auto
    with False here e Suc.prems(2) put_id [of s p e] show ?thesis
      by (auto simp: opendir_def)
  qed
qed

text \<open>A tree in which everything can be deleted leaves an empty directory.\<close>

fun deletable :: "entry \<Rightarrow> bool" where
  "deletable (Dir r w es) \<longleftrightarrow> r \<and> w \<and> (\<forall>x \<in> set es. dotted (fst x) \<or> deletable (snd x))"
| "deletable (File _ _) \<longleftrightarrow> True"
| "deletable Broken \<longleftrightarrow> False"

lemma purge_deletable: "deletable e \<Longrightarrow> is_dir e \<Longrightarrow> height e \<le> h \<Longrightarrow> proper (listing (purge h e)) = []"
  and purge_list_deletable: "\<forall>x \<in> set es. dotted (fst x) \<or> deletable (snd x) \<Longrightarrow> \<forall>x \<in> set es. height (snd x) \<le> h \<Longrightarrow>
    w \<Longrightarrow> proper (purge_list h w es) = []"
proof (induction h e and h w es rule: purge_purge_list.induct)
  case (2 h r w es)
  then have "0 < h" "\<forall>x \<in> set es. height (snd x) \<le> h - 1"
    using foldr_max_le [of "map (\<lambda>x. height (snd x)) es" "h - 1"] by auto
  with 2 show ?case by auto
next
  case (5 h w x es)
  then show ?case
    by (cases "dotted (fst x)") (auto simp: proper_def split: entry.splits)
qed (auto simp: proper_def)

definition parallel :: "path \<Rightarrow> path \<Rightarrow> bool" where
  "parallel p q \<longleftrightarrow> take (length p) q \<noteq> p \<and> take (length q) p \<noteq> q"

lemma lookup_at_parallel: "parallel p q \<Longrightarrow> lookup (at p f t) q = lookup t q"
proof (induction p f t arbitrary: q rule: at.induct)
  case (2 n p f r w es)
  then obtain m q' where q: "q = m # q'"
    by (cases q) (auto simp: parallel_def)
  have *: "map_of (map (\<lambda>(k, e). if k = n then (k, at p f e) else (k, e)) es) m =
      (if m = n then map_option (at p f) (map_of es m) else map_of es m)"
    by (induction es) auto
  show ?case
    using 2 q by (auto simp: * parallel_def split: option.splits dest: map_of_SomeD)
qed (auto simp: parallel_def)



section \<open>Deleting old files, and the largest\<close>

text \<open>Which files \<open>deleteFile\<close> keeps.\<close>

definition kept :: "walk \<Rightarrow> entry \<Rightarrow> bool" where
  "kept s e \<longleftrightarrow> file_size e \<le> 314572800 \<and> yday s (now s) - yday s (file_mtime e) \<le> 3"

lemma put_env [simp]: "yday (put p e s) = yday s" "now (put p e s) = now s" "dir_size (put p e s) = dir_size s"
  by (simp_all add: put_def)

lemma remove_file:
  assumes "lookup (tree s) p = Some e0" "distinct (map fst (L @ (m, File k t) # R))"
  shows "remove (p @ [m]) (put p (Dir r w (L @ (m, File k t) # R)) s) =
    (if w then put p (Dir r w (L @ R)) s else put p (Dir r w (L @ (m, File k t) # R)) s)"
  using lookup_put(2) [OF assms, of m "File k t" r w] lookup_put(3) [OF assms(1)]
  by (simp add: remove_def unlink_entry [OF assms(2)])

lemma deleteFile_files:
  assumes "walkable p (Dir True w es) s" "well_named (tree s)" "handles s < max_handles s"
    "\<forall>x \<in> set es. dotted (fst x) \<or> (\<exists>k t. snd x = File k t)"
  shows "deleteFile n p s = Inr (put p (Dir True w (filter (\<lambda>x. dotted (fst x) \<or> \<not> w \<or> kept s (snd x)) es)) s)"
proof -
  let ?s = "s\<lparr>handles := handles s + 1\<rparr>" and ?keep = "\<lambda>x. dotted (fst x) \<or> \<not> w \<or> kept s (snd x)"
  have here: "lookup (tree ?s) p = Some (Dir True w es)" "distinct (map fst es)"
    using assms(1) by (auto simp: walkable_def)
  have loop: "delete_old_loop n p es' (put p (Dir True w (L @ es')) ?s) = Inr (put p (Dir True w (L @ filter ?keep es')) s)"
    if "set es' \<subseteq> set es" "distinct (map fst (L @ es'))" for L es'
    using that
  proof (induction es' arbitrary: L)
    case Nil
    then show ?case by (simp add: closedir_def)
  next
    case (Cons x es')
    obtain m c where x: "x = (m, c)" by (cases x)
    note keep = Cons.IH [of "L @ [x]"] and drop = Cons.IH [of L]
    show ?case
    proof (cases "dotted m")
      case True
      with keep Cons.prems x show ?thesis by simp
    next
      case False
      with assms(4) Cons.prems(1) x obtain k t where c: "c = File k t" by fastforce
      have dist: "distinct (map fst (L @ (m, File k t) # es'))" and mc: "(m, c) \<in> set es"
        using Cons.prems x c by auto
      have "lookup (tree (put p (Dir True w (L @ (m, File k t) # es')) ?s)) (p @ [m]) = Some (File k t)"
        "filename p m (put p (Dir True w (L @ (m, File k t) # es')) ?s) = Inr (p @ [m])"
        using lookup_put(2) [OF here(1) dist] walkable_entry(2) [OF assms(1) mc False] by (simp_all add: filename_def)
      with remove_file [OF here(1) dist] False x c keep drop Cons.prems show ?thesis
        by (auto simp: stat_def kept_def)
    qed
  qed
  have "put p (Dir True w es) ?s = ?s"
    using put_id [of ?s p "Dir True w es"] here(1) assms(2) by simp
  with loop [of es "[]"] here assms(3) show ?thesis
    by (simp add: deleteFile_def opendir_def)
qed

lemma max_loop_last:
  assumes "\<And>m c. (m, c) \<in> set es \<Longrightarrow> \<not> dotted m \<Longrightarrow> filename p m s = Inr (p @ [m]) \<and> stat (p @ [m]) s \<noteq> None"
  shows "max_loop p es 0 d sz s =
    Inr (Some (if proper es = [] then d else Some (p @ [fst (last (proper es))])))"
  using assms
proof (induction es arbitrary: d sz)
  case (Cons x es)
  obtain m c where x: "x = (m, c)" by (cases x)
  have IH: "max_loop p es 0 d sz s = Inr (Some (if proper es = [] then d else Some (p @ [fst (last (proper es))])))" for d sz
    by (rule Cons.IH) (rule Cons.prems, auto)
  show ?case
  proof (cases "dotted m")
    case True
    with IH x show ?thesis by (simp add: proper_def)
  next
    case False
    with Cons.prems [of m c] x obtain e where "filename p m s = Inr (p @ [m])" "stat (p @ [m]) s = Some e" by auto
    with False IH x show ?thesis by (simp add: proper_def)
  qed
qed (simp add: proper_def)

lemma remove_handles: "remove q (s\<lparr>handles := k\<rparr>) = (remove q s)\<lparr>handles := k\<rparr>"
  by (simp add: remove_def rmdir_def may_delete_def unlink_def split: option.split entry.split)

lemma remove_sel: "handles (remove q s) = handles s"
  by (simp add: remove_def rmdir_def unlink_def split: option.split entry.split)

lemma deleteMaxFile_run:
  assumes "walkable p (Dir True w es) s" "handles s < max_handles s" "\<forall>x \<in> set (proper es). snd x \<noteq> Broken"
  shows "deleteMaxFile p s =
    (if proper es = [] then Inl Undefined else Inr (remove (p @ [fst (last (proper es))]) s))"
proof -
  let ?s = "s\<lparr>handles := handles s + 1\<rparr>"
  have "filename p m ?s = Inr (p @ [m]) \<and> stat (p @ [m]) ?s \<noteq> None" if "(m, c) \<in> set es" "\<not> dotted m" for m c
    using walkable_entry [OF assms(1) that] assms(3) that
    by (auto simp: stat_def proper_def split: entry.split)
  note loop = max_loop_last [of es p ?s, OF this]
  have "closedir (remove q ?s) = remove q s" for q
    by (simp add: remove_handles closedir_def remove_sel)
  with loop assms(1,2) show ?thesis
    by (auto simp: deleteMaxFile_def opendir_def walkable_def)
qed

text \<open>
  \<open>deleteMaxFile\<close> does not delete the largest file: the counter that tells the first entry from the others
  is never advanced, so every entry is taken for the first and the last one is removed, whatever the sizes.
  In an empty directory it removes the file an uninitialised array names.
\<close>

theorem deleteMaxFile_removes_last:
  assumes "walkable p (Dir True w es) s" "handles s < max_handles s" "\<forall>x \<in> set (proper es). snd x \<noteq> Broken"
  shows "deleteMaxFile p s =
    (if proper es = [] then Inl Undefined else Inr (remove (p @ [fst (last (proper es))]) s))"
  using assms by (rule deleteMaxFile_run)

definition two_files :: walk where
  "two_files = demo_walk\<lparr>tree := Dir True True [([0x61], File 900 0), ([0x2E], Broken), ([0x62], File 5 0)]\<rparr>"

theorem deleteMaxFile_removes_last_witness:
  "deleteMaxFile [] two_files = Inr (two_files\<lparr>tree := Dir True True [([0x61], File 900 0), ([0x2E], Broken)]\<rparr>)"
proof -
  have "walkable [] (Dir True True [([0x61], File 900 0), ([0x2E], Broken), ([0x62], File 5 0)]) two_files"
    "handles two_files < max_handles two_files"
    by (simp_all add: walkable_def two_files_def demo_walk_def path_length_def PATH_MAX_def)
  from deleteMaxFile_removes_last [OF this] show ?thesis
    by (simp add: proper_def dotted_def remove_def may_delete_def unlink_def two_files_def)
qed

end
