(* ===== verification/EpollServer.thy ===== *)
theory EpollServer
  imports Prelude
begin

text \<open>
  \<open>epollDemo/epoll_server.c\<close>: an echo server on an edge-triggered epoll descriptor. \<open>server\<close> is the state of
  the program (\<open>listen_fd\<close>, \<open>epoll_fd\<close>, \<open>cur_fds\<close>, the events of the last \<open>epoll_wait\<close> that are still to be
  handled) with what the kernel keeps for it: the open descriptors, those watched, the ones with an event that
  has not been reported, the connections that wait, and for each connection the bytes received and not yet
  read and whether the peer has closed it. \<open>got\<close> and \<open>echoed\<close> record all bytes a peer sent and was sent.

  \<open>handle_event\<close> is the body of the loop over the events, on the results of its system calls; \<open>step\<close> adds what
  the kernel may answer, \<open>epoll_wait\<close>, and what the peers do. The connections are blocking sockets, so a
  \<open>write\<close> takes all its bytes. Messages are dropped.
\<close>

section \<open>The program\<close>

record server =
  listen_fd :: int
  epoll_fd :: int
  cur_fds :: int
  batch :: "int list"
  exited :: "int option"
  fds :: "int set"
  watched :: "int set"
  edges :: "int set"
  backlog :: nat
  inbox :: "int \<Rightarrow> bytes"
  hung_up :: "int set"
  got :: "int \<Rightarrow> bytes"
  echoed :: "int \<Rightarrow> bytes"

definition MAXEPOLL :: nat where
  "MAXEPOLL = 10000"

definition MAXLINE :: nat where
  "MAXLINE = 1024"

definition EXIT_FAILURE :: int where
  "EXIT_FAILURE = 1"

definition O_NONBLOCK :: u32 where
  "O_NONBLOCK = 0x800"

text \<open>
  The descriptor flags and the status flags of an open descriptor. \<open>setNonBlock\<close> reads the former and sets the
  latter; \<open>set_ok\<close> is whether the kernel takes them.
\<close>

definition setNonBlock :: "bool \<Rightarrow> (int \<rightharpoonup> u32 \<times> u32) \<Rightarrow> int \<Rightarrow> int \<times> (int \<rightharpoonup> u32 \<times> u32)" where
  "setNonBlock set_ok flags fd =
     (case flags fd of
        None \<Rightarrow> (- 1, flags)
      | Some (fdflag, _) \<Rightarrow>
          if set_ok then (0, flags(fd \<mapsto> (fdflag, fdflag OR O_NONBLOCK))) else (- 1, flags))"

text \<open>What the calls before the loop return.\<close>

record calls =
  setrlimit_result :: int
  socket_result :: int
  nonblock_result :: int
  bind_result :: int
  listen_result :: int
  epoll_create_result :: int
  add_result :: int

text \<open>The part of \<open>main\<close> before the loop, with the descriptors \<open>std\<close> the process has got from its parent.\<close>

definition start :: "int set \<Rightarrow> calls \<Rightarrow> int + server" where
  "start std r =
     (if setrlimit_result r = - 1 then Inl EXIT_FAILURE
      else if socket_result r < 0 then Inl EXIT_FAILURE
      else if nonblock_result r < 0 then Inl EXIT_FAILURE
      else if bind_result r < 0 then Inl EXIT_FAILURE
      else if listen_result r < 0 then Inl EXIT_FAILURE
      else if add_result r < 0 then Inl EXIT_FAILURE
      else Inr \<lparr>listen_fd = socket_result r, epoll_fd = epoll_create_result r, cur_fds = 1, batch = [],
             exited = None, fds = insert (epoll_create_result r) (insert (socket_result r) std),
             watched = {socket_result r}, edges = {}, backlog = 0, inbox = \<lambda>_. [], hung_up = {},
             got = \<lambda>_. [], echoed = \<lambda>_. []\<rparr>)"

text \<open>The results of the calls one event leads to; \<open>None\<close> for a \<open>read\<close> that returns -1.\<close>

record results =
  accept_result :: int
  ctl_result :: int
  read_result :: "bytes option"

definition exit_with :: "int \<Rightarrow> server \<Rightarrow> server" where
  "exit_with c s = s\<lparr>exited := Some c\<rparr>"

text \<open>The system calls on the state. Closing a descriptor takes it out of the watched ones.\<close>

definition k_accept :: "int \<Rightarrow> server \<Rightarrow> server" where
  "k_accept d s = s\<lparr>fds := insert d (fds s), backlog := backlog s - 1, inbox := (inbox s)(d := []),
     hung_up := hung_up s - {d}, got := (got s)(d := []), echoed := (echoed s)(d := [])\<rparr>"

definition k_watch :: "int \<Rightarrow> server \<Rightarrow> server" where
  "k_watch d s = s\<lparr>watched := insert d (watched s)\<rparr>"

definition k_close :: "int \<Rightarrow> server \<Rightarrow> server" where
  "k_close d s = s\<lparr>fds := fds s - {d}, watched := watched s - {d}, edges := edges s - {d}\<rparr>"

definition k_read :: "int \<Rightarrow> bytes \<Rightarrow> server \<Rightarrow> server" where
  "k_read d bs s = s\<lparr>inbox := (inbox s)(d := drop (length bs) (inbox s d))\<rparr>"

definition k_write :: "int \<Rightarrow> bytes \<Rightarrow> server \<Rightarrow> server" where
  "k_write d bs s = s\<lparr>echoed := (echoed s)(d := echoed s d @ bs)\<rparr>"

definition handle_event :: "results \<Rightarrow> int \<Rightarrow> server \<Rightarrow> server" where
  "handle_event r fd s =
     (if fd = listen_fd s \<and> cur_fds s < int MAXEPOLL then
        let conn_fd = accept_result r
        in if conn_fd < 0 then exit_with EXIT_FAILURE s
           else let s = k_accept conn_fd s
                in if ctl_result r < 0 then exit_with EXIT_FAILURE s
                   else (k_watch conn_fd s)\<lparr>cur_fds := cur_fds s + 1\<rparr>
      else case read_result r of
          None \<Rightarrow> (k_close fd s)\<lparr>cur_fds := cur_fds s - 1\<rparr>
        | Some buf \<Rightarrow>
            if buf = [] then (k_close fd s)\<lparr>cur_fds := cur_fds s - 1\<rparr>
            else k_write fd buf (k_read fd buf s))"

section \<open>The program in its environment\<close>

definition client :: "server \<Rightarrow> int \<Rightarrow> bool" where
  "client s fd \<longleftrightarrow> fd \<in> watched s \<and> fd \<noteq> listen_fd s"

definition ready :: "server \<Rightarrow> int \<Rightarrow> bool" where
  "ready s fd \<longleftrightarrow> (if fd = listen_fd s then 0 < backlog s else inbox s fd \<noteq> [] \<or> fd \<in> hung_up s)"

text \<open>
  What the kernel may answer to the calls for an event: \<open>accept\<close> hands out a free descriptor when there is
  one below the limit the program has set, or fails; \<open>read\<close> gives what is there, at most \<open>MAXLINE\<close> bytes, the
  end of the stream when nothing is left and the peer has closed, or fails.
\<close>

definition answers :: "server \<Rightarrow> int \<Rightarrow> results \<Rightarrow> bool" where
  "answers s fd r \<longleftrightarrow>
     (accept_result r < 0 \<or> accept_result r \<notin> fds s \<and> accept_result r < int MAXEPOLL) \<and>
     (case read_result r of
        None \<Rightarrow> True
      | Some buf \<Rightarrow> fd \<noteq> listen_fd s \<and> buf = take MAXLINE (inbox s fd) \<and> (buf = [] \<longrightarrow> fd \<in> hung_up s))"

inductive step :: "server \<Rightarrow> server \<Rightarrow> bool" where
  connect: "step s (s\<lparr>backlog := backlog s + 1, edges := insert (listen_fd s) (edges s)\<rparr>)"
| send: "client s fd \<Longrightarrow> fd \<notin> hung_up s \<Longrightarrow> bs \<noteq> [] \<Longrightarrow>
    step s (s\<lparr>inbox := (inbox s)(fd := inbox s fd @ bs), got := (got s)(fd := got s fd @ bs), edges := insert fd (edges s)\<rparr>)"
| hang_up: "client s fd \<Longrightarrow> step s (s\<lparr>hung_up := insert fd (hung_up s), edges := insert fd (edges s)\<rparr>)"
| wait: "exited s = None \<Longrightarrow> batch s = [] \<Longrightarrow> evs \<noteq> [] \<Longrightarrow> distinct evs \<Longrightarrow>
    set evs \<subseteq> edges s \<inter> watched s \<Longrightarrow> (\<forall>fd \<in> set evs. ready s fd) \<Longrightarrow> int (length evs) \<le> cur_fds s \<Longrightarrow>
    step s (s\<lparr>batch := evs, edges := edges s - set evs\<rparr>)"
| wait_fails: "exited s = None \<Longrightarrow> batch s = [] \<Longrightarrow> step s (exit_with EXIT_FAILURE s)"
| handle: "exited s = None \<Longrightarrow> batch s = fd # rest \<Longrightarrow> answers s fd r \<Longrightarrow>
    step s (handle_event r fd (s\<lparr>batch := rest\<rparr>))"

inductive_cases stepE: "step s s'"

inductive reaches :: "server \<Rightarrow> server \<Rightarrow> bool" where
  here: "reaches s s"
| further: "reaches s t \<Longrightarrow> step t u \<Longrightarrow> reaches s u"

text \<open>The descriptors a start gets are new, different and below the limit.\<close>

definition sane :: "int set \<Rightarrow> calls \<Rightarrow> bool" where
  "sane std r \<longleftrightarrow>
     socket_result r \<notin> std \<and> epoll_create_result r \<notin> std \<and> socket_result r \<noteq> epoll_create_result r \<and>
     socket_result r < int MAXEPOLL \<and> 0 \<le> epoll_create_result r \<and> epoll_create_result r < int MAXEPOLL"

section \<open>The invariant\<close>

definition inv :: "server \<Rightarrow> bool" where
  "inv s \<longleftrightarrow>
     listen_fd s \<in> watched s \<and> epoll_fd s \<in> fds s - watched s \<and> epoll_fd s \<in> {0..<int MAXEPOLL} \<and>
     watched s \<subseteq> fds s \<inter> {0..<int MAXEPOLL} \<and> edges s \<subseteq> watched s \<and>
     distinct (batch s) \<and> set (batch s) \<subseteq> watched s \<and>
     (\<forall>fd. client s fd \<longrightarrow> got s fd = echoed s fd @ inbox s fd) \<and>
     (exited s = None \<longrightarrow> cur_fds s = int (card (watched s)))"

lemma inv_room:
  assumes "inv s"
  shows "finite (watched s)" "0 < card (watched s)" "card (watched s) < MAXEPOLL"
proof -
  from assms show fin: "finite (watched s)"
    by (auto simp: inv_def intro: finite_subset [of _ "{0..<int MAXEPOLL}"])
  from assms fin show "0 < card (watched s)"
    by (auto simp: inv_def card_gt_0_iff)
  from assms have "watched s \<subseteq> {0..<int MAXEPOLL} - {epoll_fd s}" "epoll_fd s \<in> {0..<int MAXEPOLL}"
    by (auto simp: inv_def)
  then have "card (watched s) \<le> card ({0..<int MAXEPOLL} - {epoll_fd s})"
    by (intro card_mono) auto
  also have "\<dots> = MAXEPOLL - 1"
    using \<open>epoll_fd s \<in> {0..<int MAXEPOLL}\<close> by simp
  finally show "card (watched s) < MAXEPOLL"
    by (simp add: MAXEPOLL_def)
qed

lemma inv_start: "start std r = Inr s \<Longrightarrow> sane std r \<Longrightarrow> inv s"
  by (auto simp: start_def sane_def inv_def client_def split: if_splits)

lemmas handler_simps = handle_event_def k_accept_def k_watch_def k_close_def k_read_def k_write_def exit_with_def Let_def

lemma inv_handle:
  assumes "inv s" "exited s = None" "batch s = fd # rest" "answers s fd r"
  shows "inv (handle_event r fd (s\<lparr>batch := rest\<rparr>))"
proof (cases "fd = listen_fd s")
  case True
  with assms inv_room [OF assms(1)] show ?thesis
    by (auto simp: inv_def handler_simps answers_def client_def card_insert_if)
next
  case False
  with assms have fd: "client s fd" "fd \<in> watched s" "fd \<notin> set rest"
    by (auto simp: inv_def client_def)
  have closed: "inv ((k_close fd (s\<lparr>batch := rest\<rparr>))\<lparr>cur_fds := cur_fds s - 1\<rparr>)"
    using assms fd False inv_room [OF assms(1)] by (auto simp: inv_def k_close_def client_def)
  show ?thesis
  proof (cases "read_result r")
    case None
    with False closed show ?thesis by (simp add: handle_event_def k_close_def)
  next
    case (Some buf)
    with assms(4) have buf: "buf = take MAXLINE (inbox s fd)"
      by (simp add: answers_def)
    show ?thesis
    proof (cases "buf = []")
      case True
      with Some False closed show ?thesis by (simp add: handle_event_def k_close_def)
    next
      case data: False
      have "got s fd = echoed s fd @ inbox s fd"
        using assms(1) fd(1) by (simp add: inv_def)
      then have "got s fd = (echoed s fd @ buf) @ drop (length buf) (inbox s fd)"
        by (simp add: buf min_def)
      with data Some False assms fd show ?thesis
        by (auto simp: inv_def handle_event_def k_read_def k_write_def client_def)
    qed
  qed
qed

lemma inv_step: "step s s' \<Longrightarrow> inv s \<Longrightarrow> inv s'"
proof (induction rule: step.induct)
  case (handle s fd rest r)
  then show ?case by (blast intro: inv_handle)
qed (auto simp: inv_def client_def exit_with_def)

lemma inv_reaches: "reaches s t \<Longrightarrow> inv s \<Longrightarrow> inv t"
  by (induction rule: reaches.induct) (auto intro: inv_step)


lemma echo_step:
  assumes "inv s" "exited s = None" "batch s = []" "edges s = {}" "client s fd" "fd \<notin> hung_up s" "inbox s fd = []" "bs \<noteq> []"
  shows "\<exists>t. reaches s t \<and> exited t = None \<and> batch t = [] \<and> edges t = {} \<and> client t fd \<and>
    echoed t fd = got s fd @ take MAXLINE bs \<and> inbox t fd = drop MAXLINE bs"
proof -
  let ?s1 = "s\<lparr>inbox := (inbox s)(fd := inbox s fd @ bs), got := (got s)(fd := got s fd @ bs), edges := insert fd (edges s)\<rparr>"
  let ?s2 = "?s1\<lparr>batch := [fd], edges := edges ?s1 - set [fd]\<rparr>"
  let ?r = "\<lparr>accept_result = - 1, ctl_result = - 1, read_result = Some (take MAXLINE bs)\<rparr>"
  let ?t = "handle_event ?r fd (?s2\<lparr>batch := []\<rparr>)"
  have fd: "fd \<in> watched s" "fd \<noteq> listen_fd s" "got s fd = echoed s fd"
    using assms(1,5,7) by (auto simp: inv_def client_def)
  have taken: "take MAXLINE bs \<noteq> []"
    using assms(8) by (simp add: MAXLINE_def)
  have "step s ?s1"
    using assms by (intro step.send) auto
  moreover have "step ?s1 ?s2"
    using assms fd inv_room [OF assms(1)] by (intro step.wait) (auto simp: ready_def inv_def)
  moreover have "step ?s2 ?t"
    using assms fd taken by (intro step.handle [where rest = "[]"]) (auto simp: answers_def)
  ultimately have "reaches s ?t"
    by (blast intro: reaches.intros)
  moreover have "exited ?t = None \<and> batch ?t = [] \<and> edges ?t = {} \<and> client ?t fd \<and>
      echoed ?t fd = got s fd @ take MAXLINE bs \<and> inbox ?t fd = drop MAXLINE bs"
    using assms fd taken by (simp add: handle_event_def k_read_def k_write_def client_def min_def)
  ultimately show ?thesis by blast
qed


definition good_calls :: calls where
  "good_calls = \<lparr>setrlimit_result = 0, socket_result = 3, nonblock_result = 0, bind_result = 0, listen_result = 0,
     epoll_create_result = 4, add_result = 0\<rparr>"

text \<open>A server with one connection, on descriptor 5.\<close>

lemma one_client:
  "\<exists>s0 s. start {0, 1, 2} good_calls = Inr s0 \<and> sane {0, 1, 2} good_calls \<and> reaches s0 s \<and> exited s = None \<and>
     batch s = [] \<and> edges s = {} \<and> client s 5 \<and> 5 \<notin> hung_up s \<and> inbox s 5 = [] \<and> got s 5 = []"
proof -
  obtain s0 where s0: "start {0, 1, 2} good_calls = Inr s0"
    by (auto simp: start_def good_calls_def)
  then have state: "s0 = \<lparr>listen_fd = 3, epoll_fd = 4, cur_fds = 1, batch = [], exited = None, fds = {4, 3, 0, 1, 2},
      watched = {3}, edges = {}, backlog = 0, inbox = \<lambda>_. [], hung_up = {}, got = \<lambda>_. [], echoed = \<lambda>_. []\<rparr>"
    by (simp add: start_def good_calls_def)
  let ?s1 = "s0\<lparr>backlog := backlog s0 + 1, edges := insert (listen_fd s0) (edges s0)\<rparr>"
  let ?s2 = "?s1\<lparr>batch := [3], edges := edges ?s1 - set [3]\<rparr>"
  let ?r = "\<lparr>accept_result = 5, ctl_result = 0, read_result = None\<rparr>"
  let ?s3 = "handle_event ?r 3 (?s2\<lparr>batch := []\<rparr>)"
  have "step s0 ?s1"
    by (rule step.connect)
  moreover have "step ?s1 ?s2"
    by (rule step.wait) (auto simp: state ready_def)
  moreover have "step ?s2 ?s3"
    by (rule step.handle [where rest = "[]"]) (auto simp: state answers_def MAXEPOLL_def)
  ultimately have "reaches s0 ?s3"
    by (blast intro: reaches.intros)
  moreover have "exited ?s3 = None \<and> batch ?s3 = [] \<and> edges ?s3 = {} \<and> client ?s3 5 \<and> 5 \<notin> hung_up ?s3 \<and> inbox ?s3 5 = [] \<and> got ?s3 5 = []"
    by (simp add: state handle_event_def k_accept_def k_watch_def MAXEPOLL_def client_def)
  ultimately show ?thesis
    using s0 by (auto simp: sane_def good_calls_def MAXEPOLL_def)
qed



end
