(* ===== verification/CJsonRoundTrip.thy ===== *)
theory CJsonRoundTrip
  imports CJsonPrint Decimal
begin

text \<open>
  What \<open>cJSON_Print\<close> prints is read back: parsing the text of an item, formatted or not, gives an item
  with the same value. The development of the parser says that it is safe; this one says that it understands
  every text the printer makes, with all its escapes and numbers.

  The pieces are the scanner of strings on the escapes of \<open>esc\<close>, the scanner of numbers (\<open>strtod_fmt_g\<close> of the
  theory \<open>Decimal\<close>), and the loops of the two containers on their texts with the white space between the tokens.
\<close>

section \<open>The value of an item\<close>

definition str_text :: "bytes option \<Rightarrow> bytes" where
  "str_text s = (case s of None \<Rightarrow> [] | Some b \<Rightarrow> c_str b)"

definition holds_text :: "bytes option \<Rightarrow> bytes option \<Rightarrow> bool" where
  "holds_text s out \<longleftrightarrow> (case out of None \<Rightarrow> False | Some b \<Rightarrow> terminated b \<and> c_str b = str_text s)"

text \<open>Items with a JSON text: raw items are the caller's text, and the numbers that are not finite are printed as null.\<close>

primrec printable :: "cJSON \<Rightarrow> bool" where
  "printable (Item ty vs vi vd nm ks) \<longleftrightarrow>
     (let kind = ty AND 0xFF
      in kind \<in> {cJSON_NULL, cJSON_False, cJSON_True, cJSON_Number, cJSON_String, cJSON_Array, cJSON_Object} \<and>
         (kind = cJSON_Number \<longrightarrow> finite_dbl vd) \<and>
         (kind \<in> {cJSON_Array, cJSON_Object} \<longrightarrow> list_all id (map printable ks)))"

primrec nest :: "cJSON \<Rightarrow> nat" where
  "nest (Item ty vs vi vd nm ks) =
     (if ty AND 0xFF \<in> {cJSON_Array, cJSON_Object} then Suc (foldr max (map nest ks) 0) else 0)"

text \<open>The second item has the value of the first, in blocks of its own and without flags.\<close>

primrec reads_as :: "cJSON \<Rightarrow> cJSON \<Rightarrow> bool" where
  "reads_as (Item ty vs vi vd nm ks) y \<longleftrightarrow>
     (let kind = ty AND 0xFF
      in itype y = kind \<and>
         (if kind = cJSON_String then holds_text vs (valuestring y) else valuestring y = None) \<and>
         (kind = cJSON_Number \<longrightarrow> valuedouble y = vd \<and> saturated_int vd = Inr (valueint y)) \<and>
         (if kind \<in> {cJSON_Array, cJSON_Object} then list_all2 (\<lambda>r k. r k) (map reads_as ks) (children y)
          else children y = []) \<and>
         (kind = cJSON_Array \<longrightarrow> list_all (\<lambda>k. istring k = None) (children y)) \<and>
         (kind = cJSON_Object \<longrightarrow> list_all2 (\<lambda>k y. holds_text (istring k) (istring y)) ks (children y)))"

section \<open>The text in front of the parser\<close>

definition sees :: "parse_buffer \<Rightarrow> bytes \<Rightarrow> bool" where
  "sees pb s \<longleftrightarrow> pb_wf pb \<and> drop (pb_offset pb) (pb_content pb) = s"

definition move :: "nat \<Rightarrow> parse_buffer \<Rightarrow> parse_buffer" where
  "move n pb = pb\<lparr>pb_offset := pb_offset pb + n\<rparr>"

lemma move_simps [simp]:
  "pb_offset (move n pb) = pb_offset pb + n" "pb_content (move n pb) = pb_content pb"
  "pb_length (move n pb) = pb_length pb" "pb_depth (move n pb) = pb_depth pb"
  "move m (move n pb) = move (n + m) pb" "move 0 pb = pb" "(move n pb)\<lparr>pb_depth := d\<rparr> = move n (pb\<lparr>pb_depth := d\<rparr>)"
  "(move n pb)\<lparr>pb_offset := k\<rparr> = pb\<lparr>pb_offset := k\<rparr>"
  by (simp_all add: move_def)

lemma sees_depth [simp]: "sees (pb\<lparr>pb_depth := d\<rparr>) s = sees pb s"
  by (simp add: sees_def pb_wf_def)

lemma sees_move:
  assumes "sees pb (a @ s)" "s \<noteq> []"
  shows "sees (move (length a) pb) s"
proof -
  have d: "drop (length a) (drop (pb_offset pb) (pb_content pb)) = s"
    using assms(1) by (simp add: sees_def)
  then have "pb_offset pb + length a < length (pb_content pb)"
    using assms(2) by (simp add: add.commute) (metis drop_all linorder_not_le)
  then show ?thesis
    using d assms(1) by (simp add: sees_def pb_wf_def add.commute)
qed

lemma sees_next: "sees pb (b # s) \<Longrightarrow> s \<noteq> [] \<Longrightarrow> sees (move 1 pb) s"
  using sees_move [of pb "[b]" s] by simp

lemma sees_nth:
  assumes "sees pb s" "i < length s"
  shows "byte_at (pb_content pb) (pb_offset pb + i) = Inr (s ! i)"
  using assms by (auto simp: sees_def pb_wf_def byte_at_def)

lemma sees_length: "sees pb s \<Longrightarrow> pb_length pb = pb_offset pb + length s"
  by (auto simp: sees_def pb_wf_def)

lemma sees_at:
  assumes "sees pb (b # s)"
  shows "buffer_at pb 0 = Inr b" "can_access_at_index pb 0"
  using sees_nth [OF assms, of 0] sees_length [OF assms] by (simp_all add: buffer_at_def can_access_at_index_def)

lemma sees_looking: "sees pb s \<Longrightarrow> looking_at pb a \<longleftrightarrow> take (length a) s = a"
  by (auto simp: sees_def looking_at_def)

definition blank :: "bytes \<Rightarrow> bool" where
  "blank w \<longleftrightarrow> (\<forall>b \<in> set w. b \<le> 32)"

lemma skip_blank:
  assumes "sees pb (w @ b # s)" "blank w" "32 < b"
  shows "buffer_skip_whitespace pb = Inr (move (length w) pb)"
proof -
  have "skip_ws_loop pb = Inr (move (length w) pb)"
    using assms(1,2)
  proof (induction w arbitrary: pb)
    case Nil
    then show ?case
      using assms(3) sees_at [of pb b s] by (auto simp: skip_ws_loop.simps [of pb] dest: leD)
  next
    case (Cons a w)
    have "skip_ws_loop (move 1 pb) = Inr (move (length w) (move 1 pb))"
      using Cons.prems by (intro Cons.IH sees_next [of pb a]) (simp_all add: blank_def)
    then show ?case
      using Cons.prems sees_at [of pb a] by (simp add: skip_ws_loop.simps [of pb] blank_def) (simp add: move_def)
  qed
  moreover have "pb_offset (move (length w) pb) < pb_length pb"
    using sees_length [OF assms(1)] by simp
  ultimately show ?thesis
    by (simp add: buffer_skip_whitespace_def)
qed

section \<open>Strings\<close>

lemma byte_32_cases: "(b :: u8) < 32 \<Longrightarrow> b \<in> of_nat ` {0..<32}"
  by (rule image_eqI [of _ _ "unat b"]) (simp_all add: word_less_nat_alt)

lemma escape_cases:
  obtains (plain) "31 < b" "b \<noteq> 0x22" "b \<noteq> 0x5C" "esc b = [b]"
  | (short) e where "short_escape b = Some e" "esc b = [0x5C, e]" "simple_escape e = Some b"
  | (long) "b < 32" "esc b = 0x5C # unicode_escape b" "simple_escape 0x75 = None"
proof (cases "31 < b \<and> b \<noteq> 0x22 \<and> b \<noteq> 0x5C")
  case True
  then show ?thesis
    using plain by (simp add: esc_def)
next
  case no: False
  show ?thesis
  proof (cases "short_escape b")
    case None
    then have "b < 32"
      using no by (auto simp: short_escape_def word_less_nat_alt split: if_splits)
    then show ?thesis
      using no None by (intro long) (auto simp: esc_def simple_escape_def)
  next
    case (Some e)
    then show ?thesis
      using no by (intro short [of e]) (auto simp: esc_def short_escape_def simple_escape_def split: if_splits)
  qed
qed

text \<open>The escapes of the control characters are those of one byte.\<close>

lemma hex4_of_escape:
  assumes "b < 32"
  shows "hex4_digit 0x30 = Some 0" "hex4_digit (lower_hex (drop_bit 4 b)) = Some (ucast (drop_bit 4 b))"
    "hex4_digit (lower_hex (b AND 0xF)) = Some (ucast (b AND 0xF))"
    "push_bit 4 (ucast (drop_bit 4 b)) + ucast (b AND 0xF) = (ucast b :: u32)"
    "utf8_encode (ucast (ucast b :: u32)) = Some [b]" "(ucast b :: u32) < 32"
proof -
  have "list_all (\<lambda>k. let b = of_nat k :: u8 in hex4_digit (lower_hex (drop_bit 4 b)) = Some (ucast (drop_bit 4 b)) \<and>
      hex4_digit (lower_hex (b AND 0xF)) = Some (ucast (b AND 0xF)) \<and>
      push_bit 4 (ucast (drop_bit 4 b)) + ucast (b AND 0xF) = (ucast b :: u32) \<and>
      utf8_encode (ucast (ucast b :: u32)) = Some [b] \<and> (ucast b :: u32) < 32) [0..<32]"
    by code_simp
  then have all: "\<forall>k\<in>{0..<32}. let b = of_nat k :: u8 in hex4_digit (lower_hex (drop_bit 4 b)) = Some (ucast (drop_bit 4 b)) \<and>
      hex4_digit (lower_hex (b AND 0xF)) = Some (ucast (b AND 0xF)) \<and>
      push_bit 4 (ucast (drop_bit 4 b)) + ucast (b AND 0xF) = (ucast b :: u32) \<and>
      utf8_encode (ucast (ucast b :: u32)) = Some [b] \<and> (ucast b :: u32) < 32"
    by (simp only: list_all_iff set_upt)
  from byte_32_cases [OF assms] obtain k where k: "k \<in> {0..<32}" "b = of_nat k"
    by blast
  show "hex4_digit 0x30 = Some 0"
    by (simp add: hex4_digit_def)
  show "hex4_digit (lower_hex (drop_bit 4 b)) = Some (ucast (drop_bit 4 b))"
    "hex4_digit (lower_hex (b AND 0xF)) = Some (ucast (b AND 0xF))"
    "push_bit 4 (ucast (drop_bit 4 b)) + ucast (b AND 0xF) = (ucast b :: u32)"
    "utf8_encode (ucast (ucast b :: u32)) = Some [b]" "(ucast b :: u32) < 32"
    using bspec [OF all k(1)] unfolding Let_def k(2) by blast+
qed

lemma text_nth:
  assumes "drop p c = as @ bs @ cs" "i < length bs"
  shows "byte_at c (p + length as + i) = Inr (bs ! i)"
proof -
  have "length c - p = length as + length bs + length cs"
    using arg_cong [OF assms(1), of length] by simp
  moreover have "drop p c ! (length as + i) = bs ! i"
    using assms by (simp add: nth_append)
  ultimately show ?thesis
    using assms(2) by (simp add: byte_at_def add.assoc)
qed

lemma parse_hex4_escape:
  assumes "b < 32" "drop p c = unicode_escape b @ r"
  shows "parse_hex4 c (p + 1) = Inr (ucast b)"
proof -
  note d = hex4_of_escape [OF assms(1)]
  have at: "byte_at c (p + 1 + i) = Inr ([0x30, 0x30, lower_hex (drop_bit 4 b), lower_hex (b AND 0xF)] ! i)" if "i < 4" for i
    using text_nth [of p c "[0x75]" "[0x30, 0x30, lower_hex (drop_bit 4 b), lower_hex (b AND 0xF)]" r i] assms(2) that
    by (simp add: unicode_escape_def)
  have b: "byte_at c (p + 1) = Inr 0x30" "byte_at c (p + 1 + 1) = Inr 0x30"
      "byte_at c (p + 1 + 2) = Inr (lower_hex (drop_bit 4 b))" "byte_at c (p + 1 + 3) = Inr (lower_hex (b AND 0xF))"
    using at [of 0] at [of 1] at [of 2] at [of 3] by simp_all
  have "parse_hex4_loop c (p + 1) 0 0 = parse_hex4_loop c (p + 1) 1 0"
    using b d(1) by (subst parse_hex4_loop.simps) simp
  also have "\<dots> = parse_hex4_loop c (p + 1) 2 0"
    using b d(1) by (subst parse_hex4_loop.simps) (simp add: numeral_2_eq_2)
  also have "\<dots> = parse_hex4_loop c (p + 1) 3 (push_bit 4 (ucast (drop_bit 4 b)))"
    using b d(2) by (subst parse_hex4_loop.simps) (simp add: numeral_2_eq_2 numeral_3_eq_3)
  also have "\<dots> = parse_hex4_loop c (p + 1) 4 (ucast b)"
    using b d(3,4) by (subst parse_hex4_loop.simps) simp
  also have "\<dots> = Inr (ucast b)"
    by (simp add: parse_hex4_loop.simps)
  finally show ?thesis
    by (simp add: parse_hex4_def)
qed

lemma utf16_escape:
  assumes "b < 32" "drop p c = 0x5C # unicode_escape b @ r" "p + 6 \<le> e"
  shows "utf16_literal_to_utf8 c p e = Inr (6, [b])"
proof -
  have "parse_hex4 c (p + 2) = Inr (ucast b)"
  proof -
    have "drop (Suc p) c = unicode_escape b @ r"
      using assms(2) by (simp add: drop_Suc flip: tl_drop)
    from parse_hex4_escape [OF assms(1) this] show ?thesis
      by simp
  qed
  moreover have "\<not> 0xD800 \<le> (ucast b :: u32)" "\<not> 0xDC00 \<le> (ucast b :: u32)"
    using hex4_of_escape(6) [OF assms(1)] by (simp_all add: word_less_nat_alt word_le_nat_alt)
  ultimately show ?thesis
    using hex4_of_escape(5) [OF assms(1)] assms(3) by (simp add: utf16_literal_to_utf8_def)
qed

text \<open>The first loop of \<open>parse_string\<close> finds the closing quote behind the escaped string.\<close>

definition escapes :: "bytes \<Rightarrow> nat" where
  "escapes s = length (filter (\<lambda>b. \<not> (31 < b \<and> b \<noteq> 0x22 \<and> b \<noteq> 0x5C)) s)"

lemma scan_plain:
  assumes "drop i c = ds @ r" "\<forall>b \<in> set ds. b \<noteq> 0x22 \<and> b \<noteq> 0x5C" "len = length c"
  shows "parse_string_scan c len i k = parse_string_scan c len (i + length ds) k"
  using assms(1,2)
proof (induction ds arbitrary: i)
  case (Cons d ds)
  have b: "byte_at c i = Inr d"
    using text_nth [of i c "[]" "d # ds" r 0] Cons.prems(1) by simp
  have "drop (Suc i) c = ds @ r"
    using Cons.prems(1) by (simp add: drop_Suc flip: tl_drop)
  moreover have "i < len"
    using b assms(3) by (auto simp: byte_at_def split: if_splits)
  ultimately show ?case
    using Cons.IH [of "Suc i"] Cons.prems(2) b by (simp add: parse_string_scan.simps [of c len i])
qed simp

lemma lower_hex_plain: "n < 16 \<Longrightarrow> lower_hex n \<noteq> 0x22 \<and> lower_hex n \<noteq> 0x5C"
  by (drule nibble_cases) (auto simp: lower_hex_def)

lemma scan_escapes:
  assumes "drop i c = concat (map esc s) @ 0x22 # r" "len = length c"
  shows "parse_string_scan c len i k = Inr (Some (i + length (concat (map esc s)), k + escapes s))"
  using assms(1)
proof (induction s arbitrary: i k)
  case Nil
  then have "byte_at c i = Inr 0x22"
    using text_nth [of i c "[]" "[0x22]" r 0] by simp
  moreover from this have "i < len"
    using assms(2) by (auto simp: byte_at_def split: if_splits)
  ultimately show ?case
    by (simp add: parse_string_scan.simps [of c len i] escapes_def)
next
  case (Cons b s)
  have rest: "drop (i + length (esc b)) c = concat (map esc s) @ 0x22 # r"
    using arg_cong [OF Cons.prems, of "drop (length (esc b))"] by (simp add: add.commute)
  note next_bytes = Cons.IH [OF rest]
  show ?case
  proof (cases b rule: escape_cases)
    case plain
    then show ?thesis
      using scan_plain [of i c "[b]" "concat (map esc s) @ 0x22 # r" len k] Cons.prems assms(2) next_bytes
      by (simp add: escapes_def)
  next
    case (short e)
    have not: "\<not> (31 < b \<and> b \<noteq> 0x22 \<and> b \<noteq> 0x5C)"
      using short(1) by (auto simp: short_escape_def split: if_splits)
    have "byte_at c i = Inr 0x5C" "byte_at c (i + 1) = Inr e"
      using text_nth [of i c "[]" "[0x5C, e]" _ 0] text_nth [of i c "[]" "[0x5C, e]" _ 1] Cons.prems short(2) by auto
    then have "parse_string_scan c len i k = parse_string_scan c len (i + 2) (k + 1)"
      using assms(2) by (subst parse_string_scan.simps) (auto simp: byte_at_def split: if_splits)
    then show ?thesis
      using next_bytes [of "k + 1"] short(2) not by (simp add: escapes_def)
  next
    case long
    let ?hex = "[0x30, 0x30, lower_hex (drop_bit 4 b), lower_hex (b AND 0xF)]"
    have not: "\<not> (31 < b \<and> b \<noteq> 0x22 \<and> b \<noteq> 0x5C)"
      using long(1) by (auto simp: word_less_nat_alt)
    have t: "drop i c = [0x5C, 0x75] @ ?hex @ concat (map esc s) @ 0x22 # r"
      using Cons.prems long(2) by (simp add: unicode_escape_def)
    have "byte_at c i = Inr 0x5C" "byte_at c (i + 1) = Inr 0x75"
      using text_nth [of i c "[]" "[0x5C, 0x75]" _ 0] text_nth [of i c "[]" "[0x5C, 0x75]" _ 1] t by auto
    then have "parse_string_scan c len i k = parse_string_scan c len (i + 2) (k + 1)"
      using assms(2) by (subst parse_string_scan.simps) (auto simp: byte_at_def split: if_splits)
    also have "\<dots> = parse_string_scan c len (i + 2 + length ?hex) (k + 1)"
    proof (rule scan_plain)
      show "drop (i + 2) c = ?hex @ concat (map esc s) @ 0x22 # r"
        using arg_cong [OF t, of "drop 2"] by (simp add: add.commute)
    qed (use lower_hex_plain nibble_bounds [of b] assms(2) in auto)
    finally show ?thesis
      using next_bytes [of "k + 1"] long(2) not by (simp add: escapes_def unicode_escape_def)
  qed
qed

lemma length_escs_bound: "length s + escapes s \<le> length (concat (map esc s))"
proof (induction s)
  case (Cons b s)
  then show ?case
    by (cases b rule: escape_cases) (auto simp: escapes_def unicode_escape_def)
qed (simp add: escapes_def)

text \<open>The second loop writes the string back.\<close>

lemma copy_escapes:
  assumes "drop p c = concat (map esc s) @ 0x22 # r" "e = p + length (concat (map esc s))"
    "op + length s \<le> length out"
  shows "parse_string_copy c e p out op = Inr (e, Some (overlay op s out, op + length s))"
  using assms
proof (induction s arbitrary: p op out)
  case Nil
  then show ?case
    by (simp add: parse_string_copy.simps overlay_def)
next
  case (Cons b s)
  have rest: "drop (p + length (esc b)) c = concat (map esc s) @ 0x22 # r"
    using arg_cong [OF Cons.prems(1), of "drop (length (esc b))"] by (simp add: add.commute)
  have step: "overlay (Suc op) s (out[op := b]) = overlay op (b # s) out"
    using Cons.prems(3) by (simp add: overlay_def take_Suc_conv_app_nth)
  have "parse_string_copy c e (p + length (esc b)) (out[op := b]) (Suc op) =
      Inr (e, Some (overlay (Suc op) s (out[op := b]), Suc op + length s))"
    using Cons.prems(2,3) by (intro Cons.IH rest) simp_all
  then have next_bytes: "parse_string_copy c e (p + length (esc b)) (out[op := b]) (op + 1) =
      Inr (e, Some (overlay op (b # s) out, op + length (b # s)))"
    by (simp add: step)
  have put: "put_byte out op x = Inr (out[op := x])" for x
    using Cons.prems(3) by simp
  show ?case
  proof (cases b rule: escape_cases)
    case plain
    have "byte_at c p = Inr b" "p < e"
      using text_nth [of p c "[]" "[b]" _ 0] Cons.prems(1,2) plain(4) by auto
    then show ?thesis
      using next_bytes plain(3,4) put by (simp add: parse_string_copy.simps [of c e p])
  next
    case (short x)
    have "byte_at c p = Inr 0x5C" "byte_at c (p + 1) = Inr x" "p < e"
      using text_nth [of p c "[]" "[0x5C, x]" _ 0] text_nth [of p c "[]" "[0x5C, x]" _ 1] Cons.prems(1,2) short(2) by auto
    then show ?thesis
      using next_bytes short(2,3) put by (simp add: parse_string_copy.simps [of c e p])
  next
    case long
    have "byte_at c p = Inr 0x5C" "byte_at c (p + 1) = Inr 0x75" "p + 6 \<le> e"
      using text_nth [of p c "[]" "0x5C # unicode_escape b" _ 0] text_nth [of p c "[]" "0x5C # unicode_escape b" _ 1]
        Cons.prems(1,2) long(2) by (auto simp: unicode_escape_def)
    moreover have "utf16_literal_to_utf8 c p e = Inr (6, [b])"
      using Cons.prems(1) long(2) calculation(3) by (intro utf16_escape long(1)) simp_all
    moreover have l: "length (esc b) = 6"
      using long(2) by (simp add: unicode_escape_def)
    ultimately show ?thesis
      using next_bytes [unfolded l] long(3) put by (simp add: parse_string_copy.simps [of c e p])
  qed
qed

text \<open>Every allocation succeeds.\<close>

definition plenty :: "heap \<Rightarrow> bool" where
  "plenty h \<longleftrightarrow> (\<forall>k n. grant h k n)"

lemma plenty_allocate:
  assumes "plenty h"
  obtains h' where "allocate n h = (Some (replicate n (fill h)), h')" "plenty h'"
  using assms by (simp add: allocate_def plenty_def)

lemma plenty_new_item:
  assumes "plenty h"
  obtains h' where "cJSON_New_Item h = (Some new_item, h')" "plenty h'"
  using assms by (simp add: cJSON_New_Item_def allocate_def plenty_def)

lemma nul_free_str_text: "nul_free (str_text s)"
  by (cases s) (simp_all add: str_text_def nul_free_c_str)

lemma quoted_text: "quoted s = 0x22 # concat (map esc (str_text s)) @ [0x22]"
  by (simp add: quoted_def str_text_def)

lemma parse_string_quoted:
  assumes "sees pb (quoted s @ r)" "plenty h"
  obtains out h' where "parse_string item pb h = Inr (True, Item cJSON_String (Some out) (valueint item) (valuedouble item)
      (istring item) (children item), move (length (quoted s)) pb, h')"
    "holds_text s (Some out)" "plenty h'"
proof -
  let ?t = "str_text s" and ?c = "pb_content pb" and ?start = "pb_offset pb + 1"
  let ?e = "?start + length (concat (map esc ?t))"
  let ?n = "?e - pb_offset pb - escapes ?t + 1"
  have d: "drop ?start ?c = concat (map esc ?t) @ 0x22 # r"
  proof -
    have "drop (pb_offset pb) ?c = 0x22 # concat (map esc ?t) @ 0x22 # r"
      using assms(1) by (simp add: sees_def quoted_text)
    then show ?thesis
      by (simp add: drop_Suc flip: tl_drop)
  qed
  have len: "pb_length pb = length ?c"
    using assms(1) by (simp add: sees_def pb_wf_def)
  have room: "length ?t + 1 \<le> ?n"
    using length_escs_bound [of ?t] by simp
  obtain h' where h': "allocate ?n h = (Some (replicate ?n (fill h)), h')" "plenty h'"
    using plenty_allocate [OF assms(2)] by metis
  have scan: "parse_string_scan ?c (pb_length pb) ?start 0 = Inr (Some (?e, 0 + escapes ?t))"
    by (rule scan_escapes [OF d len])
  let ?out = "overlay 0 ?t (replicate ?n (fill h))"
  have copy: "parse_string_copy ?c ?e ?start (replicate ?n (fill h)) 0 = Inr (?e, Some (?out, 0 + length ?t))"
    by (rule copy_escapes [OF d refl]) (use room in simp)
  have out: "length ?out = ?n"
    using room by (simp add: length_overlay)
  have str: "holds_text s (Some (?out[length ?t := 0]))"
  proof -
    have "?out[length ?t := 0] = ?t @ 0 # drop (length ?t + 1) (replicate ?n (fill h))"
    proof -
      have "?out = ?t @ drop (length ?t) (replicate ?n (fill h))"
        by (simp add: overlay_def)
      moreover have "drop (length ?t) (replicate ?n (fill h)) = fill h # drop (length ?t + 1) (replicate ?n (fill h))"
        using room by (simp add: Suc_diff_le flip: replicate_Suc)
      ultimately show ?thesis
        by (simp add: list_update_append)
    qed
    then show ?thesis
      using c_str_nul_free [OF nul_free_str_text] by (simp add: holds_text_def terminated_def)
  qed
  have q: "buffer_at pb 0 = Inr 0x22"
    using sees_at(1) [of pb "0x22"] assms(1) by (simp add: quoted_text)
  have move: "pb\<lparr>pb_offset := ?e + 1\<rparr> = move (length (quoted s)) pb"
    by (simp add: move_def quoted_text)
  have "parse_string item pb h = Inr (True, Item cJSON_String (Some (?out[length ?t := 0])) (valueint item) (valuedouble item)
      (istring item) (children item), move (length (quoted s)) pb, h')"
    using q scan h' copy room out unfolding parse_string_def Let_def move [symmetric]
    by (simp del: replicate.simps add: One_nat_def)
  then show ?thesis
    using str h'(2) that by blast
qed

section \<open>Numbers\<close>

lemma number_byte_char: "number_byte b \<Longrightarrow> number_char b"
  by (auto simp: number_byte_def number_char_def is_digit_def)

definition follows :: "bytes \<Rightarrow> bool" where
  "follows r \<longleftrightarrow> (case r of [] \<Rightarrow> False | b # _ \<Rightarrow> \<not> number_char b)"

lemma number_copy_text:
  assumes "sees pb (t @ r)" "follows r" "\<forall>b \<in> set t. number_char b" "length t < 63" "i \<le> length t"
  shows "number_copy pb i = Inr (drop i t)"
  using assms(5)
proof (induction "length t - i" arbitrary: i)
  case 0
  then have i: "i = length t"
    by simp
  obtain b r' where r: "r = b # r'" "\<not> number_char b"
    using assms(2) by (cases r) (auto simp: follows_def)
  have "buffer_at pb i = Inr b"
    using sees_nth [OF assms(1), of i] by (simp add: r i buffer_at_def)
  then show ?case
    using r by (simp add: number_copy.simps [of pb "length t"] i)
next
  case (Suc n)
  have i: "i < length t"
    using Suc.hyps(2) by simp
  then have "buffer_at pb i = Inr (t ! i)" "can_access_at_index pb i"
    using sees_nth [OF assms(1), of i] sees_length [OF assms(1)]
    by (simp_all add: nth_append buffer_at_def can_access_at_index_def)
  moreover have "number_copy pb (Suc i) = Inr (drop (Suc i) t)"
    using Suc.hyps by (intro Suc.hyps(1)) simp_all
  ultimately show ?case
    using assms(3,4) Suc.hyps(2) by (simp add: number_copy.simps [of pb i] Cons_nth_drop_Suc)
qed

lemma strtod_number_text:
  assumes "canonical d" "finite_dbl d"
  shows "strtod (number_text d) = Some (d, [])"
proof -
  have stop: "stops []"
    by (simp add: stops_def)
  obtain d15 where d15: "\<And>r. stops r \<Longrightarrow> strtod (fmt_g 15 d @ r) = Some (d15, r)" "dbl_eq d15 d \<Longrightarrow> d15 = d"
    by (rule strtod_fmt_g [OF assms, of 15]) auto
  obtain d17 where d17: "\<And>r. stops r \<Longrightarrow> strtod (fmt_g 17 d @ r) = Some (d17, r)" "d17 = d"
    by (rule strtod_fmt_g [OF assms, of 17]) auto
  show ?thesis
    using d15(1) [OF stop] d15(2) d17(1) [OF stop] d17(2) assms(2) by (simp add: number_text_def)
qed

lemma number_text_bytes:
  assumes "finite_dbl d"
  shows "\<forall>b \<in> set (number_text d). number_byte b"
  using number_bytes_fmt_g [OF assms] assms by (simp add: number_text_def Let_def split: option.split prod.split)

lemma parse_number_text:
  assumes "sees pb (number_text d @ r)" "follows r" "canonical d" "finite_dbl d"
  obtains i where "parse_number item pb h = Inr (True, Item cJSON_Number (valuestring item) i d (istring item) (children item),
      move (length (number_text d)) pb, h)" "saturated_int d = Inr i"
proof -
  have "length (number_text d) < 63"
    using length_number_text [OF assms(3)] by simp
  then have "number_copy pb 0 = Inr (number_text d)"
    using number_copy_text [OF assms(1,2), of 0] number_text_bytes [OF assms(4)] number_byte_char by auto
  moreover obtain i where "saturated_int d = Inr i"
    using assms(4) by (cases d) (auto simp: saturated_int_def finite_dbl_def Let_def)
  ultimately show ?thesis
    using that strtod_number_text [OF assms(3,4)] by (simp add: parse_number_def move_def)
qed

section \<open>The containers\<close>

text \<open>What is asked of the routine for the values: on the text of an item it makes an item with that value.\<close>

definition reads :: "parser \<Rightarrow> cJSON \<Rightarrow> bytes \<Rightarrow> bool" where
  "reads pv x t \<longleftrightarrow>
     (\<forall>item pb h r. sees pb (t @ r) \<and> follows r \<and> fresh item \<and> item_wf item \<and> plenty h \<and> pb_depth pb + nest x \<le> CJSON_NESTING_LIMIT \<longrightarrow>
        (\<exists>y h'. pv item pb h = Inr (True, y, move (length t) pb, h') \<and> reads_as x y \<and> istring y = istring item \<and> item_wf y \<and> plenty h'))"

lemma readsE:
  assumes "reads pv x t" "sees pb (t @ r)" "follows r" "fresh item" "item_wf item" "plenty h" "pb_depth pb + nest x \<le> CJSON_NESTING_LIMIT"
  obtains y h' where "pv item pb h = Inr (True, y, move (length t) pb, h')" "reads_as x y" "istring y = istring item" "item_wf y" "plenty h'"
  using assms unfolding reads_def by blast

definition starts :: "bytes \<Rightarrow> bool" where
  "starts t \<longleftrightarrow> (case t of [] \<Rightarrow> False | b # _ \<Rightarrow> 32 < b \<and> b < 0x80 \<and> b \<noteq> 0x5D \<and> b \<noteq> 0x7D)"

lemma startsE:
  assumes "starts t"
  obtains b t' where "t = b # t'" "32 < b" "b < 0x80" "b \<noteq> 0x5D" "b \<noteq> 0x7D"
  using assms by (cases t) (auto simp: starts_def)

lemma follows_Cons [simp]: "follows (b # r) = (\<not> number_char b)"
  by (simp add: follows_def)

lemma skip_starts:
  assumes "sees pb (w @ t @ r)" "blank w" "starts t"
  shows "buffer_skip_whitespace pb = Inr (move (length w) pb)" "sees (move (length w) pb) (t @ r)"
  using assms skip_blank [of pb w] sees_move [of pb w "t @ r"] by (auto elim!: startsE)

lemma skip_here:
  assumes "sees pb (b # s)" "32 < b"
  shows "buffer_skip_whitespace pb = Inr pb"
  using skip_blank [of pb "[]" b s] assms by (simp add: blank_def)

lemma move_1: "pb\<lparr>pb_offset := pb_offset pb + 1\<rparr> = move 1 pb" "pb\<lparr>pb_offset := Suc (pb_offset pb)\<rparr> = move 1 pb"
  by (simp_all add: move_def)

lemma new_item_wf: "item_wf new_item"
  by (simp add: new_item_def canonical_def string_ok_def)

lemma array_loop_reads:
  assumes "array_text (map item_text ks) fm d = Some t" "ks \<noteq> []" "length t \<le> n" "length t \<le> N"
    and pv: "\<And>k u. k \<in> set ks \<Longrightarrow> item_text k fm d = Some u \<Longrightarrow> length u \<le> N \<Longrightarrow> reads pv k u \<and> starts u"
    and "sees (move 1 pb) (w @ t @ r)" "blank w" "r \<noteq> []" "plenty h"
    and "\<forall>k \<in> set ks. pb_depth pb + nest k \<le> CJSON_NESTING_LIMIT"
  shows "\<exists>ys h'. parse_array_loop pv n head item pb h = container cJSON_Array item (head @ ys) (move (length w + length t) pb) h' \<and>
     list_all2 reads_as ks ys \<and> list_all (\<lambda>k. istring k = None \<and> item_wf k) ys \<and> plenty h'"
  using assms
proof (induction ks arbitrary: t n pb w h head)
  case (Cons k ks)
  obtain u t' where u: "item_text k fm d = Some u" and t': "array_text (map item_text ks) fm d = Some t'"
    and t: "t = u @ (if ks \<noteq> [] then (if fm then [0x2C, 0x20] else [0x2C]) else []) @ t'"
    using Cons.prems(1) by (auto split: option.splits)
  have ru: "reads pv k u" "starts u"
    using Cons.prems(5) [of k u] Cons.prems(4) u by (simp_all add: t)
  have "u \<noteq> []"
    using ru(2) by (auto simp: starts_def)
  then obtain n' where n: "n = Suc n'"
    using Cons.prems(3) by (cases n) (auto simp: t)
  obtain h1 where h1: "cJSON_New_Item h = (Some new_item, h1)" "plenty h1"
    using plenty_new_item [OF Cons.prems(9)] .
  define tail where "tail = (if ks \<noteq> [] then (if fm then [0x2C, 0x20] else [0x2C]) else []) @ t' @ r"
  have sees1: "sees (move 1 pb) (w @ u @ tail)"
    using Cons.prems(6) by (simp add: t tail_def)
  note skip = skip_starts [OF sees1 Cons.prems(7) ru(2)]
  have last_text: "t' = [0x5D]" if "ks = []"
    using t' that by simp
  obtain b s where tail: "tail = b # s" "b = (if ks \<noteq> [] then 0x2C else 0x5D)" "s \<noteq> []"
    "ks \<noteq> [] \<Longrightarrow> s = (if fm then [0x20] else []) @ t' @ r"
    using Cons.prems(8) last_text by (cases "ks = []") (auto simp: tail_def)
  have b: "32 < b" "\<not> number_char b"
    using tail(2) by (auto simp: number_char_def)
  obtain y h2 where y: "pv new_item (move (length w) (move 1 pb)) h1 = Inr (True, y, move (length u) (move (length w) (move 1 pb)), h2)"
    "reads_as k y" "istring y = None" "item_wf y" "plenty h2"
    by (rule readsE [OF ru(1) skip(2) _ _ new_item_wf h1(2)]) (use b tail Cons.prems(10) new_item_fresh in \<open>auto simp: new_item_def\<close>)
  let ?pb = "move (length u) (move (length w) (move 1 pb))"
  have here: "sees ?pb (b # s)"
    using sees_move [OF skip(2)] tail(1) by simp
  note at = sees_at [OF here]
  have step: "parse_array_loop pv n head item pb h =
      (if ks \<noteq> [] then parse_array_loop pv n' (head @ [y]) item ?pb h2
       else container cJSON_Array item (head @ [y]) ?pb h2)"
    using h1(1) skip(1) y(1) skip_here [OF here b(1)] at tail(2)
    by (auto simp: n parse_array_loop.simps(2) move_1)
  show ?case
  proof (cases "ks = []")
    case True
    have "length t = Suc (length u)"
      using True last_text by (simp add: t)
    then show ?thesis
      using step True y by (intro exI [of _ "[y]"] exI [of _ h2]) (simp add: ac_simps)
  next
    case False
    have "\<exists>ys h'. parse_array_loop pv n' (head @ [y]) item ?pb h2 =
        container cJSON_Array item ((head @ [y]) @ ys) (move (length (if fm then [0x20 :: u8] else []) + length t') ?pb) h' \<and>
        list_all2 reads_as ks ys \<and> list_all (\<lambda>k. istring k = None \<and> item_wf k) ys \<and> plenty h'"
    proof (rule Cons.IH [OF t' False])
      show "sees (move 1 ?pb) ((if fm then [0x20] else []) @ t' @ r)"
        using sees_next [OF here tail(3)] tail(4) [OF False] by simp
      show "length t' \<le> n'" "length t' \<le> N"
        using Cons.prems(3,4) n False by (auto simp: t split: if_splits)
    qed (use Cons.prems y(5) in \<open>auto simp: blank_def\<close>)
    then obtain ys h' where ys: "parse_array_loop pv n' (head @ [y]) item ?pb h2 =
        container cJSON_Array item ((head @ [y]) @ ys) (move (length (if fm then [0x20 :: u8] else []) + length t') ?pb) h'"
        "list_all2 reads_as ks ys" "list_all (\<lambda>k. istring k = None \<and> item_wf k) ys" "plenty h'"
      by blast
    have "length t = length u + (1 + length (if fm then [0x20 :: u8] else [])) + length t'"
      using False by (simp add: t)
    then show ?thesis
      using step False y ys by (intro exI [of _ "y # ys"] exI [of _ h']) (simp add: ac_simps)
  qed
qed simp

definition indent :: "bool \<Rightarrow> nat \<Rightarrow> bytes" where
  "indent fm d = (if fm then tabs d else [])"

lemma blank_simps [simp]:
  "blank []" "blank (a @ b) = (blank a \<and> blank b)" "blank (indent fm d)" "blank [0x0A]" "blank [0x20]" "blank [0x09]"
  by (auto simp: blank_def indent_def tabs_def)

lemma starts_quoted: "starts (quoted s)"
  by (simp add: starts_def quoted_text)

lemma object_loop_reads:
  assumes "object_text (map (\<lambda>k. (istring k, item_text k)) ks) fm d = Some (indent fm d @ t)" "ks \<noteq> []"
    "length t \<le> n" "length t \<le> N"
    and pv: "\<And>k u. k \<in> set ks \<Longrightarrow> item_text k fm d = Some u \<Longrightarrow> length u \<le> N \<Longrightarrow> reads pv k u \<and> starts u"
    and "sees (move 1 pb) (w @ t @ r)" "blank w" "r \<noteq> []" "plenty h"
    and "\<forall>k \<in> set ks. pb_depth pb + nest k \<le> CJSON_NESTING_LIMIT"
  shows "\<exists>ys h'. parse_object_loop pv n head item pb h = container cJSON_Object item (head @ ys) (move (length w + length t) pb) h' \<and>
     list_all2 reads_as ks ys \<and> list_all2 (\<lambda>k y. holds_text (istring k) (istring y)) ks ys \<and> list_all item_wf ys \<and> plenty h'"
  using assms
proof (induction ks arbitrary: t n pb w h head)
  case (Cons k ks)
  let ?nl = "if fm then [0x0A :: u8] else []" and ?tab = "if fm then [0x09 :: u8] else []"
  let ?name = "quoted (istring k)"
  obtain u T where u: "item_text k fm d = Some u" and T: "object_text (map (\<lambda>k. (istring k, item_text k)) ks) fm d = Some T"
    and t: "t = ?name @ 0x3A # ?tab @ u @ (if ks \<noteq> [] then [0x2C] else []) @ ?nl @ T"
    using Cons.prems(1) by (auto simp: indent_def split: option.splits if_splits)
  have ru: "reads pv k u" "starts u"
    using Cons.prems(5) [of k u] Cons.prems(4) u by (simp_all add: t)
  have "t \<noteq> []"
    by (simp add: t)
  then obtain n' where n: "n = Suc n'"
    using Cons.prems(3) by (cases n) simp_all
  obtain h1 where h1: "cJSON_New_Item h = (Some new_item, h1)" "plenty h1"
    using plenty_new_item [OF Cons.prems(9)] .
  have T_first: "T = indent fm (d - 1) @ [0x7D]" if "ks = []"
    using T that by (auto simp: indent_def)
  obtain T' where T_next: "T = indent fm d @ T'" if "ks \<noteq> []"
  proof (cases ks)
    case (Cons k' ks')
    then show thesis
      using T that by (auto simp: indent_def split: option.splits if_splits)
  qed (use that in simp)
  define tail where "tail = (if ks \<noteq> [] then [0x2C] else []) @ ?nl @ T @ r"
  define w' where "w' = (if ks \<noteq> [] then [] else ?nl @ indent fm (d - 1))"
  obtain b s where tail: "tail = w' @ b # s" "b = (if ks \<noteq> [] then 0x2C else 0x7D)" "s \<noteq> []"
    "ks \<noteq> [] \<Longrightarrow> s = (?nl @ indent fm d) @ T' @ r"
    using Cons.prems(8) T_first T_next by (cases "ks = []") (auto simp: tail_def w'_def)
  have w': "blank w'"
    by (simp add: w'_def)
  have b: "32 < b"
    using tail(2) by auto
  have ft: "follows tail"
    using tail(1,2) by (auto simp: w'_def indent_def tabs_def number_char_def follows_def split: nat.split)
  have sees1: "sees (move 1 pb) (w @ ?name @ 0x3A # ?tab @ u @ tail)"
    using Cons.prems(6) by (simp add: t tail_def)
  obtain pb1 where pb1: "pb1 = move (length w) (move 1 pb)"
    by blast
  note skip1 = skip_starts [OF sees1 Cons.prems(7) starts_quoted, folded pb1]
  obtain out h2 where name: "parse_string new_item pb1 h1 = Inr (True, Item cJSON_String (Some out) (valueint new_item)
      (valuedouble new_item) (istring new_item) (children new_item), move (length ?name) pb1, h2)"
      "holds_text (istring k) (Some out)" "plenty h2"
    by (rule parse_string_quoted [OF skip1(2) h1(2)])
  obtain pb2 where pb2: "pb2 = move (length ?name) pb1"
    by blast
  let ?cur = "Item cJSON_String None (valueint new_item) (valuedouble new_item) (Some out) (children new_item)"
  have colon: "sees pb2 (0x3A # ?tab @ u @ tail)"
    using sees_move [OF skip1(2)] by (simp add: pb2)
  have tailne: "tail \<noteq> []"
    by (simp add: tail(1))
  have sees3: "sees (move 1 pb2) (?tab @ u @ tail)"
    using tailne by (intro sees_next [OF colon]) simp
  have "blank ?tab"
    by simp
  obtain pb3 where pb3: "pb3 = move (length ?tab) (move 1 pb2)"
    by blast
  have skip3: "buffer_skip_whitespace (move 1 pb2) = Inr pb3" "sees pb3 (u @ tail)"
    using skip_starts [OF sees3 \<open>blank ?tab\<close> ru(2)] by (simp_all add: pb3)
  have cur_wf: "item_wf ?cur"
    using name(2) new_item_wf by (simp add: new_item_def string_ok_def holds_text_def)
  have fresh: "fresh ?cur"
    by (simp add: fresh_def new_item_def cJSON_types cJSON_flags)
  obtain y h3 where y: "pv ?cur pb3 h2 = Inr (True, y, move (length u) pb3, h3)" "reads_as k y" "istring y = Some out" "item_wf y" "plenty h3"
    by (rule readsE [OF ru(1) skip3(2) ft fresh cur_wf name(3)]) (use Cons.prems(10) in \<open>auto simp: pb1 pb2 pb3\<close>)
  obtain pb4 where pb4: "pb4 = move (length u) pb3"
    by blast
  have sees4: "sees pb4 (w' @ b # s)"
    using sees_move [OF skip3(2) tailne] tail(1) by (simp add: pb4)
  obtain pb5 where pb5: "pb5 = move (length w') pb4"
    by blast
  have skip4: "buffer_skip_whitespace pb4 = Inr pb5" and here: "sees pb5 (b # s)"
    using skip_blank [OF sees4 w' b] sees_move [OF sees4] by (simp_all add: pb5)
  have end_pos: "pb5 = move (length w + (length ?name + (1 + length ?tab) + length u + length w' + 1)) pb"
    by (simp add: pb1 pb2 pb3 pb4 pb5 ac_simps)
  note at1 = sees_at [OF colon] and at2 = sees_at [OF here]
  have step: "parse_object_loop pv n head item pb h =
      (if ks \<noteq> [] then parse_object_loop pv n' (head @ [y]) item pb5 h3
       else container cJSON_Object item (head @ [y]) pb5 h3)"
    using h1(1) skip1(1) name(1) skip_here [OF colon] skip3(1) y(1) skip4 at1 at2 tail(2)
    by (simp add: n parse_object_loop.simps(2) move_1 name_from_value_def Let_def flip: pb2 pb4)
  show ?case
  proof (cases "ks = []")
    case True
    have "length t = length ?name + (1 + length ?tab) + length u + length w' + 1"
      using True T_first by (simp add: t w'_def)
    then show ?thesis
      using step True y name(2) by (intro exI [of _ "[y]"] exI [of _ h3]) (simp add: end_pos)
  next
    case False
    have "\<exists>ys h'. parse_object_loop pv n' (head @ [y]) item pb5 h3 =
        container cJSON_Object item ((head @ [y]) @ ys) (move (length (?nl @ indent fm d) + length T') pb5) h' \<and>
        list_all2 reads_as ks ys \<and> list_all2 (\<lambda>k y. holds_text (istring k) (istring y)) ks ys \<and> list_all item_wf ys \<and> plenty h'"
    proof (rule Cons.IH)
      show "object_text (map (\<lambda>k. (istring k, item_text k)) ks) fm d = Some (indent fm d @ T')"
        using T T_next [OF False] by simp
      show "sees (move 1 pb5) ((?nl @ indent fm d) @ T' @ r)"
        using sees_next [OF here tail(3)] tail(4) [OF False] by simp
      show "length T' \<le> n'" "length T' \<le> N"
        using Cons.prems(3,4) n by (simp_all add: t T_next [OF False])
    qed (use Cons.prems(5,8,10) False y(5) in \<open>auto simp: end_pos\<close>)
    then obtain ys h' where ys: "parse_object_loop pv n' (head @ [y]) item pb5 h3 =
        container cJSON_Object item ((head @ [y]) @ ys) (move (length (?nl @ indent fm d) + length T') pb5) h'"
        "list_all2 reads_as ks ys" "list_all2 (\<lambda>k y. holds_text (istring k) (istring y)) ks ys" "list_all item_wf ys" "plenty h'"
      by blast
    have "length t = length ?name + (1 + length ?tab) + length u + length w' + 1 + length (?nl @ indent fm d) + length T'"
      using False T_next by (simp add: t w'_def)
    then show ?thesis
      using step False y name(2) ys by (intro exI [of _ "y # ys"] exI [of _ h']) (simp add: end_pos add.assoc)
  qed
qed simp

section \<open>Values\<close>

lemma kind_cases:
  assumes "k \<in> {cJSON_NULL, cJSON_False, cJSON_True, cJSON_Number, cJSON_String, cJSON_Array, cJSON_Object}"
  obtains "k = 4" | "k = 1" | "k = 2" | "k = 8" | "k = 16" | "k = 32" | "k = 64"
  using assms by (auto simp: cJSON_types)

lemma number_text_starts:
  assumes "finite_dbl d"
  obtains b s where "number_text d = b # s" "b = 0x2D \<or> (0x30 \<le> b \<and> b \<le> 0x39)"
proof -
  have digits: "\<exists>b s. dec_digits k n = b # s \<and> is_digit b" if "0 < k" for k n
    using dec_digits_digits [of k n] length_dec_digits [of k n] that by (cases "dec_digits k n") auto
  have lay: "\<exists>b s. layout_g P (dec_digits P D) x = b # s \<and> is_digit b" if "0 < P" for P D x
    using digits [OF that, of D] by (auto simp: layout_g_def is_digit_def)
  have "\<exists>b s. fmt_g P d = b # s \<and> (b = 0x2D \<or> is_digit b)" if "0 < P" for P
  proof -
    have "is_digit 0x30"
      by (simp add: is_digit_def)
    then show ?thesis
      using assms lay [OF that] by (cases d) (simp_all add: fmt_g_def finite_dbl_def split: prod.split, blast)
  qed
  then have "\<exists>b s. number_text d = b # s \<and> (b = 0x2D \<or> is_digit b)"
    using assms by (auto simp: number_text_def Let_def split: option.split)
  then show ?thesis
    using that by (auto simp: is_digit_def)
qed

lemma item_text_starts:
  assumes "item_text x fm d = Some t" "printable x"
  shows "starts t"
proof (cases x)
  case (Item ty vs vi vd nm ks)
  have "ty AND 0xFF \<in> {cJSON_NULL, cJSON_False, cJSON_True, cJSON_Number, cJSON_String, cJSON_Array, cJSON_Object}"
    using assms(2) by (simp add: Item Let_def)
  then show ?thesis
  proof (cases rule: kind_cases)
    case 4
    then have "finite_dbl vd" "t = number_text vd"
      using assms by (simp_all add: Item cJSON_types)
    then show ?thesis
      by (auto simp: starts_def word_less_nat_alt word_le_nat_alt elim!: number_text_starts)
  qed (use assms in \<open>auto simp: Item cJSON_types s_null_def s_false_def s_true_def quoted_text starts_def\<close>)
qed

lemma parse_value_other:
  assumes "sees pb (b # s)" "b \<noteq> 0x6E" "b \<noteq> 0x66" "b \<noteq> 0x74"
  shows "parse_value (Suc n) item pb h =
    (if b = 0x22 then parse_string item pb h
     else if b = 0x2D \<or> (0x30 \<le> b \<and> b \<le> 0x39) then parse_number item pb h
     else if b = 0x5B then parse_array (parse_value n) n item pb h
     else if b = 0x7B then parse_object (parse_value n) n item pb h
     else Inr (False, item, pb, h))"
proof -
  have "\<not> looking_at pb s_null" "\<not> looking_at pb s_false" "\<not> looking_at pb s_true"
    using assms by (auto simp: sees_looking [OF assms(1)] s_null_def s_false_def s_true_def)
  then show ?thesis
    using sees_at [OF assms(1)] by (simp add: parse_value.simps)
qed

lemma nest_le: "k \<in> set ks \<Longrightarrow> nest k \<le> foldr max (map nest ks) 0"
  by (induction ks) auto

lemma move_depth: "(move n pb)\<lparr>pb_depth := d, pb_offset := k\<rparr> = pb\<lparr>pb_depth := d, pb_offset := k\<rparr>"
  by (simp add: move_def)

lemma parse_array_text:
  assumes "array_text (map item_text ks) fm d = Some t" "length t \<le> n"
    and pv: "\<And>k u. k \<in> set ks \<Longrightarrow> item_text k fm d = Some u \<Longrightarrow> length u \<le> n \<Longrightarrow> reads pv k u \<and> starts u"
    and "sees pb (0x5B # t @ r)" "r \<noteq> []" "plenty h" "pb_depth pb + Suc (foldr max (map nest ks) 0) \<le> CJSON_NESTING_LIMIT"
  obtains ys h' where "parse_array pv n item pb h =
      Inr (True, Item cJSON_Array (valuestring item) (valueint item) (valuedouble item) (istring item) ys,
        move (Suc (length t)) pb, h')"
    "list_all2 reads_as ks ys" "list_all (\<lambda>k. istring k = None \<and> item_wf k) ys" "plenty h'"
proof -
  let ?pb = "pb\<lparr>pb_depth := Suc (pb_depth pb)\<rparr>"
  have s0: "sees ?pb (0x5B # t @ r)"
    using assms(4) by simp
  have s1: "sees (move 1 ?pb) (t @ r)"
    by (rule sees_next [OF s0]) (simp add: assms(5))
  have deep: "\<not> CJSON_NESTING_LIMIT \<le> pb_depth pb"
    using assms(7) by simp
  have "starts t" if "ks \<noteq> []"
  proof (cases ks)
    case (Cons k ks')
    then obtain u where "item_text k fm d = Some u" "u @ drop (length u) t = t" "length u \<le> length t"
      using assms(1) by (auto split: option.splits)
    then show ?thesis
      using pv [of k u] Cons assms(2) by (cases u) (auto simp: starts_def split: list.splits)
  qed (use that in simp)
  then obtain b s where b: "t @ r = b # s" "32 < b" "b = 0x5D \<longleftrightarrow> ks = []"
    using assms(1) by (cases "ks = []") (auto simp: starts_def split: list.splits)
  have s2: "sees (move 1 ?pb) (b # s)"
    using s1 b(1) by simp
  note at = sees_at [OF s0] sees_at [OF s2]
  have run: "parse_array pv n item pb h =
      (if ks = [] then container cJSON_Array item [] (move 1 ?pb) h else parse_array_loop pv n [] item ?pb h)"
    using deep at skip_here [OF s2 b(2)] b(3) by (simp add: parse_array_def Let_def move_1) (simp add: move_def)
  show ?thesis
  proof (cases "ks = []")
    case True
    then have "t = [0x5D]"
      using assms(1) by simp
    then show ?thesis
      using True assms(6) run by (intro that [of "[]" h]) (simp_all add: container_def move_def)
  next
    case False
    have "\<exists>ys h'. parse_array_loop pv n [] item ?pb h = container cJSON_Array item ([] @ ys) (move (length ([] :: bytes) + length t) ?pb) h' \<and>
        list_all2 reads_as ks ys \<and> list_all (\<lambda>k. istring k = None \<and> item_wf k) ys \<and> plenty h'"
    proof (rule array_loop_reads [OF assms(1) False assms(2,2) pv])
      show "sees (move 1 ?pb) ([] @ t @ r)"
        using s1 by simp
      show "\<forall>k \<in> set ks. pb_depth ?pb + nest k \<le> CJSON_NESTING_LIMIT"
        using assms(7) nest_le [of _ ks] by fastforce
    qed (use assms in auto)
    then obtain ys h' where ys: "parse_array_loop pv n [] item ?pb h = container cJSON_Array item ys (move (length t) ?pb) h'"
        "list_all2 reads_as ks ys" "list_all (\<lambda>k. istring k = None \<and> item_wf k) ys" "plenty h'"
      by auto
    show ?thesis
      using run False ys by (intro that [of ys h']) (simp_all add: container_def move_def)
  qed
qed

lemma parse_object_text:
  assumes "object_text (map (\<lambda>k. (istring k, item_text k)) ks) fm d = Some t" "length t \<le> n"
    and pv: "\<And>k u. k \<in> set ks \<Longrightarrow> item_text k fm d = Some u \<Longrightarrow> length u \<le> n \<Longrightarrow> reads pv k u \<and> starts u"
    and "sees pb ((if fm then [0x7B, 0x0A] else [0x7B]) @ t @ r)" "r \<noteq> []" "plenty h"
    and "pb_depth pb + Suc (foldr max (map nest ks) 0) \<le> CJSON_NESTING_LIMIT"
  obtains ys h' where "parse_object pv n item pb h =
      Inr (True, Item cJSON_Object (valuestring item) (valueint item) (valuedouble item) (istring item) ys,
        move (length (if fm then [0x7B, 0x0A :: u8] else [0x7B]) + length t) pb, h')"
    "list_all2 reads_as ks ys" "list_all2 (\<lambda>k y. holds_text (istring k) (istring y)) ks ys" "list_all item_wf ys" "plenty h'"
proof -
  let ?pb = "pb\<lparr>pb_depth := Suc (pb_depth pb)\<rparr>" and ?nl = "if fm then [0x0A :: u8] else []"
  have s0: "sees ?pb (0x7B # ?nl @ t @ r)"
    using assms(4) by (simp split: if_splits)
  have s1: "sees (move 1 ?pb) (?nl @ t @ r)"
    by (rule sees_next [OF s0]) (simp add: assms(5))
  have deep: "\<not> CJSON_NESTING_LIMIT \<le> pb_depth pb"
    using assms(7) by simp
  define e where "e = (if ks = [] then d - 1 else d)"
  obtain t' where t': "t = indent fm e @ t'" "ks \<noteq> [] \<or> t' = [0x7D]" "ks \<noteq> [] \<longrightarrow> starts t' \<and> hd t' = 0x22"
  proof (cases ks)
    case Nil
    then show thesis
      using assms(1) that [of "[0x7D]"] by (auto simp: indent_def e_def)
  next
    case (Cons k ks')
    then obtain u where "t = indent fm d @ quoted (istring k) @ u"
      using assms(1) by (auto simp: indent_def split: option.splits if_splits)
    then show thesis
      using that [of "quoted (istring k) @ u"] Cons by (simp add: e_def starts_def quoted_text)
  qed
  let ?w = "?nl @ indent fm e"
  obtain b s where b: "t' @ r = b # s" "32 < b" "b = 0x7D \<longleftrightarrow> ks = []"
    using t'(2,3) by (cases "ks = []") (auto simp: starts_def split: list.splits)
  have s2: "sees (move 1 ?pb) (?w @ b # s)"
    using s1 b(1) by (simp add: t'(1))
  have s3: "sees (move (length ?w) (move 1 ?pb)) (b # s)"
    using sees_move [OF s2] by simp
  have skip: "buffer_skip_whitespace (move 1 ?pb) = Inr (move (length ?w) (move 1 ?pb))"
    by (rule skip_blank [OF s2 _ b(2)]) simp
  obtain pb2 where pb2: "pb2 = move (length ?w) (move 1 ?pb)"
    by blast
  have returned: "pb2\<lparr>pb_offset := pb_offset pb2 - 1\<rparr> = move (length ?w) ?pb"
    by (simp add: pb2 move_def)
  have skip': "buffer_skip_whitespace (?pb\<lparr>pb_offset := Suc (pb_offset pb)\<rparr>) = Inr pb2"
    using skip [folded pb2] by (simp add: move_def)
  note at = sees_at [OF s0] sees_at [OF s3 [folded pb2]]
  have run: "parse_object pv n item pb h =
      (if ks = [] then container cJSON_Object item [] pb2 h else parse_object_loop pv n [] item (move (length ?w) ?pb) h)"
    using deep at skip' b(3) returned by (simp add: parse_object_def Let_def)
  have head: "length (if fm then [0x7B, 0x0A :: u8] else [0x7B]) = Suc (length ?nl)"
    by simp
  show ?thesis
  proof (cases "ks = []")
    case True
    then show ?thesis
      using assms(6) run t'(1,2) unfolding head
      by (intro that [of "[]" h]) (simp_all add: container_def move_def pb2 True)
  next
    case False
    have "\<exists>ys h'. parse_object_loop pv n [] item (move (length ?w) ?pb) h =
        container cJSON_Object item ([] @ ys) (move (length ([] :: bytes) + length t') (move (length ?w) ?pb)) h' \<and>
        list_all2 reads_as ks ys \<and> list_all2 (\<lambda>k y. holds_text (istring k) (istring y)) ks ys \<and> list_all item_wf ys \<and> plenty h'"
    proof (rule object_loop_reads [OF _ False _ _ pv])
      show "object_text (map (\<lambda>k. (istring k, item_text k)) ks) fm d = Some (indent fm d @ t')"
        using assms(1) t'(1) False by (simp add: e_def)
      show "sees (move 1 (move (length ?w) ?pb)) ([] @ t' @ r)"
        using s3 b(1) by (simp add: add.commute)
      show "\<forall>k \<in> set ks. pb_depth (move (length ?w) ?pb) + nest k \<le> CJSON_NESTING_LIMIT"
        using assms(7) nest_le [of _ ks] by fastforce
      show "length t' \<le> n" "length t' \<le> n"
        using assms(2) by (simp_all add: t'(1))
    qed (use assms in auto)
    then obtain ys h' where ys: "parse_object_loop pv n [] item (move (length ?w) ?pb) h =
        container cJSON_Object item ys (move (length ?w + length t') ?pb) h'"
        "list_all2 reads_as ks ys" "list_all2 (\<lambda>k y. holds_text (istring k) (istring y)) ks ys" "list_all item_wf ys" "plenty h'"
      by auto
    show ?thesis
      unfolding head using run False ys t'(1) by (intro that [of ys h']) (simp_all add: container_def move_def)
  qed
qed

lemma parse_value_text:
  "item_text x fm d = Some t \<Longrightarrow> printable x \<Longrightarrow> item_wf x \<Longrightarrow> length t \<le> n \<Longrightarrow> reads (parse_value n) x t"
proof (induction x arbitrary: d t n)
  case (Item ty vs vi vd nm ks)
  let ?x = "Item ty vs vi vd nm ks"
  have st: "starts t"
    using item_text_starts Item.prems(1,2) by blast
  then obtain m where n: "n = Suc m"
    using Item.prems(4) by (cases n) (auto simp: starts_def)
  have kind: "ty AND 0xFF \<in> {cJSON_NULL, cJSON_False, cJSON_True, cJSON_Number, cJSON_String, cJSON_Array, cJSON_Object}"
    using Item.prems(2) by (simp add: Let_def)
  have kids: "reads (parse_value m) k u \<and> starts u"
    if "k \<in> set ks" "item_text k fm e = Some u" "length u \<le> m" "ty AND 0xFF \<in> {cJSON_Array, cJSON_Object}" for k e u
    using that Item.IH [of k e u m] Item.prems(2,3) item_text_starts [of k fm e u] by (auto simp: list_all_iff Let_def)
  show ?case
    unfolding reads_def
  proof (intro allI impI, elim conjE)
    fix item pb h r
    assume pb: "sees pb (t @ r)" "follows r" and item: "fresh item" "item_wf item" and h: "plenty h"
      and deep: "pb_depth pb + nest ?x \<le> CJSON_NESTING_LIMIT"
    have r: "r \<noteq> []"
      using pb(2) by (auto simp: follows_def)
    have fresh: "valuestring item = None" "children item = []"
      using item(1) by (simp_all add: fresh_def)
    have wf: "canonical (valuedouble item)" "string_ok (istring item)" "string_ok None"
      using item(2) by (cases item; simp add: string_ok_def)+
    note kinds = kind_cases [OF kind]
    show "\<exists>y h'. parse_value n item pb h = Inr (True, y, move (length t) pb, h') \<and> reads_as ?x y \<and> istring y = istring item \<and> item_wf y \<and> plenty h'"
      using kind
    proof (cases rule: kind_cases)
      case 1
      then have "t = s_null"
        using Item.prems(1) by (simp add: cJSON_types)
      then show ?thesis
        using pb(1) sees_length [OF pb(1)] 1 fresh wf h
        by (simp add: n parse_value.simps sees_looking can_read_def s_null_def set_type_def cJSON_types move_def)
    next
      case 2
      then have "t = s_false"
        using Item.prems(1) by (simp add: cJSON_types)
      then show ?thesis
        using pb(1) sees_length [OF pb(1)] 2 fresh wf h
        by (simp add: n parse_value.simps sees_looking can_read_def s_null_def s_false_def set_type_def cJSON_types move_def)
    next
      case 3
      then have "t = s_true"
        using Item.prems(1) by (simp add: cJSON_types)
      then show ?thesis
        using pb(1) sees_length [OF pb(1)] 3 fresh wf h
        by (simp add: n parse_value.simps sees_looking can_read_def s_null_def s_false_def s_true_def cJSON_types move_def)
    next
      case 4
      then have vd: "finite_dbl vd" "canonical vd" and t: "t = number_text vd"
        using Item.prems(1-3) by (simp_all add: cJSON_types)
      obtain b s where b: "number_text vd = b # s" "b = 0x2D \<or> (0x30 \<le> b \<and> b \<le> 0x39)"
        by (rule number_text_starts [OF vd(1)])
      have "b \<noteq> 0x6E" "b \<noteq> 0x66" "b \<noteq> 0x74" "b \<noteq> 0x22"
        using b(2) by auto
      then have "parse_value n item pb h = parse_number item pb h"
        using parse_value_other [of pb b "s @ r" m] pb(1) b by (simp add: n t)
      moreover obtain i where "parse_number item pb h = Inr (True, Item cJSON_Number (valuestring item) i vd (istring item) (children item),
          move (length (number_text vd)) pb, h)" "saturated_int vd = Inr i"
        by (rule parse_number_text [OF _ pb(2) vd(2,1)]) (use pb(1) in \<open>simp add: t\<close>)
      ultimately show ?thesis
        using 4 fresh wf vd h by (simp add: t cJSON_types)
    next
      case 5
      then have t: "t = quoted vs"
        using Item.prems(1) by (simp add: cJSON_types)
      have "parse_value n item pb h = parse_string item pb h"
        using parse_value_other [of pb "0x22"] pb(1) by (simp add: n t quoted_text)
      moreover obtain out h' where "parse_string item pb h = Inr (True, Item cJSON_String (Some out) (valueint item) (valuedouble item)
          (istring item) (children item), move (length (quoted vs)) pb, h')" "holds_text vs (Some out)" "plenty h'"
        by (rule parse_string_quoted [OF _ h]) (use pb(1) in \<open>simp add: t\<close>)
      ultimately show ?thesis
        using 5 fresh wf by (simp add: t cJSON_types holds_text_def string_ok_def)
    next
      case 6
      then obtain t' where t: "t = 0x5B # t'" and t': "array_text (map item_text ks) fm (d + 1) = Some t'"
        using Item.prems(1) by (auto simp: cJSON_types comp_def)
      have run: "parse_value n item pb h = parse_array (parse_value m) m item pb h"
        using parse_value_other [of pb "0x5B"] pb(1) by (simp add: n t)
      obtain ys h' where "parse_array (parse_value m) m item pb h =
          Inr (True, Item cJSON_Array (valuestring item) (valueint item) (valuedouble item) (istring item) ys,
            move (Suc (length t')) pb, h')" "list_all2 reads_as ks ys" "list_all (\<lambda>k. istring k = None \<and> item_wf k) ys" "plenty h'"
        by (rule parse_array_text [OF t' _ _ _ r h])
          (use kids 6 pb(1) Item.prems(4) deep in \<open>simp_all add: t n cJSON_types\<close>)
      then show ?thesis
        using 6 fresh wf run by (simp add: t cJSON_types list.rel_map list_all_iff)
    next
      case 7
      then obtain t' where t: "t = (if fm then [0x7B, 0x0A] else [0x7B]) @ t'"
        and t': "object_text (map (\<lambda>k. (istring k, item_text k)) ks) fm (d + 1) = Some t'"
        using Item.prems(1) by (auto simp: cJSON_types)
      have run: "parse_value n item pb h = parse_object (parse_value m) m item pb h"
        using parse_value_other [of pb "0x7B"] pb(1) by (auto simp add: n t split: if_splits)
      obtain ys h' where "parse_object (parse_value m) m item pb h =
          Inr (True, Item cJSON_Object (valuestring item) (valueint item) (valuedouble item) (istring item) ys,
            move (length (if fm then [0x7B, 0x0A :: u8] else [0x7B]) + length t') pb, h')"
          "list_all2 reads_as ks ys" "list_all2 (\<lambda>k y. holds_text (istring k) (istring y)) ks ys" "list_all item_wf ys" "plenty h'"
        by (rule parse_object_text [OF t' _ _ _ r h])
          (use kids 7 pb(1) Item.prems(4) deep in \<open>simp_all add: t n cJSON_types split: if_splits\<close>)
      then show ?thesis
        using 7 fresh wf run by (simp add: t cJSON_types list.rel_map list_all_iff)
    qed
  qed
qed

section \<open>Properties\<close>

text \<open>Items with the same value have the same text.\<close>

lemma holds_text_str_text: "holds_text s out \<Longrightarrow> str_text out = str_text s"
  by (cases out) (simp_all add: holds_text_def str_text_def)

lemma array_text_cong: "list_all2 (\<lambda>k y. item_text y fm d = item_text k fm d) ks ys \<Longrightarrow>
    array_text (map item_text ys) fm d = array_text (map item_text ks) fm d"
  by (induction rule: list_all2_induct) (auto split: option.split)

lemma object_text_cong:
  assumes "list_all2 (\<lambda>k y. item_text y fm d = item_text k fm d) ks ys"
    and "list_all2 (\<lambda>k y. holds_text (istring k) (istring y)) ks ys"
  shows "object_text (map (\<lambda>k. (istring k, item_text k)) ys) fm d = object_text (map (\<lambda>k. (istring k, item_text k)) ks) fm d"
  using assms
proof (induction rule: list_all2_induct)
  case (Cons k ks y ys)
  have "quoted (istring y) = quoted (istring k)"
    using Cons.prems holds_text_str_text [of "istring k" "istring y"] by (simp add: quoted_text)
  then show ?case
    using Cons by (auto split: option.split)
qed simp

lemma kids_text:
  assumes "list_all2 reads_as ks ys" "\<And>k y. k \<in> set ks \<Longrightarrow> reads_as k y \<Longrightarrow> item_text y fm d = item_text k fm d"
  shows "list_all2 (\<lambda>k y. item_text y fm d = item_text k fm d) ks ys"
  using assms by (auto simp: list_all2_conv_all_nth)

lemma reads_as_text: "printable x \<Longrightarrow> reads_as x y \<Longrightarrow> item_text y fm d = item_text x fm d"
proof (induction x arbitrary: y d)
  case (Item ty vs vi vd nm ks)
  obtain ty' vs' vi' vd' nm' ys where y: "y = Item ty' vs' vi' vd' nm' ys"
    by (cases y)
  have kind: "ty AND 0xFF \<in> {cJSON_NULL, cJSON_False, cJSON_True, cJSON_Number, cJSON_String, cJSON_Array, cJSON_Object}"
    using Item.prems(1) by (simp add: Let_def)
  have ty': "ty' = ty AND 0xFF" "ty' AND 0xFF = ty AND 0xFF"
    using Item.prems(2) by (simp_all add: y Let_def and.assoc)
  have ks: "list_all2 (\<lambda>k y. item_text y fm e = item_text k fm e) ks ys" if "ty AND 0xFF \<in> {cJSON_Array, cJSON_Object}" for e
    using that Item by (intro kids_text) (auto simp: y list_all_iff list.rel_map Let_def)
  show ?case
    using kind
  proof (cases rule: kind_cases)
    case 5
    then show ?thesis
      using Item.prems(2) ty'(2) holds_text_str_text [of vs vs'] by (simp add: y cJSON_types quoted_text)
  next
    case 6
    then show ?thesis
      using array_text_cong [OF ks] ty'(2) by (simp add: y cJSON_types comp_def)
  next
    case 7
    have "list_all2 (\<lambda>k y. holds_text (istring k) (istring y)) ks ys"
      using 7 Item.prems(2) by (simp add: y cJSON_types)
    then show ?thesis
      using object_text_cong [OF ks] 7 ty'(2) by (simp add: y cJSON_types)
  qed (use Item.prems(2) ty'(2) in \<open>simp_all add: y cJSON_types Let_def\<close>)
qed

lemma skip_at_end:
  assumes "sees pb [0]"
  shows "buffer_skip_whitespace pb = Inr pb"
proof -
  have len: "pb_length pb = pb_offset pb + 1"
    using sees_length [OF assms] by simp
  have "skip_ws_loop (move 1 pb) = Inr (move 1 pb)"
    using len by (simp add: skip_ws_loop.simps [of "move (Suc 0) pb"] can_access_at_index_def)
  then have "skip_ws_loop pb = Inr (move 1 pb)"
    using sees_at [OF assms] by (simp add: skip_ws_loop.simps [of pb] move_1)
  then show ?thesis
    using len by (simp add: buffer_skip_whitespace_def)
qed

lemma parse_of_text:
  assumes "item_text x fm d = Some (c_str text)" "printable x" "item_wf x" "nest x \<le> CJSON_NESTING_LIMIT"
    "terminated text" "plenty h"
  shows "\<exists>y h'. cJSON_ParseWithOpts (Some text) require h = Inr (Some y, length (c_str text), None, h') \<and> reads_as x y \<and> item_wf y \<and> plenty h'"
proof -
  let ?s = "c_str text"
  let ?pb = "text_buffer ?s"
  have tx: "text = ?s @ 0 # tl (dropWhile (\<lambda>b. b \<noteq> 0) text)"
    using terminated_split [OF assms(5)] .
  have tb: "\<lparr>pb_content = take (length ?s + 1) text, pb_length = length ?s + 1, pb_offset = 0, pb_depth = 0\<rparr> = ?pb"
    by (subst (2) tx) (simp add: text_buffer_def)
  obtain h1 where h1: "cJSON_New_Item h = (Some new_item, h1)" "plenty h1"
    using plenty_new_item [OF assms(6)] .
  have sees: "sees ?pb (?s @ [0])"
    using text_buffer_wf by (simp add: sees_def text_buffer_def)
  obtain b s where b: "?s = b # s" "32 < b" "b < 0x80"
    using item_text_starts [OF assms(1,2)] by (auto elim: startsE)
  have bom: "skip_utf8_bom ?pb = Some ?pb"
    using b(3) by (auto simp: skip_utf8_bom_def sees_looking [OF sees]) (auto simp: text_buffer_def b(1))
  have ws: "buffer_skip_whitespace ?pb = Inr ?pb"
    using skip_here [of ?pb b] sees b(1,2) by simp
  have rd: "reads (parse_value (parse_fuel (length ?s + 1))) x ?s"
    using assms by (intro parse_value_text) (simp_all add: parse_fuel_def)
  obtain y h2 where y: "parse_value (parse_fuel (length ?s + 1)) new_item ?pb h1 = Inr (True, y, move (length ?s) ?pb, h2)"
    "reads_as x y" "item_wf y" "plenty h2"
    by (rule readsE [OF rd sees _ new_item_fresh(1) new_item_wf h1(2)])
      (use assms(4) in \<open>simp_all add: text_buffer_def number_char_def\<close>)
  have at_end: "sees (move (length ?s) ?pb) [0]"
    using sees_move [OF sees] by simp
  show ?thesis
    using assms(5) tb h1(1) bom ws y skip_at_end [OF at_end] sees_at [OF at_end]
    by (simp add: cJSON_ParseWithOpts_def strlen_def Let_def) (simp add: text_buffer_def)
qed

text \<open>
  C2: Printing and parsing are a round trip. If \<open>cJSON_Print\<close> or \<open>cJSON_PrintUnformatted\<close> prints a well-formed item
  (without raw parts, with finite numbers, nested no deeper than the parser's limit), then parsing the text, with
  memory enough, reads all of it and gives an item with the same value: the same kinds, the same members in the same order
  with the same names, the same strings byte by byte, and exactly the same numbers. The result prints as the same text.
\<close>

theorem cJSON_Print_Parse_roundtrip:
  assumes "item_wf x" "printable x" "nest x \<le> CJSON_NESTING_LIMIT" "plenty h2"
    and "(if fm then cJSON_Print (Some x) h else cJSON_PrintUnformatted (Some x) h) = Inr (Some text, h1)"
  shows "\<exists>y h3. cJSON_ParseWithOpts (Some text) require h2 = Inr (Some y, length (c_str text), None, h3) \<and>
     reads_as x y \<and> item_text y fm 0 = Some (c_str text)"
proof -
  have "prints x fm h (Inr (Some text, h1))"
    using print_prints [OF assms(1), of fm h] assms(5)
    by (cases fm) (simp_all add: cJSON_Print_def cJSON_PrintUnformatted_def)
  then have tx: "terminated text" "item_text x fm 0 = Some (c_str text)"
    by (simp_all add: prints_def)
  show ?thesis
    using parse_of_text [OF tx(2) assms(2,1,3) tx(1) assms(4)] reads_as_text [OF assms(2)] tx(2) by metis
qed

definition demo_round :: cJSON where
  "demo_round = Item cJSON_Object None 0 dzero None
     [Item cJSON_Array None 0 dzero (Some [0x61, 0x22, 0x0A, 0x62, 0])
        [Item cJSON_NULL None 0 dzero None [], Item cJSON_True None 1 dzero None []]]"

theorem cJSON_Print_Parse_roundtrip_witness:
  "\<exists>text h1 y h3. cJSON_Print (Some demo_round) demo_heap = Inr (Some text, h1) \<and>
     cJSON_ParseWithOpts (Some text) True demo_heap = Inr (Some y, length (c_str text), None, h3) \<and> reads_as demo_round y"
proof -
  have wf: "item_wf demo_round" "printable demo_round" "nest demo_round \<le> CJSON_NESTING_LIMIT"
    by (simp_all add: demo_round_def cJSON_types dzero_def canonical_def string_ok_def terminated_def CJSON_NESTING_LIMIT_def)
  have "case cJSON_Print (Some demo_round) demo_heap of Inr (Some t, _) \<Rightarrow> True | _ \<Rightarrow> False"
    by code_simp
  then obtain t h1 where t: "cJSON_Print (Some demo_round) demo_heap = Inr (Some t, h1)"
    by (auto split: sum.splits prod.splits option.splits)
  have "plenty demo_heap"
    by (simp add: plenty_def demo_heap_def)
  from cJSON_Print_Parse_roundtrip [OF wf this, of True demo_heap t h1 True] t show ?thesis
    by auto
qed

end
