(* ===== verification/Elf.thy ===== *)
theory Elf
  imports Posix
begin

text \<open>
  \<open>elfRead/elf64.c\<close> and \<open>elfRead/elf32bit.c\<close>: a program that maps an executable and prints its sections and
  segments. The two differ in the width of the fields and in the section \<open>.uuid\<close>, which only the 64-bit program
  looks for; the model takes the class as a parameter. The layout of the headers is that of \<open>elf.h\<close>.

  What is printed is a list of lines, with the numbers as the \<open>%x\<close> of the source prints them (the low 32 bits of
  a 64-bit value); every read of the mapping is checked against its size. \<open>perror\<close> is dropped.

  The property is a round trip with an encoder of executables: what \<open>elf_image\<close> writes is listed as it is.
\<close>

section \<open>The mapping and its fields\<close>

datatype elf_class = Elf32 | Elf64

text \<open>A mapping has whole pages; behind the end of the file they are filled with zeros.\<close>

definition mapped_file :: "bytes \<Rightarrow> bytes" where
  "mapped_file img = img @ replicate ((4096 - length img mod 4096) mod 4096) 0"

definition bytes_at :: "bytes \<Rightarrow> nat \<Rightarrow> nat \<Rightarrow> bytes cres" where
  "bytes_at img off n = (if off + n \<le> length img then Inr (take n (drop off img)) else Inl OutOfBounds)"

definition get16 :: "bool \<Rightarrow> bytes \<Rightarrow> nat \<Rightarrow> u16 cres" where
  "get16 be img off = cbind (bytes_at img off 2) (\<lambda>bs. Inr (ld16 be bs))"

definition get32 :: "bool \<Rightarrow> bytes \<Rightarrow> nat \<Rightarrow> u32 cres" where
  "get32 be img off = cbind (bytes_at img off 4) (\<lambda>bs. Inr (ld32 be bs))"

definition get_word :: "elf_class \<Rightarrow> bool \<Rightarrow> bytes \<Rightarrow> nat \<Rightarrow> u64 cres" where
  "get_word c be img off =
     (case c of
        Elf32 \<Rightarrow> cbind (get32 be img off) (\<lambda>w. Inr (ucast w))
      | Elf64 \<Rightarrow> cbind (bytes_at img off 8) (\<lambda>bs. Inr (ld64 be bs)))"

definition string_at :: "bytes \<Rightarrow> nat \<Rightarrow> bytes cres" where
  "string_at img off = cbind (strlen (drop off img)) (\<lambda>_. Inr (c_str (drop off img)))"

text \<open>The offsets of \<open>Elf32_Ehdr\<close>, \<open>Elf32_Shdr\<close>, \<open>Elf32_Phdr\<close> and of their 64-bit forms.\<close>

definition by_class :: "nat \<Rightarrow> nat \<Rightarrow> elf_class \<Rightarrow> nat" where
  "by_class a b c = (case c of Elf32 \<Rightarrow> a | Elf64 \<Rightarrow> b)"

definition e_type :: nat where "e_type = 16"
definition e_entry :: nat where "e_entry = 24"
definition e_phoff :: "elf_class \<Rightarrow> nat" where "e_phoff = by_class 28 32"
definition e_shoff :: "elf_class \<Rightarrow> nat" where "e_shoff = by_class 32 40"
definition e_phnum :: "elf_class \<Rightarrow> nat" where "e_phnum = by_class 44 56"
definition e_shnum :: "elf_class \<Rightarrow> nat" where "e_shnum = by_class 48 60"
definition e_shstrndx :: "elf_class \<Rightarrow> nat" where "e_shstrndx = by_class 50 62"
definition sizeof_shdr :: "elf_class \<Rightarrow> nat" where "sizeof_shdr = by_class 40 64"
definition sh_addr :: "elf_class \<Rightarrow> nat" where "sh_addr = by_class 12 16"
definition sh_offset :: "elf_class \<Rightarrow> nat" where "sh_offset = by_class 16 24"
definition sh_size :: "elf_class \<Rightarrow> nat" where "sh_size = by_class 20 32"
definition sizeof_phdr :: "elf_class \<Rightarrow> nat" where "sizeof_phdr = by_class 32 56"
definition p_offset :: "elf_class \<Rightarrow> nat" where "p_offset = by_class 4 8"
definition p_vaddr :: "elf_class \<Rightarrow> nat" where "p_vaddr = by_class 8 16"

lemmas elf_layout = by_class_def e_type_def e_entry_def e_phoff_def e_shoff_def e_phnum_def e_shnum_def e_shstrndx_def
  sizeof_shdr_def sh_addr_def sh_offset_def sh_size_def sizeof_phdr_def p_offset_def p_vaddr_def

definition ET_EXEC :: u16 where "ET_EXEC = 2"
definition PT_LOAD :: u32 where "PT_LOAD = 1"
definition PT_DYNAMIC :: u32 where "PT_DYNAMIC = 2"
definition PT_INTERP :: u32 where "PT_INTERP = 3"
definition PT_NOTE :: u32 where "PT_NOTE = 4"
definition PT_PHDR :: u32 where "PT_PHDR = 6"

lemmas elf_types = ET_EXEC_def PT_LOAD_def PT_DYNAMIC_def PT_INTERP_def PT_NOTE_def PT_PHDR_def

section \<open>The two lists\<close>

datatype line =
    Usage
  | NotElf
  | NotExecutable u16
  | Entry u32
  | Section32 bytes u32
  | Section64 bytes u32 u32 u32
  | FoundUuid u32 u64
  | Uuid bytes
  | TextSegment u32
  | DataSegment u32
  | Interpreter "bytes option"
  | NoteSegment u32
  | DynamicSegment u32
  | PhdrSegment u32

definition s_uuid :: bytes where
  "s_uuid = map of_char ''.uuid''"

text \<open>
  What follows the line of a section: the section \<open>.uuid\<close> (any name that starts so) is copied into a buffer of
  64 bytes, which is printed as a string. The size is the one in the file.
\<close>

definition read_uuid :: "bytes \<Rightarrow> bytes \<Rightarrow> u64 \<Rightarrow> u64 \<Rightarrow> bytes \<Rightarrow> (line list \<times> bytes) cres" where
  "read_uuid mem name offset len uuid =
     (if take 5 name = s_uuid then
        cbind (memcpy_at uuid 0 mem (unat offset) (unat len)) (\<lambda>uuid.
        cbind (string_at uuid 0) (\<lambda>t. Inr ([FoundUuid (ucast offset) len, Uuid t], uuid)))
      else Inr ([], uuid))"

text \<open>The loop over the sections from number \<open>i\<close> on; \<open>strs\<close> is the offset of the string table.\<close>

fun section_loop :: "elf_class \<Rightarrow> bool \<Rightarrow> bytes \<Rightarrow> nat \<Rightarrow> nat \<Rightarrow> nat \<Rightarrow> nat \<Rightarrow> bytes \<Rightarrow> line list cres" where
  "section_loop c be mem shdr strs 0 i uuid = Inr []"
| "section_loop c be mem shdr strs (Suc n) i uuid =
     (let sh = shdr + i * sizeof_shdr c
      in cbind (get32 be mem sh) (\<lambda>sh_name.
         cbind (string_at mem (strs + unat sh_name)) (\<lambda>name.
         cbind (get_word c be mem (sh + sh_addr c)) (\<lambda>addr.
         case c of
           Elf32 \<Rightarrow>
             cbind (section_loop c be mem shdr strs n (Suc i) uuid) (\<lambda>rest. Inr (Section32 name (ucast addr) # rest))
         | Elf64 \<Rightarrow>
             cbind (get_word c be mem (sh + sh_offset c)) (\<lambda>offset.
             cbind (get_word c be mem (sh + sh_size c)) (\<lambda>len.
             cbind (read_uuid mem name offset len uuid) (\<lambda>(found, uuid).
             cbind (section_loop c be mem shdr strs n (Suc i) uuid) (\<lambda>rest.
               Inr (Section64 name (ucast addr) (ucast offset) (ucast len) # found @ rest)))))))))"

text \<open>One round of the loop over the segments. \<open>strdup\<close> is never given back.\<close>

definition segment_line :: "elf_class \<Rightarrow> bool \<Rightarrow> bool \<Rightarrow> bytes \<Rightarrow> nat \<Rightarrow> line list cres" where
  "segment_line c be strdup_ok mem ph =
     (let vaddr = (\<lambda>f. cbind (get_word c be mem (ph + p_vaddr c)) (\<lambda>v. Inr [f (ucast v)]))
      in cbind (get32 be mem ph) (\<lambda>p_type.
         if p_type = PT_LOAD then
           cbind (get_word c be mem (ph + p_offset c)) (\<lambda>offset. vaddr (if offset = 0 then TextSegment else DataSegment))
         else if p_type = PT_INTERP then
           cbind (get_word c be mem (ph + p_offset c)) (\<lambda>offset.
           cbind (string_at mem (unat offset)) (\<lambda>interp. Inr [Interpreter (if strdup_ok then Some interp else None)]))
         else if p_type = PT_NOTE then vaddr NoteSegment
         else if p_type = PT_DYNAMIC then vaddr DynamicSegment
         else if p_type = PT_PHDR then vaddr PhdrSegment
         else Inr []))"

fun segment_loop :: "elf_class \<Rightarrow> bool \<Rightarrow> bool \<Rightarrow> bytes \<Rightarrow> nat \<Rightarrow> nat \<Rightarrow> nat \<Rightarrow> line list cres" where
  "segment_loop c be strdup_ok mem phdr 0 i = Inr []"
| "segment_loop c be strdup_ok mem phdr (Suc n) i =
     cbind (segment_line c be strdup_ok mem (phdr + i * sizeof_phdr c)) (\<lambda>l.
     cbind (segment_loop c be strdup_ok mem phdr n (Suc i)) (\<lambda>rest. Inr (l @ rest)))"

section \<open>The program\<close>

text \<open>The magic number: both conditions have to fail.\<close>

definition not_elf :: "bytes \<Rightarrow> bool" where
  "not_elf mem \<longleftrightarrow> mem ! 0 \<noteq> 0x7F \<and> take 4 (drop 1 mem) \<noteq> [0x45, 0x4C, 0x46, 0]"

definition read_elf :: "elf_class \<Rightarrow> bool \<Rightarrow> bool \<Rightarrow> bytes \<Rightarrow> line list cres" where
  "read_elf c be strdup_ok mem =
     (if not_elf mem then Inr [NotElf]
      else cbind (get16 be mem e_type) (\<lambda>ty.
        if ty \<noteq> ET_EXEC then Inr [NotExecutable ty]
        else
          cbind (get_word c be mem e_entry) (\<lambda>entry.
          cbind (get_word c be mem (e_phoff c)) (\<lambda>phoff.
          cbind (get_word c be mem (e_shoff c)) (\<lambda>shoff.
          cbind (get16 be mem (e_shstrndx c)) (\<lambda>shstrndx.
          cbind (get_word c be mem (unat shoff + unat shstrndx * sizeof_shdr c + sh_offset c)) (\<lambda>strs.
          cbind (get16 be mem (e_shnum c)) (\<lambda>shnum.
          cbind (section_loop c be mem (unat shoff) (unat strs) (unat shnum - 1) 1 (replicate 64 0)) (\<lambda>sections.
          cbind (get16 be mem (e_phnum c)) (\<lambda>phnum.
          cbind (segment_loop c be strdup_ok mem (unat phoff) (unat phnum) 0) (\<lambda>segments.
            Inr (Entry (ucast entry) # sections @ segments))))))))))))"

record elf_env =
  kern :: kernel
  disk :: "bytes \<Rightarrow> bytes option"
  fstat_ok :: bool
  mmap_ok :: bool
  memory_ok :: bool

text \<open>
  The exit status and what is printed. A descriptor of 0 is not closed. An empty file cannot be mapped; what is
  mapped is unmapped again.
\<close>

definition elf_main :: "elf_class \<Rightarrow> bool \<Rightarrow> bytes list \<Rightarrow> elf_env \<Rightarrow> (int \<times> line list \<times> elf_env) cres" where
  "elf_main c be argv env =
     (case argv of
        [] \<Rightarrow> Inr (0, [Usage], env)
      | path # _ \<Rightarrow>
          (case disk env path of
             None \<Rightarrow> Inr (- 1, [], env)
           | Some img \<Rightarrow>
               (case fd_open (kern env) of
                  (fd, k) \<Rightarrow>
                    if fd < 0 then Inr (- 1, [], env)
                    else if \<not> fstat_ok env \<or> img = [] \<or> \<not> mmap_ok env then Inr (- 1, [], env\<lparr>kern := fd_close fd k\<rparr>)
                    else cbind (read_elf c be (memory_ok env) (mapped_file img)) (\<lambda>ls.
                      Inr (0, ls, env\<lparr>kern := if fd \<noteq> 0 then fd_close fd k else k\<rparr>)))))"

definition elf64_main :: "bool \<Rightarrow> bytes list \<Rightarrow> elf_env \<Rightarrow> (int \<times> line list \<times> elf_env) cres" where
  "elf64_main = elf_main Elf64"

definition elf32_main :: "bool \<Rightarrow> bytes list \<Rightarrow> elf_env \<Rightarrow> (int \<times> line list \<times> elf_env) cres" where
  "elf32_main = elf_main Elf32"

section \<open>Executables\<close>

text \<open>An executable as a list of sections and segments, and its bytes as the format lays them out.\<close>

record elf_section =
  sec_name :: bytes
  sec_addr :: u64
  sec_offset :: u64
  sec_len :: u64

record elf_segment =
  seg_type :: u32
  seg_offset :: u64
  seg_vaddr :: u64

definition put_word :: "elf_class \<Rightarrow> bool \<Rightarrow> u64 \<Rightarrow> bytes" where
  "put_word c be w = (case c of Elf32 \<Rightarrow> mem32 be (ucast w) | Elf64 \<Rightarrow> mem64 be w)"

definition shdr_image :: "elf_class \<Rightarrow> bool \<Rightarrow> nat \<Rightarrow> elf_section \<Rightarrow> bytes" where
  "shdr_image c be name s =
     mem32 be (of_nat name) @ mem32 be 1 @ put_word c be 0 @ put_word c be (sec_addr s) @ put_word c be (sec_offset s) @
     put_word c be (sec_len s) @ mem32 be 0 @ mem32 be 0 @ put_word c be 1 @ put_word c be 0"

definition phdr_image :: "elf_class \<Rightarrow> bool \<Rightarrow> elf_segment \<Rightarrow> bytes" where
  "phdr_image c be g =
     (case c of
        Elf32 \<Rightarrow> mem32 be (seg_type g) @ put_word c be (seg_offset g) @ put_word c be (seg_vaddr g) @ replicate 20 0
      | Elf64 \<Rightarrow> mem32 be (seg_type g) @ mem32 be 0 @ put_word c be (seg_offset g) @ put_word c be (seg_vaddr g) @ replicate 32 0)"

definition ehdr_image :: "elf_class \<Rightarrow> bool \<Rightarrow> u64 \<Rightarrow> nat \<Rightarrow> nat \<Rightarrow> nat \<Rightarrow> nat \<Rightarrow> bytes" where
  "ehdr_image c be entry phoff shoff phnum shnum =
     [0x7F, 0x45, 0x4C, 0x46, case c of Elf32 \<Rightarrow> 1 | Elf64 \<Rightarrow> 2, if be then 2 else 1, 1] @ replicate 9 0 @
     mem16 be ET_EXEC @ mem16 be 62 @ mem32 be 1 @ put_word c be entry @ put_word c be (of_nat phoff) @
     put_word c be (of_nat shoff) @ mem32 be 0 @ mem16 be (of_nat (by_class 52 64 c)) @
     mem16 be (of_nat (sizeof_phdr c)) @ mem16 be (of_nat phnum) @ mem16 be (of_nat (sizeof_shdr c)) @
     mem16 be (of_nat shnum) @ mem16 be (of_nat (shnum - 1))"

text \<open>The table of the names: one empty name, then those of the sections.\<close>

definition name_table :: "elf_section list \<Rightarrow> bytes" where
  "name_table secs = 0 # concat (map (\<lambda>s. sec_name s @ [0]) secs)"

definition name_index :: "elf_section list \<Rightarrow> nat \<Rightarrow> nat" where
  "name_index secs i = length (name_table (take i secs))"

text \<open>The section with the names, which is the last one; its place follows from the other parts.\<close>

definition s_shstrtab :: bytes where
  "s_shstrtab = map of_char ''.shstrtab''"

definition table_place :: "elf_class \<Rightarrow> elf_segment list \<Rightarrow> elf_section list \<Rightarrow> nat" where
  "table_place c segs secs = by_class 52 64 c + sizeof_phdr c * length segs + sizeof_shdr c * (length secs + 2)"

definition all_sections :: "elf_class \<Rightarrow> elf_segment list \<Rightarrow> elf_section list \<Rightarrow> elf_section list" where
  "all_sections c segs secs =
     secs @ [\<lparr>sec_name = s_shstrtab, sec_addr = 0, sec_offset = of_nat (table_place c segs secs),
              sec_len = of_nat (length (name_table secs) + 10)\<rparr>]"

definition no_section :: elf_section where
  "no_section = \<lparr>sec_name = [], sec_addr = 0, sec_offset = 0, sec_len = 0\<rparr>"

definition shdrs_image :: "elf_class \<Rightarrow> bool \<Rightarrow> elf_section list \<Rightarrow> bytes list" where
  "shdrs_image c be ss = shdr_image c be 0 no_section # map (\<lambda>i. shdr_image c be (name_index ss i) (ss ! i)) [0..<length ss]"

definition elf_image :: "elf_class \<Rightarrow> bool \<Rightarrow> u64 \<Rightarrow> elf_segment list \<Rightarrow> elf_section list \<Rightarrow> bytes \<Rightarrow> bytes" where
  "elf_image c be entry segs secs data =
     (let ss = all_sections c segs secs; h = by_class 52 64 c
      in ehdr_image c be entry h (h + sizeof_phdr c * length segs) (length segs) (length ss + 1) @
         concat (map (phdr_image c be) segs) @ concat (shdrs_image c be ss) @ name_table ss @ data)"

text \<open>What the program should print.\<close>

definition uuid_lines :: "bytes \<Rightarrow> bytes \<Rightarrow> elf_section \<Rightarrow> line list \<times> bytes" where
  "uuid_lines mem uuid s =
     (if take 5 (sec_name s) = s_uuid
      then (let u = overlay 0 (take (unat (sec_len s)) (drop (unat (sec_offset s)) mem)) uuid
            in ([FoundUuid (ucast (sec_offset s)) (sec_len s), Uuid (c_str u)], u))
      else ([], uuid))"

fun section_lines :: "elf_class \<Rightarrow> bytes \<Rightarrow> bytes \<Rightarrow> elf_section list \<Rightarrow> line list" where
  "section_lines c mem uuid [] = []"
| "section_lines Elf32 mem uuid (s # ss) = Section32 (sec_name s) (ucast (sec_addr s)) # section_lines Elf32 mem uuid ss"
| "section_lines Elf64 mem uuid (s # ss) =
     Section64 (sec_name s) (ucast (sec_addr s)) (ucast (sec_offset s)) (ucast (sec_len s)) # fst (uuid_lines mem uuid s) @
     section_lines Elf64 mem (snd (uuid_lines mem uuid s)) ss"

definition segment_lines :: "bytes \<Rightarrow> elf_segment \<Rightarrow> line list" where
  "segment_lines mem g =
     (let a = ucast (seg_vaddr g)
      in if seg_type g = PT_LOAD then [if seg_offset g = 0 then TextSegment a else DataSegment a]
         else if seg_type g = PT_INTERP then [Interpreter (Some (c_str (drop (unat (seg_offset g)) mem)))]
         else if seg_type g = PT_NOTE then [NoteSegment a]
         else if seg_type g = PT_DYNAMIC then [DynamicSegment a]
         else if seg_type g = PT_PHDR then [PhdrSegment a]
         else [])"

section \<open>Reading what was written\<close>

lemma bytes_at_append: "bytes_at (a @ b @ r) (length a) (length b) = Inr b"
  by (simp add: bytes_at_def)

lemma bytes_at_part:
  assumes "img = a @ x @ r" "x = u @ b @ v"
  shows "bytes_at img (length a + length u) (length b) = Inr b"
  using bytes_at_append [of "a @ u" b "v @ r"] assms by simp

lemma length_put_word [simp]: "length (put_word c be w) = by_class 4 8 c"
  by (simp add: put_word_def by_class_def split: elf_class.split)

definition fits :: "elf_class \<Rightarrow> u64 \<Rightarrow> bool" where
  "fits c w \<longleftrightarrow> c = Elf64 \<or> unat w < 2 ^ 32"

lemma ucast_ucast_small: "unat w < 2 ^ 32 \<Longrightarrow> ucast (ucast (w :: u64) :: u32) = w"
  by (simp add: word_unat_eq_iff unsigned_ucast_eq unsigned_take_bit_eq take_bit_nat_eq_self)

lemma get_put:
  assumes "img = a @ x @ r" "x = u @ b @ v"
  shows "b = mem16 be h \<Longrightarrow> get16 be img (length a + length u) = Inr h"
    and "b = mem32 be w \<Longrightarrow> get32 be img (length a + length u) = Inr w"
    and "b = put_word c be z \<Longrightarrow> fits c z \<Longrightarrow> get_word c be img (length a + length u) = Inr z"
  using bytes_at_part [OF assms] ld16_mem16 [of be h "[]"] ld32_mem32 [of be w "[]"] ld64_mem64 [of be z "[]"]
    ld32_mem32 [of be "ucast z" "[]"]
  by (auto simp: get16_def get32_def get_word_def put_word_def fits_def ucast_ucast_small split: elf_class.splits)

lemma concat_chunk:
  assumes "\<forall>x \<in> set xs. length x = n" "i < length xs"
  shows "concat xs = concat (take i xs) @ xs ! i @ concat (drop (Suc i) xs)" and "length (concat (take i xs)) = i * n"
proof -
  show "concat xs = concat (take i xs) @ xs ! i @ concat (drop (Suc i) xs)"
    using id_take_nth_drop [OF assms(2)] by (metis concat.simps(2) concat_append)
  have "\<forall>x \<in> set (take i xs). length x = n"
    using assms(1) by (auto dest: in_set_takeD)
  then have "map length (take i xs) = replicate i n"
    using assms(2) by (intro replicate_eqI) auto
  then show "length (concat (take i xs)) = i * n"
    by (simp add: length_concat sum_list_replicate)
qed

lemma unat_of_nat_fits:
  "n < 2 ^ 16 \<Longrightarrow> unat (of_nat n :: u16) = n"
  "n < 2 ^ 32 \<Longrightarrow> unat (of_nat n :: u32) = n"
  "n < 2 ^ 32 \<Longrightarrow> unat (of_nat n :: u64) = n"
  by (simp_all add: unat_of_nat)

lemma fits_of_nat: "n < 2 ^ 32 \<Longrightarrow> fits c (of_nat n)"
  by (simp add: fits_def unat_of_nat)

lemma ehdr_fields:
  assumes "img = ehdr_image c be entry phoff shoff phnum shnum @ r"
    and "fits c entry" "phoff < 2 ^ 32" "shoff < 2 ^ 32" "phnum < 2 ^ 16" "0 < shnum" "shnum < 2 ^ 16"
  shows "get16 be img e_type = Inr ET_EXEC" "get_word c be img e_entry = Inr entry"
    "get_word c be img (e_phoff c) = Inr (of_nat phoff)" "get_word c be img (e_shoff c) = Inr (of_nat shoff)"
    "get16 be img (e_phnum c) = Inr (of_nat phnum)" "get16 be img (e_shnum c) = Inr (of_nat shnum)"
    "get16 be img (e_shstrndx c) = Inr (of_nat (shnum - 1))"
proof -
  let ?m = "[0x7F, 0x45, 0x4C, 0x46, case c of Elf32 \<Rightarrow> 1 | Elf64 \<Rightarrow> 2, if be then 2 else 1, 1] @ replicate 9 (0 :: u8)"
  let ?t = "?m @ mem16 be ET_EXEC @ mem16 be 62 @ mem32 be 1"
  let ?e = "?t @ put_word c be entry"
  let ?p = "?e @ put_word c be (of_nat phoff)"
  let ?s = "?p @ put_word c be (of_nat shoff) @ mem32 be 0 @ mem16 be (of_nat (by_class 52 64 c)) @ mem16 be (of_nat (sizeof_phdr c))"
  let ?n = "?s @ mem16 be (of_nat phnum) @ mem16 be (of_nat (sizeof_shdr c))"
  have lens: "length ?m = e_type" "length ?t = e_entry" "length ?e = e_phoff c" "length ?p = e_shoff c"
      "length ?s = e_phnum c" "length ?n = e_shnum c" "length (?n @ mem16 be (of_nat shnum)) = e_shstrndx c"
    by (simp_all add: elf_layout split: elf_class.split)
  have img: "img = [] @ ehdr_image c be entry phoff shoff phnum shnum @ r"
    using assms(1) by simp
  note def = ehdr_image_def append_assoc append_Nil2
  show "get16 be img e_type = Inr ET_EXEC"
    using get_put(1) [OF img, of ?m] by (simp add: lens(1) [symmetric] def)
  show "get_word c be img e_entry = Inr entry"
    using get_put(3) [OF img, of ?t] assms(2) by (simp add: lens(2) [symmetric] def)
  show "get_word c be img (e_phoff c) = Inr (of_nat phoff)"
    using get_put(3) [OF img, of ?e] fits_of_nat [OF assms(3)] by (simp add: lens(3) [symmetric] def)
  show "get_word c be img (e_shoff c) = Inr (of_nat shoff)"
    using get_put(3) [OF img, of ?p] fits_of_nat [OF assms(4)] by (simp add: lens(4) [symmetric] def)
  show "get16 be img (e_phnum c) = Inr (of_nat phnum)"
    using get_put(1) [OF img, of ?s] by (simp add: lens(5) [symmetric] def)
  show "get16 be img (e_shnum c) = Inr (of_nat shnum)"
    using get_put(1) [OF img, of ?n] by (simp add: lens(6) [symmetric] def)
  show "get16 be img (e_shstrndx c) = Inr (of_nat (shnum - 1))"
    using get_put(1) [OF img, of "?n @ mem16 be (of_nat shnum)"] by (simp add: lens(7) [symmetric] def)
qed

lemma shdr_fields:
  assumes "img = a @ shdr_image c be nm s @ r" "fits c (sec_addr s)" "fits c (sec_offset s)" "fits c (sec_len s)"
  shows "get32 be img (length a) = Inr (of_nat nm)" "get_word c be img (length a + sh_addr c) = Inr (sec_addr s)"
    "get_word c be img (length a + sh_offset c) = Inr (sec_offset s)" "get_word c be img (length a + sh_size c) = Inr (sec_len s)"
proof -
  let ?a = "mem32 be (of_nat nm) @ mem32 be 1 @ put_word c be 0"
  let ?o = "?a @ put_word c be (sec_addr s)"
  let ?l = "?o @ put_word c be (sec_offset s)"
  have lens: "length ?a = sh_addr c" "length ?o = sh_offset c" "length ?l = sh_size c"
    by (simp_all add: elf_layout split: elf_class.split)
  note def = shdr_image_def append_assoc append_Nil2
  show "get32 be img (length a) = Inr (of_nat nm)"
    using get_put(2) [OF assms(1), of "[]"] by (simp add: def)
  show "get_word c be img (length a + sh_addr c) = Inr (sec_addr s)"
    using get_put(3) [OF assms(1), of ?a] assms(2) by (simp add: lens(1) [symmetric] def)
  show "get_word c be img (length a + sh_offset c) = Inr (sec_offset s)"
    using get_put(3) [OF assms(1), of ?o] assms(3) by (simp add: lens(2) [symmetric] def)
  show "get_word c be img (length a + sh_size c) = Inr (sec_len s)"
    using get_put(3) [OF assms(1), of ?l] assms(4) by (simp add: lens(3) [symmetric] def)
qed

lemma phdr_fields:
  assumes "img = a @ phdr_image c be g @ r" "fits c (seg_offset g)" "fits c (seg_vaddr g)"
  shows "get32 be img (length a) = Inr (seg_type g)" "get_word c be img (length a + p_offset c) = Inr (seg_offset g)"
    "get_word c be img (length a + p_vaddr c) = Inr (seg_vaddr g)"
proof -
  let ?o = "case c of Elf32 \<Rightarrow> mem32 be (seg_type g) | Elf64 \<Rightarrow> mem32 be (seg_type g) @ mem32 be 0"
  let ?v = "?o @ put_word c be (seg_offset g)"
  have lens: "length ?o = p_offset c" "length ?v = p_vaddr c"
    by (simp_all add: elf_layout split: elf_class.split)
  have def: "phdr_image c be g = ?v @ put_word c be (seg_vaddr g) @ replicate (by_class 20 32 c) 0"
    by (simp add: phdr_image_def by_class_def split: elf_class.split)
  show "get32 be img (length a) = Inr (seg_type g)"
    using get_put(2) [OF assms(1), of "[]" "mem32 be (seg_type g)" "drop 4 (phdr_image c be g)" be "seg_type g"]
    by (cases c) (simp_all add: phdr_image_def)
  show "get_word c be img (length a + p_offset c) = Inr (seg_offset g)"
    using get_put(3) [OF assms(1), of ?o] assms(2) by (simp add: lens(1) [symmetric] def)
  show "get_word c be img (length a + p_vaddr c) = Inr (seg_vaddr g)"
    using get_put(3) [OF assms(1), of ?v] assms(3) by (simp add: lens(2) [symmetric] def)
qed

lemma string_at_append:
  assumes "img = a @ s @ 0 # r" "nul_free s"
  shows "string_at img (length a) = Inr s"
  using assms by (simp add: string_at_def strlen_def terminated_def c_str_nul_free)

lemma name_table_split:
  assumes "i < length ss"
  shows "name_table ss = name_table (take i ss) @ sec_name (ss ! i) @ 0 # concat (map (\<lambda>s. sec_name s @ [0]) (drop (Suc i) ss))"
proof -
  have "map f ss = map f (take i ss) @ f (ss ! i) # map f (drop (Suc i) ss)" for f :: "elf_section \<Rightarrow> bytes"
    using arg_cong [OF id_take_nth_drop [OF assms], of "map f"] by simp
  from this [of "\<lambda>s. sec_name s @ [0]"] show ?thesis
    by (simp add: name_table_def)
qed

text \<open>The loop over the sections, when every header and name is where it should be.\<close>

definition uuid_ok :: "elf_class \<Rightarrow> bytes \<Rightarrow> elf_section \<Rightarrow> bool" where
  "uuid_ok c mem s \<longleftrightarrow>
     c = Elf64 \<and> take 5 (sec_name s) = s_uuid \<longrightarrow> unat (sec_offset s) + unat (sec_len s) \<le> length mem \<and> unat (sec_len s) < 64"

definition uuid_long :: "elf_class \<Rightarrow> elf_section \<Rightarrow> bool" where
  "uuid_long c s \<longleftrightarrow> c = Elf64 \<and> take 5 (sec_name s) = s_uuid \<and> 64 < unat (sec_len s)"

definition listed :: "elf_class \<Rightarrow> elf_section list \<Rightarrow> line list \<Rightarrow> line list cres" where
  "listed c ss ls = (if \<exists>s \<in> set ss. uuid_long c s then Inl OutOfBounds else Inr ls)"

lemma read_uuid_run:
  assumes "uuid_ok Elf64 mem s" "length uuid = 64" "uuid ! 63 = 0"
  shows "read_uuid mem (sec_name s) (sec_offset s) (sec_len s) uuid = Inr (uuid_lines mem uuid s) \<and>
    length (snd (uuid_lines mem uuid s)) = 64 \<and> snd (uuid_lines mem uuid s) ! 63 = 0"
proof (cases "take 5 (sec_name s) = s_uuid")
  case True
  let ?x = "take (unat (sec_len s)) (drop (unat (sec_offset s)) mem)"
  have l: "unat (sec_offset s) + unat (sec_len s) \<le> length mem" "unat (sec_len s) < 64"
    using assms(1) True by (simp_all add: uuid_ok_def)
  let ?u = "overlay 0 ?x uuid"
  have u: "length ?u = 64" "?u ! 63 = 0"
    using l assms(2,3) by (simp_all add: overlay_def nth_append)
  then have "terminated ?u"
    by (metis terminated_def nth_mem less_numeral_extra(1) numeral_less_iff semiring_norm(76,81,68,78,80))
  then show ?thesis
    using True l assms(2) u by (simp add: read_uuid_def uuid_lines_def memcpy_at_def string_at_def strlen_def Let_def)
qed (use assms in \<open>simp add: read_uuid_def uuid_lines_def\<close>)

lemma section_loop_run:
  assumes "\<And>j. j < length ss \<Longrightarrow>
      (\<exists>nm. get32 be mem (shdr + Suc j * sizeof_shdr c) = Inr nm \<and> string_at mem (strs + unat nm) = Inr (sec_name (ss ! j))) \<and>
      get_word c be mem (shdr + Suc j * sizeof_shdr c + sh_addr c) = Inr (sec_addr (ss ! j)) \<and>
      get_word c be mem (shdr + Suc j * sizeof_shdr c + sh_offset c) = Inr (sec_offset (ss ! j)) \<and>
      get_word c be mem (shdr + Suc j * sizeof_shdr c + sh_size c) = Inr (sec_len (ss ! j)) \<and>
      (uuid_ok c mem (ss ! j) \<or> uuid_long c (ss ! j))"
    and "j + n = length ss" "length uuid = 64" "uuid ! 63 = 0"
  shows "section_loop c be mem shdr strs n (Suc j) uuid = listed c (drop j ss) (section_lines c mem uuid (drop j ss))"
  using assms(2-)
proof (induction n arbitrary: j uuid)
  case (Suc n)
  have j: "j < length ss"
    using Suc.prems(1) by simp
  obtain nm where nm: "get32 be mem (shdr + Suc j * sizeof_shdr c) = Inr nm" "string_at mem (strs + unat nm) = Inr (sec_name (ss ! j))"
    using assms(1) [OF j] by blast
  note f = assms(1) [OF j]
  have d: "drop j ss = ss ! j # drop (Suc j) ss"
    using j by (simp add: Cons_nth_drop_Suc)
  show ?case
  proof (cases c)
    case Elf32
    then show ?thesis
      using nm f Suc.IH [of "Suc j" uuid] Suc.prems by (simp add: d Let_def listed_def uuid_long_def)
  next
    case Elf64
    show ?thesis
    proof (cases "uuid_long c (ss ! j)")
      case True
      then have "read_uuid mem (sec_name (ss ! j)) (sec_offset (ss ! j)) (sec_len (ss ! j)) uuid = Inl OutOfBounds"
        using Suc.prems(2) by (simp add: uuid_long_def read_uuid_def memcpy_at_def)
      then show ?thesis
        using nm f True Elf64 by (simp add: d Let_def listed_def)
    next
      case False
      then have u: "uuid_ok Elf64 mem (ss ! j)"
        using f Elf64 by blast
      note r = read_uuid_run [OF u Suc.prems(2,3)]
      obtain ls uuid' where ls: "uuid_lines mem uuid (ss ! j) = (ls, uuid')"
        by (cases "uuid_lines mem uuid (ss ! j)")
      have "section_loop c be mem shdr strs n (Suc (Suc j)) uuid' =
          listed c (drop (Suc j) ss) (section_lines c mem uuid' (drop (Suc j) ss))"
        using Suc.prems(1) r by (intro Suc.IH) (simp_all add: ls)
      then show ?thesis
        using nm f r Elf64 False by (simp add: d ls Let_def listed_def)
    qed
  qed
qed (cases c; simp add: listed_def)

lemma segment_loop_run:
  assumes "\<And>j. j < length gs \<Longrightarrow>
      get32 be mem (phdr + j * sizeof_phdr c) = Inr (seg_type (gs ! j)) \<and>
      get_word c be mem (phdr + j * sizeof_phdr c + p_offset c) = Inr (seg_offset (gs ! j)) \<and>
      get_word c be mem (phdr + j * sizeof_phdr c + p_vaddr c) = Inr (seg_vaddr (gs ! j)) \<and>
      (seg_type (gs ! j) = PT_INTERP \<longrightarrow> terminated (drop (unat (seg_offset (gs ! j))) mem))"
    and "j + n = length gs"
  shows "segment_loop c be True mem phdr n j = Inr (concat (map (segment_lines mem) (drop j gs)))"
  using assms(2)
proof (induction n arbitrary: j)
  case (Suc n)
  have j: "j < length gs"
    using Suc.prems by simp
  have "segment_line c be True mem (phdr + j * sizeof_phdr c) = Inr (segment_lines mem (gs ! j))"
    using assms(1) [OF j] by (auto simp: segment_line_def segment_lines_def Let_def string_at_def strlen_def)
  then show ?case
    using Suc.IH [of "Suc j"] Suc.prems by (simp add: Cons_nth_drop_Suc [OF j, symmetric])
qed simp

section \<open>Properties\<close>

text \<open>What an executable has to satisfy to be written and listed.\<close>

definition elf_ok :: "elf_class \<Rightarrow> bool \<Rightarrow> u64 \<Rightarrow> elf_segment list \<Rightarrow> elf_section list \<Rightarrow> bytes \<Rightarrow> bool" where
  "elf_ok c be entry segs secs data \<longleftrightarrow>
     (let img = elf_image c be entry segs secs data
      in length img < 2 ^ 32 \<and> length segs < 2 ^ 16 \<and> length secs + 2 < 2 ^ 16 \<and> fits c entry \<and>
         (\<forall>s \<in> set secs. nul_free (sec_name s) \<and> fits c (sec_addr s) \<and> fits c (sec_offset s) \<and> fits c (sec_len s) \<and>
            (uuid_ok c img s \<or> uuid_long c s)) \<and>
         (\<forall>g \<in> set segs. fits c (seg_offset g) \<and> fits c (seg_vaddr g) \<and>
            (seg_type g = PT_INTERP \<longrightarrow> terminated (drop (unat (seg_offset g)) img))))"

definition elf_lines :: "elf_class \<Rightarrow> u64 \<Rightarrow> elf_segment list \<Rightarrow> elf_section list \<Rightarrow> bytes \<Rightarrow> line list" where
  "elf_lines c entry segs secs mem =
     Entry (ucast entry) # section_lines c mem (replicate 64 0) (all_sections c segs secs) @ concat (map (segment_lines mem) segs)"

lemma length_shdr_image [simp]: "length (shdr_image c be nm s) = sizeof_shdr c"
  by (simp add: shdr_image_def elf_layout split: elf_class.split)

lemma length_phdr_image [simp]: "length (phdr_image c be g) = sizeof_phdr c"
  by (simp add: phdr_image_def elf_layout split: elf_class.split)

lemma length_ehdr_image [simp]: "length (ehdr_image c be e p s np ns) = by_class 52 64 c"
  by (simp add: ehdr_image_def elf_layout split: elf_class.split)

lemma length_concat_same: "\<forall>x \<in> set xs. length x = n \<Longrightarrow> length (concat xs) = length xs * n"
  by (induction xs) auto

lemma length_name_table: "length (name_table (all_sections c segs secs)) = length (name_table secs) + 10"
  by (simp add: name_table_def all_sections_def s_shstrtab_def)

lemma s_shstrtab: "nul_free s_shstrtab" "take 5 s_shstrtab \<noteq> s_uuid"
  by (simp_all add: s_shstrtab_def s_uuid_def nul_free_def)

lemma elf_image_parts:
  fixes be :: bool and entry :: u64
  assumes "ss = all_sections c segs secs" "h = by_class 52 64 c"
  defines "A \<equiv> ehdr_image c be entry h (h + sizeof_phdr c * length segs) (length segs) (length ss + 1)"
  defines "B \<equiv> A @ concat (map (phdr_image c be) segs)"
  defines "C \<equiv> B @ concat (shdrs_image c be ss)"
  shows "elf_image c be entry segs secs data = C @ name_table ss @ data" "length A = h"
    "length B = h + sizeof_phdr c * length segs" "length C = table_place c segs secs"
proof -
  have n: "length ss = length secs + 1"
    by (simp add: assms(1) all_sections_def)
  show "elf_image c be entry segs secs data = C @ name_table ss @ data" "length A = h"
    by (simp_all add: elf_image_def Let_def A_def B_def C_def assms(1,2))
  then show lb: "length B = h + sizeof_phdr c * length segs"
    using length_concat_same [of "map (phdr_image c be) segs" "sizeof_phdr c"] by (simp add: B_def)
  have "\<forall>x \<in> set (shdrs_image c be ss). length x = sizeof_shdr c"
    by (auto simp: shdrs_image_def)
  then have "length (concat (shdrs_image c be ss)) = (length ss + 1) * sizeof_shdr c"
    using length_concat_same by (fastforce simp: shdrs_image_def)
  then show "length C = table_place c segs secs"
    using lb n assms(2) by (simp add: C_def table_place_def)
qed

lemma sections_listed:
  assumes img: "mem = B @ concat (shdrs_image c be ss) @ name_table ss @ r"
    and tab: "tab = length B + (length ss + 1) * sizeof_shdr c" "tab + length (name_table ss) < 2 ^ 32"
    and sec_ok: "\<And>s. s \<in> set ss \<Longrightarrow>
      nul_free (sec_name s) \<and> fits c (sec_addr s) \<and> fits c (sec_offset s) \<and> fits c (sec_len s) \<and>
      (uuid_ok c mem s \<or> uuid_long c s)"
  shows "j < length ss \<Longrightarrow> get_word c be mem (length B + Suc j * sizeof_shdr c + sh_offset c) = Inr (sec_offset (ss ! j))"
    and "section_loop c be mem (length B) tab (length ss) 1 (replicate 64 0) = listed c ss (section_lines c mem (replicate 64 0) ss)"
proof -
  let ?xs = "shdrs_image c be ss"
  have all: "\<forall>x \<in> set ?xs. length x = sizeof_shdr c" and len: "length ?xs = length ss + 1"
    by (auto simp: shdrs_image_def)
  have fields: "get32 be mem (length B + Suc j * sizeof_shdr c) = Inr (of_nat (name_index ss j)) \<and>
      get_word c be mem (length B + Suc j * sizeof_shdr c + sh_addr c) = Inr (sec_addr (ss ! j)) \<and>
      get_word c be mem (length B + Suc j * sizeof_shdr c + sh_offset c) = Inr (sec_offset (ss ! j)) \<and>
      get_word c be mem (length B + Suc j * sizeof_shdr c + sh_size c) = Inr (sec_len (ss ! j))" if "j < length ss" for j
  proof -
    have l: "Suc j < length ?xs" and nth: "?xs ! Suc j = shdr_image c be (name_index ss j) (ss ! j)"
      using that by (simp_all add: shdrs_image_def)
    have at: "mem = (B @ concat (take (Suc j) ?xs)) @ shdr_image c be (name_index ss j) (ss ! j) @
        concat (drop (Suc (Suc j)) ?xs) @ name_table ss @ r"
      unfolding img using concat_chunk(1) [OF all l] nth by simp
    have "length (B @ concat (take (Suc j) ?xs)) = length B + Suc j * sizeof_shdr c"
      using concat_chunk(2) [OF all l] by simp
    then show ?thesis
      using shdr_fields [OF at] sec_ok [OF nth_mem [OF that]] by metis
  qed
  then show "j < length ss \<Longrightarrow> get_word c be mem (length B + Suc j * sizeof_shdr c + sh_offset c) = Inr (sec_offset (ss ! j))"
    by blast
  have names: "string_at mem (tab + unat (of_nat (name_index ss j) :: u32)) = Inr (sec_name (ss ! j))" if "j < length ss" for j
  proof -
    have C: "length (B @ concat ?xs) = tab"
      using length_concat_same [OF all] by (simp add: tab(1) len)
    have s: "mem = ((B @ concat ?xs) @ name_table (take j ss)) @ sec_name (ss ! j) @
        0 # concat (map (\<lambda>s. sec_name s @ [0]) (drop (Suc j) ss)) @ r"
      unfolding img by (subst name_table_split [OF that]) simp
    have "length (name_table (take j ss)) \<le> length (name_table ss)"
      using arg_cong [OF name_table_split [OF that], of length] by simp
    then have "unat (of_nat (name_index ss j) :: u32) = name_index ss j"
      using tab(2) by (intro unat_of_nat_fits(2)) (simp add: name_index_def)
    then show ?thesis
      using string_at_append [OF s] sec_ok [OF nth_mem [OF that]] by (simp add: name_index_def C [symmetric] add.assoc)
  qed
  have "section_loop c be mem (length B) tab (length ss) (Suc 0) (replicate 64 0) =
      listed c (drop 0 ss) (section_lines c mem (replicate 64 0) (drop 0 ss))"
    by (rule section_loop_run) (use fields names sec_ok in \<open>auto intro: nth_mem\<close>)
  then show "section_loop c be mem (length B) tab (length ss) 1 (replicate 64 0) = listed c ss (section_lines c mem (replicate 64 0) ss)"
    by simp
qed

lemma segments_listed:
  assumes img: "mem = A @ concat (map (phdr_image c be) segs) @ r"
    and ok: "\<And>g. g \<in> set segs \<Longrightarrow> fits c (seg_offset g) \<and> fits c (seg_vaddr g) \<and>
      (seg_type g = PT_INTERP \<longrightarrow> terminated (drop (unat (seg_offset g)) mem))"
  shows "segment_loop c be True mem (length A) (length segs) 0 = Inr (concat (map (segment_lines mem) segs))"
proof -
  let ?ps = "map (phdr_image c be) segs"
  have fields: "get32 be mem (length A + j * sizeof_phdr c) = Inr (seg_type (segs ! j)) \<and>
      get_word c be mem (length A + j * sizeof_phdr c + p_offset c) = Inr (seg_offset (segs ! j)) \<and>
      get_word c be mem (length A + j * sizeof_phdr c + p_vaddr c) = Inr (seg_vaddr (segs ! j))" if "j < length segs" for j
  proof -
    have all: "\<forall>x \<in> set ?ps. length x = sizeof_phdr c" and l: "j < length ?ps"
      using that by auto
    have at: "mem = (A @ concat (take j ?ps)) @ phdr_image c be (segs ! j) @ concat (drop (Suc j) ?ps) @ r"
      unfolding img using concat_chunk(1) [OF all l] that by simp
    have "length (A @ concat (take j ?ps)) = length A + j * sizeof_phdr c"
      using concat_chunk(2) [OF all l] by simp
    then show ?thesis
      using phdr_fields [OF at] ok [OF nth_mem [OF that]] by metis
  qed
  have "segment_loop c be True mem (length A) (length segs) 0 = Inr (concat (map (segment_lines mem) (drop 0 segs)))"
    by (rule segment_loop_run) (use fields ok in auto)
  then show ?thesis
    by simp
qed

lemma read_elf_image:
  assumes ok: "elf_ok c be entry segs secs data" and mem: "mem = elf_image c be entry segs secs data @ z"
  shows "read_elf c be True mem = listed c secs (elf_lines c entry segs secs mem)"
proof -
  define ss h where "ss = all_sections c segs secs" and "h = by_class 52 64 c"
  define A where "A = ehdr_image c be entry h (h + sizeof_phdr c * length segs) (length segs) (length ss + 1)"
  define B where "B = A @ concat (map (phdr_image c be) segs)"
  define C where "C = B @ concat (shdrs_image c be ss)"
  note parts = elf_image_parts [OF ss_def h_def, where be = be and entry = entry, folded A_def, folded B_def, folded C_def]
  let ?tab = "table_place c segs secs"
  have nss: "length ss = length secs + 1"
    by (simp add: ss_def all_sections_def)
  have small: "length (elf_image c be entry segs secs data) < 2 ^ 32" "length segs < 2 ^ 16" "length ss + 1 < 2 ^ 16"
    using ok nss by (simp_all add: elf_ok_def Let_def)
  have img: "mem = C @ name_table ss @ data @ z"
    by (simp add: mem parts(1))
  then have mem_A: "mem = A @ concat (map (phdr_image c be) segs) @ concat (shdrs_image c be ss) @ name_table ss @ data @ z"
    and mem_B: "mem = B @ concat (shdrs_image c be ss) @ name_table ss @ data @ z"
    by (simp_all add: C_def B_def)
  have lenB: "length B = h + sizeof_phdr c * length segs"
    by (rule parts(3))
  have tab: "?tab + length (name_table ss) < 2 ^ 32" "?tab = length B + (length ss + 1) * sizeof_shdr c"
    using small(1) parts(4) lenB by (simp_all add: parts(1) table_place_def nss h_def)
  then have low: "h < 2 ^ 32" "length B < 2 ^ 32" "?tab < 2 ^ 32"
    using lenB by simp_all
  have entry_fits: "fits c entry"
    using ok by (simp add: elf_ok_def Let_def)
  note hdr = ehdr_fields [OF mem_A [unfolded A_def] entry_fits low(1) low(2) [unfolded lenB] small(2) _ small(3), folded lenB, simplified]
  have "A ! 0 = 0x7F" "A \<noteq> []"
    by (simp_all add: A_def ehdr_image_def)
  then have magic: "\<not> not_elf mem"
    by (simp add: not_elf_def mem_A nth_append)
  have last_ok: "fits c (of_nat ?tab)" "fits c (of_nat (length (name_table secs) + 10))" "fits c 0"
    using tab(1) low(3) length_name_table [of c segs secs] fits_of_nat [of 0]
    by (simp_all only: ss_def fits_of_nat) (simp add: fits_def)
  have sec_ok: "nul_free (sec_name s) \<and> fits c (sec_addr s) \<and> fits c (sec_offset s) \<and> fits c (sec_len s) \<and>
      (uuid_ok c mem s \<or> uuid_long c s)" if "s \<in> set ss" for s
  proof (cases "s \<in> set secs")
    case True
    then show ?thesis
      using ok by (fastforce simp: elf_ok_def Let_def uuid_ok_def mem)
  next
    case False
    then show ?thesis
      using that last_ok s_shstrtab by (simp add: ss_def all_sections_def uuid_ok_def)
  qed
  note sections = sections_listed [OF mem_B tab(2,1) sec_ok]
  have segments: "segment_loop c be True mem (length A) (length segs) 0 = Inr (concat (map (segment_lines mem) segs))"
    by (rule segments_listed [OF mem_A]) (use ok in \<open>auto simp: elf_ok_def Let_def mem terminated_def\<close>)
  have strs: "get_word c be mem (length B + length ss * sizeof_shdr c + sh_offset c) = Inr (of_nat ?tab)"
    using sections(1) [of "length secs"] by (simp add: nss) (simp add: ss_def all_sections_def)
  have nums: "unat (of_nat h :: u64) = h" "unat (of_nat (length B) :: u64) = length B" "unat (of_nat ?tab :: u64) = ?tab"
      "unat (of_nat (length segs) :: u16) = length segs" "unat (of_nat (length ss) :: u16) = length ss"
      "unat (of_nat (length ss + 1) :: u16) = length ss + 1"
    using low small(2,3) by (simp_all only: unat_of_nat_fits)
  then have "unat (1 + of_nat (length ss) :: u16) = Suc (length ss)"
    by simp
  moreover have "listed c ss = listed c secs"
    using s_shstrtab by (simp add: listed_def fun_eq_iff ss_def all_sections_def uuid_long_def)
  ultimately show ?thesis
    using magic hdr strs sections(2) segments nums parts(2)
    by (simp add: read_elf_def elf_lines_def listed_def ss_def [symmetric] del: of_nat_Suc of_nat_add)
qed


definition demo_elf_env :: "bytes \<Rightarrow> elf_env" where
  "demo_elf_env img =
     \<lparr>kern = \<lparr>open_fds = [2, 1, 0], max_fds = 8, ifaces = \<lambda>_. None, bind_ok = \<lambda>_. False\<rparr>,
      disk = (\<lambda>p. if p = [0x61] then Some img else None), fstat_ok = True, mmap_ok = True, memory_ok = True\<rparr>"

definition demo_uuid :: elf_section where
  "demo_uuid = \<lparr>sec_name = s_uuid, sec_addr = 0x400000, sec_offset = 1, sec_len = 3\<rparr>"


end
