(* ===== verification/JsonRead.thy ===== *)
theory JsonRead
  imports Stdio CJsonRoundTrip CJsonTree
begin

text \<open>
  \<open>jsonRead/jsonRead.c\<close>: the program that looks up a member of the object \<open>Wireless\<close> in a configuration file, prints
  it and ends with the type of its member \<open>Enable\<close>. It puts the parser, the lookup and the printer of
  \<open>cJSON\<close> together with the streams of the C library; the messages are values of a datatype.

  The lookup is that of \<open>CJsonStore\<close>, here on the items the parser returns; \<open>find_member_store\<close> shows that both are the
  same. Seeking in a regular file is taken to succeed.
\<close>

section \<open>The lookup on items\<close>

fun find_member :: "bytes \<Rightarrow> cJSON list \<Rightarrow> cJSON option cres" where
  "find_member name [] = Inr None"
| "find_member name (c # cs) =
     (case istring c of
        None \<Rightarrow> Inr None
      | Some s \<Rightarrow> cbind (strlen s) (\<lambda>_. if name = c_str s then Inr (Some c) else find_member name cs))"

definition object_item :: "cJSON \<Rightarrow> bytes \<Rightarrow> cJSON option cres" where
  "object_item object name = find_member name (children object)"

text \<open>The item a tree represents is found exactly when \<open>cJSON_GetObjectItemCaseSensitive\<close> finds its root.\<close>

lemma find_member_trees:
  assumes "\<forall>t \<in> set ts. nodes m (root t) \<noteq> None \<and> (name_at m (root t) \<noteq> None \<longrightarrow> readable m (name_at m (root t)))"
    and "distinct (map root ts)"
  shows "find_member (text_of m name) (map (the_item m) ts) =
    Inr (case find (is_member m True name) (members_before m (map root ts)) of
           None \<Rightarrow> None
         | Some p \<Rightarrow> map_option (the_item m) (find (\<lambda>t. root t = p) ts))"
  using assms
proof (induction ts)
  case Nil
  then show ?case
    by (simp add: members_before_def)
next
  case (Cons t ts)
  obtain p us where t: "t = Tree p us"
    by (cases t)
  obtain n where n: "nodes m p = Some n"
    using Cons.prems(1) t by auto
  have nm: "istring (the_item m t) = content m (n_string n)" "name_at m p = n_string n"
    using n by (simp_all add: t name_at_def)
  have rest: "find_member (text_of m name) (map (the_item m) ts) =
      Inr (case find (is_member m True name) (members_before m (map root ts)) of None \<Rightarrow> None
           | Some p \<Rightarrow> map_option (the_item m) (find (\<lambda>t. root t = p) ts))"
    using Cons by simp
  show ?case
  proof (cases "n_string n")
    case None
    then show ?thesis
      using nm by (simp add: t members_before_def content_def)
  next
    case (Some a)
    then have "readable m (Some a)"
      using Cons.prems(1) nm t by auto
    then obtain s where s: "content m (Some a) = Some s" "terminated s" "text_of m (Some a) = c_str s"
      by (auto simp: readable_def text_of_def split: option.splits)
    have before: "members_before m (map root (t # ts)) = p # members_before m (map root ts)"
      using Some nm by (simp add: members_before_def t)
    have mem: "is_member m True name p \<longleftrightarrow> text_of m name = c_str s"
      using Some nm s by (simp add: is_member_def names_match_def)
    have other: "p \<noteq> q" if "find (is_member m True name) (members_before m (map root ts)) = Some q" for q
    proof -
      have "q \<in> set (map root ts)"
        using find_in [OF that] by (auto simp: members_before_def dest: set_takeWhileD)
      then show ?thesis
        using Cons.prems(2) by (auto simp: t)
    qed
    show ?thesis
      using rest Some nm s before mem other
      by (auto simp: t strlen_def split: option.splits)
  qed
qed

lemma find_member_store:
  assumes w: "world m c ts us" and "readable m name"
    and names: "\<forall>t \<in> set ts. name_at m (root t) \<noteq> None \<longrightarrow> readable m (name_at m (root t))"
  shows "\<exists>r. cJSON_GetObjectItemCaseSensitive (Some c) name m = Inr r \<and>
    find_member (text_of m name) (map (the_item m) ts) =
      Inr (case r of None \<Rightarrow> None | Some p \<Rightarrow> map_option (the_item m) (find (\<lambda>t. root t = p) ts))"
proof -
  obtain n where n: "seg m None (map root ts) None" "distinct (map root ts)"
    using world_kids(1) [OF w] by (auto simp: kids_unfold)
  have "\<forall>t \<in> set ts. nodes m (root t) \<noteq> None"
    using seg_live [OF n(1)] by fastforce
  then show ?thesis
    using find_member_trees [of ts m name] names n(2) get_object_item_spec [OF assms, of True]
    by (simp add: cJSON_GetObjectItemCaseSensitive_def)
qed

section \<open>The program\<close>

datatype json_out =
    Usage
  | OpenFailed
  | MallocFailed
  | ReadFailed
  | ParseFailed
  | Damaged
  | NotFound
  | NoEnable
  | Printed "bytes option"

definition s_Wireless :: bytes where "s_Wireless = map of_char ''Wireless''"
definition s_Enable :: bytes where "s_Enable = map of_char ''Enable''"

text \<open>From the parsed root on. The block \<open>cJSON_Print\<close> returns is never given back; a null pointer is printed as \<open>(null)\<close>.\<close>

definition show_item :: "cJSON \<Rightarrow> bytes \<Rightarrow> heap \<Rightarrow> (int \<times> json_out list \<times> heap) cres" where
  "show_item cjson findstr h =
     cbind (object_item cjson s_Wireless) (\<lambda>root_object.
       case root_object of
         None \<Rightarrow> Inr (- 1, [Damaged], h)
       | Some root_object \<Rightarrow>
           cbind (object_item root_object findstr) (\<lambda>str_in_file.
             case str_in_file of
               None \<Rightarrow> Inr (- 1, [NotFound], h)
             | Some str_in_file \<Rightarrow>
                 cbind (cJSON_Print (Some str_in_file) h) (\<lambda>(printed, h).
                 cbind (case printed of None \<Rightarrow> Inr None | Some b \<Rightarrow> cbind (strlen b) (\<lambda>_. Inr (Some (c_str b)))) (\<lambda>shown.
                 cbind (object_item str_in_file s_Enable) (\<lambda>enableInfo.
                   case enableInfo of
                     None \<Rightarrow> Inr (- 1, [Printed shown, NoEnable], h)
                   | Some e \<Rightarrow> Inr (uint (itype e), [Printed shown], h))))))"

text \<open>
  Reading the file: the length is the size as an \<open>unsigned int\<close>. The buffer has one byte more, unless that overflows.
\<close>

definition read_text :: "cfile \<Rightarrow> cenv \<Rightarrow> bytes option cres" where
  "read_text f env =
     (let ReadLenth = (of_nat (fsize f env) :: u32);
          DataBuf = replicate (unat (ReadLenth + 1)) 0;
          got = fst (fread (unat ReadLenth) (rewind f) env)
      in if length DataBuf < length got then Inl OutOfBounds
         else if length got \<noteq> unat ReadLenth then Inr None
         else cbind (put_byte (overlay 0 got DataBuf) (unat ReadLenth) 0) (\<lambda>buf. Inr (Some buf)))"

definition json_main :: "bytes list \<Rightarrow> cenv \<Rightarrow> heap \<Rightarrow> (int \<times> json_out list \<times> cenv \<times> heap) cres" where
  "json_main argv env h =
     (case argv of
        filename # key # _ \<Rightarrow>
          (let inputName = c_str (strncpy_bytes filename 255 @ [0]);
               findstr = c_str (strncpy_bytes key 255 @ [0])
           in case fopen_r inputName env of
                (None, env) \<Rightarrow> Inr (- 1, [OpenFailed], env, h)
              | (Some f, env) \<Rightarrow>
                  (let ReadLenth = (of_nat (fsize f env) :: u32)
                   in case malloc (unat (ReadLenth + 1)) env of
                        (False, env) \<Rightarrow> Inr (- 1, [MallocFailed], fclose f env, h)
                      | (True, env) \<Rightarrow>
                          (let quit = (\<lambda>(r, out, h). Inr (r, out, free_block (fclose f env), h))
                           in cbind (read_text f env) (\<lambda>DataBuf.
                              case DataBuf of
                                None \<Rightarrow> quit (- 1, [ReadFailed], h)
                              | Some buf \<Rightarrow>
                                  cbind (cJSON_Parse (Some buf) h) (\<lambda>(cjson, h).
                                    case cjson of
                                      None \<Rightarrow> quit (sint ReadLenth, [ParseFailed], h)
                                    | Some cjson \<Rightarrow>
                                        cbind (show_item cjson findstr h) (\<lambda>(r, out, h).
                                          quit (r, out, cJSON_Delete [cjson] h)))))))
      | _ \<Rightarrow> Inr (- 1, [Usage], env, h))"

section \<open>What it answers\<close>

text \<open>The member of an object, by its name.\<close>

definition member :: "cJSON \<Rightarrow> bytes \<Rightarrow> cJSON option" where
  "member x name = (if itype x AND 0xFF = cJSON_Object then find (\<lambda>k. str_text (istring k) = name) (children x) else None)"

lemma find_member_reads:
  assumes "list_all2 reads_as ks ys" "list_all2 (\<lambda>k y. holds_text (istring k) (istring y)) ks ys"
  shows "\<exists>r. find_member name ys = Inr r \<and>
    (case find (\<lambda>k. str_text (istring k) = name) ks of None \<Rightarrow> r = None
     | Some k \<Rightarrow> \<exists>y. r = Some y \<and> reads_as k y \<and> k \<in> set ks \<and> y \<in> set ys)"
  using assms
proof (induction rule: list_all2_induct)
  case (Cons k ks y ys)
  obtain s where s: "istring y = Some s" "terminated s" "c_str s = str_text (istring k)"
    using Cons.prems by (cases "istring y") (auto simp: holds_text_def)
  obtain r where r: "find_member name ys = Inr r"
    "case find (\<lambda>k. str_text (istring k) = name) ks of None \<Rightarrow> r = None
     | Some k \<Rightarrow> \<exists>y. r = Some y \<and> reads_as k y \<and> k \<in> set ks \<and> y \<in> set ys"
    using Cons by auto
  show ?case
    using s r Cons.hyps(1) by (auto simp: strlen_def split: option.splits)
qed simp

lemma find_member_array:
  "list_all (\<lambda>k. istring k = None) ys \<Longrightarrow> find_member name ys = Inr None"
  by (cases ys) simp_all

lemma object_item_reads:
  assumes "printable x" "reads_as x y" "item_wf y"
  obtains r where "object_item y name = Inr r"
    "case member x name of None \<Rightarrow> r = None
     | Some k \<Rightarrow> \<exists>z. r = Some z \<and> reads_as k z \<and> printable k \<and> item_wf z"
proof -
  obtain ty vs vi vd nm ks where x: "x = Item ty vs vi vd nm ks"
    by (cases x)
  obtain ty' vs' vi' vd' nm' ys where y: "y = Item ty' vs' vi' vd' nm' ys"
    by (cases y)
  consider (object) "ty AND 0xFF = cJSON_Object" | (array) "ty AND 0xFF = cJSON_Array"
    | (other) "ty AND 0xFF \<noteq> cJSON_Object" "ty AND 0xFF \<noteq> cJSON_Array"
    by blast
  then show ?thesis
  proof cases
    case object
    then have l: "list_all2 reads_as ks ys" "list_all2 (\<lambda>k y. holds_text (istring k) (istring y)) ks ys"
      using assms(2) by (simp_all add: x y Let_def list.rel_map cJSON_types)
    have "\<forall>k \<in> set ks. printable k" "\<forall>k \<in> set ys. item_wf k"
      using assms(1,3) object by (simp_all add: x y Let_def list_all_iff)
    then show ?thesis
      using find_member_reads [OF l, of name] object that
      by (auto simp: object_item_def member_def x y split: option.splits)
  next
    case array
    then have "list_all (\<lambda>k. istring k = None) ys"
      using assms(2) by (simp add: x y Let_def)
    then show ?thesis
      using find_member_array [of ys name] array that by (simp add: object_item_def member_def x y cJSON_types)
  next
    case other
    then have "ys = []"
      using assms(2) by (simp add: x y Let_def)
    then show ?thesis
      using other that by (simp add: object_item_def member_def x y)
  qed
qed

text \<open>The exit status and the messages, \<open>p\<close> being what the printer makes of the member.\<close>

definition answer :: "cJSON \<Rightarrow> bytes \<Rightarrow> bytes option \<Rightarrow> int \<times> json_out list" where
  "answer x key p =
     (case member x s_Wireless of
        None \<Rightarrow> (- 1, [Damaged])
      | Some w \<Rightarrow>
          (case member w key of
             None \<Rightarrow> (- 1, [NotFound])
           | Some f \<Rightarrow>
               (case member f s_Enable of
                  None \<Rightarrow> (- 1, [Printed p, NoEnable])
                | Some e \<Rightarrow> (uint (itype e AND 0xFF), [Printed p]))))"

definition lost :: "json_out list \<Rightarrow> int" where
  "lost out = (case out of Printed (Some _) # _ \<Rightarrow> 1 | _ \<Rightarrow> 0)"

lemma reads_as_type: "reads_as x y \<Longrightarrow> itype y = itype x AND 0xFF"
  by (cases x) (simp add: Let_def)

lemma show_item_run:
  assumes "printable x" "reads_as x y" "item_wf y"
  obtains p h' where "show_item y key h = Inr (fst (answer x key p), snd (answer x key p), h')"
    "live h' = live h + lost (snd (answer x key p))"
    "\<And>w f. member x s_Wireless = Some w \<Longrightarrow> member w key = Some f \<Longrightarrow> p = None \<or> p = item_text f True 0"
proof -
  obtain r where r: "object_item y s_Wireless = Inr r" "case member x s_Wireless of None \<Rightarrow> r = None
     | Some k \<Rightarrow> \<exists>z. r = Some z \<and> reads_as k z \<and> printable k \<and> item_wf z"
    by (rule object_item_reads [OF assms])
  show ?thesis
  proof (cases "member x s_Wireless")
    case None
    then show ?thesis
      using r that [of None h] by (simp add: show_item_def answer_def lost_def)
  next
    case (Some w)
    then obtain z where z: "r = Some z" "reads_as w z" "printable w" "item_wf z"
      using r(2) by auto
    obtain r2 where r2: "object_item z key = Inr r2" "case member w key of None \<Rightarrow> r2 = None
       | Some k \<Rightarrow> \<exists>z. r2 = Some z \<and> reads_as k z \<and> printable k \<and> item_wf z"
      by (rule object_item_reads [OF z(3,2,4)])
    show ?thesis
    proof (cases "member w key")
      case None
      then show ?thesis
        using r z r2 Some that [of None h] by (simp add: show_item_def answer_def lost_def)
    next
      case f: (Some f)
      then obtain v where v: "r2 = Some v" "reads_as f v" "printable f" "item_wf v"
        using r2(2) by auto
      obtain r3 where r3: "object_item v s_Enable = Inr r3" "case member f s_Enable of None \<Rightarrow> r3 = None
         | Some k \<Rightarrow> \<exists>z. r3 = Some z \<and> reads_as k z \<and> printable k \<and> item_wf z"
        by (rule object_item_reads [OF v(3,2,4)])
      have "prints v True h (cJSON_Print (Some v) h)"
        using print_prints [OF v(4)] by (simp add: cJSON_Print_def)
      then obtain pr h1 where pr: "cJSON_Print (Some v) h = Inr (pr, h1)"
        "case pr of None \<Rightarrow> live h1 = live h
         | Some b \<Rightarrow> live h1 = live h + 1 \<and> terminated b \<and> item_text v True 0 = Some (c_str b)"
        by (auto simp: prints_def split: sum.splits prod.splits option.splits)
      have same: "item_text v True 0 = item_text f True 0"
        by (rule reads_as_text [OF v(3,2)])
      show ?thesis
        by (rule that [of "map_option c_str pr" h1])
          (use r z r2 r3 v Some f pr same in \<open>auto simp: show_item_def answer_def lost_def strlen_def reads_as_type split: option.splits\<close>)
    qed
  qed
qed

section \<open>Properties\<close>

lemma read_text_run:
  assumes "files env (fpath f) = Some t" "length t < 2 ^ 32 - 1"
  shows "read_text f env = Inr (Some (t @ [0]))"
proof -
  have n: "unat (of_nat (length t) :: u32) = length t" "unat (of_nat (length t) + 1 :: u32) = length t + 1"
  proof -
    have "of_nat (length t) + 1 = (of_nat (length t + 1) :: u32)"
      by simp
    then show "unat (of_nat (length t) :: u32) = length t" "unat (of_nat (length t) + 1 :: u32) = length t + 1"
      using assms(2) by (simp_all only: unat_of_nat) simp_all
  qed
  have "fst (fread (length t) (rewind f) env) = t" "fsize f env = length t"
    using assms by (simp_all add: fread_def rewind_def fsize_def Stdio.content_def Let_def)
  moreover have "drop (length t) (0 # replicate (length t) (0 :: u8)) = [0]"
    using drop_replicate [of "length t" "Suc (length t)" "0 :: u8"] by simp
  ultimately show ?thesis
    using n by (simp add: read_text_def Let_def overlay_def list_update_append)
qed

lemma json_main_run:
  assumes "files env fname = Some t" "cenv.readable env fname" "length t < 2 ^ 32 - 1" "malloc_ok env (length t + 1)"
    and "nul_free fname" "length fname \<le> 255"
  shows "json_main (fname # key # args) env h =
    cbind (cJSON_Parse (Some (t @ [0])) h) (\<lambda>(cjson, h).
      case cjson of
        None \<Rightarrow> Inr (sint (of_nat (length t) :: u32), [ParseFailed], env, h)
      | Some cjson \<Rightarrow> cbind (show_item cjson (take 255 (c_str key)) h) (\<lambda>(r, out, h). Inr (r, out, env, cJSON_Delete [cjson] h)))"
proof -
  have "c_str (strncpy_bytes fname 255 @ [0]) = fname"
    using assms(5,6) by (simp add: c_str_strncpy_bytes c_str_nul_free_all)
  moreover have "unat (of_nat (length t) + 1 :: u32) = length t + 1"
  proof -
    have "of_nat (length t) + 1 = (of_nat (length t + 1) :: u32)"
      by simp
    then show ?thesis
      using assms(3) by (simp only: unat_of_nat) simp
  qed
  ultimately show ?thesis
    using assms(1-4) read_text_run [of "env\<lparr>open_files := Suc (open_files env), live_blocks := Suc (live_blocks env)\<rparr>"
        "\<lparr>fpath = fname, fpos = 0, at_eof = False\<rparr>" t]
    by (auto simp: json_main_def Let_def fopen_r_def malloc_def fclose_def free_block_def fsize_def Stdio.content_def
        c_str_strncpy_bytes split: option.split intro!: arg_cong [of _ _ "cbind _"])
qed


text \<open>A file that is no JSON text makes the program end with the length of the file as its status.\<close>

lemma json_main_no_json:
  assumes "files env fname = Some t" "cenv.readable env fname" "length t < 2 ^ 32 - 1" "malloc_ok env (length t + 1)"
    and "nul_free fname" "length fname \<le> 255" "cJSON_Parse (Some (t @ [0])) h = Inr (None, h')"
  shows "json_main (fname # key # args) env h = Inr (sint (of_nat (length t) :: u32), [ParseFailed], env, h')"
  using json_main_run [OF assms(1-6), of key args h] assms(7) by simp

definition demo_config :: cJSON where
  "demo_config = Item cJSON_Object None 0 dzero None
     [Item cJSON_Object None 0 dzero (Some (s_Wireless @ [0]))
        [Item cJSON_Object None 0 dzero (Some [0x61, 0]) [Item cJSON_True None 1 dzero (Some (s_Enable @ [0])) []]]]"

definition demo_disk :: "bytes \<Rightarrow> cenv" where
  "demo_disk t = \<lparr>files = (\<lambda>_. Some t), readable = (\<lambda>_. True), writable = (\<lambda>_. False), room = 0, malloc_ok = (\<lambda>_. True),
     open_files = 3, live_blocks = 0\<rparr>"


end
