(* ===== verification/FileOps.thy ===== *)
theory FileOps
  imports Posix Walkthrough Stdio
begin

text \<open>
  \<open>file_operation/file.c\<close>: copying a file through a descriptor (\<open>write_file\<close>) and through streams (\<open>copy_file\<close>), mapping
  a file, the size of a directory and its removal, and the program, which copies the table of the firmware.

  Reads and writes of descriptors are those of the streams of \<open>Stdio\<close>: a regular file gives as many bytes as it has,
  and the disk takes as many as it has room for. \<open>broken\<close> tells for which paths reading fails (a directory can be
  opened, but not read). The loops take fuel; that it is enough is part of the lemmas.
\<close>

section \<open>Copying\<close>

text \<open>\<open>read\<close> of 1024 bytes; \<open>None\<close> is the result -1.\<close>

definition read_fd :: "(bytes \<Rightarrow> bool) \<Rightarrow> nat \<Rightarrow> cfile \<Rightarrow> cenv \<Rightarrow> bytes option \<times> cfile" where
  "read_fd broken n f env =
     (if broken (fpath f) then (None, f) else (case fread n f env of (got, f') \<Rightarrow> (Some got, f')))"

text \<open>The loop of \<open>write_file\<close> does not look at the result of \<open>write\<close>.\<close>

fun write_loop :: "nat \<Rightarrow> (bytes \<Rightarrow> bool) \<Rightarrow> cfile \<Rightarrow> cfile \<Rightarrow> cenv \<Rightarrow> cenv cres" where
  "write_loop 0 broken rd fw env = Inl Diverged"
| "write_loop (Suc n) broken rd fw env =
     (case read_fd broken 1024 rd env of
        (None, rd) \<Rightarrow> Inr env
      | (Some buf, rd) \<Rightarrow>
          if buf = [] then Inr env
          else (case fwrite buf fw env of (_, fw, env) \<Rightarrow> write_loop n broken rd fw env))"

definition write_file :: "nat \<Rightarrow> (bytes \<Rightarrow> bool) \<Rightarrow> cfile \<Rightarrow> bytes \<Rightarrow> cenv \<Rightarrow> (int \<times> cenv) cres" where
  "write_file fuel broken rd file env =
     (case fopen_w file env of
        (None, env) \<Rightarrow> Inr (- 1, env)
      | (Some fw, env) \<Rightarrow> cbind (write_loop fuel broken rd fw env) (\<lambda>env. Inr (0, fclose fw env)))"

text \<open>\<open>fread\<close> that fails returns 0 and does not set the end-of-file indicator the loop of \<open>copy_file\<close> waits for.\<close>

fun copy_loop :: "nat \<Rightarrow> (bytes \<Rightarrow> bool) \<Rightarrow> cfile \<Rightarrow> cfile \<Rightarrow> cenv \<Rightarrow> (int \<times> cenv) cres" where
  "copy_loop 0 broken fsrc fdst env = Inl Diverged"
| "copy_loop (Suc n) broken fsrc fdst env =
     (if at_eof fsrc then Inr (0, env)
      else (case (if broken (fpath fsrc) then ([], fsrc) else fread 4095 fsrc env) of (tempbuf, fsrc) \<Rightarrow>
            case fwrite tempbuf fdst env of (writeBytes, fdst, env) \<Rightarrow>
              if writeBytes \<noteq> length tempbuf then Inr (- 1, env)
              else copy_loop n broken fsrc fdst env))"

definition copy_file :: "nat \<Rightarrow> (bytes \<Rightarrow> bool) \<Rightarrow> bytes \<Rightarrow> bytes \<Rightarrow> cenv \<Rightarrow> (int \<times> cenv) cres" where
  "copy_file fuel broken dst src env =
     (case fopen_w dst env of
        (None, env) \<Rightarrow> Inr (- 1, env)
      | (Some fdst, env) \<Rightarrow>
          (case fopen_r src env of
             (None, env) \<Rightarrow> Inr (- 1, fclose fdst env)
           | (Some fsrc, env) \<Rightarrow>
               cbind (copy_loop fuel broken fsrc fdst env) (\<lambda>(ret, env). Inr (ret, fclose fsrc (fclose fdst env)))))"

section \<open>Mapping\<close>

text \<open>
  The file is given by its contents, if it exists. The result is the mapping, what \<open>*size\<close> is set to, and the
  descriptors; descriptor 0 is taken for none and not closed.
\<close>

definition mmap_file :: "bytes option \<Rightarrow> bool \<Rightarrow> bool \<Rightarrow> kernel \<Rightarrow> bytes option \<times> nat option \<times> kernel" where
  "mmap_file file fstat_ok mmap_ok k =
     (case (case file of None \<Rightarrow> (- 1, k) | Some _ \<Rightarrow> fd_open k) of
        (fd, k) \<Rightarrow>
          (let quit = (\<lambda>pointer len. (pointer, len, if 0 < fd then fd_close fd k else k))
           in if fd < 0 then quit None None
              else case file of
                  None \<Rightarrow> quit None None
                | Some c \<Rightarrow>
                    if \<not> fstat_ok then quit None None
                    else if \<not> mmap_ok \<or> c = [] then quit None (Some (length c))
                    else quit (Some c) (Some (length c))))"

definition unmap_file :: "int \<Rightarrow> int" where
  "unmap_file munmap_result = (if munmap_result < 0 then - 1 else 0)"

section \<open>The program\<close>

definition SMBIOS_STRUCTURE :: bytes where
  "SMBIOS_STRUCTURE = map of_char ''/sys/firmware/dmi/tables/DMI''"

definition s_output :: bytes where
  "s_output = map of_char ''./smbios_structre''"

definition file_main :: "nat \<Rightarrow> (bytes \<Rightarrow> bool) \<Rightarrow> cenv \<Rightarrow> (int \<times> cenv) cres" where
  "file_main fuel broken env =
     (case fopen_r SMBIOS_STRUCTURE env of
        (None, env) \<Rightarrow> Inr (- 1, env)
      | (Some fd, env) \<Rightarrow>
          cbind (write_file fuel broken fd s_output env) (\<lambda>(ret, env). Inr (ret, fclose fd env)))"

section \<open>Directories\<close>

text \<open>These two are the same code as in \<open>walkthrough/walkthroughPath.c\<close>.\<close>

definition getDirSize :: "nat \<Rightarrow> path \<Rightarrow> walk \<Rightarrow> (int \<times> walk) cres" where
  "getDirSize = get_dir_size"

definition deleteDir :: "nat \<Rightarrow> path \<Rightarrow> walk \<Rightarrow> walk cres" where
  "deleteDir = deleteFileAndDir"

section \<open>What the loops do\<close>

text \<open>The target after the first \<open>p\<close> bytes, the disk having taken as many as it had room for.\<close>

definition copied :: "bytes \<Rightarrow> bytes \<Rightarrow> nat \<Rightarrow> cenv \<Rightarrow> cenv" where
  "copied dst c p env = env\<lparr>files := (files env)(dst \<mapsto> take (min p (room env)) c), room := room env - p\<rparr>"

lemma take_length_take: "take n xs = take (length (take n xs)) xs"
  by (rule conjunct1 [OF iffD1 [OF append_eq_conv_conj append_take_drop_id]])

lemma copied_step:
  assumes "buf = take (length buf) (drop p c)" "p \<le> length c"
  shows "fwrite buf \<lparr>fpath = dst, fpos = min p (room env), at_eof = e\<rparr> (copied dst c p env) =
    (min (length buf) (room env - p), \<lparr>fpath = dst, fpos = min (p + length buf) (room env), at_eof = e\<rparr>,
     copied dst c (p + length buf) env)"
proof (cases "p \<le> room env")
  case True
  define m where "m = min (length buf) (room env - p)"
  have buf: "take m buf = take m (drop p c)"
    by (subst assms(1)) (simp add: m_def)
  have sel: "room (copied dst c p env) = room env - p" "content (copied dst c p env) dst = take p c"
    using True by (simp_all add: copied_def content_def)
  have pos: "min p (room env) = p" "min (p + length buf) (room env) = p + m" "room env - p - m = room env - (p + length buf)"
    using True by (auto simp: m_def)
  have data: "take p (take p c) @ take m buf @ drop (p + m) (take p c) = take (p + m) c"
    by (simp add: buf take_add)
  have "fwrite buf \<lparr>fpath = dst, fpos = p, at_eof = e\<rparr> (copied dst c p env) =
      (m, \<lparr>fpath = dst, fpos = p + m, at_eof = e\<rparr>,
       (copied dst c p env)\<lparr>files := (files (copied dst c p env))(dst \<mapsto> take (p + m) c), room := room env - p - m\<rparr>)"
    by (simp add: fwrite_def sel Let_def m_def [symmetric] data [simplified])
  then show ?thesis
    unfolding pos(1,2) m_def [symmetric] pos(3) by (simp add: copied_def pos(2))
next
  case False
  then show ?thesis
    by (simp add: fwrite_def Let_def copied_def content_def min_def)
qed

lemma fread_at:
  assumes "content env (fpath f) = c" "fpos f \<le> length c" "0 < n"
  shows "fread n f env = (take n (drop (fpos f) c),
    f\<lparr>fpos := fpos f + length (take n (drop (fpos f) c)), at_eof := at_eof f \<or> length c < fpos f + n\<rparr>)"
proof -
  have "length (take n (drop (fpos f) c)) < n \<longleftrightarrow> length c < fpos f + n"
    using assms(2,3) by auto
  then show ?thesis
    using assms(1) by (simp only: fread_def Let_def)
qed

lemma content_copied: "src \<noteq> dst \<Longrightarrow> content (copied dst c p env) src = content env src"
  by (simp add: copied_def content_def)

lemma copied_all: "room env \<le> p \<Longrightarrow> p \<le> length c \<Longrightarrow> copied dst c p env = copied dst c (length c) env"
  by (simp add: copied_def)

text \<open>With room for everything the loop of \<open>copy_file\<close> ends after the last read; without, with the first short write.\<close>

lemma copy_loop_run:
  assumes "content env src = c" "src \<noteq> dst" "\<not> broken src"
  shows "p \<le> length c \<Longrightarrow> p \<le> room env \<Longrightarrow> length c < p + 4095 * n \<Longrightarrow>
    copy_loop (Suc n) broken \<lparr>fpath = src, fpos = p, at_eof = False\<rparr> \<lparr>fpath = dst, fpos = min p (room env), at_eof = False\<rparr>
      (copied dst c p env) = Inr (if length c \<le> room env then 0 else - 1, copied dst c (length c) env)"
proof (induction n arbitrary: p)
  case (Suc n)
  define buf where "buf = take 4095 (drop p c)"
  have buf: "buf = take (length buf) (drop p c)" "length buf = min (length c - p) 4095"
    unfolding buf_def by (rule take_length_take, simp)
  have rd: "fread 4095 \<lparr>fpath = src, fpos = p, at_eof = False\<rparr> (copied dst c p env) =
      (buf, \<lparr>fpath = src, fpos = p + length buf, at_eof = length c < p + 4095\<rparr>)"
    using fread_at [of "copied dst c p env" "\<lparr>fpath = src, fpos = p, at_eof = False\<rparr>" c 4095] assms(1) content_copied [OF assms(2)] Suc.prems(1)
    by (simp add: buf_def)
  note wr = copied_step [OF buf(1) Suc.prems(1), of dst env False]
  have step: "copy_loop (Suc (Suc n)) broken \<lparr>fpath = src, fpos = p, at_eof = False\<rparr>
        \<lparr>fpath = dst, fpos = min p (room env), at_eof = False\<rparr> (copied dst c p env) =
      (if min (length buf) (room env - p) \<noteq> length buf then Inr (- 1, copied dst c (p + length buf) env)
       else copy_loop (Suc n) broken \<lparr>fpath = src, fpos = p + length buf, at_eof = length c < p + 4095\<rparr>
         \<lparr>fpath = dst, fpos = min (p + length buf) (room env), at_eof = False\<rparr> (copied dst c (p + length buf) env))"
    using rd wr assms(3) by simp
  consider (full) "room env < p + length buf" | (finished) "p + length buf \<le> room env" "length c < p + 4095"
    | (more) "p + length buf \<le> room env" "p + 4095 \<le> length c"
    by linarith
  then show ?case
  proof cases
    case full
    then have "min (length buf) (room env - p) \<noteq> length buf" "p + length buf \<le> length c" "\<not> length c \<le> room env"
      using Suc.prems(1,2) buf(2) by auto
    then show ?thesis
      using full copied_all [of env "p + length buf" c dst] unfolding step by simp
  next
    case finished
    then have l: "p + length buf = length c" "length c \<le> room env" "length c < p + 4095"
      using Suc.prems(1) buf(2) by auto
    then have "min (length buf) (room env - p) = length buf"
      by linarith
    then show ?thesis
      unfolding step l(1) using l(2,3) by simp
  next
    case more
    then have l: "length buf = 4095" "min (length buf) (room env - p) = length buf"
      using buf(2) by auto
    have ih: "copy_loop (Suc n) broken \<lparr>fpath = src, fpos = p + length buf, at_eof = False\<rparr>
        \<lparr>fpath = dst, fpos = min (p + length buf) (room env), at_eof = False\<rparr> (copied dst c (p + length buf) env) =
        Inr (if length c \<le> room env then 0 else - 1, copied dst c (length c) env)"
      using more l(1) Suc.prems(3) by (intro Suc.IH) simp_all
    have "\<not> length c < p + 4095"
      using more by simp
    then show ?thesis
      unfolding step using l(2) ih by simp
  qed
qed simp

text \<open>The loop of \<open>write_file\<close> reads to the end in any case.\<close>

lemma write_loop_run:
  assumes "content env src = c" "src \<noteq> dst" "\<not> broken src"
  shows "p \<le> length c \<Longrightarrow> length c \<le> p + 1024 * n \<Longrightarrow>
    write_loop (Suc n) broken \<lparr>fpath = src, fpos = p, at_eof = e\<rparr> \<lparr>fpath = dst, fpos = min p (room env), at_eof = False\<rparr>
      (copied dst c p env) = Inr (copied dst c (length c) env)"
proof (induction n arbitrary: p e)
  case (Suc n)
  define buf where "buf = take 1024 (drop p c)"
  have buf: "buf = take (length buf) (drop p c)" "length buf = min (length c - p) 1024"
    unfolding buf_def by (rule take_length_take, simp)
  obtain e' where rd: "fread 1024 \<lparr>fpath = src, fpos = p, at_eof = e\<rparr> (copied dst c p env) =
      (buf, \<lparr>fpath = src, fpos = p + length buf, at_eof = e'\<rparr>)"
    using fread_at [of "copied dst c p env" "\<lparr>fpath = src, fpos = p, at_eof = e\<rparr>" c 1024] assms(1) content_copied [OF assms(2)] Suc.prems(1)
    by (simp add: buf_def)
  note wr = copied_step [OF buf(1) Suc.prems(1), of dst env False]
  have step: "write_loop (Suc (Suc n)) broken \<lparr>fpath = src, fpos = p, at_eof = e\<rparr>
        \<lparr>fpath = dst, fpos = min p (room env), at_eof = False\<rparr> (copied dst c p env) =
      (if buf = [] then Inr (copied dst c p env)
       else write_loop (Suc n) broken \<lparr>fpath = src, fpos = p + length buf, at_eof = e'\<rparr>
         \<lparr>fpath = dst, fpos = min (p + length buf) (room env), at_eof = False\<rparr> (copied dst c (p + length buf) env))"
    using rd wr assms(3) by (simp add: read_fd_def)
  show ?case
  proof (cases "buf = []")
    case True
    then have "p = length c"
      using buf(2) Suc.prems(1) by simp
    then show ?thesis
      using True unfolding step by simp
  next
    case False
    have "0 < length buf"
      using False by simp
    moreover have "p + length buf \<le> length c"
      using buf(2) Suc.prems(1) by simp
    ultimately have ih: "write_loop (Suc n) broken \<lparr>fpath = src, fpos = p + length buf, at_eof = e'\<rparr>
        \<lparr>fpath = dst, fpos = min (p + length buf) (room env), at_eof = False\<rparr> (copied dst c (p + length buf) env) =
        Inr (copied dst c (length c) env)"
      using Suc.prems(2) buf(2) by (intro Suc.IH) auto
    then show ?thesis
      using False unfolding step by simp
  qed
next
  case 0
  then have p: "p = length c"
    by simp
  obtain f where "fread 1024 \<lparr>fpath = src, fpos = p, at_eof = e\<rparr> (copied dst c p env) = ([], f)"
    using fread_at [of "copied dst c p env" "\<lparr>fpath = src, fpos = p, at_eof = e\<rparr>" c 1024] assms(1) content_copied [OF assms(2)]
    by (simp add: p)
  then show ?case
    using assms(3) by (simp add: p read_fd_def)
qed

section \<open>Properties\<close>

lemma copy_loop_broken: "broken src \<Longrightarrow>
    copy_loop n broken \<lparr>fpath = src, fpos = p, at_eof = False\<rparr> \<lparr>fpath = dst, fpos = q, at_eof = e\<rparr> env = Inl Diverged"
proof (induction n arbitrary: q env)
  case (Suc n)
  then show ?case
    by (simp add: fwrite_def Let_def)
qed simp


text \<open>
  The program reports success whatever becomes of the copy: when the disk is full the rest is missing, and
  when the table cannot be read the copy is empty.
\<close>

lemma file_main_run:
  assumes "files env SMBIOS_STRUCTURE = Some c" "readable env SMBIOS_STRUCTURE" "writable env s_output" "length c \<le> 1024 * n"
  shows "file_main (Suc n) broken env =
    Inr (0, if broken SMBIOS_STRUCTURE then env\<lparr>files := (files env)(s_output \<mapsto> [])\<rparr>
            else env\<lparr>files := (files env)(s_output \<mapsto> take (room env) c), room := room env - length c\<rparr>)"
proof -
  define env2 where "env2 = env\<lparr>open_files := Suc (Suc (open_files env))\<rparr>"
  have ne: "SMBIOS_STRUCTURE \<noteq> s_output"
    by (simp add: SMBIOS_STRUCTURE_def s_output_def)
  have start: "file_main (Suc n) broken env =
      cbind (write_loop (Suc n) broken \<lparr>fpath = SMBIOS_STRUCTURE, fpos = 0, at_eof = False\<rparr>
          \<lparr>fpath = s_output, fpos = min 0 (room env2), at_eof = False\<rparr> (copied s_output c 0 env2))
        (\<lambda>e. Inr (0, e\<lparr>open_files := open_files e - 1 - 1\<rparr>))"
  proof -
    have "copied s_output c 0 env2 = env\<lparr>files := (files env)(s_output \<mapsto> []), open_files := Suc (Suc (open_files env))\<rparr>"
      by (simp add: copied_def env2_def)
    then show ?thesis
      using assms(1-3) by (simp add: file_main_def write_file_def stdio_defs cbind_assoc del: write_loop.simps)
  qed
  show ?thesis
  proof (cases "broken SMBIOS_STRUCTURE")
    case True
    then show ?thesis
      unfolding start by (simp add: read_fd_def copied_def env2_def)
  next
    case False
    have "write_loop (Suc n) broken \<lparr>fpath = SMBIOS_STRUCTURE, fpos = 0, at_eof = False\<rparr>
        \<lparr>fpath = s_output, fpos = min 0 (room env2), at_eof = False\<rparr> (copied s_output c 0 env2) =
        Inr (copied s_output c (length c) env2)"
      by (rule write_loop_run) (use assms ne False in \<open>simp_all add: env2_def content_def\<close>)
    then show ?thesis
      unfolding start using False by (simp add: copied_def env2_def min_def)
  qed
qed

text \<open>The descriptor of a mapped file is closed, unless it is 0.\<close>

lemma mmap_file_descriptors:
  "mmap_file file fstat_ok mmap_ok k = (p, len, k') \<Longrightarrow> k' = k \<or> (file \<noteq> None \<and> k' = k\<lparr>open_fds := 0 # open_fds k\<rparr>)"
  by (cases rule: fd_open_cases [of k]) (auto simp: mmap_file_def Let_def split: option.splits if_splits)

definition demo_cenv :: cenv where
  "demo_cenv = \<lparr>files = [[0x61] \<mapsto> [1, 2, 3]], readable = (\<lambda>_. True), writable = (\<lambda>_. True), room = 2, malloc_ok = (\<lambda>_. True),
     open_files = 3, live_blocks = 0\<rparr>"


end
