(* ===== verification/Log.thy ===== *)
theory Log
  imports Stdio Binary64
begin

text \<open>
  \<open>log/log.c\<close>: messages with a level, appended to a file. The static variables are the fields of \<open>logger\<close>, with the
  environment of the streams; \<open>live\<close> tells whether the stream \<open>log_file\<close> points to is still open, because
  \<open>close_log\<close> keeps the pointer. The text of a message is given as \<open>vfprintf\<close> expands it, and the local time as
  \<open>localtime\<close> gives it.
\<close>

section \<open>The program\<close>

datatype log_level = LOG_LEVEL_DEBUG | LOG_LEVEL_INFO | LOG_LEVEL_WARN | LOG_LEVEL_ERROR

fun level_number :: "log_level \<Rightarrow> nat" where
  "level_number LOG_LEVEL_DEBUG = 0"
| "level_number LOG_LEVEL_INFO = 1"
| "level_number LOG_LEVEL_WARN = 2"
| "level_number LOG_LEVEL_ERROR = 3"

instantiation log_level :: linorder
begin

definition less_eq_log_level :: "log_level \<Rightarrow> log_level \<Rightarrow> bool" where
  "a \<le> b \<longleftrightarrow> level_number a \<le> level_number b"

definition less_log_level :: "log_level \<Rightarrow> log_level \<Rightarrow> bool" where
  "a < b \<longleftrightarrow> level_number a < level_number b"

instance
proof
  fix a b :: log_level
  show "a \<le> b \<Longrightarrow> b \<le> a \<Longrightarrow> a = b"
    by (cases a; cases b) (simp_all add: less_eq_log_level_def)
qed (auto simp: less_eq_log_level_def less_log_level_def)

end

fun level_string :: "log_level \<Rightarrow> bytes" where
  "level_string LOG_LEVEL_DEBUG = map of_char ''DEBUG''"
| "level_string LOG_LEVEL_INFO = map of_char ''INFO''"
| "level_string LOG_LEVEL_WARN = map of_char ''WARN''"
| "level_string LOG_LEVEL_ERROR = map of_char ''ERROR''"

record tm =
  tm_year :: nat
  tm_mon :: nat
  tm_mday :: nat
  tm_hour :: nat
  tm_min :: nat
  tm_sec :: nat

record logger =
  log_file :: "cfile option"
  live :: bool
  current_log_level :: log_level
  env :: cenv

text \<open>
  \<open>strftime(buffer, 20, "%Y-%m-%d %H:%M:%S", tm)\<close>, with \<open>tm_year\<close> counted from 1900 and \<open>tm_mon\<close> from 0. A text that
  does not fit with its terminator leaves the buffer without defined contents.
\<close>

definition time_text :: "tm \<Rightarrow> bytes" where
  "time_text t =
     (let year = tm_year t + 1900
      in dec_digits (declen year) year @ [0x2D] @ dec_digits 2 (tm_mon t + 1) @ [0x2D] @ dec_digits 2 (tm_mday t) @ [0x20] @
         dec_digits 2 (tm_hour t) @ [0x3A] @ dec_digits 2 (tm_min t) @ [0x3A] @ dec_digits 2 (tm_sec t))"

definition get_current_time :: "tm option \<Rightarrow> bytes cres" where
  "get_current_time tm_info =
     (case tm_info of
        None \<Rightarrow> Inl NullDeref
      | Some t \<Rightarrow> if length (time_text t) < 20 then Inr (time_text t) else Inl Undefined)"

definition set_log_level :: "log_level \<Rightarrow> logger \<Rightarrow> logger" where
  "set_log_level level g = g\<lparr>current_log_level := level\<rparr>"

definition init_log :: "bytes \<Rightarrow> logger \<Rightarrow> int \<times> logger" where
  "init_log file_name g =
     (case fopen_a file_name (env g) of
        (None, e) \<Rightarrow> (- 1, g\<lparr>log_file := None, env := e\<rparr>)
      | (Some f, e) \<Rightarrow> (0, g\<lparr>log_file := Some f, live := True, env := e\<rparr>))"

definition close_log :: "logger \<Rightarrow> logger cres" where
  "close_log g =
     (case log_file g of
        None \<Rightarrow> Inr g
      | Some f \<Rightarrow> if live g then Inr (g\<lparr>live := False, env := fclose f (env g)\<rparr>) else Inl UseAfterFree)"

text \<open>A write to a stream opened with \<open>"a"\<close> goes to the end of the file. The results of the prints are dropped.\<close>

definition fprint_log :: "bytes \<Rightarrow> cfile \<Rightarrow> logger \<Rightarrow> logger" where
  "fprint_log s f g =
     (case fwrite s (f\<lparr>fpos := length (content (env g) (fpath f))\<rparr>) (env g) of
        (_, f', e) \<Rightarrow> g\<lparr>log_file := Some f', env := e\<rparr>)"

definition log_message :: "tm option \<Rightarrow> log_level \<Rightarrow> bytes \<Rightarrow> logger \<Rightarrow> logger cres" where
  "log_message now level message g =
     (if level < current_log_level g then Inr g
      else case log_file g of
          None \<Rightarrow> Inr g
        | Some f \<Rightarrow>
            cbind (get_current_time now) (\<lambda>t.
              if \<not> live g then Inl UseAfterFree
              else Inr (fprint_log [0x0A] f (fprint_log message f
                (fprint_log ([0x5B] @ t @ [0x5D, 0x20, 0x5B] @ level_string level @ [0x5D, 0x20]) f g)))))"

text \<open>Calls to the log in a row, as a program makes them.\<close>

datatype log_call = Set_Level log_level | Message "tm option" log_level bytes

fun run_log :: "log_call list \<Rightarrow> logger \<Rightarrow> logger cres" where
  "run_log [] g = Inr g"
| "run_log (Set_Level l # cs) g = run_log cs (set_log_level l g)"
| "run_log (Message now l s # cs) g = cbind (log_message now l s g) (run_log cs)"

definition app_log :: bytes where
  "app_log = map of_char ''app.log''"

text \<open>The program itself; \<open>now i\<close> is the time of the message \<open>i\<close>.\<close>

definition log_main :: "(nat \<Rightarrow> tm option) \<Rightarrow> logger \<Rightarrow> (int \<times> logger) cres" where
  "log_main now g =
     (case init_log app_log g of (ret, g) \<Rightarrow>
        if ret < 0 then Inr (- 1, g)
        else
          cbind (run_log
            [Set_Level LOG_LEVEL_DEBUG,
             Message (now 0) LOG_LEVEL_DEBUG (map of_char ''This is a debug message.''),
             Message (now 1) LOG_LEVEL_INFO (map of_char ''This is an info message.''),
             Message (now 2) LOG_LEVEL_WARN (map of_char ''This is a warning message.''),
             Message (now 3) LOG_LEVEL_ERROR (map of_char ''This is an error message.'')] g) (\<lambda>g.
          cbind (close_log g) (\<lambda>g. Inr (0, g))))"

section \<open>What a log holds\<close>

text \<open>The lines of the messages whose level is the current one or above.\<close>

definition log_line :: "tm option \<Rightarrow> log_level \<Rightarrow> bytes \<Rightarrow> bytes" where
  "log_line now l s =
     (case now of None \<Rightarrow> [] | Some t \<Rightarrow> [0x5B] @ time_text t @ [0x5D, 0x20, 0x5B] @ level_string l @ [0x5D, 0x20] @ s @ [0x0A])"

fun log_lines :: "log_level \<Rightarrow> log_call list \<Rightarrow> bytes" where
  "log_lines cur [] = []"
| "log_lines cur (Set_Level l # cs) = log_lines l cs"
| "log_lines cur (Message now l s # cs) = (if cur \<le> l then log_line now l s else []) @ log_lines cur cs"

text \<open>The years up to 9999, which the buffer has room for.\<close>

definition good_time :: "tm \<Rightarrow> bool" where
  "good_time t \<longleftrightarrow> tm_year t + 1900 \<le> 9999"

fun timed :: "log_call list \<Rightarrow> bool" where
  "timed [] \<longleftrightarrow> True"
| "timed (Set_Level l # cs) \<longleftrightarrow> timed cs"
| "timed (Message now l s # cs) \<longleftrightarrow> (\<exists>t. now = Some t \<and> good_time t) \<and> timed cs"

lemma declen_4: "n \<le> 9999 \<Longrightarrow> declen n \<le> 4"
  by (simp add: declen.simps [of n] declen.simps [of "n div 10"] declen.simps [of "n div 100"] declen.simps [of "n div 1000"]
      declen.simps [of "n div 10000"] declen.simps [of 0] div_mult2_eq [symmetric])

lemma declen_5:
  assumes "10000 \<le> n"
  shows "4 < declen n"
proof -
  have "n div 10000 \<noteq> 0" "n div 1000 \<noteq> 0" "n div 100 \<noteq> 0" "n div 10 \<noteq> 0" "n \<noteq> 0"
    using assms by (simp_all add: div_eq_0_iff)
  then show ?thesis
    by (simp add: declen.simps [of n] declen.simps [of "n div 10"] declen.simps [of "n div 100"] declen.simps [of "n div 1000"]
        declen.simps [of "n div 10000"] div_mult2_eq [symmetric])
qed

lemma get_current_time_good: "good_time t \<Longrightarrow> get_current_time (Some t) = Inr (time_text t)"
  using declen_4 [of "tm_year t + 1900"]
  by (simp add: get_current_time_def time_text_def good_time_def Let_def)

text \<open>A log that has been opened on \<open>file_name\<close>, with what has been written since.\<close>

definition logged :: "bytes \<Rightarrow> bytes \<Rightarrow> logger \<Rightarrow> logger" where
  "logged name s g = g\<lparr>env := (env g)\<lparr>files := (files (env g))(name \<mapsto> content (env g) name @ take (room (env g)) s),
     room := room (env g) - length s\<rparr>\<rparr>"

lemma fprint_log_logged:
  assumes "log_file g = Some f0" "fpath f0 = name" "fpath f = name"
  shows "\<exists>f'. fpath f' = name \<and> fprint_log s f (logged name u g) = (logged name (u @ s) g)\<lparr>log_file := Some f'\<rparr>"
proof -
  let ?f = "f\<lparr>fpos := length (content (env g) name) + min (length u) (room (env g)) + min (length s) (room (env g) - length u)\<rparr>"
  have "fprint_log s f (logged name u g) = (logged name (u @ s) g)\<lparr>log_file := Some ?f\<rparr>"
    using assms by (simp add: fprint_log_def logged_def fwrite_def Let_def min_def)
  then show ?thesis
    using assms(3) by (intro exI [of _ ?f]) simp
qed

lemma log_message_logged:
  assumes "log_file g = Some f0" "fpath f0 = name" "live g" "good_time t"
  shows "\<exists>f'. fpath f' = name \<and> log_message (Some t) l s (logged name u g) =
    Inr ((logged name (u @ (if current_log_level g \<le> l then log_line (Some t) l s else [])) g)\<lparr>log_file := Some f'\<rparr>)"
proof (cases "l < current_log_level g")
  case True
  then have "logged name u g = (logged name u g)\<lparr>log_file := Some f0\<rparr>"
    using assms(1) by (simp add: logged_def)
  with True show ?thesis
    using assms(2) by (intro exI [of _ f0]) (simp add: log_message_def logged_def not_le)
next
  case False
  let ?h = "[0x5B] @ time_text t @ [0x5D, 0x20, 0x5B] @ level_string l @ [0x5D, 0x20]"
  obtain f1 where f1: "fpath f1 = name" "fprint_log ?h f0 (logged name u g) = (logged name (u @ ?h) g)\<lparr>log_file := Some f1\<rparr>"
    using fprint_log_logged [OF assms(1,2,2)] by blast
  have upd: "fprint_log r f (k\<lparr>log_file := x\<rparr>) = fprint_log r f k" for r f k x
    by (simp add: fprint_log_def split: prod.splits)
  obtain f2 where f2: "fprint_log s f0 (logged name (u @ ?h) g) = (logged name ((u @ ?h) @ s) g)\<lparr>log_file := Some f2\<rparr>"
    using fprint_log_logged [OF assms(1,2,2)] by blast
  obtain f3 where f3: "fpath f3 = name"
    "fprint_log [0x0A] f0 (logged name ((u @ ?h) @ s) g) = (logged name (((u @ ?h) @ s) @ [0x0A]) g)\<lparr>log_file := Some f3\<rparr>"
    using fprint_log_logged [OF assms(1,2,2)] by blast
  have "log_file (logged name u g) = Some f0" "live (logged name u g)" "current_log_level (logged name u g) = current_log_level g"
    using assms by (simp_all add: logged_def)
  then have "log_message (Some t) l s (logged name u g) =
      Inr ((logged name (((u @ ?h) @ s) @ [0x0A]) g)\<lparr>log_file := Some f3\<rparr>)"
    using False get_current_time_good [OF assms(4)] unfolding log_message_def
    by (simp only: if_False option.case cbind_simps simp_thms f1(2) f2 f3(2) upd)
  with f3(1) False show ?thesis
    by (intro exI [of _ f3]) (simp add: log_line_def not_less)
qed

lemma run_log_logged:
  assumes "log_file g = Some f0" "fpath f0 = name" "live g" "timed cs"
  shows "\<exists>f' l. fpath f' = name \<and> run_log cs (logged name u g) =
    Inr ((logged name (u @ log_lines (current_log_level g) cs) g)\<lparr>log_file := Some f', current_log_level := l\<rparr>)"
  using assms
proof (induction cs arbitrary: g f0 u)
  case Nil
  have "logged name u g = (logged name u g)\<lparr>log_file := Some f0, current_log_level := current_log_level g\<rparr>"
    using Nil.prems(1) by (simp add: logged_def)
  with Nil.prems(2) show ?case
    by (intro exI [of _ f0] exI [of _ "current_log_level g"]) simp
next
  case (Cons c cs)
  show ?case
  proof (cases c)
    case (Set_Level l)
    have "set_log_level l (logged name u g) = logged name u (g\<lparr>current_log_level := l\<rparr>)"
      by (simp add: set_log_level_def logged_def)
    moreover have "(logged name v (g\<lparr>current_log_level := l\<rparr>))\<lparr>log_file := x, current_log_level := l'\<rparr> =
        (logged name v g)\<lparr>log_file := x, current_log_level := l'\<rparr>" for v x l'
      by (simp add: logged_def)
    ultimately show ?thesis
      using Cons.IH [of "g\<lparr>current_log_level := l\<rparr>" f0 u] Cons.prems Set_Level by simp
  next
    case (Message now l s)
    then obtain t where t: "now = Some t" "good_time t"
      using Cons.prems(4) by auto
    let ?u = "u @ (if current_log_level g \<le> l then log_line (Some t) l s else [])"
    obtain f1 where f1: "fpath f1 = name"
      "log_message (Some t) l s (logged name u g) = Inr ((logged name ?u g)\<lparr>log_file := Some f1\<rparr>)"
      using log_message_logged [OF Cons.prems(1-3) t(2)] by blast
    have "(logged name ?u g)\<lparr>log_file := Some f1\<rparr> = logged name ?u (g\<lparr>log_file := Some f1\<rparr>)"
      by (simp add: logged_def)
    moreover have "(logged name v (g\<lparr>log_file := x\<rparr>))\<lparr>log_file := x', current_log_level := l'\<rparr> =
        (logged name v g)\<lparr>log_file := x', current_log_level := l'\<rparr>" for v x x' l'
      by (simp add: logged_def)
    ultimately show ?thesis
      using Cons.IH [of "g\<lparr>log_file := Some f1\<rparr>" f1 ?u] Cons.prems f1 t(1) Message by simp
  qed
qed

lemma init_log_logged:
  assumes "writable (env g) name"
  shows "\<exists>f. fpath f = name \<and> init_log name g = (0, logged name [] (g\<lparr>log_file := Some f, live := True,
      env := (env g)\<lparr>open_files := Suc (open_files (env g))\<rparr>\<rparr>))"
proof -
  have "e\<lparr>files := a, open_files := b, room := room e\<rparr> = e\<lparr>files := a, open_files := b\<rparr>" for e :: cenv and a b
    by (cases e) simp
  then show ?thesis
    using assms by (intro exI [of _ "\<lparr>fpath = name, fpos = length (content (env g) name), at_eof = False\<rparr>"])
      (simp add: init_log_def fopen_a_def logged_def)
qed

section \<open>Properties\<close>

text \<open>
  C27: A log that is opened, used and closed. The file holds what it held before and then one line for every message whose
  level was the current one or above, as much of it as the disk takes; nothing else is changed and the stream is given
  back. \<open>close_log\<close> keeps its pointer, so a message that is not filtered out, or a second \<open>close_log\<close>, uses the closed
  stream. After the year 9999 the time does not fit its buffer.
\<close>

theorem log_session:
  assumes "writable (env g) name" "timed cs" "good_time t" "\<not> good_time t'"
  shows "\<exists>h. cbind (run_log cs (snd (init_log name g))) close_log = Inr h \<and> fst (init_log name g) = 0 \<and>
    env h = (env g)\<lparr>files := (files (env g))(name \<mapsto>
        content (env g) name @ take (room (env g)) (log_lines (current_log_level g) cs)),
      room := room (env g) - length (log_lines (current_log_level g) cs)\<rparr> \<and>
    log_message (Some t) l s h = (if l < current_log_level h then Inr h else Inl UseAfterFree) \<and>
    close_log h = Inl UseAfterFree \<and> get_current_time (Some t') = Inl Undefined"
proof -
  obtain f where f: "fpath f = name" "init_log name g = (0, logged name [] (g\<lparr>log_file := Some f, live := True,
      env := (env g)\<lparr>open_files := Suc (open_files (env g))\<rparr>\<rparr>))"
    using init_log_logged [OF assms(1)] by blast
  obtain f' lev where run: "run_log cs (snd (init_log name g)) =
      Inr ((logged name (log_lines (current_log_level g) cs) (g\<lparr>log_file := Some f, live := True,
        env := (env g)\<lparr>open_files := Suc (open_files (env g))\<rparr>\<rparr>))\<lparr>log_file := Some f', current_log_level := lev\<rparr>)"
    using run_log_logged [of "g\<lparr>log_file := Some f, live := True, env := (env g)\<lparr>open_files := Suc (open_files (env g))\<rparr>\<rparr>" f name cs "[]"]
      f assms(2) by auto
  have "4 < declen (tm_year t' + 1900)"
    using assms(4) by (intro declen_5) (simp add: good_time_def)
  then have late: "get_current_time (Some t') = Inl Undefined"
    by (simp add: get_current_time_def time_text_def Let_def)
  show ?thesis
    using run f(2) late get_current_time_good [OF assms(3)]
    by (simp add: close_log_def logged_def fclose_def log_message_def)
qed

definition demo_tm :: tm where
  "demo_tm = \<lparr>tm_year = 124, tm_mon = 1, tm_mday = 29, tm_hour = 23, tm_min = 5, tm_sec = 9\<rparr>"

definition demo_logger :: logger where
  "demo_logger = \<lparr>log_file = None, live = False, current_log_level = LOG_LEVEL_DEBUG,
     env = \<lparr>files = [app_log \<mapsto> [0x21]], readable = (\<lambda>_. True), writable = (\<lambda>_. True), room = 100,
       malloc_ok = (\<lambda>_. True), open_files = 3, live_blocks = 0\<rparr>\<rparr>"

lemma demo_line: "log_line (Some demo_tm) LOG_LEVEL_WARN [0x61] = map of_char ''[2024-02-29 23:05:09] [WARN] a'' @ [0x0A]"
  by code_simp

theorem log_session_witness:
  "\<exists>h. cbind (run_log [Message (Some demo_tm) LOG_LEVEL_WARN [0x61], Set_Level LOG_LEVEL_ERROR, Message (Some demo_tm) LOG_LEVEL_INFO [0x62]]
      (snd (init_log app_log demo_logger))) close_log = Inr h \<and>
    content (env h) app_log = 0x21 # map of_char ''[2024-02-29 23:05:09] [WARN] a'' @ [0x0A] \<and>
    log_message (Some demo_tm) LOG_LEVEL_ERROR [] h = (if LOG_LEVEL_ERROR < current_log_level h then Inr h else Inl UseAfterFree)"
proof -
  let ?cs = "[Message (Some demo_tm) LOG_LEVEL_WARN [0x61], Set_Level LOG_LEVEL_ERROR, Message (Some demo_tm) LOG_LEVEL_INFO [0x62]]"
  have t: "good_time demo_tm" "\<not> good_time (demo_tm\<lparr>tm_year := 8100\<rparr>)" "timed ?cs"
    by (simp_all add: good_time_def demo_tm_def)
  have w: "writable (env demo_logger) app_log" "content (env demo_logger) app_log = [0x21]" "room (env demo_logger) = 100"
    "current_log_level demo_logger = LOG_LEVEL_DEBUG"
    by (simp_all add: demo_logger_def content_def)
  have ls: "log_lines LOG_LEVEL_DEBUG ?cs = map of_char ''[2024-02-29 23:05:09] [WARN] a'' @ [0x0A]"
    using demo_line by (simp add: less_eq_log_level_def)
  then have "take 100 (log_lines LOG_LEVEL_DEBUG ?cs) = map of_char ''[2024-02-29 23:05:09] [WARN] a'' @ [0x0A]"
    by simp
  with log_session [OF w(1) t(3,1,2), of LOG_LEVEL_ERROR "[]"] show ?thesis
    unfolding w(2-4) by fastforce
qed

text \<open>The program writes its four messages.\<close>

lemma log_main_run:
  assumes "writable (env g) app_log" "\<And>i. \<exists>t. now i = Some t \<and> good_time t"
  shows "\<exists>h. log_main now g = Inr (0, h) \<and> open_files (env h) = open_files (env g) \<and>
    content (env h) app_log = content (env g) app_log @ take (room (env g))
      (log_line (now 0) LOG_LEVEL_DEBUG (map of_char ''This is a debug message.'') @
       log_line (now 1) LOG_LEVEL_INFO (map of_char ''This is an info message.'') @
       log_line (now 2) LOG_LEVEL_WARN (map of_char ''This is a warning message.'') @
       log_line (now 3) LOG_LEVEL_ERROR (map of_char ''This is an error message.''))"
proof -
  define cs where "cs = [Set_Level LOG_LEVEL_DEBUG,
    Message (now 0) LOG_LEVEL_DEBUG (map of_char ''This is a debug message.''),
    Message (now 1) LOG_LEVEL_INFO (map of_char ''This is an info message.''),
    Message (now 2) LOG_LEVEL_WARN (map of_char ''This is a warning message.''),
    Message (now 3) LOG_LEVEL_ERROR (map of_char ''This is an error message.'')]"
  have t: "timed cs"
    using assms(2) by (simp add: cs_def)
  obtain f where f: "fpath f = app_log" "init_log app_log g = (0, logged app_log [] (g\<lparr>log_file := Some f, live := True,
      env := (env g)\<lparr>open_files := Suc (open_files (env g))\<rparr>\<rparr>))"
    using init_log_logged [OF assms(1)] by blast
  obtain f' lev where run: "run_log cs (snd (init_log app_log g)) =
      Inr ((logged app_log (log_lines (current_log_level g) cs) (g\<lparr>log_file := Some f, live := True,
        env := (env g)\<lparr>open_files := Suc (open_files (env g))\<rparr>\<rparr>))\<lparr>log_file := Some f', current_log_level := lev\<rparr>)"
    using run_log_logged [of "g\<lparr>log_file := Some f, live := True, env := (env g)\<lparr>open_files := Suc (open_files (env g))\<rparr>\<rparr>" f app_log cs "[]"]
      f t by auto
  have "log_lines (current_log_level g) cs = log_line (now 0) LOG_LEVEL_DEBUG (map of_char ''This is a debug message.'') @
       log_line (now 1) LOG_LEVEL_INFO (map of_char ''This is an info message.'') @
       log_line (now 2) LOG_LEVEL_WARN (map of_char ''This is a warning message.'') @
       log_line (now 3) LOG_LEVEL_ERROR (map of_char ''This is an error message.'')"
    by (simp add: cs_def less_eq_log_level_def)
  then show ?thesis
    using run f(2) unfolding log_main_def cs_def [symmetric]
    by (simp add: close_log_def logged_def fclose_def)
qed

end
