(* ===== verification/Popen.thy ===== *)
theory Popen
  imports Posix
begin

text \<open>
  \<open>pipe_open/popen.c\<close> and \<open>pipe_open/popen_iml.c\<close>: two versions of \<open>popen\<close>, the first with its \<open>pclose\<close>. \<open>process\<close> is the
  state of the calling process: its descriptors with the objects they refer to, the table \<open>childpid\<close>, the open
  streams (each named by its descriptor) and the children that have not been waited for. What the kernel decides is
  in \<open>outcomes\<close>: whether there is memory, what \<open>fork\<close> returns in the parent, whether \<open>fdopen\<close> works.
\<close>

section \<open>The process\<close>

datatype obj = Inherited | Read_End nat | Write_End nat

record process =
  kern :: kernel
  object :: "int \<Rightarrow> obj"
  pipes :: nat
  streams :: "int set"
  children :: "int set"
  childpid :: "int list option"

record outcomes =
  calloc_ok :: bool
  fork_result :: int
  fdopen_ok :: bool

text \<open>\<open>pipe\<close>: two descriptors, the read end first, or none.\<close>

definition pipe :: "process \<Rightarrow> (int \<times> int) option \<times> process" where
  "pipe p =
     (case fd_open (kern p) of (r, k) \<Rightarrow>
        if r < 0 then (None, p)
        else (case fd_open k of (w, k) \<Rightarrow>
          if w < 0 then (None, p)
          else (Some (r, w), p\<lparr>kern := k, object := (object p)(r := Read_End (pipes p), w := Write_End (pipes p)),
                  pipes := Suc (pipes p)\<rparr>)))"

definition close_fd :: "int \<Rightarrow> process \<Rightarrow> process" where
  "close_fd d p = p\<lparr>kern := fd_close d (kern p)\<rparr>"

text \<open>The descriptors of a process as a table; a child starts with those of its parent.\<close>

definition descriptors :: "process \<Rightarrow> int \<rightharpoonup> obj" where
  "descriptors p = (\<lambda>d. if d \<in> set (open_fds (kern p)) then Some (object p d) else None)"

definition dup2 :: "int \<Rightarrow> int \<Rightarrow> (int \<rightharpoonup> obj) \<Rightarrow> (int \<rightharpoonup> obj)" where
  "dup2 a b t = t(b := t a)"

section \<open>popen.c\<close>

text \<open>What the child does between \<open>fork\<close> and \<open>execl\<close>.\<close>

definition close_others :: "int list \<Rightarrow> (int \<rightharpoonup> obj) \<Rightarrow> (int \<rightharpoonup> obj)" where
  "close_others tab t = fold (\<lambda>i t. if 0 < tab ! i then t(int i := None) else t) [0..<length tab] t"

definition child_setup :: "u8 \<Rightarrow> int \<times> int \<Rightarrow> int list \<Rightarrow> (int \<rightharpoonup> obj) \<Rightarrow> (int \<rightharpoonup> obj)" where
  "child_setup type pfd tab t =
     close_others tab
       (if type = 0x72
        then (let t = t(fst pfd := None) in if snd pfd \<noteq> 1 then (dup2 (snd pfd) 1 t)(snd pfd := None) else t)
        else (let t = t(snd pfd := None) in if fst pfd \<noteq> 0 then (dup2 (fst pfd) 0 t)(fst pfd := None) else t))"

text \<open>
  The result is the stream, the descriptors the shell starts with if there is a child, and the process. \<open>om\<close> is what
  \<open>open_max\<close> returns.
\<close>

definition bad_type :: "bytes \<Rightarrow> bool cres" where
  "bad_type type =
     cbind (byte_at type 0) (\<lambda>t0. if t0 \<noteq> 0x72 \<and> t0 \<noteq> 0x77 then Inr True
       else cbind (byte_at type 1) (\<lambda>t1. Inr (t1 \<noteq> 0)))"

definition first_time :: "int \<Rightarrow> outcomes \<Rightarrow> process \<Rightarrow> process" where
  "first_time om oc p =
     (if childpid p = None \<and> calloc_ok oc then p\<lparr>childpid := Some (replicate (nat om) 0)\<rparr> else p)"

definition popen :: "int \<Rightarrow> outcomes \<Rightarrow> bytes \<Rightarrow> process \<Rightarrow> (int option \<times> (int \<rightharpoonup> obj) option \<times> process) cres" where
  "popen om oc type p =
     cbind (bad_type type) (\<lambda>bad.
       if bad then Inr (None, None, p)
       else let p = first_time om oc p in
         case childpid p of
           None \<Rightarrow> Inr (None, None, p)
         | Some tab \<Rightarrow>
             case pipe p of
               (None, p) \<Rightarrow> Inr (None, None, p)
             | (Some pfd, p) \<Rightarrow>
                 if fork_result oc < 0 then Inr (None, None, p)
                 else let pid = fork_result oc;
                          child = child_setup (type ! 0) pfd tab (descriptors p);
                          (fd, other) = (if type ! 0 = 0x72 then pfd else (snd pfd, fst pfd));
                          p = close_fd other (p\<lparr>children := insert pid (children p)\<rparr>)
                      in if \<not> fdopen_ok oc then Inr (None, Some child, p)
                         else if length tab \<le> nat fd then Inl OutOfBounds
                         else Inr (Some fd, Some child,
                                p\<lparr>streams := insert fd (streams p), childpid := Some (tab[nat fd := pid])\<rparr>))"

text \<open>The results of the calls of \<open>waitpid\<close> one after the other.\<close>

datatype wait_result = Interrupted | Wait_Error | Status int

fun wait_loop :: "int \<Rightarrow> wait_result list \<Rightarrow> process \<Rightarrow> (int \<times> process) cres" where
  "wait_loop pid [] p = Inl Diverged"
| "wait_loop pid (Interrupted # rs) p = wait_loop pid rs p"
| "wait_loop pid (Wait_Error # rs) p = Inr (- 1, p)"
| "wait_loop pid (Status stat # rs) p = Inr (stat, p\<lparr>children := children p - {pid}\<rparr>)"

definition pclose :: "bool \<Rightarrow> wait_result list \<Rightarrow> int \<Rightarrow> process \<Rightarrow> (int \<times> process) cres" where
  "pclose fclose_ok rs fp p =
     (case childpid p of
        None \<Rightarrow> Inr (- 1, p)
      | Some tab \<Rightarrow>
          if fp \<notin> streams p then Inl UseAfterFree
          else if length tab \<le> nat fp then Inl OutOfBounds
          else let pid = tab ! nat fp
               in if pid = 0 then Inr (- 1, p)
                  else let p = (close_fd fp p)\<lparr>childpid := Some (tab[nat fp := 0]), streams := streams p - {fp}\<rparr>
                       in if \<not> fclose_ok then Inr (- 1, p) else wait_loop pid rs p)"

section \<open>popen_iml.c\<close>

text \<open>
  The command as far as it matters here: whether \<open>execvp\<close> finds it, how much it writes, and whether it reads its input to
  the end. The arguments are none but its name.
\<close>

record command =
  found :: bool
  writes :: bytes
  reads_input :: bool

definition PIPE_SIZE :: nat where
  "PIPE_SIZE = 65536"

text \<open>The child: the descriptors the command is started with, or \<open>None\<close> when it returns \<open>NULL\<close> to the caller as a second process.\<close>

definition mypopen_child :: "command \<Rightarrow> u8 \<Rightarrow> int \<times> int \<Rightarrow> (int \<rightharpoonup> obj) \<Rightarrow> (int \<rightharpoonup> obj) option" where
  "mypopen_child cmd type pfd t =
     (let t = (if type = 0x72 then (dup2 (snd pfd) 1 (t(fst pfd := None)))(snd pfd := None)
               else (dup2 (fst pfd) 0 (t(snd pfd := None)))(fst pfd := None))
      in if found cmd then Some t else None)"

text \<open>
  Whether the child ends while its parent waits for it: the pipe holds \<open>PIPE_SIZE\<close> bytes nobody reads yet, and the parent
  keeps the end open a command waits on for its input. \<open>copy_ends\<close> is what the copy of the caller does that goes on
  when the command is not found.
\<close>

definition child_ends :: "bool \<Rightarrow> command \<Rightarrow> u8 \<Rightarrow> bool" where
  "child_ends copy_ends cmd type \<longleftrightarrow>
     (if \<not> found cmd then copy_ends
      else if type = 0x72 then length (writes cmd) \<le> PIPE_SIZE else \<not> reads_input cmd)"

text \<open>
  \<open>wait(0)\<close> takes the first child that has ended: \<open>ended\<close> if there is one already. The result \<open>None\<close> is a call that never
  returns.
\<close>

definition mypopen :: "bool \<Rightarrow> command \<Rightarrow> u8 \<Rightarrow> outcomes \<Rightarrow> int option \<Rightarrow> process \<Rightarrow> (int option \<times> process) option" where
  "mypopen copy_ends cmd type oc ended p =
     (if type \<noteq> 0x72 \<and> type \<noteq> 0x77 then Some (None, p)
      else case pipe p of
          (None, p) \<Rightarrow> Some (None, p)
        | (Some pfd, p) \<Rightarrow>
            if fork_result oc < 0 then Some (None, p)
            else let p = p\<lparr>children := insert (fork_result oc) (children p)\<rparr>;
                     waited = (case ended of Some c \<Rightarrow> Some c
                       | None \<Rightarrow> if child_ends copy_ends cmd type then Some (fork_result oc) else None);
                     (fd, other) = (if type = 0x72 then pfd else (snd pfd, fst pfd))
                 in case waited of
                     None \<Rightarrow> None
                   | Some c \<Rightarrow>
                       let p = close_fd other (p\<lparr>children := children p - {c}\<rparr>)
                       in if fdopen_ok oc then Some (Some fd, p\<lparr>streams := insert fd (streams p)\<rparr>)
                          else Some (None, p))"

section \<open>The process over time\<close>

text \<open>\<open>fork\<close> fails or returns the number of a new process.\<close>

definition sane :: "outcomes \<Rightarrow> process \<Rightarrow> bool" where
  "sane oc p \<longleftrightarrow> fork_result oc < 0 \<or> (0 < fork_result oc \<and> fork_result oc \<notin> children p)"

inductive pstep :: "process \<Rightarrow> process \<Rightarrow> bool" where
  opens: "sane oc p \<Longrightarrow> popen (int (max_fds (kern p))) oc type p = Inr (fp, child, p') \<Longrightarrow> pstep p p'"
| closes: "pclose ok rs fp p = Inr (r, p') \<Longrightarrow> pstep p p'"

inductive_cases pstepE: "pstep p p'"

inductive reaches :: "process \<Rightarrow> process \<Rightarrow> bool" where
  here: "reaches p p"
| further: "reaches p q \<Longrightarrow> pstep q r \<Longrightarrow> reaches p r"

text \<open>A process that has not called \<open>popen\<close> yet, with the descriptors \<open>base\<close> and streams on some of them.\<close>

definition fresh :: "int set \<Rightarrow> process \<Rightarrow> bool" where
  "fresh base p \<longleftrightarrow> childpid p = None \<and> distinct (open_fds (kern p)) \<and> set (open_fds (kern p)) = base \<and>
     streams p \<subseteq> base \<and> base \<subseteq> {0..}"

text \<open>
  The table has an entry for exactly the streams \<open>popen\<close> has made, each the number of a child that has not been waited
  for, and no child is entered twice.
\<close>

definition table_ok :: "int set \<Rightarrow> int set \<Rightarrow> int list \<Rightarrow> bool" where
  "table_ok S C tab \<longleftrightarrow> S \<subseteq> {0..<int (length tab)} \<and>
     (\<forall>i < length tab. 0 \<le> tab ! i \<and> (0 < tab ! i \<longleftrightarrow> int i \<in> S) \<and> (0 < tab ! i \<longrightarrow> tab ! i \<in> C) \<and>
        (\<forall>j < length tab. 0 < tab ! i \<and> tab ! i = tab ! j \<longrightarrow> i = j))"

definition inv :: "int set \<Rightarrow> process \<Rightarrow> bool" where
  "inv base p \<longleftrightarrow> distinct (open_fds (kern p)) \<and> base \<union> streams p \<subseteq> set (open_fds (kern p)) \<and>
     set (open_fds (kern p)) \<subseteq> {0..} \<and>
     (case childpid p of
        None \<Rightarrow> streams p \<subseteq> base
      | Some tab \<Rightarrow> length tab = max_fds (kern p) \<and> table_ok (streams p - base) (children p) tab)"

lemma table_ok_new: "table_ok {} C (replicate n 0)"
  by (simp add: table_ok_def)

lemma table_ok_children: "table_ok S C tab \<Longrightarrow> C \<subseteq> C' \<Longrightarrow> table_ok S C' tab"
  by (auto simp: table_ok_def)

lemma table_ok_enter:
  assumes "table_ok S C tab" "0 < pid" "pid \<notin> C" "0 \<le> fd" "nat fd < length tab"
  shows "table_ok (insert fd S) (insert pid C) (tab[nat fd := pid])"
proof -
  have "\<forall>i < length tab. tab ! i \<noteq> pid"
    using assms(1-3) by (auto simp: table_ok_def)
  moreover obtain k where "fd = int k" "k < length tab"
    using assms(4,5) by (metis nat_0_le)
  ultimately show ?thesis
    using assms(1,2) unfolding table_ok_def by (auto simp: nth_list_update)
qed

lemma table_ok_remove:
  assumes "table_ok S C tab" "0 \<le> fd" "C - {tab ! nat fd} \<subseteq> C'" "nat fd < length tab"
  shows "table_ok (S - {fd}) C' (tab[nat fd := 0])"
proof -
  have "tab ! i \<in> C'" if "i < length tab" "0 < tab ! i" "i \<noteq> nat fd" for i
  proof -
    have "tab ! i \<noteq> tab ! nat fd" "tab ! i \<in> C"
      using assms(1,4) that unfolding table_ok_def by blast+
    then show ?thesis
      using assms(3) by blast
  qed
  moreover obtain k where "fd = int k" "k < length tab"
    using assms(2,4) by (metis nat_0_le)
  ultimately show ?thesis
    using assms(1) unfolding table_ok_def by (auto simp: nth_list_update)
qed

lemma inv_fresh: "fresh base p \<Longrightarrow> inv base p"
  by (simp add: fresh_def inv_def)

lemma lowest_free_le: "lowest_free ds \<le> int (length ds)"
proof (cases "filter (\<lambda>d. d \<notin> set ds) (map int [0..<Suc (length ds)])")
  case (Cons d rest)
  then have "d \<in> set (filter (\<lambda>d. d \<notin> set ds) (map int [0..<Suc (length ds)]))"
    by (simp only: list.set_intros)
  then have "d \<in> set (map int [0..<Suc (length ds)])"
    by (rule subsetD [OF filter_is_subset])
  with Cons show ?thesis
    by (auto simp: lowest_free_def simp del: upt_Suc)
qed (simp add: lowest_free_def del: upt_Suc)

lemma fd_open_below: "fd_open k = (d, k') \<Longrightarrow> 0 \<le> d \<Longrightarrow> nat d < max_fds k"
  using lowest_free_le [of "open_fds k"] by (auto simp: fd_open_def Let_def split: if_splits)

lemma pipe_cases:
  obtains (full) "pipe p = (None, p)"
  | (made) r w where "pipe p = (Some (r, w), p\<lparr>kern := (kern p)\<lparr>open_fds := w # r # open_fds (kern p)\<rparr>,
        object := (object p)(r := Read_End (pipes p), w := Write_End (pipes p)), pipes := Suc (pipes p)\<rparr>)"
      "0 \<le> r" "0 \<le> w" "r \<noteq> w" "r \<notin> set (open_fds (kern p))" "w \<notin> set (open_fds (kern p))"
      "nat r < max_fds (kern p)" "nat w < max_fds (kern p)"
proof (cases rule: fd_open_cases [of "kern p"])
  case full
  then show ?thesis
    using that(1) by (simp add: pipe_def)
next
  case (fd r)
  show ?thesis
  proof (cases rule: fd_open_cases [of "(kern p)\<lparr>open_fds := r # open_fds (kern p)\<rparr>"])
    case full
    then show ?thesis
      using that(1) fd by (simp add: pipe_def)
  next
    case (fd w)
    then show ?thesis
      using that(2) [of r w] \<open>fd_open (kern p) = _\<close> \<open>0 \<le> r\<close> \<open>r \<notin> _\<close>
        fd_open_below [OF \<open>fd_open (kern p) = _\<close>] fd_open_below [OF fd(1)]
      by (simp add: pipe_def)
  qed
qed

lemma inv_first_time: "inv base p \<Longrightarrow> inv base (first_time (int (max_fds (kern p))) oc p)"
  using table_ok_new by (auto simp: inv_def first_time_def Diff_eq_empty_iff [THEN iffD2] split: option.splits)

lemma inv_popen:
  assumes "inv base p" "sane oc p" "popen (int (max_fds (kern p))) oc type p = Inr (fp, child, p')"
  shows "inv base p'"
proof -
  define q where "q = first_time (int (max_fds (kern p))) oc p"
  have q: "inv base q" "max_fds (kern q) = max_fds (kern p)" "children q = children p"
    using inv_first_time [OF assms(1)] by (simp_all add: q_def first_time_def)
  obtain bad where bad: "bad_type type = Inr bad"
    using assms(3) by (cases "bad_type type") (simp_all add: popen_def)
  show ?thesis
  proof (cases "bad \<or> childpid q = None")
    case True
    then have "p' = p \<or> p' = q"
      using assms(3) bad by (cases bad) (auto simp: popen_def q_def [symmetric] Let_def)
    with assms(1) q(1) show ?thesis
      by auto
  next
    case False
    then obtain tab where tab: "childpid q = Some tab" and nb: "\<not> bad"
      by auto
    show ?thesis
    proof (cases rule: pipe_cases [of q])
      case full
      then have "p' = q"
        using assms(3) bad nb tab by (simp add: popen_def q_def [symmetric] Let_def)
      with q(1) show ?thesis
        by simp
    next
      case (made r w)
      define q' where "q' = q\<lparr>kern := (kern q)\<lparr>open_fds := w # r # open_fds (kern q)\<rparr>,
        object := (object q)(r := Read_End (pipes q), w := Write_End (pipes q)), pipes := Suc (pipes q)\<rparr>"
      note pip = made(1) [folded q'_def]
      have q': "inv base q'" "r \<notin> streams q" "w \<notin> streams q" "r \<notin> base" "w \<notin> base" "childpid q' = Some tab" "streams q' = streams q"
        "children q' = children q" "kern q' = (kern q)\<lparr>open_fds := w # r # open_fds (kern q)\<rparr>"
        using q(1) tab made(2-) by (auto simp: inv_def q'_def)
      define fd other where "fd = (if type ! 0 = 0x72 then r else w)" and "other = (if type ! 0 = 0x72 then w else r)"
      define p1 where "p1 = close_fd other (q'\<lparr>children := insert (fork_result oc) (children q')\<rparr>)"
      have fd: "0 \<le> fd" "fd \<notin> streams q" "fd \<notin> base" "nat fd < max_fds (kern q)" "other \<notin> streams q" "other \<notin> base" "fd \<noteq> other"
        "open_fds (kern p1) = fd # open_fds (kern q)" "fd \<notin> set (open_fds (kern q))"
        using q' made(2-) by (auto simp: fd_def other_def p1_def close_fd_def fd_close_def)
      have p1: "inv base p1" "childpid p1 = Some tab" "streams p1 = streams q" "children p1 = insert (fork_result oc) (children q)"
        "max_fds (kern p1) = max_fds (kern q)"
        using q(1) q' fd tab table_ok_children [OF _ subset_insertI] by (auto simp: inv_def p1_def close_fd_def fd_close_def)
      have split_fd: "(if type ! 0 = 0x72 then (r, w) else (snd (r, w), fst (r, w))) = (fd, other)"
        by (simp add: fd_def other_def)
      have len: "length tab = max_fds (kern q)"
        using q(1) tab by (simp add: inv_def)
      consider "p' = q'" | "p' = p1" | "0 < fork_result oc" "fork_result oc \<notin> children q"
          "p' = p1\<lparr>streams := insert fd (streams p1), childpid := Some (tab[nat fd := fork_result oc])\<rparr>"
        using assms(2,3) bad nb tab pip split_fd q(3) len fd(4)
        by (fastforce simp: popen_def q_def [symmetric] Let_def sane_def p1_def [symmetric] split: if_splits)
      then show ?thesis
      proof cases
        case 3
        have "table_ok (streams q - base) (children q) tab"
          using q(1) tab by (simp add: inv_def)
        then have "table_ok (insert fd (streams q - base)) (insert (fork_result oc) (children q)) (tab[nat fd := fork_result oc])"
          using 3 fd(1,4) len by (intro table_ok_enter) auto
        moreover have "insert fd (streams q - base) = insert fd (streams q) - base"
          using fd by auto
        ultimately show ?thesis
          using p1 fd 3(3) len by (auto simp: inv_def)
      qed (use q'(1) p1(1) in simp_all)
    qed
  qed
qed

lemma wait_loop_result: "wait_loop pid rs p = Inr (r, q) \<Longrightarrow> q = p \<or> q = p\<lparr>children := children p - {pid}\<rparr>"
  by (induction pid rs p rule: wait_loop.induct) auto

lemma inv_pclose:
  assumes "inv base p" "pclose ok rs fp p = Inr (r, q)"
  shows "inv base q"
proof (cases "q = p")
  case False
  then obtain tab where tab: "childpid p = Some tab" "fp \<in> streams p" "nat fp < length tab" "tab ! nat fp \<noteq> 0"
    using assms(2) by (auto simp: pclose_def Let_def not_le split: option.splits if_splits)
  define p1 where "p1 = (close_fd fp p)\<lparr>childpid := Some (tab[nat fp := 0]), streams := streams p - {fp}\<rparr>"
  have q: "q = p1 \<or> q = p1\<lparr>children := children p1 - {tab ! nat fp}\<rparr>"
    using assms(2) tab wait_loop_result [of "tab ! nat fp" rs p1 r q]
    by (auto simp: pclose_def Let_def p1_def [symmetric] split: if_splits)
  have ok: "table_ok (streams p - base) (children p) tab" "length tab = max_fds (kern p)" "distinct (open_fds (kern p))"
    "base \<union> streams p \<subseteq> set (open_fds (kern p))" "set (open_fds (kern p)) \<subseteq> {0..}"
    using assms(1) tab by (simp_all add: inv_def)
  have pos: "0 \<le> fp"
    using ok(4,5) tab(2) by auto
  moreover have "0 < tab ! nat fp"
    using ok(1) tab(3,4) unfolding table_ok_def by (metis order_le_neq_trans)
  ultimately have fp: "0 \<le> fp" "fp \<notin> base"
    using ok(1) tab(3) unfolding table_ok_def by fastforce+
  have "table_ok (streams p - base - {fp}) C (tab[nat fp := 0])" if "children p - {tab ! nat fp} \<subseteq> C" for C
    using ok(1) fp(1) that tab(3) by (rule table_ok_remove)
  moreover have "streams p - base - {fp} = streams p - {fp} - base"
    by auto
  ultimately show ?thesis
    using q ok fp by (auto simp: inv_def p1_def close_fd_def fd_close_def)
qed (use assms(1) in simp)

lemma popen_inv_reaches: "reaches p q \<Longrightarrow> inv base p \<Longrightarrow> inv base q"
proof (induction rule: reaches.induct)
  case (further p q r)
  from further.hyps(2) show ?case
    by (rule pstepE) (use further.IH [OF further.prems] inv_popen inv_pclose in blast)+
qed

section \<open>What the shell gets\<close>

lemma close_others_at: "close_others tab t d = (if 0 \<le> d \<and> nat d < length tab \<and> 0 < tab ! nat d then None else t d)"
proof -
  have "fold (\<lambda>i t. if 0 < tab ! i then t(int i := None) else t) is t d =
      (if \<exists>i \<in> set is. d = int i \<and> 0 < tab ! i then None else t d)" for "is" and t :: "int \<rightharpoonup> obj"
    by (induction "is" arbitrary: t) auto
  moreover have "(\<exists>i \<in> set [0..<length tab]. d = int i \<and> 0 < tab ! i) \<longleftrightarrow> 0 \<le> d \<and> nat d < length tab \<and> 0 < tab ! nat d"
    by (auto intro!: bexI [of _ "nat d"])
  ultimately show ?thesis
    by (simp only: close_others_def)
qed

text \<open>A successful \<open>popen\<close> in full.\<close>

lemma popen_made:
  assumes "inv base p" "popen (int (max_fds (kern p))) oc type p = Inr (Some fp, child, p')"
  obtains r w tab where "r \<noteq> w" "{r, w} \<inter> set (open_fds (kern p)) = {}" "0 \<le> r" "0 \<le> w"
    "fp = (if type ! 0 = 0x72 then r else w)"
    "inv base (p\<lparr>childpid := Some tab\<rparr>)" "nat fp < length tab"
    "child = Some (child_setup (type ! 0) (r, w) tab (\<lambda>d. if d = r then Some (Read_End (pipes p)) else
       if d = w then Some (Write_End (pipes p)) else descriptors p d))"
    "p' = p\<lparr>kern := (kern p)\<lparr>open_fds := fp # open_fds (kern p)\<rparr>,
       object := (object p)(r := Read_End (pipes p), w := Write_End (pipes p)), pipes := Suc (pipes p),
       streams := insert fp (streams p), children := insert (fork_result oc) (children p),
       childpid := Some (tab[nat fp := fork_result oc])\<rparr>"
proof -
  define q where "q = first_time (int (max_fds (kern p))) oc p"
  obtain bad where bad: "bad_type type = Inr bad"
    using assms(2) by (cases "bad_type type") (simp_all add: popen_def)
  have nb: "\<not> bad"
    using assms(2) bad by (auto simp: popen_def)
  obtain tab where tab: "childpid q = Some tab"
    using assms(2) bad nb by (cases "childpid q") (auto simp: popen_def q_def [symmetric] Let_def)
  have q: "q = p\<lparr>childpid := Some tab\<rparr>"
    using tab by (cases p) (auto simp: q_def first_time_def split: if_splits)
  have inv: "inv base q"
    using inv_first_time [OF assms(1)] by (simp add: q_def)
  have len: "length tab = max_fds (kern p)"
    using inv by (simp add: q inv_def)
  show ?thesis
  proof (cases rule: pipe_cases [of q])
    case full
    then show ?thesis
      using assms(2) bad nb tab by (simp add: popen_def q_def [symmetric] Let_def)
  next
    case (made r w)
    have fresh: "r \<noteq> w" "{r, w} \<inter> set (open_fds (kern p)) = {}" "0 \<le> r" "0 \<le> w"
      "nat (if type ! 0 = 0x72 then r else w) < length tab"
      using made(2-) len by (auto simp: q)
    show ?thesis
      by (rule that [of r w tab])
        (use assms(2) bad nb tab made(1) fresh inv in \<open>auto simp: popen_def q_def [symmetric] q Let_def close_fd_def fd_close_def
           descriptors_def fun_eq_iff split: if_splits intro!: arg_cong [where f = "child_setup _ _ _"]\<close>)
  qed
qed

lemma pclose_made:
  assumes "childpid p = Some tab" "fp \<in> streams p" "nat fp < length tab" "0 < tab ! nat fp"
  shows "pclose True (replicate n Interrupted @ Status stat # rs) fp p =
    Inr (stat, p\<lparr>kern := fd_close fp (kern p), childpid := Some (tab[nat fp := 0]), streams := streams p - {fp},
      children := children p - {tab ! nat fp}\<rparr>)"
proof -
  have "wait_loop pid (replicate n Interrupted @ Status stat # rs) q = Inr (stat, q\<lparr>children := children q - {pid}\<rparr>)" for pid q
    by (induction n) simp_all
  then show ?thesis
    using assms by (simp add: pclose_def Let_def close_fd_def)
qed

section \<open>Properties\<close>

text \<open>
  C20: \<open>popen\<close> after any calls of \<open>popen\<close> and \<open>pclose\<close>, however they ended, when the process had descriptors 0 and 1 from the
  start. The command has the other end of the stream as its standard output or input and no stream of an earlier
  \<open>popen\<close>, as POSIX demands; \<open>pclose\<close> on the stream waits for this command, however often it is interrupted, returns its
  status, and gives back the descriptor and the child.
\<close>

theorem popen_pclose:
  assumes "fresh base p0" "{0, 1} \<subseteq> base" "reaches p0 p" "sane oc p" "0 < fork_result oc"
    and "popen (int (max_fds (kern p))) oc type p = Inr (Some fp, child, p')"
  shows "\<exists>t. child = Some t \<and>
    (if type ! 0 = 0x72 then t 1 = Some (Write_End (pipes p)) \<and> object p' fp = Read_End (pipes p)
     else t 0 = Some (Read_End (pipes p)) \<and> object p' fp = Write_End (pipes p)) \<and>
    (\<forall>d \<in> insert fp (streams p - base). t d = None) \<and>
    (\<exists>q. pclose True (replicate n Interrupted @ Status stat # rs) fp p' = Inr (stat, q) \<and>
       open_fds (kern q) = open_fds (kern p) \<and> children q = children p \<and> streams q = streams p)"
proof -
  have inv: "inv base p"
    using assms(1,3) inv_fresh popen_inv_reaches by blast
  have base: "base \<union> streams p \<subseteq> set (open_fds (kern p))"
    using inv by (simp add: inv_def)
  from inv assms(6) obtain r w tab where made: "r \<noteq> w" "{r, w} \<inter> set (open_fds (kern p)) = {}" "0 \<le> r" "0 \<le> w"
    "fp = (if type ! 0 = 0x72 then r else w)" "inv base (p\<lparr>childpid := Some tab\<rparr>)" "nat fp < length tab"
    "child = Some (child_setup (type ! 0) (r, w) tab (\<lambda>d. if d = r then Some (Read_End (pipes p)) else
       if d = w then Some (Write_End (pipes p)) else descriptors p d))"
    "p' = p\<lparr>kern := (kern p)\<lparr>open_fds := fp # open_fds (kern p)\<rparr>,
       object := (object p)(r := Read_End (pipes p), w := Write_End (pipes p)), pipes := Suc (pipes p),
       streams := insert fp (streams p), children := insert (fork_result oc) (children p),
       childpid := Some (tab[nat fp := fork_result oc])\<rparr>"
    by (rule popen_made)
  have tab: "length tab = max_fds (kern p)" "table_ok (streams p - base) (children p) tab"
    using made(6) by (simp_all add: inv_def)
  have others: "0 \<le> d \<and> nat d < length tab \<and> 0 < tab ! nat d \<longleftrightarrow> d \<in> streams p - base" for d
    using tab(2) unfolding table_ok_def by (cases "0 \<le> d") (auto simp: nat_less_iff)
  have new: "r \<notin> base" "w \<notin> base" "r \<notin> streams p" "w \<notin> streams p" "fp \<notin> streams p" "0 \<noteq> r" "1 \<noteq> r" "0 \<noteq> w" "1 \<noteq> w"
    using made(2,5) base assms(2) by (auto split: if_splits)
  define t where "t = child_setup (type ! 0) (r, w) tab (\<lambda>d. if d = r then Some (Read_End (pipes p)) else
       if d = w then Some (Write_End (pipes p)) else descriptors p d)"
  have "fork_result oc \<notin> children p"
    using assms(4,5) by (simp add: sane_def)
  then have "\<exists>q. pclose True (replicate n Interrupted @ Status stat # rs) fp p' = Inr (stat, q) \<and>
       open_fds (kern q) = open_fds (kern p) \<and> children q = children p \<and> streams q = streams p"
    using assms(5) made(7) new(5) by (subst pclose_made [of p' "tab[nat fp := fork_result oc]"]) (auto simp: made(9))
  moreover have "\<forall>d \<in> insert fp (streams p - base). t d = None"
    using made(1,5) new others assms(2) by (auto simp: t_def child_setup_def close_others_at dup2_def Let_def)
  moreover have "if type ! 0 = 0x72 then t 1 = Some (Write_End (pipes p)) \<and> object p' fp = Read_End (pipes p)
     else t 0 = Some (Read_End (pipes p)) \<and> object p' fp = Write_End (pipes p)"
    using made(1,5,9) new others [of 0] others [of 1] assms(2)
    by (auto simp: t_def child_setup_def close_others_at dup2_def Let_def)
  ultimately show ?thesis
    using made(8) [folded t_def] by (intro exI [of _ t] conjI)
qed

definition demo_kernel :: kernel where
  "demo_kernel = \<lparr>open_fds = [2, 1, 0], max_fds = 16, ifaces = \<lambda>_. None, bind_ok = \<lambda>_. True\<rparr>"

definition demo_process :: process where
  "demo_process = \<lparr>kern = demo_kernel, object = \<lambda>_. Inherited, pipes = 0, streams = {0, 1, 2}, children = {}, childpid = None\<rparr>"

theorem popen_pclose_witness:
  "\<exists>child p' q. popen 16 \<lparr>calloc_ok = True, fork_result = 77, fdopen_ok = True\<rparr> [0x72, 0] demo_process = Inr (Some 3, Some child, p') \<and>
     child 1 = Some (Write_End 0) \<and> pclose True [Interrupted, Status 5] 3 p' = Inr (5, q) \<and> open_fds (kern q) = [2, 1, 0]"
proof -
  let ?oc = "\<lparr>calloc_ok = True, fork_result = 77, fdopen_ok = True\<rparr>"
  have low: "lowest_free [2, 1, 0] = 3" "lowest_free [3, 2, 1, 0] = 4"
    by (simp_all add: lowest_free_def)
  have start: "fresh {0, 1, 2} demo_process" "{0, 1} \<subseteq> {0, 1, 2 :: int}" "sane ?oc demo_process" "max_fds (kern demo_process) = 16"
    "pipes demo_process = 0" "open_fds (kern demo_process) = [2, 1, 0]"
    by (auto simp: fresh_def demo_process_def demo_kernel_def sane_def)
  obtain child p' where run: "popen (int (max_fds (kern demo_process))) ?oc [0x72, 0] demo_process = Inr (Some 3, Some child, p')"
    by (simp add: popen_def bad_type_def first_time_def pipe_def fd_open_def low demo_process_def demo_kernel_def Let_def)
  from popen_pclose [OF start(1,2) reaches.here start(3) _ run, of 1 5 "[]"] show ?thesis
    using run start(4-6) by fastforce
qed

text \<open>
  The failures: without a pipe nothing is lost, but when \<open>fork\<close> fails both descriptors of the pipe stay open, and
  when \<open>fdopen\<close> fails one does, with a child nobody waits for. A table made for fewer descriptors than the process may
  have by now is written outside its bounds.
\<close>

lemma popen_failures:
  assumes "bad_type type = Inr False" "first_time om oc p = q" "childpid q = Some tab" "pipe q = (Some (r, w), q')" "r \<noteq> w"
  shows "fork_result oc < 0 \<Longrightarrow> popen om oc type p = Inr (None, None, q')"
    and "0 \<le> fork_result oc \<Longrightarrow> \<not> fdopen_ok oc \<Longrightarrow>
      \<exists>child k. popen om oc type p = Inr (None, Some child, q'\<lparr>children := insert (fork_result oc) (children q'), kern := k\<rparr>) \<and>
        open_fds k = remove1 (if type ! 0 = 0x72 then w else r) (open_fds (kern q'))"
    and "0 \<le> fork_result oc \<Longrightarrow> fdopen_ok oc \<Longrightarrow> length tab \<le> nat (if type ! 0 = 0x72 then r else w) \<Longrightarrow>
      popen om oc type p = Inl OutOfBounds"
  using assms by (auto simp: popen_def Let_def close_fd_def fd_close_def split: if_splits)

text \<open>
  The other version waits for the command before anybody can read or write the stream, so it returns for short outputs
  only, and for a command that does not read its input; a fork that fails leaves both ends open as well.
\<close>

lemma mypopen_waits:
  assumes "pipe p = (Some (r, w), q)" "found cmd" "type = 0x72 \<or> type = 0x77" "0 \<le> fork_result oc"
  shows "mypopen e cmd type oc None p = None \<longleftrightarrow>
      (if type = 0x72 then PIPE_SIZE < length (writes cmd) else reads_input cmd)"
    and "mypopen e cmd type (oc\<lparr>fork_result := - 1\<rparr>) None p = Some (None, q)"
    and "mypopen_child (cmd\<lparr>found := False\<rparr>) type (r, w) t = None"
  using assms by (auto simp: mypopen_def mypopen_child_def child_ends_def Let_def)

end
