(* ===== verification/Mii.thy ===== *)
theory Mii
  imports MemPhyMain
begin

text \<open>
  \<open>mii/mii.c\<close>: reading and writing the registers of an Ethernet PHY through the \<open>ioctl\<close> calls of a socket. The devices are
  given by the name of their interface; the kernel takes 15 bytes of a name and the low 5 bits of a register number,
  as its \<open>generic_mii_ioctl\<close> does, and writes for a privileged process only. The messages on errors are dropped; what is
  printed on success is a list of the numbers.
\<close>

section \<open>Registers\<close>

record network =
  kernel_part :: kernel
  phys :: "bytes \<rightharpoonup> (u16 \<Rightarrow> u16)"
  privileged :: bool

definition PHY_ID_HIGH_WORD :: u16 where "PHY_ID_HIGH_WORD = 2"
definition PHY_ID_LOW_WORD :: u16 where "PHY_ID_LOW_WORD = 3"

text \<open>\<open>None\<close> is the null pointer. The value is stored on success only.\<close>

definition readPhyReg :: "bytes option \<Rightarrow> u16 \<Rightarrow> network \<Rightarrow> int \<times> u16 option \<times> network" where
  "readPhyReg ifname regNum w =
     (case ifname of
        None \<Rightarrow> (- 1, None, w)
      | Some name \<Rightarrow>
          (case fd_open (kernel_part w) of (sockfd, k) \<Rightarrow>
             if sockfd < 0 then (- 1, None, w\<lparr>kernel_part := k\<rparr>)
             else case phys w (ifr_name name) of
                 None \<Rightarrow> (- 1, None, w\<lparr>kernel_part := fd_close sockfd k\<rparr>)
               | Some reg \<Rightarrow> (0, Some (reg (regNum AND 0x1F)), w\<lparr>kernel_part := fd_close sockfd k\<rparr>)))"

definition writePhyReg :: "bytes option \<Rightarrow> u16 \<Rightarrow> u16 \<Rightarrow> network \<Rightarrow> int \<times> network" where
  "writePhyReg ifname regNum val w =
     (case ifname of
        None \<Rightarrow> (- 1, w)
      | Some name \<Rightarrow>
          (case fd_open (kernel_part w) of (sockfd, k) \<Rightarrow>
             if sockfd < 0 then (- 1, w\<lparr>kernel_part := k\<rparr>)
             else case phys w (ifr_name name) of
                 None \<Rightarrow> (- 1, w\<lparr>kernel_part := fd_close sockfd k\<rparr>)
               | Some reg \<Rightarrow>
                   if \<not> privileged w then (- 1, w\<lparr>kernel_part := fd_close sockfd k\<rparr>)
                   else (0, w\<lparr>phys := (phys w)(ifr_name name \<mapsto> reg(regNum AND 0x1F := val)),
                              kernel_part := fd_close sockfd k\<rparr>)))"

text \<open>
  The shift is one of a promoted \<open>int\<close>, which overflows for identifiers from \<open>0x80000000\<close> on; the compilers keep the bits.
\<close>

definition getPhyID :: "bytes option \<Rightarrow> network \<Rightarrow> int \<times> u32 option \<times> network" where
  "getPhyID ifname w =
     (case readPhyReg ifname PHY_ID_HIGH_WORD w of
        (ret, Some reg2, w) \<Rightarrow>
          (case readPhyReg ifname PHY_ID_LOW_WORD w of
             (ret, Some reg3, w) \<Rightarrow> (0, Some (push_bit 16 (ucast reg2) OR ucast reg3), w)
           | (ret, None, w) \<Rightarrow> (- 1, None, w))
      | (ret, None, w) \<Rightarrow> (- 1, None, w))"

section \<open>The program\<close>

datatype mii_out = Phy_ID u32 | Register u16 u16

text \<open>\<open>char ifname[10] = {0}; strncpy(ifname, argv[1], 9)\<close>\<close>

definition name_arg :: "bytes \<Rightarrow> bytes cres" where
  "name_arg a = strncpy (replicate 10 0) a 9"

definition mii_main :: "bytes list \<Rightarrow> network \<Rightarrow> (int \<times> mii_out list \<times> network) cres" where
  "mii_main argv w =
     (if length argv < 2 then Inr (- 1, [], w)
      else cbind (name_arg (argv ! 1)) (\<lambda>ifname.
        if length argv = 2 then
          (case getPhyID (Some ifname) w of
             (ret, Some i, w) \<Rightarrow> Inr (0, [Phy_ID i], w)
           | (ret, None, w) \<Rightarrow> Inr (- 1, [], w))
        else if length argv = 3 then
          (let regIndex = ucast (strtoul (c_str (argv ! 2)) 16)
           in case readPhyReg (Some ifname) regIndex w of
                (ret, Some val, w) \<Rightarrow> Inr (0, [Register regIndex val], w)
              | (ret, None, w) \<Rightarrow> Inr (- 1, [], w))
        else if length argv = 4 then
          (let regIndex = ucast (strtoul (c_str (argv ! 2)) 16); val = ucast (strtoul (c_str (argv ! 3)) 16)
           in case writePhyReg (Some ifname) regIndex val w of
                (ret, w) \<Rightarrow> if ret < 0 then Inr (- 1, [], w) else Inr (0, [], w))
        else Inr (- 1, [], w)))"

section \<open>What the calls do\<close>

definition free_socket :: "network \<Rightarrow> bool" where
  "free_socket w \<longleftrightarrow> length (open_fds (kernel_part w)) < max_fds (kernel_part w)"

lemma socket_cycle:
  "free_socket w \<Longrightarrow> \<exists>d. fd_open (kernel_part w) = (d, (kernel_part w)\<lparr>open_fds := d # open_fds (kernel_part w)\<rparr>) \<and> 0 \<le> d"
  by (simp add: free_socket_def fd_open_def Let_def lowest_free_nonneg)

lemma readPhyReg_result:
  assumes "free_socket w"
  shows "readPhyReg (Some name) n w =
    (case phys w (ifr_name name) of None \<Rightarrow> (- 1, None, w) | Some reg \<Rightarrow> (0, Some (reg (n AND 0x1F)), w))"
  using socket_cycle [OF assms] by (auto simp: readPhyReg_def split: option.splits)

lemma writePhyReg_result:
  assumes "free_socket w"
  shows "writePhyReg (Some name) n v w =
    (case phys w (ifr_name name) of
       None \<Rightarrow> (- 1, w)
     | Some reg \<Rightarrow> if privileged w then (0, w\<lparr>phys := (phys w)(ifr_name name \<mapsto> reg(n AND 0x1F := v))\<rparr>) else (- 1, w))"
proof -
  have "w\<lparr>phys := f, kernel_part := kernel_part w\<rparr> = w\<lparr>phys := f\<rparr>" for f
    by (cases w) simp
  then show ?thesis
    using socket_cycle [OF assms] by (auto simp: writePhyReg_def split: option.splits)
qed

lemma name_arg_result:
  assumes "nul_free s"
  shows "\<exists>ifname. name_arg (s @ [0]) = Inr ifname \<and> ifr_name ifname = take 9 s"
proof -
  have "overlay 0 (strncpy_bytes (s @ [0]) 9) (replicate 10 0) = strncpy_bytes (s @ [0]) 9 @ 0 # []"
    by (simp add: overlay_def drop_replicate)
  then show ?thesis
    using assms by (simp add: name_arg_def strncpy_def terminated_def ifr_name_def c_str_strncpy_bytes c_str_nul_free)
qed

section \<open>Properties\<close>


definition demo_network :: network where
  "demo_network = \<lparr>kernel_part = \<lparr>open_fds = [2, 1, 0], max_fds = 16, ifaces = \<lambda>_. None, bind_ok = \<lambda>_. True\<rparr>,
     phys = [map of_char ''enp2s0f12'' \<mapsto> (\<lambda>n. if n = 2 then 0x8141 else 0x0dd1)], privileged = True\<rparr>"


end
