(* ===== verification/EtherDemo.thy ===== *)
theory EtherDemo
  imports EtherAddr
begin

text \<open>
  \<open>ethernetDemo/sendEther.c\<close> and \<open>ethernetDemo/recvEther.c\<close>: a text sent in one Ethernet frame, and the program that prints
  what arrives. The frame, the scanning of addresses and the network are those of \<open>EtherFrame\<close> and \<open>EtherAddr\<close>; the
  functions that differ from \<open>fileTransmit/ethernet.c\<close> are here. What the stack holds before is an argument (\<open>junk\<close>, the
  frames). Messages on errors are dropped.
\<close>

section \<open>sendEther.c\<close>

definition ETHER_TYPE :: u16 where "ETHER_TYPE = 0x1024"

text \<open>The address is a new string of the heap; without memory for it, or without an entry, the result is null.\<close>

definition arp_reply :: "cenv \<Rightarrow> bytes \<Rightarrow> bytes option \<times> cenv" where
  "arp_reply env req_ip =
     (case fopen_r arp_path env of
        (None, env) \<Rightarrow> (None, env)
      | (Some f, env) \<Rightarrow>
          (case arp_loop (c_str req_ip) (skip_line (content env arp_path)) of
             None \<Rightarrow> (None, fclose f env)
           | Some mac \<Rightarrow>
               (case malloc (length mac + 1) env of (ok, env) \<Rightarrow> (if ok then Some (mac @ [0]) else None, fclose f env))))"

text \<open>The two values are stored as far as the calls succeed; \<open>s < 0\<close> asks for a socket of its own.\<close>

definition getLocalNetInfo :: "bytes \<Rightarrow> int \<Rightarrow> int \<Rightarrow> bytes \<Rightarrow> kernel \<Rightarrow> int \<times> int \<times> bytes \<times> kernel" where
  "getLocalNetInfo iface s if_index mac k =
     (case (if s < 0 then fd_open k else (s, k)) of (s', k1) \<Rightarrow>
        if s' = - 1 then (- 1, if_index, mac, k1)
        else let cleanup = (if s < 0 then fd_close s' k1 else k1)
             in case ifaces k1 (ifr_name iface) of
                 None \<Rightarrow> (- 1, if_index, mac, cleanup)
               | Some (idx, hw) \<Rightarrow> (0, idx, overlay 0 (take MAC_BYTES hw) mac, cleanup))"

text \<open>The result of \<open>getLocalNetInfo\<close> is not looked at: without the interface the socket is bound to what the stack held.\<close>

definition open_ether :: "int \<Rightarrow> bytes \<Rightarrow> bytes \<Rightarrow> kernel \<Rightarrow> int \<times> bytes \<times> kernel" where
  "open_ether junk iface localMac k =
     (case fd_open k of (sfd, k) \<Rightarrow>
        if sfd = - 1 then (- 1, localMac, k)
        else case getLocalNetInfo iface sfd junk localMac k of (ret, if_index, localMac, k) \<Rightarrow>
          if bind_ok k if_index then (sfd, localMac, k) else (- 1, localMac, k))"

definition send_text ::
    "bool \<Rightarrow> ('n \<Rightarrow> bytes \<Rightarrow> int \<times> 'n) \<Rightarrow> ethernet_frame \<Rightarrow> bytes \<Rightarrow> bytes \<Rightarrow> u16 \<Rightarrow> bytes \<Rightarrow> 'n \<Rightarrow> (int \<times> 'n) cres" where
  "send_text be send frame to localMac type data n =
     cbind (memcpy_at (dst_addr frame) 0 to 0 MAC_BYTES) (\<lambda>d.
     cbind (memcpy_at (src_addr frame) 0 localMac 0 MAC_BYTES) (\<lambda>s.
     cbind (strlen data) (\<lambda>l.
       let data_size = (if l > MAX_ETHERNET_DATA_SIZE then MAX_ETHERNET_DATA_SIZE else l)
       in cbind (memcpy_at (fdata frame) 0 data 0 data_size) (\<lambda>dat.
            let frame = frame\<lparr>dst_addr := d, src_addr := s, etype := htons be type, fdata := dat\<rparr>
            in case send n (take (ETHERNET_HEADER_SIZE + data_size) (frame_image be frame)) of
                 (ret, n) \<Rightarrow> Inr (if ret = - 1 then - 1 else 0, n)))))"

text \<open>
  \<open>main\<close>: an argument that is missing is the null pointer behind the others. \<open>to\<close> and the frame are the objects on the
  stack.
\<close>

definition arg :: "bytes list \<Rightarrow> nat \<Rightarrow> bytes cres" where
  "arg argv i = (if i < length argv then Inr (argv ! i) else Inl NullDeref)"

definition send_main ::
    "bool \<Rightarrow> ('n \<Rightarrow> bytes \<Rightarrow> int \<times> 'n) \<Rightarrow> int \<Rightarrow> ethernet_frame \<Rightarrow> bytes \<Rightarrow> bytes list \<Rightarrow> kernel \<Rightarrow> cenv \<Rightarrow> 'n
      \<Rightarrow> (int \<times> kernel \<times> cenv \<times> 'n) cres" where
  "send_main be send junk frame to argv k env n =
     cbind (arg argv 1) (\<lambda>iface.
       case open_ether junk iface (replicate 6 0) k of (sfd, localMac, k) \<Rightarrow>
         if sfd < 0 then Inr (- 1, k, env, n)
         else cbind (arg argv 2) (\<lambda>ip.
           case arp_reply env ip of
             (None, env) \<Rightarrow> Inr (0, fd_close sfd k, env, n)
           | (Some dstMac, env) \<Rightarrow>
               (case macAton dstMac to of (ret, to) \<Rightarrow>
                  if ret \<noteq> 0 then Inr (0, fd_close sfd k, free_block env, n)
                  else cbind (arg argv 3) (\<lambda>data.
                    cbind (send_text be send frame to localMac ETHER_TYPE data n) (\<lambda>(ret, n).
                      Inr (0, fd_close sfd k, free_block env, n))))))"

section \<open>recvEther.c\<close>

text \<open>
  One turn of the loop on what \<open>recvfrom\<close> gives, \<open>None\<close> for an error: the frame keeps what was not overwritten, and what
  is printed is the string in its data.
\<close>

definition recv_turn :: "bool \<Rightarrow> bytes option \<Rightarrow> ethernet_frame \<Rightarrow> (bytes option \<times> ethernet_frame) cres" where
  "recv_turn be got frame =
     (let frame = (case got of None \<Rightarrow> frame | Some pkt \<Rightarrow> frame_of_image be (overlay 0 (take 1514 pkt) (frame_image be frame)))
      in if ntohs be (etype frame) = ETHER_TYPE
         then cbind (strlen (fdata frame)) (\<lambda>l. Inr (Some (take l (fdata frame)), frame))
         else Inr (None, frame))"

text \<open>The loop has no end; \<open>recv_run\<close> is its turns for a list of results.\<close>

fun recv_run :: "bool \<Rightarrow> bytes option list \<Rightarrow> ethernet_frame \<Rightarrow> bytes list cres" where
  "recv_run be [] frame = Inr []"
| "recv_run be (got # rest) frame =
     cbind (recv_turn be got frame) (\<lambda>(printed, frame).
     cbind (recv_run be rest frame) (\<lambda>out.
       Inr (case printed of None \<Rightarrow> out | Some s \<Rightarrow> s # out)))"

definition recv_main :: "bool \<Rightarrow> bool \<Rightarrow> bytes option list \<Rightarrow> ethernet_frame \<Rightarrow> (int option \<times> bytes list) cres" where
  "recv_main be socket_ok pkts frame =
     (if \<not> socket_ok then Inr (Some (- 1), [])
      else cbind (recv_run be pkts frame) (\<lambda>out. Inr (None, out)))"

section \<open>What is sent and printed\<close>

lemma send_text_wire:
  assumes "frame_wf frame" "length to = 6" "length from = 6" "nul_free s"
  shows "send_text be send frame to from type (s @ [0]) n =
    (case send n (wire_frame to from type (take 1500 s)) of (ret, n) \<Rightarrow> Inr (if ret = - 1 then - 1 else 0, n))"
  using assms strlen_nul_free [OF assms(4), of "[]"]
  by (auto simp: send_text_def memcpy_at_def frame_wf_def frame_image_def wire_frame_def
      overlay_def byteorder_simps Let_def split: prod.splits)

lemma recv_turn_wire:
  assumes "frame_wf frame" "length to = 6" "length from = 6" "length s \<le> 1500" "nul_free s"
  shows "recv_turn be (Some (wire_frame to from ETHER_TYPE s)) frame =
    (if 0 \<in> set (drop (length s) (fdata frame))
     then Inr (Some (s @ c_str (drop (length s) (fdata frame))),
       \<lparr>dst_addr = to, src_addr = from, etype = htons be ETHER_TYPE, fdata = s @ drop (length s) (fdata frame)\<rparr>)
     else Inl Unterminated)"
proof -
  have short: "take 1514 (wire_frame to from ETHER_TYPE s) = wire_frame to from ETHER_TYPE s"
    using assms(2-4) by (simp add: wire_frame_def)
  have str: "take (length (c_str b)) b = c_str b" for b
    unfolding c_str_def by (rule takeWhile_eq_take [symmetric])
  have "0 \<notin> set s"
    using assms(5) by (simp add: nul_free_def)
  then show ?thesis
    using frame_of_wire [OF assms(1-4), of be ETHER_TYPE] assms(5) str [of "s @ drop (length s) (fdata frame)"]
    by (simp add: recv_turn_def short byteorder_simps strlen_def terminated_def c_str_append_nul_free)
qed

section \<open>Properties\<close>

text \<open>
  C37: A text sent and received. With an interface that exists and an address in the ARP table exactly one frame is sent, to
  that address and with at most 1500 bytes of the text, and every descriptor, stream and block is given back. The
  receiver prints the text followed by what an earlier, longer message has left in its frame, up to the first zero;
  when there is none it reads past the frame.
\<close>

theorem ether_demo:
  assumes "frame_wf frame" "frame_wf old" "length to = 6" "nul_free s" "length ubs = 6"
    and "length (open_fds k) < max_fds k" "ifaces k (ifr_name iface) = Some (idx, hw)" "length hw = 6" "bind_ok k idx"
    and "files env arp_path = Some table" "readable env arp_path" "\<And>m. malloc_ok env m"
    and "arp_loop (c_str ip) (skip_line table) = Some (mac_text ubs)"
    and "send n (wire_frame (map (snd \<circ> snd) ubs) hw ETHER_TYPE (take 1500 s)) = (ret, n')"
  shows "send_main be send junk frame to [prog, iface, ip, s @ [0]] k env n = Inr (0, k, env, n') \<and>
    recv_run be' [Some (wire_frame (map (snd \<circ> snd) ubs) hw ETHER_TYPE (take 1500 s))] old =
      (let left = drop (length s) (fdata old)
       in if 0 \<in> set left then Inr [s @ c_str left] else Inl Unterminated)"
proof -
  define mac where "mac = map (snd \<circ> snd) ubs"
  have len: "length mac = 6"
    by (simp add: mac_def assms(5))
  have aton: "macAton (mac_text ubs @ [0]) to = (0, mac)"
    using assms(3,5) by (simp add: mac_def macAton_mac_text overlay_all)
  have sock: "open_ether junk iface (replicate 6 0) k = (lowest_free (open_fds k), hw, k\<lparr>open_fds := lowest_free (open_fds k) # open_fds k\<rparr>)"
    using assms(6-9) lowest_free_nonneg [of "open_fds k"]
    by (simp add: open_ether_def fd_open_def Let_def getLocalNetInfo_def overlay_all)
  have arp: "arp_reply env ip = (Some (mac_text ubs @ [0]), env\<lparr>live_blocks := Suc (live_blocks env)\<rparr>)"
    using assms(10-13) by (simp add: arp_reply_def stdio_defs content_def)
  note wire = send_text_wire [OF assms(1) len assms(8,4), of be send ETHER_TYPE n, unfolded mac_def, unfolded assms(14)]
  have "send_main be send junk frame to [prog, iface, ip, s @ [0]] k env n = Inr (0, k, env, n')"
    using sock arp aton wire lowest_free_nonneg [of "open_fds k"]
    by (simp add: send_main_def arg_def free_block_def mac_def)
  moreover have "recv_run be' [Some (wire_frame mac hw ETHER_TYPE (take 1500 s))] old =
      (let left = drop (length s) (fdata old) in if 0 \<in> set left then Inr [s @ c_str left] else Inl Unterminated)"
  proof -
    have "length (fdata old) = 1500"
      using assms(2) by (simp add: frame_wf_def)
    then have "drop (length (take 1500 s)) (fdata old) = drop (length s) (fdata old)" "0 \<in> set (drop (length s) (fdata old)) \<Longrightarrow> take 1500 s = s"
      by (simp add: min_def, cases "length s \<le> 1500") auto
    then show ?thesis
      using recv_turn_wire [OF assms(2) len assms(8), of "take 1500 s" be'] nul_free_take [OF assms(4)]
      by (simp add: Let_def)
  qed
  ultimately show ?thesis
    unfolding mac_def by blast
qed

definition demo_frame :: ethernet_frame where
  "demo_frame = \<lparr>dst_addr = replicate 6 0, src_addr = replicate 6 0, etype = 0, fdata = replicate 1500 0\<rparr>"

definition demo_iface_kernel :: kernel where
  "demo_iface_kernel = \<lparr>open_fds = [2, 1, 0], max_fds = 16, ifaces = [[0x65] \<mapsto> (2, [2, 0, 0, 0, 0, 1])], bind_ok = \<lambda>i. i = 2\<rparr>"

text \<open>The table of one entry, \<open>10.0.0.1 0x1 0x2 08:00:27:c8:04:83 * e\<close> behind the line of the titles.\<close>

definition demo_arp :: bytes where
  "demo_arp = map of_char ''IP'' @ [0x0A] @ map of_char ''10.0.0.1 0x1 0x2 08:00:27:c8:04:83 * e'' @ [0x0A]"

definition demo_ubs :: "(bool \<times> bool \<times> u8) list" where
  "demo_ubs = map (\<lambda>b. (False, False, b)) [8, 0, 0x27, 0xc8, 4, 0x83]"

lemma demo_arp_scan: "scan_arp_line (skip_line demo_arp) = Some (map of_char ''10.0.0.1'', mac_text demo_ubs, [0x0A])"
  by code_simp

theorem ether_demo_witness:
  "send_main True (\<lambda>n pkt. (0, n @ [pkt])) 7 demo_frame (replicate 6 0)
      [[0], [0x65, 0], map of_char ''10.0.0.1'' @ [0], [0x68, 0x69, 0]] demo_iface_kernel
      ((demo_env [])\<lparr>files := [arp_path \<mapsto> demo_arp]\<rparr>) [] =
    Inr (0, demo_iface_kernel, (demo_env [])\<lparr>files := [arp_path \<mapsto> demo_arp]\<rparr>,
      [wire_frame [8, 0, 0x27, 0xc8, 4, 0x83] [2, 0, 0, 0, 0, 1] ETHER_TYPE [0x68, 0x69]]) \<and>
   recv_run False [Some (wire_frame [8, 0, 0x27, 0xc8, 4, 0x83] [2, 0, 0, 0, 0, 1] ETHER_TYPE [0x68, 0x69])]
      (demo_frame\<lparr>fdata := [0x48, 0x65, 0x6C, 0x6C, 0x6F] @ replicate 1495 0\<rparr>) = Inr [[0x68, 0x69, 0x6C, 0x6C, 0x6F]]"
proof -
  have ip: "c_str (map of_char ''10.0.0.1'' @ [0]) = map of_char ''10.0.0.1''"
    by (simp add: c_str_def)
  have scan: "arp_loop (c_str (map of_char ''10.0.0.1'' @ [0])) (skip_line demo_arp) = Some (mac_text demo_ubs)"
    unfolding ip by (subst arp_loop.simps) (simp add: demo_arp_scan)
  have left: "drop 2 ([0x48, 0x65, 0x6C, 0x6C, 0x6F] @ replicate 1495 0) = [0x6C, 0x6C, 0x6F] @ replicate 1495 (0 :: u8)"
    "c_str ([0x6C, 0x6C, 0x6F] @ replicate 1495 0) = [0x6C, 0x6C, 0x6F]"
    using c_str_append_nul_free [of "[0x6C, 0x6C, 0x6F]" "replicate 1495 0"] c_str_zeros [of 1495 "[]"]
    by (simp_all add: c_str_def)
  have ubs: "map (snd \<circ> snd) demo_ubs = [8, 0, 0x27, 0xc8, 4, 0x83]" "length demo_ubs = 6"
    by (simp_all add: demo_ubs_def)
  let ?env = "(demo_env [])\<lparr>files := [arp_path \<mapsto> demo_arp]\<rparr>"
  have facts: "frame_wf demo_frame" "frame_wf (demo_frame\<lparr>fdata := [0x48, 0x65, 0x6C, 0x6C, 0x6F] @ replicate 1495 0\<rparr>)"
    "length (replicate 6 (0 :: u8)) = 6" "nul_free [0x68, 0x69]"
    "length (open_fds demo_iface_kernel) < max_fds demo_iface_kernel"
    "ifaces demo_iface_kernel (ifr_name [0x65, 0]) = Some (2, [2, 0, 0, 0, 0, 1])" "length [2, 0, 0, 0, 0, 1 :: u8] = 6"
    "bind_ok demo_iface_kernel 2" "files ?env arp_path = Some demo_arp" "readable ?env arp_path" "\<And>m. malloc_ok ?env m"
    by (simp_all add: frame_wf_def demo_frame_def demo_iface_kernel_def ifr_name_def c_str_def demo_env_def)
  have short: "take 1500 [0x68, 0x69] = [0x68, 0x69 :: u8]"
    by simp
  show ?thesis
    using ether_demo [OF facts(1-4) ubs(2) facts(5-11) scan, of "\<lambda>n pkt. (0, n @ [pkt])" "[]" 0 _ True 7 "[0]" False]
    unfolding ubs(1) short using left(2) by (simp add: left(1) Let_def)
qed

end
