(* ===== verification/CJsonCompare.thy ===== *)
theory CJsonCompare
  imports CJsonCopy
begin

text \<open>
  What \<open>cJSON_Compare\<close> decides. \<open>same_json\<close> compares two items as values: numbers by \<open>==\<close>, strings up to their
  terminators, arrays element by element, and objects by looking up every member of one in the other, in both
  directions. The walk of \<open>CJsonCopy\<close> over the structures computes it for two trees that share nothing, and finds every
  duplicate equal to its original.
\<close>

section \<open>Comparing values\<close>

text \<open>The member a name stands for: the first one with the name; with regard to case none behind a member without a name.\<close>

definition named :: "bool \<Rightarrow> bytes option \<Rightarrow> cJSON \<Rightarrow> bool" where
  "named cs nm k =
     (case (nm, istring k) of (Some s, Some t) \<Rightarrow> names_match cs (c_str s) (c_str t) | _ \<Rightarrow> False)"

definition member_named :: "bool \<Rightarrow> bytes option \<Rightarrow> cJSON list \<Rightarrow> cJSON option" where
  "member_named cs nm ks = find (named cs nm) (if cs then takeWhile (\<lambda>k. istring k \<noteq> None) ks else ks)"

lemma member_named_in: "member_named cs nm ks = Some k \<Longrightarrow> k \<in> set ks"
  unfolding member_named_def by (auto dest!: find_in set_takeWhileD split: if_splits)

lemma size_child: "k \<in> set ks \<Longrightarrow> size k < size_list size ks"
  by (induction ks) auto

function same_json :: "bool \<Rightarrow> cJSON \<Rightarrow> cJSON \<Rightarrow> bool" where
  "same_json cs (Item ty vs vi vd nm ks) (Item ty' vs' vi' vd' nm' ks') =
     (let t = ty AND 0xFF in
      t = ty' AND 0xFF \<and>
      (if t = cJSON_False \<or> t = cJSON_True \<or> t = cJSON_NULL then True
       else if t = cJSON_Number then dbl_eq vd vd'
       else if t = cJSON_String \<or> t = cJSON_Raw then
         (case (vs, vs') of (Some a, Some b) \<Rightarrow> c_str a = c_str b | _ \<Rightarrow> False)
       else if t = cJSON_Array then length ks = length ks' \<and> (\<forall>p \<in> set (zip ks ks'). same_json cs (fst p) (snd p))
       else if t = cJSON_Object then
         (\<forall>k \<in> set ks. case member_named cs (istring k) ks' of None \<Rightarrow> False | Some k' \<Rightarrow> same_json cs k k') \<and>
         (\<forall>k \<in> set ks'. case member_named cs (istring k) ks of None \<Rightarrow> False | Some k' \<Rightarrow> same_json cs k k')
       else False))"
  by pat_completeness auto
termination
proof (relation "measure (\<lambda>(cs, a, b). size a + size b)", goal_cases)
  case (2 cs ty vs vi vd nm ks ty' vs' vi' vd' nm' ks' t p)
  then show ?case
    using size_child [of "fst p" ks] size_child [of "snd p" ks'] set_zip_leftD set_zip_rightD
    by (cases p) fastforce
next
  case (3 cs ty vs vi vd nm ks ty' vs' vi' vd' nm' ks' t k k')
  then show ?case
    using size_child [of k ks] size_child [of k' ks'] member_named_in by fastforce
next
  case (4 cs ty vs vi vd nm ks ty' vs' vi' vd' nm' ks' t k k')
  then show ?case
    using size_child [of k ks'] size_child [of k' ks] member_named_in by fastforce
qed simp

declare same_json.simps [simp del]

section \<open>The walk\<close>

lemma member_loop_forward:
  assumes "readable m name"
  shows "forward m ps \<Longrightarrow> length ps < k \<Longrightarrow> \<forall>p \<in> set ps. name_at m p \<noteq> None \<longrightarrow> readable m (name_at m p) \<Longrightarrow>
     member_loop k cs name (first ps None) m = Inr (find (stops_at m cs name) ps)"
proof (induction ps arbitrary: k)
  case Nil
  then show ?case
    by (cases k) auto
next
  case (Cons p ps)
  obtain j where k: "k = Suc j"
    using Cons.prems by (cases k) auto
  obtain n where n: "nodes m p = Some n" "n_next n = first ps None" "forward m ps"
    using forward_next [OF Cons.prems(1)] by blast
  then have nm: "name_at m p = n_string n"
    by (simp add: name_at_def)
  have r: "member_loop j cs name (first ps None) m = Inr (find (stops_at m cs name) ps)"
    using Cons.IH [OF n(3), of j] Cons.prems(2,3) k by simp
  show ?case
  proof (cases "n_string n = None")
    case True
    then have "stops_at m cs name p = cs"
      using nm by (simp add: stops_at_def is_member_def)
    then show ?thesis
      using True k n r by (cases cs) (simp_all add: same_name_ignoring_case_def)
  next
    case False
    then have "readable m (n_string n)" "stops_at m cs name p = names_match cs (text_of m name) (text_of m (n_string n))"
      using Cons.prems(3) nm by (auto simp: stops_at_def is_member_def)
    then show ?thesis
      using False k n r same_name_readable [OF assms, of "n_string n"] same_name_ignoring_case_readable [OF assms, of "n_string n"]
      by (cases cs) auto
  qed
qed

lemma find_map: "find P (map f xs) = map_option f (find (P \<circ> f) xs)"
  by (induction xs) auto

text \<open>The lookup in a tree is the one in the item it represents.\<close>

definition subtree_named :: "store \<Rightarrow> bool \<Rightarrow> bytes option \<Rightarrow> tree list \<Rightarrow> tree option" where
  "subtree_named m cs nm ts =
     find (\<lambda>t. named cs nm (the_item m t)) (if cs then takeWhile (\<lambda>t. istring (the_item m t) \<noteq> None) ts else ts)"

lemma subtree_named_item: "map_option (the_item m) (subtree_named m cs nm ts) = member_named cs nm (map (the_item m) ts)"
  by (simp add: subtree_named_def member_named_def takeWhile_map find_map o_def)

lemma subtree_named_in: "subtree_named m cs nm ts = Some t \<Longrightarrow> t \<in> set ts"
  unfolding subtree_named_def by (auto dest!: find_in set_takeWhileD split: if_splits)

lemma spans_name:
  assumes "spans m t"
  shows "istring (the_item m t) = content m (name_at m (root t))"
    and "name_at m (root t) \<noteq> None \<Longrightarrow> readable m (name_at m (root t))"
    and "istring (the_item m t) = None \<longleftrightarrow> name_at m (root t) = None"
proof -
  obtain p ts where t: "t = Tree p ts"
    by (cases t)
  then obtain n where n: "nodes m p = Some n" "strings_readable m n"
    using assms by (auto split: option.splits)
  then show "istring (the_item m t) = content m (name_at m (root t))"
    "name_at m (root t) \<noteq> None \<Longrightarrow> readable m (name_at m (root t))"
    "istring (the_item m t) = None \<longleftrightarrow> name_at m (root t) = None"
    using t by (cases "n_string n"; auto simp: name_at_def strings_readable_def readable_def content_def split: option.splits)+
qed

lemma get_object_item_spans:
  assumes "spans m (Tree p ts)" "length ts < room m" "nm = None \<or> readable m nm"
  shows "get_object_item (Some p) nm cs m = Inr (map_option root (subtree_named m cs (content m nm) ts))"
proof (cases "nm = None")
  case True
  have "subtree_named m cs None ts = None"
    by (simp add: subtree_named_def named_def find_None_iff)
  then show ?thesis
    using True by (simp add: get_object_item_def content_def)
next
  case False
  obtain n where n: "nodes m p = Some n" "n_child n = first (map root ts) None" "forward m (map root ts)" "\<forall>t \<in> set ts. spans m t"
    using assms(1) by (auto split: option.splits)
  have names: "\<forall>q \<in> set (map root ts). name_at m q \<noteq> None \<longrightarrow> readable m (name_at m q)"
    using n(4) spans_name(2) by auto
  have nm: "readable m nm"
    using assms(3) False by simp
  have loop: "member_loop (room m) cs nm (first (map root ts) None) m = Inr (find (stops_at m cs nm) (map root ts))"
    using member_loop_forward [OF nm n(3) _ names] assms(2) by simp
  have live: "nodes m q \<noteq> None" if "q \<in> set (map root ts)" for q
    using n(3) that by (induction ts) (auto split: option.splits)
  have "get_object_item (Some p) nm cs m =
      Inr (case find (stops_at m cs nm) (map root ts) of None \<Rightarrow> None | Some p \<Rightarrow> if name_at m p = None then None else Some p)"
    using n False loop live [OF find_in [of "stops_at m cs nm" "map root ts"]]
    by (cases "find (stops_at m cs nm) (map root ts)") (fastforce simp: get_object_item_def name_at_def)+
  also have "\<dots> = Inr (find (is_member m cs nm) (if cs then members_before m (map root ts) else map root ts))"
    by (simp only: find_stops_at)
  also have "find (is_member m cs nm) (if cs then members_before m (map root ts) else map root ts) =
      map_option root (subtree_named m cs (content m nm) ts)"
  proof -
    have is_m: "is_member m cs nm (root t) = named cs (content m nm) (the_item m t)" if "t \<in> set ts" for t
    proof -
      have t: "spans m t"
        using n(4) that by blast
      show ?thesis
        using spans_name [OF t] nm
        by (auto simp: is_member_def named_def text_of_def readable_def split: option.splits)
    qed
    have "takeWhile (\<lambda>t. istring (the_item m t) \<noteq> None) ts = takeWhile (\<lambda>t. name_at m (root t) \<noteq> None) ts"
    proof (rule takeWhile_cong [OF refl])
      fix t
      assume "t \<in> set ts"
      then show "(istring (the_item m t) \<noteq> None) = (name_at m (root t) \<noteq> None)"
        using n(4) spans_name(3) [of m t] by simp
    qed
    then have before: "members_before m (map root ts) = map root (takeWhile (\<lambda>t. istring (the_item m t) \<noteq> None) ts)"
      by (simp add: members_before_def takeWhile_map o_def)
    have sub: "set (takeWhile (\<lambda>t. istring (the_item m t) \<noteq> None) ts) \<subseteq> set ts"
      by (auto dest: set_takeWhileD)
    have "find (is_member m cs nm) (map root us) = map_option root (find (\<lambda>t. named cs (content m nm) (the_item m t)) us)"
      if "set us \<subseteq> set ts" for us
      using that is_m by (induction us) auto
    from this [OF subset_refl] this [OF sub] show ?thesis
      by (cases cs) (simp_all add: subtree_named_def before)
  qed
  finally show ?thesis .
qed

lemma compare_elements_forward:
  "forward m (map root ts) \<Longrightarrow> forward m (map root us) \<Longrightarrow> length ts < k \<Longrightarrow>
   \<forall>t \<in> set ts. \<forall>u \<in> set us. cmp (Some (root t)) (Some (root u)) m = Inr (R (the_item m t) (the_item m u)) \<Longrightarrow>
   compare_elements cmp k (first (map root ts) None) (first (map root us) None) m =
     Inr (length (map (the_item m) ts) = length (map (the_item m) us) \<and> (\<forall>p \<in> set (zip (map (the_item m) ts) (map (the_item m) us)). R (fst p) (snd p)))"
proof (induction ts arbitrary: us k)
  case Nil
  then obtain j where "k = Suc j"
    by (cases k) auto
  then show ?case
    by (cases us) simp_all
next
  case (Cons t ts)
  obtain j where k: "k = Suc j"
    using Cons.prems by (cases k) auto
  show ?case
  proof (cases us)
    case Nil
    then show ?thesis
      using k by simp
  next
    case u: (Cons u us')
    obtain n where n: "nodes m (root t) = Some n" "n_next n = first (map root ts) None" "forward m (map root ts)"
      using forward_next [of m "root t" "map root ts"] Cons.prems(1) by auto
    obtain n' where n': "nodes m (root u) = Some n'" "n_next n' = first (map root us') None" "forward m (map root us')"
      using forward_next [of m "root u" "map root us'"] Cons.prems(2) u by auto
    have "compare_elements cmp j (first (map root ts) None) (first (map root us') None) m =
        Inr (length ts = length us' \<and> (\<forall>p \<in> set (zip (map (the_item m) ts) (map (the_item m) us')). R (fst p) (snd p)))"
      using Cons.IH [OF n(3) n'(3), of j] Cons.prems(3,4) k u by simp
    then show ?thesis
      using k u n n' Cons.prems(4) by auto
  qed
qed

lemma compare_members_forward:
  assumes "spans m (Tree q us)" "length us < room m"
  shows "forward m (map root ts) \<Longrightarrow> length ts < k \<Longrightarrow> \<forall>t \<in> set ts. spans m t \<Longrightarrow>
   \<forall>t \<in> set ts. \<forall>u \<in> set us. cmp (Some (root t)) (Some (root u)) m = Inr (R (the_item m t) (the_item m u)) \<Longrightarrow>
   compare_members cmp cs k (first (map root ts) None) (Some q) m =
     Inr (\<forall>i \<in> set (map (the_item m) ts). case member_named cs (istring i) (map (the_item m) us) of None \<Rightarrow> False | Some i' \<Rightarrow> R i i')"
proof (induction ts arbitrary: k)
  case Nil
  then show ?case
    by (cases k) auto
next
  case (Cons t ts)
  obtain j where k: "k = Suc j"
    using Cons.prems by (cases k) auto
  obtain n where n: "nodes m (root t) = Some n" "n_next n = first (map root ts) None" "forward m (map root ts)"
    using forward_next [of m "root t" "map root ts"] Cons.prems(1) by auto
  have rest: "compare_members cmp cs j (first (map root ts) None) (Some q) m =
     Inr (\<forall>i \<in> set (map (the_item m) ts). case member_named cs (istring i) (map (the_item m) us) of None \<Rightarrow> False | Some i' \<Rightarrow> R i i')"
    using Cons.IH [OF n(3), of j] Cons.prems(2-4) k by simp
  have t: "spans m t"
    using Cons.prems(3) by simp
  have nm: "name_at m (root t) = n_string n" "istring (the_item m t) = content m (n_string n)"
    using n(1) spans_name(1) [OF t] by (simp_all add: name_at_def)
  have get: "get_object_item (Some q) (n_string n) cs m = Inr (map_option root (subtree_named m cs (istring (the_item m t)) us))"
    using get_object_item_spans [OF assms, of "n_string n" cs] spans_name(2) [OF t] unfolding nm by blast
  have item: "member_named cs (istring (the_item m t)) (map (the_item m) us) =
      map_option (the_item m) (subtree_named m cs (istring (the_item m t)) us)"
    by (simp only: subtree_named_item)
  show ?case
  proof (cases "subtree_named m cs (istring (the_item m t)) us")
    case None
    then show ?thesis
      using k n get item by simp
  next
    case (Some u)
    then have "cmp (Some (root t)) (Some (root u)) m = Inr (R (the_item m t) (the_item m u))"
      using Cons.prems(4) subtree_named_in by simp
    then show ?thesis
      using k n get item rest Some by auto
  qed
qed

lemma owned_child: "t \<in> set ts \<Longrightarrow> length (owned_nodes t) < length (owned_nodes (Tree p ts)) \<and> set (owned_nodes t) \<subseteq> set (owned_nodes (Tree p ts))"
  by (induction ts) auto

lemma length_children: "length ts < length (owned_nodes (Tree p ts))"
proof (induction ts)
  case (Cons t ts)
  then show ?case
    by (cases t) auto
qed simp

lemma type_switch:
  "(if t \<noteq> t' \<or> t = cJSON_Invalid then Inr False
    else if t \<notin> {cJSON_False, cJSON_True, cJSON_NULL, cJSON_Number, cJSON_String, cJSON_Raw, cJSON_Array, cJSON_Object} then Inr False
    else if t = cJSON_False \<or> t = cJSON_True \<or> t = cJSON_NULL then Inr True
    else if t = cJSON_Number then Inr num
    else if t = cJSON_String \<or> t = cJSON_Raw then Inr str
    else if t = cJSON_Array then Inr (len \<and> els)
    else Inr (mem \<and> mem')) =
   Inr (t = t' \<and>
     (if t = cJSON_False \<or> t = cJSON_True \<or> t = cJSON_NULL then True
      else if t = cJSON_Number then num
      else if t = cJSON_String \<or> t = cJSON_Raw then str
      else if t = cJSON_Array then len \<and> els
      else if t = cJSON_Object then mem \<and> mem'
      else False))"
  by (auto simp: cJSON_types)

lemma cJSON_Compare_at_same:
  "spans m a \<Longrightarrow> spans m b \<Longrightarrow> set (owned_nodes a) \<inter> set (owned_nodes b) = {} \<Longrightarrow>
   length (owned_nodes a) \<le> k \<Longrightarrow> length (owned_nodes b) \<le> k \<Longrightarrow>
   length (owned_nodes a) < room m \<Longrightarrow> length (owned_nodes b) < room m \<Longrightarrow>
   cJSON_Compare_at k (Some (root a)) (Some (root b)) cs m = Inr (same_json cs (the_item m a) (the_item m b))"
proof (induction k arbitrary: a b)
  case 0
  then show ?case
    by (cases a) simp
next
  case (Suc k)
  obtain p ts where a: "a = Tree p ts"
    by (cases a)
  obtain q us where b: "b = Tree q us"
    by (cases b)
  obtain n where n: "nodes m p = Some n" "n_child n = first (map root ts) None" "forward m (map root ts)"
      "strings_readable m n" "\<forall>t \<in> set ts. spans m t"
    using Suc.prems(1) a by (auto split: option.splits)
  obtain n' where n': "nodes m q = Some n'" "n_child n' = first (map root us) None" "forward m (map root us)"
      "strings_readable m n'" "\<forall>t \<in> set us. spans m t"
    using Suc.prems(2) b by (auto split: option.splits)
  have ne: "p \<noteq> q"
    using Suc.prems(3) a b by auto
  have len: "length ts < room m" "length us < room m"
    using less_trans [OF length_children [of ts p]] less_trans [OF length_children [of us q]] Suc.prems(6,7)
    unfolding a b by blast+
  have ab: "cJSON_Compare_at k (Some (root t)) (Some (root u)) cs m = Inr (same_json cs (the_item m t) (the_item m u))"
    "cJSON_Compare_at k (Some (root u)) (Some (root t)) cs m = Inr (same_json cs (the_item m u) (the_item m t))"
    if "t \<in> set ts" "u \<in> set us" for t u
  proof -
    note o = owned_child [OF that(1), of p] owned_child [OF that(2), of q]
    have d: "set (owned_nodes t) \<inter> set (owned_nodes u) = {}"
      using o Suc.prems(3) a b by blast
    then have d': "set (owned_nodes u) \<inter> set (owned_nodes t) = {}"
      by blast
    have l: "length (owned_nodes t) \<le> k" "length (owned_nodes u) \<le> k" "length (owned_nodes t) < room m" "length (owned_nodes u) < room m"
      using o Suc.prems(4-7) unfolding a b by (simp_all del: owned_nodes.simps)
    show "cJSON_Compare_at k (Some (root t)) (Some (root u)) cs m = Inr (same_json cs (the_item m t) (the_item m u))"
      by (rule Suc.IH) (use n(5) n'(5) that d l in simp_all)
    show "cJSON_Compare_at k (Some (root u)) (Some (root t)) cs m = Inr (same_json cs (the_item m u) (the_item m t))"
      by (rule Suc.IH) (use n(5) n'(5) that d' l in simp_all)
  qed
  have els: "compare_elements (\<lambda>x y. cJSON_Compare_at k x y cs) (room m) (first (map root ts) None) (first (map root us) None) m =
     Inr (length (map (the_item m) ts) = length (map (the_item m) us) \<and> (\<forall>p \<in> set (zip (map (the_item m) ts) (map (the_item m) us)). same_json cs (fst p) (snd p)))"
    by (rule compare_elements_forward) (use n(3) n'(3) len ab in auto)
  have mem: "compare_members (\<lambda>x y. cJSON_Compare_at k x y cs) cs (room m) (first (map root ts) None) (Some q) m =
     Inr (\<forall>i \<in> set (map (the_item m) ts). case member_named cs (istring i) (map (the_item m) us) of None \<Rightarrow> False | Some i' \<Rightarrow> same_json cs i i')"
    by (rule compare_members_forward) (use n n'(5) Suc.prems(2) b len ab in auto)
  have mem': "compare_members (\<lambda>x y. cJSON_Compare_at k x y cs) cs (room m) (first (map root us) None) (Some p) m =
     Inr (\<forall>i \<in> set (map (the_item m) us). case member_named cs (istring i) (map (the_item m) ts) of None \<Rightarrow> False | Some i' \<Rightarrow> same_json cs i i')"
    by (rule compare_members_forward) (use n' n(5) Suc.prems(1) a len ab in auto)
  let ?t = "n_type n AND 0xFF" and ?t' = "n_type n' AND 0xFF"
  have str: "(if n_valuestring n = None \<or> n_valuestring n' = None then Inr False else same_name (n_valuestring n) (n_valuestring n') m) =
      Inr (case (content m (n_valuestring n), content m (n_valuestring n')) of (Some x, Some y) \<Rightarrow> c_str x = c_str y | _ \<Rightarrow> False)"
  proof (cases "n_valuestring n = None \<or> n_valuestring n' = None")
    case True
    then show ?thesis
      by (auto simp: content_def split: option.split)
  next
    case False
    then have "readable m (n_valuestring n)" "readable m (n_valuestring n')"
      using n(4) n'(4) by (auto simp: strings_readable_def)
    then show ?thesis
      using False same_name_readable by (auto simp: names_match_def text_of_def readable_def split: option.splits)
  qed
  have both: "(if \<not> P then Inr False else Inr Q) = (Inr (P \<and> Q) :: bool cres)" for P Q
    by simp
  have walk: "cJSON_Compare_at (Suc k) (Some p) (Some q) cs m =
     (if ?t \<noteq> ?t' \<or> ?t = cJSON_Invalid then Inr False
      else if ?t \<notin> {cJSON_False, cJSON_True, cJSON_NULL, cJSON_Number, cJSON_String, cJSON_Raw, cJSON_Array, cJSON_Object} then Inr False
      else if ?t = cJSON_False \<or> ?t = cJSON_True \<or> ?t = cJSON_NULL then Inr True
      else if ?t = cJSON_Number then Inr (dbl_eq (n_valuedouble n) (n_valuedouble n'))
      else if ?t = cJSON_String \<or> ?t = cJSON_Raw then
        Inr (case (content m (n_valuestring n), content m (n_valuestring n')) of (Some x, Some y) \<Rightarrow> c_str x = c_str y | _ \<Rightarrow> False)
      else if ?t = cJSON_Array then
        Inr (length (map (the_item m) ts) = length (map (the_item m) us) \<and> (\<forall>p \<in> set (zip (map (the_item m) ts) (map (the_item m) us)). same_json cs (fst p) (snd p)))
      else Inr ((\<forall>i \<in> set (map (the_item m) ts). case member_named cs (istring i) (map (the_item m) us) of None \<Rightarrow> False | Some i' \<Rightarrow> same_json cs i i') \<and>
        (\<forall>i \<in> set (map (the_item m) us). case member_named cs (istring i) (map (the_item m) ts) of None \<Rightarrow> False | Some i' \<Rightarrow> same_json cs i i')))"
    using n(1) n'(1) ne
    by (simp only: cJSON_Compare_at.simps deref_Some Let_def cbind_simps type_of_def option.inject if_False
        option.distinct simp_thms n(2) n'(2) els mem mem' str both)
  show ?case
    unfolding a b tree.sel walk the_item.simps n(1) n'(1) option.case same_json.simps Let_def
    by (rule type_switch)
qed

lemma owned_room:
  assumes "in_room m" "spans m t" "distinct (owned_nodes t)"
  shows "length (owned_nodes t) \<le> brk m" and "set (owned_nodes t) \<subseteq> {..<brk m}"
proof -
  show below: "set (owned_nodes t) \<subseteq> {..<brk m}"
    using spans_live [OF assms(2)] assms(1) by (fastforce simp: in_room_def)
  then have "card (set (owned_nodes t)) \<le> brk m"
    using card_mono [of "{..<brk m}"] by fastforce
  then show "length (owned_nodes t) \<le> brk m"
    using assms(3) by (simp add: distinct_card)
qed

lemma cJSON_Compare_same:
  assumes "in_room m" "spans m a" "spans m b" "distinct (owned_nodes a)" "distinct (owned_nodes b)"
    and "set (owned_nodes a) \<inter> set (owned_nodes b) = {}"
  shows "cJSON_Compare (Some (root a)) (Some (root b)) cs m = Inr (same_json cs (the_item m a) (the_item m b))"
  unfolding cJSON_Compare_def
  by (rule cJSON_Compare_at_same)
    (use assms owned_room [OF assms(1,2,4)] owned_room [OF assms(1,3,5)] in \<open>simp_all add: room_def\<close>)

section \<open>A duplicate and its original\<close>

text \<open>
  Items that are equal to themselves: every type is one of the eight, numbers are not \<open>NaN\<close>, strings are there, and
  the members of an object have names, each its own. A constant name is there if the item is flagged to have one.
\<close>

definition name_key :: "bool \<Rightarrow> cJSON \<Rightarrow> bytes option" where
  "name_key cs k = map_option (\<lambda>s. if cs then c_str s else map tolower (c_str s)) (istring k)"

fun comparable :: "bool \<Rightarrow> cJSON \<Rightarrow> bool" where
  "comparable cs (Item ty vs vi vd nm ks) \<longleftrightarrow>
     ty AND 0xFF \<in> {cJSON_False, cJSON_True, cJSON_NULL, cJSON_Number, cJSON_String, cJSON_Raw, cJSON_Array, cJSON_Object} \<and>
     (ty AND 0xFF = cJSON_Number \<longrightarrow> vd \<noteq> NaN) \<and>
     (ty AND 0xFF \<in> {cJSON_String, cJSON_Raw} \<longrightarrow> vs \<noteq> None) \<and>
     (ty AND 0xFF = cJSON_Object \<longrightarrow> distinct (map (name_key cs) ks) \<and> None \<notin> set (map (name_key cs) ks)) \<and>
     (ty AND cJSON_StringIsConst \<noteq> 0 \<longrightarrow> nm \<noteq> None) \<and>
     (\<forall>k \<in> set ks. comparable cs k)"

lemma named_key: "named cs (istring i) k \<longleftrightarrow> name_key cs k = name_key cs i \<and> name_key cs i \<noteq> None"
  by (auto simp: named_def name_key_def names_match_def split: option.split)

lemma name_key_own_copy [simp]: "name_key cs (own_copy k) = name_key cs k"
proof -
  have "c_str (c_str b @ [0]) = c_str b" for b
    by (simp add: c_str_nul_free)
  then have "(\<lambda>b. if cs then c_str (c_str b @ [0]) else map tolower (c_str (c_str b @ [0]))) =
      (\<lambda>b. if cs then c_str b else map tolower (c_str b))"
    by (simp cong: if_cong)
  then show ?thesis
    by (cases k) (simp add: name_key_def option.map_comp o_def)
qed

lemma member_named_unique:
  assumes "distinct (map (name_key cs) ks)" "None \<notin> set (map (name_key cs) ks)" "k \<in> set ks"
    and "\<And>k. name_key cs (f k) = name_key cs k" "name_key cs i = name_key cs k"
  shows "member_named cs (istring i) (map f ks) = Some (f k)"
proof -
  have all: "(if cs then takeWhile (\<lambda>k. istring k \<noteq> None) (map f ks) else map f ks) = map f ks"
  proof -
    have "istring (f x) \<noteq> None" if "x \<in> set ks" for x
    proof -
      have "name_key cs (f x) \<noteq> None"
        using assms(2) that by (force simp: assms(4))
      then show ?thesis
        by (auto simp: name_key_def)
    qed
    then show ?thesis
      by (auto intro!: takeWhile_eq_all_conv [THEN iffD2])
  qed
  have "name_key cs k \<noteq> None"
    using assms(2,3) by force
  then have "named cs (istring i) = (\<lambda>x. name_key cs x = name_key cs k)"
    by (auto simp: fun_eq_iff named_key assms(5))
  then have "member_named cs (istring i) (map f ks) = find (\<lambda>x. name_key cs x = name_key cs k) (map f ks)"
    unfolding member_named_def all by simp
  also have "\<dots> = Some (f k)"
    using assms(1,3,4) by (induction ks) (auto simp: image_iff)
  finally show ?thesis .
qed

lemma type_own_copy: "(ty AND NOT cJSON_IsReference) AND 0xFF = ty AND 0xFF"
proof -
  have "NOT cJSON_IsReference AND 0xFF = (0xFF :: u32)"
    by (simp add: cJSON_flags)
  then show ?thesis
    by (simp add: and.assoc)
qed

lemma dbl_eq_self: "d \<noteq> NaN \<Longrightarrow> dbl_eq d d"
  by (cases d) (auto simp: dbl_eq_def)

lemma same_json_own_copy:
  "comparable cs i \<Longrightarrow> same_json cs i (own_copy i) \<and> same_json cs (own_copy i) i"
proof (induction i)
  case (Item ty vs vi vd nm ks)
  have ks: "same_json cs k (own_copy k)" "same_json cs (own_copy k) k" if "k \<in> set ks" for k
    using Item that by auto
  have zips: "\<forall>p \<in> set (zip ks (map own_copy ks)). same_json cs (fst p) (snd p)"
    "\<forall>p \<in> set (zip (map own_copy ks) ks). same_json cs (fst p) (snd p)"
    using ks by (auto simp: zip_map1 zip_map2 zip_same)
  have str: "c_str (c_str b @ [0]) = c_str b" for b
    by (simp add: c_str_nul_free)
  have mem: "\<forall>k \<in> set ks. case member_named cs (istring k) (map own_copy ks) of None \<Rightarrow> False | Some k' \<Rightarrow> same_json cs k k'"
    "\<forall>k \<in> set (map own_copy ks). case member_named cs (istring k) ks of None \<Rightarrow> False | Some k' \<Rightarrow> same_json cs k k'"
    if "ty AND 0xFF = cJSON_Object"
  proof -
    have u: "distinct (map (name_key cs) ks)" "None \<notin> set (map (name_key cs) ks)"
      using Item.prems that by simp_all
    show "\<forall>k \<in> set ks. case member_named cs (istring k) (map own_copy ks) of None \<Rightarrow> False | Some k' \<Rightarrow> same_json cs k k'"
      using member_named_unique [OF u, of _ own_copy] ks by simp
    show "\<forall>k \<in> set (map own_copy ks). case member_named cs (istring k) ks of None \<Rightarrow> False | Some k' \<Rightarrow> same_json cs k k'"
      using member_named_unique [OF u, of _ "\<lambda>k. k"] ks by auto
  qed
  have val: "vs \<noteq> None \<Longrightarrow> case (vs, map_option (\<lambda>b. c_str b @ [0]) vs) of (Some x, Some y) \<Rightarrow> c_str x = c_str y | _ \<Rightarrow> False"
    "vs \<noteq> None \<Longrightarrow> case (map_option (\<lambda>b. c_str b @ [0]) vs, vs) of (Some x, Some y) \<Rightarrow> c_str x = c_str y | _ \<Rightarrow> False"
    by (auto simp: str)
  define t where "t = ty AND 0xFF"
  have cmp: "t \<in> {cJSON_False, cJSON_True, cJSON_NULL, cJSON_Number, cJSON_String, cJSON_Raw, cJSON_Array, cJSON_Object}"
    "t = cJSON_Number \<Longrightarrow> dbl_eq vd vd" "t = cJSON_String \<or> t = cJSON_Raw \<Longrightarrow> vs \<noteq> None"
    using Item.prems dbl_eq_self by (auto simp: t_def)
  note mem = mem [folded t_def]
  show ?case
    unfolding own_copy.simps same_json.simps Let_def type_own_copy t_def [symmetric]
    using cmp zips mem val by simp blast
qed

text \<open>What a new tree needs so that a walk can read it.\<close>

fun walkable :: "cJSON \<Rightarrow> bool" where
  "walkable (Item ty vs vi vd nm ks) \<longleftrightarrow>
     ty AND cJSON_IsReference = 0 \<and> (\<forall>s \<in> set_option vs \<union> set_option nm. terminated s) \<and>
     (ty AND cJSON_StringIsConst \<noteq> 0 \<longrightarrow> nm \<noteq> None) \<and> (\<forall>k \<in> set ks. walkable k)"

lemma walkable_copy_item:
  assumes "\<And>s. nm = Some s \<Longrightarrow> terminated s" "ty AND cJSON_StringIsConst \<noteq> 0 \<longrightarrow> nm \<noteq> None"
    and "\<And>k. k \<in> set ks \<Longrightarrow> walkable (own_copy k)"
  shows "walkable (own_copy (Item ty vs vi vd nm ks))"
proof -
  have "terminated (c_str b @ [0])" for b
    by (simp add: terminated_def)
  then show ?thesis
    using assms by (auto simp: ref_bits)
qed

lemma walkable_own_copy: "spans m t \<Longrightarrow> comparable cs (the_item m t) \<Longrightarrow> walkable (own_copy (the_item m t))"
proof (induction t)
  case (Tree p ts)
  obtain n where n: "nodes m p = Some n" "strings_readable m n" "\<forall>t \<in> set ts. spans m t"
    using Tree.prems(1) by (auto split: option.splits)
  have "terminated s" if "content m (n_string n) = Some s" for s
    using n(2) that by (cases "n_string n") (auto simp: strings_readable_def readable_def content_def)
  moreover have "walkable (own_copy (the_item m t))" if "t \<in> set ts" for t
    using Tree.IH [OF that] Tree.prems(2) n that by simp
  moreover have "n_type n AND cJSON_StringIsConst \<noteq> 0 \<longrightarrow> content m (n_string n) \<noteq> None"
    using Tree.prems(2) n(1) by simp
  ultimately show ?case
    unfolding the_item.simps n(1) option.case by (intro walkable_copy_item) auto
qed

lemma seg_forward: "seg m pv ps None \<Longrightarrow> forward m ps"
  by (induction ps arbitrary: pv) (auto split: option.splits)

lemma spans_holds:
  "holds m t \<Longrightarrow> walkable (the_item m t) \<Longrightarrow> \<forall>s \<in> set (owned_strs m t). strs m s \<noteq> None \<Longrightarrow> spans m t"
proof (induction t)
  case (Tree p ts)
  obtain n where n: "nodes m p = Some n" "\<forall>t \<in> set ts. holds m t"
    using Tree.prems(1) by (auto split: option.splits)
  have walk: "n_type n AND cJSON_IsReference = 0" "\<forall>t \<in> set ts. walkable (the_item m t)"
    "\<forall>s \<in> set_option (content m (n_valuestring n)) \<union> set_option (content m (n_string n)). terminated s"
    "n_type n AND cJSON_StringIsConst \<noteq> 0 \<longrightarrow> content m (n_string n) \<noteq> None"
    using Tree.prems(2) n(1) by simp_all
  have kids: "n_child n = first (map root ts) None" "seg m None (map root ts) None"
    using Tree.prems(1) n(1) walk(1) by (auto simp: is_ref_def)
  have own: "\<forall>s \<in> set (strs_of_node n). strs m s \<noteq> None"
    using Tree.prems(3) n(1) by (simp add: strs_at_def)
  have "strings_readable m n"
    using own walk by (cases "n_valuestring n"; cases "n_string n")
      (auto simp: strings_readable_def readable_def content_def strs_of_node_def)
  moreover have "\<forall>t \<in> set ts. spans m t"
  proof
    fix t
    assume t: "t \<in> set ts"
    then have "\<forall>s \<in> set (owned_strs m t). strs m s \<noteq> None"
      using Tree.prems(3) by fastforce
    then show "spans m t"
      using Tree.IH [OF t] t n(2) walk(2) by blast
  qed
  ultimately show ?case
    using n(1) kids seg_forward by auto
qed

lemma cJSON_Compare_duplicate:
  assumes "in_room m" "spans m t" "distinct (owned_nodes t)" "comparable cs (the_item m t)"
    and "cJSON_Duplicate (Some (root t)) True m = Inr (Some p, m')"
  shows "cJSON_Compare (Some (root t)) (Some p) cs m' = Inr True"
proof -
  have "makes (cJSON_Duplicate (Some (root t)) True) m (own_copy (the_item m t))"
    using assms(1-3) by (rule cJSON_Duplicate_makes)
  then obtain u where u: "root u = p" "fresh_part m m' [u]" "the_item m' u = own_copy (the_item m t)"
    using assms(5) by (auto elim!: makesE)
  have ex: "extends m m'" "in_room m'" "forest_ok m' [u]" "\<forall>q \<in> set (owned_nodes u). brk m \<le> q"
    using u(2) by (simp_all add: fresh_part_def)
  have t: "spans m' t" "the_item m' t = the_item m t"
    using spans_extends [OF ex(1) assms(1,2)] by simp_all
  have "spans m' u"
    by (rule spans_holds) (use ex(3) u(3) walkable_own_copy [OF assms(2,4)] in \<open>simp_all add: forest_ok_def\<close>)
  moreover have "distinct (owned_nodes u)"
    using ex(3) by (simp add: forest_ok_def)
  moreover have "set (owned_nodes t) \<inter> set (owned_nodes u) = {}"
    using ex(4) owned_room(2) [OF assms(1-3)] by fastforce
  ultimately have "cJSON_Compare (Some (root t)) (Some (root u)) cs m' = Inr (same_json cs (the_item m' t) (the_item m' u))"
    using ex(2) t(1) assms(3) by (intro cJSON_Compare_same)
  then show ?thesis
    using same_json_own_copy [OF assms(4)] u(1,3) t(2) by simp
qed

section \<open>Properties\<close>

text \<open>
  C9: For two trees that share nothing \<open>cJSON_Compare\<close> decides whether their items are the same value: it follows \<open>same_json\<close>,
  where the order of the members of an object does not matter. An item compared with itself is equal as soon as its
  type is valid, even if it holds a \<open>NaN\<close>; a null pointer is equal to nothing.
\<close>

theorem cJSON_Compare_correct:
  assumes "in_room m" "spans m a" "spans m b" "distinct (owned_nodes a)" "distinct (owned_nodes b)"
    and "set (owned_nodes a) \<inter> set (owned_nodes b) = {}"
  shows "cJSON_Compare (Some (root a)) (Some (root b)) cs m = Inr (same_json cs (the_item m a) (the_item m b)) \<and>
    cJSON_Compare (Some (root a)) (Some (root a)) cs m = Inr (itype (the_item m a) AND 0xFF \<in>
      {cJSON_False, cJSON_True, cJSON_NULL, cJSON_Number, cJSON_String, cJSON_Raw, cJSON_Array, cJSON_Object}) \<and>
    cJSON_Compare None (Some (root b)) cs m = Inr False \<and> cJSON_Compare (Some (root a)) None cs m = Inr False"
proof -
  obtain p ts where a: "a = Tree p ts"
    by (cases a)
  then obtain n where n: "nodes m p = Some n"
    using assms(2) by (auto split: option.splits)
  have "cJSON_Compare (Some (root a)) (Some (root a)) cs m = Inr (itype (the_item m a) AND 0xFF \<in>
      {cJSON_False, cJSON_True, cJSON_NULL, cJSON_Number, cJSON_String, cJSON_Raw, cJSON_Array, cJSON_Object})"
    using n unfolding a by (auto simp: cJSON_Compare_def room_def type_of_def Let_def cJSON_types)
  then show ?thesis
    using cJSON_Compare_same [OF assms] by (simp add: cJSON_Compare_def room_def)
qed

text \<open>
  C10: A duplicate is equal to its original, if that is an item that can be compared at all: with valid types and names,
  no two members of an object with the same name, and no \<open>NaN\<close>.
\<close>

theorem duplicate_compares_equal:
  assumes "in_room m" "spans m t" "distinct (owned_nodes t)" "comparable cs (the_item m t)"
  shows "\<exists>r m'. cJSON_Duplicate (Some (root t)) True m = Inr (r, m') \<and>
    (case r of None \<Rightarrow> \<exists>k n. \<not> s_grant m k n | Some p \<Rightarrow> cJSON_Compare (Some (root t)) (Some p) cs m' = Inr True)"
  using cJSON_Duplicate_makes [OF assms(1-3)]
  by (rule makesE) (use cJSON_Compare_duplicate [OF assms] in \<open>auto split: option.split\<close>)

text \<open>The objects \<open>{"a":true, "b":null}\<close> at 0 and \<open>{"B":null, "A":true}\<close> at 3.\<close>

definition pair_store :: store where
  "pair_store =
     \<lparr>nodes = [0 \<mapsto> demo_node None None (Some 1) cJSON_Object None None,
               1 \<mapsto> demo_node (Some 2) None None cJSON_True None (Some 6),
               2 \<mapsto> demo_node None (Some 1) None cJSON_NULL None (Some 7),
               3 \<mapsto> demo_node None None (Some 4) cJSON_Object None None,
               4 \<mapsto> demo_node (Some 5) None None cJSON_NULL None (Some 8),
               5 \<mapsto> demo_node None (Some 4) None cJSON_True None (Some 9)],
      strs = [6 \<mapsto> [0x61, 0], 7 \<mapsto> [0x62, 0], 8 \<mapsto> [0x42, 0], 9 \<mapsto> [0x41, 0]],
      static = (\<lambda>_. False), brk = 10, s_calls = 0, s_grant = (\<lambda>_ _. True)\<rparr>"

lemma pair_store_facts:
  "in_room pair_store" "spans pair_store (Tree 0 [Tree 1 [], Tree 2 []])" "spans pair_store (Tree 3 [Tree 4 [], Tree 5 []])"
  by (auto simp: in_room_def pair_store_def demo_node_def strings_readable_def readable_def content_def terminated_def)

lemma pair_items:
  "the_item pair_store (Tree 0 [Tree 1 [], Tree 2 []]) = Item cJSON_Object None 0 dzero None
     [Item cJSON_True None 0 dzero (Some [0x61, 0]) [], Item cJSON_NULL None 0 dzero (Some [0x62, 0]) []]"
  "the_item pair_store (Tree 3 [Tree 4 [], Tree 5 []]) = Item cJSON_Object None 0 dzero None
     [Item cJSON_NULL None 0 dzero (Some [0x42, 0]) [], Item cJSON_True None 0 dzero (Some [0x41, 0]) []]"
  by (simp_all add: pair_store_def demo_node_def content_def dzero_def)

lemma pair_same:
  "same_json cs (Item cJSON_Object None 0 dzero None
     [Item cJSON_True None 0 dzero (Some [0x61, 0]) [], Item cJSON_NULL None 0 dzero (Some [0x62, 0]) []])
   (Item cJSON_Object None 0 dzero None
     [Item cJSON_NULL None 0 dzero (Some [0x42, 0]) [], Item cJSON_True None 0 dzero (Some [0x41, 0]) []]) \<longleftrightarrow> \<not> cs"
  by (cases cs) (simp_all add: same_json.simps member_named_def named_def names_match_def c_str_def tolower_def cJSON_types Let_def)

theorem cJSON_Compare_correct_witness:
  "cJSON_Compare (Some 0) (Some 3) False pair_store = Inr True \<and> cJSON_Compare (Some 0) (Some 3) True pair_store = Inr False"
  using cJSON_Compare_correct [OF pair_store_facts, of False] cJSON_Compare_correct [OF pair_store_facts, of True]
  unfolding pair_items pair_same by simp

theorem duplicate_compares_equal_witness:
  "\<exists>p m. cJSON_Duplicate (Some 0) True pair_store = Inr (Some p, m) \<and> cJSON_Compare (Some 0) (Some p) True m = Inr True"
proof -
  have "comparable True (the_item pair_store (Tree 0 [Tree 1 [], Tree 2 []]))"
    unfolding pair_items by (simp add: cJSON_types cJSON_flags name_key_def c_str_def)
  from duplicate_compares_equal [OF pair_store_facts(1,2) _ this] show ?thesis
    by (auto simp: pair_store_def split: option.splits)
qed

text \<open>An object with two members of one name is not equal to a copy of itself: both lookups find the first.\<close>

lemma twice_named_differs:
  "\<not> same_json cs (Item cJSON_Object None 0 dzero None
       [Item cJSON_True None 0 dzero (Some [0x61, 0]) [], Item cJSON_NULL None 0 dzero (Some [0x61, 0]) []])
     (Item cJSON_Object None 0 dzero None
       [Item cJSON_True None 0 dzero (Some [0x61, 0]) [], Item cJSON_NULL None 0 dzero (Some [0x61, 0]) []])"
  by (cases cs) (simp_all add: same_json.simps member_named_def named_def names_match_def c_str_def tolower_def cJSON_types Let_def)

end
