(* ===== verification/CJsonTyped.thy ===== *)
theory CJsonTyped
  imports CJsonRoundTrip
begin

text \<open>
  The type of what \<open>cJSON_Parse\<close> returns. \<open>json_typed d\<close> describes the items the parser can build, at most \<open>d\<close>
  containers deep: a plain type without flags, a terminated string exactly where the type has one, a double in the
  format with the integer that belongs to it, names exactly for the members of objects. Every text and every pattern of
  failing allocations leads to such an item or to none, and such an item can be printed.
\<close>

section \<open>Doubles\<close>

lemma rhe_bounds:
  assumes "0 < d"
  shows "a * d \<le> n \<Longrightarrow> a \<le> rhe n d" and "n < b * d \<Longrightarrow> rhe n d \<le> b"
proof -
  have "n div d \<le> rhe n d" "rhe n d \<le> Suc (n div d)"
    by (simp_all add: rhe_def Let_def)
  moreover have "a * d \<le> n \<Longrightarrow> a \<le> n div d" "n < b * d \<Longrightarrow> n div d < b"
    using assms by (simp_all add: less_eq_div_iff_mult_less_eq div_less_iff_less_mult)
  ultimately show "a * d \<le> n \<Longrightarrow> a \<le> rhe n d" and "n < b * d \<Longrightarrow> rhe n d \<le> b"
    by simp_all
qed

lemma canonical_round64:
  assumes "0 < d"
  shows "canonical (round64 s n d)"
proof (cases "n = 0")
  case True
  then show ?thesis
    by (simp add: round64_def canonical_def)
next
  case False
  then have n: "0 < n"
    by simp
  define e where "e = exp_of n d"
  obtain n' d' where sc: "scale 2 e n d = (n', d')"
    by (cases "scale 2 e n d")
  note real = scale_real [OF sc _ assms]
  define x where "x = real n / real d"
  have b: "bin_exp x e"
    unfolding e_def x_def using n assms by (rule exp_of_bin_exp)
  have q: "real n' / real d' = x / 2 powi e" "0 < d'"
    using real(1,2) by (simp_all add: x_def)
  have up: "n' < 2 ^ 53 * d'"
  proof -
    have "real n' / real d' < 2 ^ 53"
      using b unfolding q(1) bin_exp_def by (simp add: pos_divide_less_eq)
    then have "real n' < real (2 ^ 53 * d')"
      using q(2) by (simp add: pos_divide_less_eq)
    then show ?thesis
      by (simp only: of_nat_less_iff)
  qed
  have low: "2 ^ 52 * d' \<le> n'" if "e \<noteq> -1074"
  proof -
    have "2 ^ 52 \<le> real n' / real d'"
      using b that unfolding q(1) bin_exp_def by (simp add: pos_le_divide_eq)
    then have "real (2 ^ 52 * d') \<le> real n'"
      using q(2) by (simp add: pos_le_divide_eq)
    then show ?thesis
      by (simp only: of_nat_le_iff)
  qed
  define m where "m = rhe n' d'"
  have m: "m \<le> 2 ^ 53" "e \<noteq> -1074 \<Longrightarrow> 2 ^ 52 \<le> m" "-1074 \<le> e"
    using rhe_bounds(2) [OF q(2) up] rhe_bounds(1) [OF q(2) low] b by (auto simp: m_def bin_exp_def)
  have "round64 s n d = (if m = 2 ^ 53 then (if 971 < e + 1 then Inf s else Fin s (2 ^ 52) (e + 1))
      else if 971 < e then Inf s else Fin s m e)"
    using n unfolding round64_def e_def [symmetric] Let_def sc m_def by simp
  then show ?thesis
    using m by (cases "e = -1074") (auto simp: canonical_def)
qed

lemma canonical_strtod:
  assumes "strtod s = Some (d, rest)"
  shows "canonical d" and "d \<noteq> NaN"
proof -
  obtain neg n k where "d = round64 neg n k" "0 < k"
    using assms by (auto simp: strtod_def scale_def Let_def split: prod.splits if_splits)
  then show "canonical d" and "d \<noteq> NaN"
    using canonical_round64 round64_not_nan by simp_all
qed

section \<open>Parsed items\<close>

fun json_typed :: "nat \<Rightarrow> cJSON \<Rightarrow> bool" where
  "json_typed d (Item ty vs vi vd nm ks) \<longleftrightarrow>
     canonical vd \<and> vd \<noteq> NaN \<and> string_ok nm \<and>
     (ty \<in> {cJSON_NULL, cJSON_False, cJSON_True} \<and> vs = None \<and> ks = [] \<or>
      ty = cJSON_Number \<and> saturated_int vd = Inr vi \<and> vs = None \<and> ks = [] \<or>
      ty = cJSON_String \<and> vs \<noteq> None \<and> string_ok vs \<and> ks = [] \<or>
      ty = cJSON_Array \<and> 0 < d \<and> vs = None \<and> (\<forall>k \<in> set ks. istring k = None \<and> json_typed (d - 1) k) \<or>
      ty = cJSON_Object \<and> 0 < d \<and> vs = None \<and> (\<forall>k \<in> set ks. istring k \<noteq> None \<and> json_typed (d - 1) k))"

definition blank :: "cJSON \<Rightarrow> bool" where
  "blank item \<longleftrightarrow> valuestring item = None \<and> children item = [] \<and> valuedouble item = dzero \<and> string_ok (istring item)"

definition level :: "parse_buffer \<Rightarrow> nat" where
  "level pb = CJSON_NESTING_LIMIT - pb_depth pb"

text \<open>What a parsing routine promises about the item it makes.\<close>

definition typed_result :: "cJSON \<Rightarrow> parse_buffer \<Rightarrow> (bool \<times> cJSON \<times> parse_buffer \<times> heap) cres \<Rightarrow> bool" where
  "typed_result item pb r \<longleftrightarrow>
     (case r of
        Inl e \<Rightarrow> True
      | Inr (ok, y, pb', h') \<Rightarrow> ok \<longrightarrow> istring y = istring item \<and> pb_depth pb' = pb_depth pb \<and> json_typed (level pb) y)"

lemma depth_skip_loop: "skip_ws_loop pb = Inr pb' \<Longrightarrow> pb_depth pb' = pb_depth pb"
proof (induction pb rule: skip_ws_loop.induct)
  case (1 pb)
  then show ?case
    by (auto simp: skip_ws_loop.simps [of pb] cbind_eq_Inr split: if_splits)
qed

lemma depth_skip: "buffer_skip_whitespace pb = Inr pb' \<Longrightarrow> pb_depth pb' = pb_depth pb"
  by (auto simp: buffer_skip_whitespace_def cbind_eq_Inr dest!: depth_skip_loop)

lemma parse_number_typed:
  assumes "blank item"
  shows "typed_result item pb (parse_number item pb h)"
  using assms canonical_strtod
  by (cases item) (fastforce simp: parse_number_def typed_result_def cbind_def blank_def cJSON_types split: sum.splits option.splits)

lemma parse_string_typed:
  assumes "parse_string item pb h = Inr (True, y, pb', h')"
  shows "\<exists>out. terminated out \<and> pb_depth pb' = pb_depth pb \<and>
    y = Item cJSON_String (Some out) (valueint item) (valuedouble item) (istring item) (children item)"
proof -
  have "terminated (out[op := 0])" if "op < length out" for out :: bytes and op
    using that by (auto simp: terminated_def intro: set_update_memI)
  then show ?thesis
    using assms unfolding parse_string_def Let_def cbind_def
    by (auto simp: put_byte_eq_Inr split: if_split_asm option.split_asm prod.split_asm sum.split_asm)
qed

section \<open>Containers\<close>

text \<open>What the loops keep: the items made so far are elements, or members, of the level below.\<close>

definition element :: "nat \<Rightarrow> cJSON \<Rightarrow> bool" where
  "element d k \<longleftrightarrow> istring k = None \<and> json_typed d k"

definition member :: "nat \<Rightarrow> cJSON \<Rightarrow> bool" where
  "member d k \<longleftrightarrow> istring k \<noteq> None \<and> json_typed d k"

definition filled :: "u32 \<Rightarrow> (cJSON \<Rightarrow> bool) \<Rightarrow> cJSON \<Rightarrow> parse_buffer \<Rightarrow> (bool \<times> cJSON \<times> parse_buffer \<times> heap) cres \<Rightarrow> bool" where
  "filled ty P item pb r \<longleftrightarrow>
     (case r of
        Inl e \<Rightarrow> True
      | Inr (ok, y, pb', h') \<Rightarrow> ok \<longrightarrow> pb_depth pb' = pb_depth pb - 1 \<and> (\<exists>ks. (\<forall>k \<in> set ks. P k) \<and>
          y = Item ty (valuestring item) (valueint item) (valuedouble item) (istring item) ks))"

lemma filled_abandon [simp]: "filled ty P item pb (abandon item head pb' h)" "filled ty P item pb (Inl e)"
  by (simp_all add: filled_def abandon_def)

lemma filled_container:
  "\<forall>k \<in> set head. P k \<Longrightarrow> pb_depth pb' = pb_depth pb \<Longrightarrow> filled ty P item pb (container ty item head pb' h)"
  by (auto simp: filled_def container_def)

lemma filled_bind: "(\<And>x. r = Inr x \<Longrightarrow> filled ty P item pb (f x)) \<Longrightarrow> filled ty P item pb (cbind r f)"
  by (cases r) simp_all

lemmas filled_steps =
  filled_bind [of "buffer_skip_whitespace pb'" ty P item pb f for pb' ty P item pb f]
  filled_bind [of "buffer_at pb' k" ty P item pb f for pb' k ty P item pb f]

lemma filled_depth: "pb_depth pb' = pb_depth pb \<Longrightarrow> filled ty P item pb' r = filled ty P item pb r"
  by (simp add: filled_def split: sum.split prod.split)

lemma filled_typed:
  assumes "filled ty P item pb1 r" "blank item" "pb_depth pb1 = Suc (pb_depth pb)" "pb_depth pb < CJSON_NESTING_LIMIT"
    and "ty = cJSON_Array \<and> P = element (level pb1) \<or> ty = cJSON_Object \<and> P = member (level pb1)"
  shows "typed_result item pb r"
proof -
  have "level pb1 = level pb - 1" "0 < level pb"
    using assms(3,4) by (simp_all add: level_def)
  moreover have "canonical dzero" "dzero \<noteq> NaN"
    by (simp_all add: dzero_def canonical_def)
  ultimately show ?thesis
    using assms unfolding filled_def typed_result_def
    by (cases item) (auto simp: blank_def element_def member_def cJSON_types split: sum.splits prod.splits)
qed

lemma typed_fail [simp]: "typed_result item pb (abandon item' head pb' h)" "typed_result item pb (Inl e)"
  "typed_result item pb (Inr (False, y, pb', h))"
  by (simp_all add: typed_result_def abandon_def)

locale typed_parser =
  fixes pv :: parser
  assumes pv_typed: "blank item \<Longrightarrow> typed_result item pb (pv item pb h)"
begin

lemma pv_item:
  "pv item pb h = Inr (True, y, pb', h') \<Longrightarrow> blank item \<Longrightarrow> istring y = istring item \<and> pb_depth pb' = pb_depth pb \<and> json_typed (level pb) y"
  using pv_typed [of item pb h] by (simp add: typed_result_def)

lemma new_item_blank: "cJSON_New_Item h = (Some current, h1) \<Longrightarrow> blank current \<and> istring current = None"
  by (auto simp: cJSON_New_Item_def new_item_def blank_def dzero_def string_ok_def split: prod.splits option.splits)

lemma array_loop_filled:
  "\<forall>k \<in> set head. element (level pb) k \<Longrightarrow> filled cJSON_Array (element (level pb)) item pb (parse_array_loop pv n head item pb h)"
proof (induction n arbitrary: head pb h)
  case 0
  then show ?case
    by (simp add: parse_array_loop.simps)
next
  case (Suc n)
  show ?case
  proof (cases "cJSON_New_Item h")
    case new: (Pair c h1)
    show ?thesis
    proof (cases c)
      case None
      then show ?thesis
        using new by (simp add: parse_array_loop.simps)
    next
      case (Some current)
      have rest: "filled cJSON_Array (element (level pb)) item pb (parse_array_loop pv n (head @ [k]) item pb3 h2)"
        if "element (level pb) k" "pb_depth pb3 = pb_depth pb" for k pb3 h2
        using Suc.IH [of "head @ [k]" pb3 h2] Suc.prems that filled_depth [OF that(2)] by (auto simp: level_def)
      show ?thesis
        unfolding parse_array_loop.simps new prod.case Some option.case
      proof (rule filled_bind, goal_cases)
        case (1 pb1)
        then have d1: "pb_depth pb1 = pb_depth pb"
          by (auto dest!: depth_skip)
        show ?case
        proof (rule filled_bind)
          fix res
          assume res: "pv current pb1 h1 = Inr res"
          obtain ok k pb2 h2 where r: "res = (ok, k, pb2, h2)"
            by (cases res)
          have k: "element (level pb) k \<and> pb_depth pb2 = pb_depth pb" if ok
            using pv_item [of current pb1 h1] new_item_blank [of h current h1] new Some res r that d1 by (auto simp: element_def level_def)
          show "filled cJSON_Array (element (level pb)) item pb (case res of (parsed, current, pb2, h2) \<Rightarrow>
            if \<not> parsed then abandon item (head @ [current]) pb2 h2
            else cbind (buffer_skip_whitespace pb2) (\<lambda>pb3.
              if \<not> can_access_at_index pb3 0 then abandon item (head @ [current]) pb3 h2
              else cbind (buffer_at pb3 0) (\<lambda>b.
                if b = 0x2C then parse_array_loop pv n (head @ [current]) item pb3 h2
                else if b = 0x5D then container cJSON_Array item (head @ [current]) pb3 h2
                else abandon item (head @ [current]) pb3 h2)))"
            using k Suc.prems rest unfolding r prod.case
            by (auto intro!: filled_steps filled_container dest!: depth_skip)
        qed
      qed
    qed
  qed
qed

lemma name_blank:
  assumes "cJSON_New_Item h = (Some current, h1)" "parse_string current pb h1 = Inr (True, named, pb', h2)"
  shows "blank (name_from_value named) \<and> istring (name_from_value named) \<noteq> None \<and> pb_depth pb' = pb_depth pb"
  using parse_string_typed [OF assms(2)] new_item_blank [OF assms(1)] by (auto simp: blank_def name_from_value_def string_ok_def)

lemma object_loop_filled:
  "\<forall>k \<in> set head. member (level pb) k \<Longrightarrow> filled cJSON_Object (member (level pb)) item pb (parse_object_loop pv n head item pb h)"
proof (induction n arbitrary: head pb h)
  case 0
  then show ?case
    by (simp add: parse_object_loop.simps)
next
  case (Suc n)
  show ?case
  proof (cases "cJSON_New_Item h")
    case new: (Pair c h1)
    show ?thesis
    proof (cases c)
      case None
      then show ?thesis
        using new by (simp add: parse_object_loop.simps)
    next
      case (Some current)
      have rest: "filled cJSON_Object (member (level pb)) item pb (parse_object_loop pv n (head @ [k]) item pb3 h2)"
        if "member (level pb) k" "pb_depth pb3 = pb_depth pb" for k pb3 h2
        using Suc.IH [of "head @ [k]" pb3 h2] Suc.prems that filled_depth [OF that(2)] by (auto simp: level_def)
      have val_part: "filled cJSON_Object (member (level pb)) item pb (cbind (pv cur pb4 h2) (\<lambda>(parsed, current, pb5, h3).
            if \<not> parsed then abandon item (head @ [current]) pb5 h3
            else cbind (buffer_skip_whitespace pb5) (\<lambda>pb6.
            if \<not> can_access_at_index pb6 0 then abandon item (head @ [current]) pb6 h3
            else cbind (buffer_at pb6 0) (\<lambda>b.
              if b = 0x2C then parse_object_loop pv n (head @ [current]) item pb6 h3
              else if b = 0x7D then container cJSON_Object item (head @ [current]) pb6 h3
              else abandon item (head @ [current]) pb6 h3))))"
        if "blank cur" "istring cur \<noteq> None" "pb_depth pb4 = pb_depth pb" for cur pb4 h2
      proof (rule filled_bind)
        fix res
        assume res: "pv cur pb4 h2 = Inr res"
        obtain ok k pb5 h3 where r: "res = (ok, k, pb5, h3)"
          by (cases res)
        have k: "member (level pb) k \<and> pb_depth pb5 = pb_depth pb" if ok
          using pv_item [of cur pb4 h2] res r \<open>ok\<close> that \<open>blank cur\<close> \<open>istring cur \<noteq> None\<close> \<open>pb_depth pb4 = pb_depth pb\<close>
          by (auto simp: member_def level_def)
        show "filled cJSON_Object (member (level pb)) item pb (case res of (parsed, current, pb5, h3) \<Rightarrow>
            if \<not> parsed then abandon item (head @ [current]) pb5 h3
            else cbind (buffer_skip_whitespace pb5) (\<lambda>pb6.
            if \<not> can_access_at_index pb6 0 then abandon item (head @ [current]) pb6 h3
            else cbind (buffer_at pb6 0) (\<lambda>b.
              if b = 0x2C then parse_object_loop pv n (head @ [current]) item pb6 h3
              else if b = 0x7D then container cJSON_Object item (head @ [current]) pb6 h3
              else abandon item (head @ [current]) pb6 h3)))"
          using k Suc.prems rest unfolding r prod.case
          by (auto intro!: filled_steps filled_container dest!: depth_skip)
      qed
      show ?thesis
        unfolding parse_object_loop.simps new prod.case Some option.case
      proof (rule filled_bind, goal_cases)
        case (1 pb1)
        then have d1: "pb_depth pb1 = pb_depth pb"
          by (auto dest!: depth_skip)
        show ?case
        proof (rule filled_bind, goal_cases)
          case (1 res)
          obtain ok named pb2 h2 where r: "res = (ok, named, pb2, h2)"
            by (cases res)
          have nm: "blank (name_from_value named) \<and> istring (name_from_value named) \<noteq> None \<and> pb_depth pb2 = pb_depth pb" if ok
            using name_blank [of h current h1 pb1 named pb2 h2] new Some 1 r that d1 by simp
          show ?case
            unfolding r prod.case Let_def
            using nm by (auto intro!: filled_steps val_part dest!: depth_skip)
        qed
      qed
    qed
  qed
qed

lemma array_typed:
  assumes "blank item"
  shows "typed_result item pb (parse_array pv n item pb h)"
proof (cases "CJSON_NESTING_LIMIT \<le> pb_depth pb")
  case False
  define pb1 where "pb1 = pb\<lparr>pb_depth := pb_depth pb + 1\<rparr>"
  have "filled cJSON_Array (element (level pb1)) item pb1 (parse_array_loop pv n [] item pb3 h)" if "pb_depth pb3 = pb_depth pb1" for pb3
    using array_loop_filled [of "[]" pb3 item n h] filled_depth [OF that] that by (simp add: level_def)
  then have "filled cJSON_Array (element (level pb1)) item pb1 (parse_array pv n item pb h)"
    using False unfolding parse_array_def pb1_def [symmetric] Let_def
    by (auto intro!: filled_steps filled_container dest!: depth_skip)
  then show ?thesis
    by (rule filled_typed) (use False assms in \<open>simp_all add: pb1_def\<close>)
qed (simp add: parse_array_def)

lemma object_typed:
  assumes "blank item"
  shows "typed_result item pb (parse_object pv n item pb h)"
proof (cases "CJSON_NESTING_LIMIT \<le> pb_depth pb")
  case False
  define pb1 where "pb1 = pb\<lparr>pb_depth := pb_depth pb + 1\<rparr>"
  have "filled cJSON_Object (member (level pb1)) item pb1 (parse_object_loop pv n [] item pb3 h)" if "pb_depth pb3 = pb_depth pb1" for pb3
    using object_loop_filled [of "[]" pb3 item n h] filled_depth [OF that] that by (simp add: level_def)
  then have "filled cJSON_Object (member (level pb1)) item pb1 (parse_object pv n item pb h)"
    using False unfolding parse_object_def pb1_def [symmetric] Let_def
    by (auto intro!: filled_steps filled_container dest!: depth_skip)
  then show ?thesis
    by (rule filled_typed) (use False assms in \<open>simp_all add: pb1_def\<close>)
qed (simp add: parse_object_def)

end

section \<open>The parser\<close>

lemma typed_literal:
  assumes "blank item" "ty \<in> {cJSON_NULL, cJSON_False, cJSON_True}"
  shows "typed_result item pb (Inr (True, Item ty (valuestring item) i (valuedouble item) (istring item) (children item), pb\<lparr>pb_offset := j\<rparr>, h))"
  using assms by (auto simp: typed_result_def blank_def dzero_def canonical_def)

lemma parse_value_typed: "blank item \<Longrightarrow> typed_result item pb (parse_value n item pb h)"
proof (induction n arbitrary: item pb h)
  case 0
  then show ?case
    by (simp add: parse_value.simps)
next
  case (Suc n)
  have tp: "typed_parser (parse_value n)"
    by unfold_locales (rule Suc.IH)
  have str: "typed_result item pb (parse_string item pb h)"
    using parse_string_typed [of item pb h] Suc.prems
    by (cases "parse_string item pb h") (auto simp: typed_result_def blank_def dzero_def canonical_def string_ok_def cJSON_types)
  have bind: "typed_result item pb (cbind r f)" if "\<And>x. typed_result item pb (f x)" for r :: "u8 cres" and f
    using that by (cases r) simp_all
  show ?case
    unfolding parse_value.simps set_type_def
    using Suc.prems str parse_number_typed typed_parser.array_typed [OF tp] typed_parser.object_typed [OF tp]
    by (auto intro!: bind typed_literal)
qed

interpretation typed: typed_parser "parse_value n" for n
  by unfold_locales (rule parse_value_typed)

lemma depth_bom: "skip_utf8_bom pb = Some pb' \<Longrightarrow> pb_depth pb' = pb_depth pb"
  by (auto simp: skip_utf8_bom_def split: if_splits)

lemma parse_with_opts_typed:
  assumes "cJSON_ParseWithOpts (Some txt) require h = Inr (Some x, e, err, h')"
  shows "json_typed CJSON_NESTING_LIMIT x \<and> istring x = None"
proof -
  let ?pb = "\<lparr>pb_content = take (length (c_str txt) + 1) txt, pb_length = length (c_str txt) + 1, pb_offset = 0, pb_depth = 0\<rparr>"
  obtain item h1 where item: "cJSON_New_Item h = (Some item, h1)"
    using assms
    by (cases "cJSON_New_Item h"; cases "fst (cJSON_New_Item h)")
      (auto simp: cJSON_ParseWithOpts_def strlen_def parse_failed_def Let_def split: if_splits)
  obtain pb1 where pb1: "skip_utf8_bom ?pb = Some pb1"
    using assms item
    by (cases "skip_utf8_bom ?pb") (auto simp: cJSON_ParseWithOpts_def strlen_def parse_failed_def Let_def split: if_splits)
  obtain pb2 where pb2: "buffer_skip_whitespace pb1 = Inr pb2"
    using assms item pb1
    by (cases "buffer_skip_whitespace pb1") (auto simp: cJSON_ParseWithOpts_def strlen_def Let_def split: if_splits)
  have "\<exists>pb3 h2. parse_value (parse_fuel (length (c_str txt) + 1)) item pb2 h1 = Inr (True, x, pb3, h2)"
    using assms item pb1 pb2
    by (auto simp: cJSON_ParseWithOpts_def strlen_def parse_failed_def Let_def cbind_eq_Inr split: if_splits)
  then obtain pb3 h2 where v: "parse_value (parse_fuel (length (c_str txt) + 1)) item pb2 h1 = Inr (True, x, pb3, h2)"
    by blast
  have "pb_depth pb2 = 0"
    using depth_skip [OF pb2] depth_bom [OF pb1] by simp
  then show ?thesis
    using typed.pv_item [OF v] typed.new_item_blank [OF item] by (simp add: level_def)
qed

text \<open>What the type gives: the item can be printed, and its nesting is bounded.\<close>

lemma json_typed_wf: "json_typed d x \<Longrightarrow> item_wf x"
proof (induction d x rule: json_typed.induct)
  case (1 d ty vs vi vd nm ks)
  have "item_wf k" if "k \<in> set ks" for k
    using 1 that by auto
  then show ?case
    using "1.prems" by (auto simp: string_ok_def list_all_iff)
qed

lemma nest_max_le: "(\<And>n. n \<in> set ns \<Longrightarrow> n \<le> b) \<Longrightarrow> foldr max ns 0 \<le> (b :: nat)"
  by (induction ns) auto

lemma json_typed_nest: "json_typed d x \<Longrightarrow> nest x \<le> d"
proof (induction d x rule: json_typed.induct)
  case (1 d ty vs vi vd nm ks)
  have "nest k \<le> d - 1" if "k \<in> set ks" for k
    using 1 that by auto
  then have "foldr max (map nest ks) 0 \<le> d - 1"
    by (intro nest_max_le) auto
  then show ?case
    using "1.prems" by (auto simp: cJSON_types)
qed

section \<open>Properties\<close>

text \<open>
  C4: The type of a parsed item. Whatever the text and the allocations, an item the parser returns has a plain type, a
  terminated string exactly where the type has one, numbers in the format with the integer that belongs to them, names
  exactly for the members of objects and at most \<open>CJSON_NESTING_LIMIT\<close> containers around each other; so printing it is
  safe, formatted or not.
\<close>

theorem parsed_item_typed:
  assumes "cJSON_ParseWithOpts (Some txt) require h = Inr (Some x, e, err, h')"
  shows "json_typed CJSON_NESTING_LIMIT x \<and> istring x = None \<and>
    prints x True h2 (cJSON_Print (Some x) h2) \<and> prints x False h2 (cJSON_PrintUnformatted (Some x) h2)"
  using parse_with_opts_typed [OF assms] print_prints [OF json_typed_wf, of _ x _ h2]
  by (auto simp: cJSON_Print_def cJSON_PrintUnformatted_def)

text \<open>
  C11: Parsing, printing and parsing again. For any text the parser accepts with numbers that are all finite, what is
  printed of the item is accepted too and gives an item with the same value.
\<close>

theorem parse_print_parse:
  assumes "cJSON_ParseWithOpts (Some txt) require h = Inr (Some x, e, err, h1)" "printable x"
    and "(if fm then cJSON_Print (Some x) h2 else cJSON_PrintUnformatted (Some x) h2) = Inr (Some out, h3)" "plenty h4"
  shows "\<exists>y h5. cJSON_ParseWithOpts (Some out) require' h4 = Inr (Some y, length (c_str out), None, h5) \<and> reads_as x y"
proof -
  note typed = parse_with_opts_typed [OF assms(1)]
  have wf: "item_wf x" "nest x \<le> CJSON_NESTING_LIMIT"
    using typed json_typed_wf json_typed_nest by blast+
  have "prints x fm h2 (Inr (Some out, h3))"
    using print_prints [OF wf(1), of fm h2] assms(3)
    by (cases fm) (simp_all add: cJSON_Print_def cJSON_PrintUnformatted_def)
  then have out: "terminated out" "item_text x fm 0 = Some (c_str out)"
    by (simp_all add: prints_def)
  show ?thesis
    using parse_of_text [OF out(2) assms(2) wf out(1) assms(4)] by blast
qed

definition demo_text :: bytes where
  "demo_text = map of_char ''[true,'' @ [0x7B, 0x22, 0x61, 0x22, 0x3A, 0x22, 0x62, 0x22, 0x7D, 0x5D, 0]"

definition prints_well :: "cJSON \<Rightarrow> bool" where
  "prints_well x \<longleftrightarrow> printable x \<and> (case cJSON_PrintUnformatted (Some x) demo_heap of Inr (Some _, _) \<Rightarrow> True | _ \<Rightarrow> False)"

lemma demo_text_item:
  "\<exists>x e err h' out h3. cJSON_ParseWithOpts (Some demo_text) True demo_heap = Inr (Some x, e, err, h') \<and> printable x \<and>
     cJSON_PrintUnformatted (Some x) demo_heap = Inr (Some out, h3)"
proof -
  have "case cJSON_ParseWithOpts (Some demo_text) True demo_heap of Inr (Some x, _) \<Rightarrow> prints_well x | _ \<Rightarrow> False"
    by code_simp
  then obtain x e err h' where "cJSON_ParseWithOpts (Some demo_text) True demo_heap = Inr (Some x, e, err, h')" "prints_well x"
    by (auto split: sum.splits prod.splits option.splits)
  then show ?thesis
    by (auto simp: prints_well_def split: sum.split_asm prod.split_asm option.split_asm)
qed

theorem parsed_item_typed_witness:
  "\<exists>x e err h'. cJSON_ParseWithOpts (Some demo_text) True demo_heap = Inr (Some x, e, err, h') \<and> json_typed CJSON_NESTING_LIMIT x"
  using demo_text_item parsed_item_typed by metis

theorem parse_print_parse_witness:
  "\<exists>x e err h1 out h3 y h5. cJSON_ParseWithOpts (Some demo_text) True demo_heap = Inr (Some x, e, err, h1) \<and>
     cJSON_PrintUnformatted (Some x) demo_heap = Inr (Some out, h3) \<and>
     cJSON_ParseWithOpts (Some out) True demo_heap = Inr (Some y, length (c_str out), None, h5) \<and> reads_as x y"
proof -
  obtain x e err h1 out h3 where run: "cJSON_ParseWithOpts (Some demo_text) True demo_heap = Inr (Some x, e, err, h1)"
      "printable x" "cJSON_PrintUnformatted (Some x) demo_heap = Inr (Some out, h3)"
    using demo_text_item by blast
  have "plenty demo_heap"
    by (simp add: plenty_def demo_heap_def)
  from parse_print_parse [OF run(1,2) _ this, of False demo_heap out h3 True] run show ?thesis
    by auto
qed

end
