(* ===== verification/Locals.thy ===== *)
theory Locals
  imports Prelude
begin

text \<open>
  Memory that may not have been set yet, as local arrays and fresh heap blocks are: a list of cells, where \<open>None\<close> is a byte
  nobody has written. Reading one is \<open>Undefined\<close>. And \<open>fgets\<close>, which fills such an array from a stream.
\<close>

type_synonym cells = "u8 option list"

definition unset :: "nat \<Rightarrow> cells" where
  "unset n = replicate n None"

definition put_cells :: "nat \<Rightarrow> bytes \<Rightarrow> cells \<Rightarrow> cells cres" where
  "put_cells i bs cs =
     (if i + length bs \<le> length cs then Inr (take i cs @ map Some bs @ drop (i + length bs) cs) else Inl OutOfBounds)"

text \<open>The string at the start of the cells, as \<open>printf("%s")\<close>, \<open>strlen\<close> and the like read it.\<close>

fun cell_string :: "cells \<Rightarrow> bytes cres" where
  "cell_string [] = Inl OutOfBounds"
| "cell_string (None # cs) = Inl Undefined"
| "cell_string (Some b # cs) = (if b = 0 then Inr [] else cbind (cell_string cs) (\<lambda>s. Inr (b # s)))"

lemma cell_string_set: "cell_string (map Some s @ Some 0 # cs) = Inr (c_str s)"
  by (induction s) (simp_all add: c_str_def)

lemma cell_string_unset: "nul_free s \<Longrightarrow> cell_string (map Some s @ None # cs) = Inl Undefined"
  by (induction s) (auto simp: nul_free_def)

lemma cell_string_all: "terminated s \<Longrightarrow> cell_string (map Some s @ cs) = Inr (c_str s)"
  by (induction s) (auto simp: c_str_def terminated_def)

lemma c_str_end: "terminated s \<Longrightarrow> length (c_str s) < length s \<and> s ! length (c_str s) = 0"
  by (induction s) (auto simp: c_str_def terminated_def)

section \<open>Lines\<close>

text \<open>At most \<open>n\<close> bytes of a stream, up to and with the first newline.\<close>

fun line_of :: "nat \<Rightarrow> bytes \<Rightarrow> bytes" where
  "line_of 0 s = []"
| "line_of (Suc n) [] = []"
| "line_of (Suc n) (c # s) = (if c = 0x0A then [c] else c # line_of n s)"

text \<open>
  \<open>fgets(buf, n, f)\<close> with \<open>s\<close> still to come from the stream: \<open>None\<close> at the end, or the array and the rest of the stream.
\<close>

definition fgets :: "int \<Rightarrow> cells \<Rightarrow> bytes \<Rightarrow> (cells \<times> bytes) option cres" where
  "fgets n buf s =
     (if n \<le> 0 then Inr None
      else if n = 1 then cbind (put_cells 0 [0] buf) (\<lambda>buf. Inr (Some (buf, s)))
      else if s = [] then Inr None
      else let l = line_of (nat n - 1) s
           in cbind (put_cells 0 (l @ [0]) buf) (\<lambda>buf. Inr (Some (buf, drop (length l) s))))"

lemma line_of_whole: "0x0A \<notin> set l \<Longrightarrow> length l < n \<Longrightarrow> line_of n (l @ 0x0A # rest) = l @ [0x0A]"
  by (induction n l arbitrary: rest rule: line_of.induct) (auto simp: less_Suc_eq_0_disj elim: line_of.elims)

lemma line_of_cut: "0x0A \<notin> set l \<Longrightarrow> line_of (length l) (l @ rest) = l"
  by (induction l) auto

lemma length_line_of: "length (line_of n s) \<le> n"
  by (induction n s rule: line_of.induct) auto

end
