(* ===== verification/Numbers.thy ===== *)
theory Numbers
  imports MemPhyMain
begin

text \<open>\<open>strtoul\<close> with base 10, and \<open>atoi\<close>, which is \<open>strtol\<close> cut to an \<open>int\<close>; both saturate.\<close>

definition strtoul_10 :: "bytes \<Rightarrow> u64" where
  "strtoul_10 s =
     (let (neg, s) = strip_sign (dropWhile is_space s);
          v = number_in 10 (digits_in 10 s)
      in if 2 ^ 64 \<le> v then - 1 else if neg then - of_nat v else of_nat v)"

definition atoi :: "bytes \<Rightarrow> int" where
  "atoi s =
     (let (neg, s) = strip_sign (dropWhile is_space s);
          v = int (number_in 10 (digits_in 10 s));
          v = (if neg then max (- (2 ^ 63)) (- v) else min (2 ^ 63 - 1) v)
      in sint (word_of_int v :: 32 word))"

end
