(* ===== verification/Curl.thy ===== *)
theory Curl
  imports Locals
begin

text \<open>
  \<open>curl/curl.c\<close> and \<open>curl/curl-static.c\<close>: two clients of libcurl. What libcurl does is an argument: an \<open>exchange\<close> says
  whether \<open>curl_easy_init\<close> gives a handle, which pieces of the reply it passes to the callback, whether the transfer is
  otherwise fine, and the status code. The first client collects the reply in a block that grows; the second has a buffer
  of 1024 bytes, and gives libcurl an allocator on a static pool. Messages other than the reply are dropped.
\<close>

section \<open>The library\<close>

record exchange =
  handle_ok :: bool
  pieces :: "bytes list"
  perform_ok :: bool
  http_code :: int

text \<open>
  libcurl calls the callback with \<open>size = 1\<close> for every piece, and gives the transfer up when the callback does not
  return the number of bytes it got.
\<close>

fun deliver :: "(bytes \<Rightarrow> u64 \<Rightarrow> u64 \<Rightarrow> 'm \<Rightarrow> (u64 \<times> 'm) cres) \<Rightarrow> bytes list \<Rightarrow> 'm \<Rightarrow> (bool \<times> 'm) cres" where
  "deliver callback [] m = Inr (True, m)"
| "deliver callback (d # ds) m =
     cbind (callback d 1 (of_nat (length d)) m) (\<lambda>(n, m).
       if n = of_nat (length d) then deliver callback ds m else Inr (False, m))"

section \<open>curl.c\<close>

text \<open>A null pointer is \<open>memory = None\<close>.\<close>

record MemoryStruct =
  memory :: "cells option"
  msize :: u64

definition old_cells :: "cells option \<Rightarrow> cells" where
  "old_cells b = (case b of None \<Rightarrow> [] | Some cs \<Rightarrow> cs)"

definition resized :: "nat \<Rightarrow> cells \<Rightarrow> cells" where
  "resized n cs = take n cs @ unset (n - length cs)"

definition WriteCallback :: "(u64 \<Rightarrow> bool) \<Rightarrow> bytes \<Rightarrow> u64 \<Rightarrow> u64 \<Rightarrow> MemoryStruct \<Rightarrow> (u64 \<times> MemoryStruct) cres" where
  "WriteCallback realloc_ok contents sz nmemb m =
     (let real_size = sz * nmemb;
          room = msize m + real_size + 1
      in if \<not> realloc_ok room then Inr (0, m)
         else let ptr = resized (unat room) (old_cells (memory m));
                  n = unat real_size;
                  new = msize m + real_size
              in if length contents < n then Inl OutOfBounds
                 else cbind (put_cells (unat (msize m)) (take n contents) ptr) (\<lambda>ptr.
                      cbind (put_cells (unat new) [0] ptr) (\<lambda>ptr.
                      Inr (real_size, \<lparr>memory = Some ptr, msize = new\<rparr>))))"

text \<open>The result: what is printed as the reply, if anything.\<close>

definition curl_main :: "bool \<Rightarrow> (u64 \<Rightarrow> bool) \<Rightarrow> exchange \<Rightarrow> bytes option cres" where
  "curl_main malloc_ok realloc_ok x =
     (let chunk = \<lparr>memory = (if malloc_ok then Some [None] else None), msize = 0\<rparr>
      in if \<not> handle_ok x then Inr None
         else cbind (deliver (WriteCallback realloc_ok) (pieces x) chunk) (\<lambda>(taken, chunk).
           if \<not> (taken \<and> perform_ok x) then Inr None
           else if http_code x \<noteq> 200 then Inr None
           else case memory chunk of
               None \<Rightarrow> Inl NullDeref
             | Some cs \<Rightarrow> cbind (cell_string cs) (\<lambda>s. Inr (Some s))))"

section \<open>The pool of curl-static.c\<close>

text \<open>A pointer into the pool is its offset; the null pointer is \<open>None\<close>.\<close>

record pool =
  curl_memory_pool :: bytes
  memory_pool_index :: u64

definition CURL_MEMORY_POOL_SIZE :: u64 where
  "CURL_MEMORY_POOL_SIZE = 1024 * 1024"

definition reset_memory_pool :: "pool \<Rightarrow> pool" where
  "reset_memory_pool p = \<lparr>curl_memory_pool = replicate (length (curl_memory_pool p)) 0, memory_pool_index = 0\<rparr>"

definition static_malloc :: "u64 \<Rightarrow> pool \<Rightarrow> u64 option \<times> pool" where
  "static_malloc sz p =
     (if CURL_MEMORY_POOL_SIZE < memory_pool_index p + sz then (None, p)
      else (Some (memory_pool_index p), p\<lparr>memory_pool_index := memory_pool_index p + sz\<rparr>))"

definition static_free :: "u64 option \<Rightarrow> pool \<Rightarrow> pool" where
  "static_free ptr p = p"

text \<open>Writing to the pool from an offset on.\<close>

definition pool_write :: "u64 \<Rightarrow> bytes \<Rightarrow> pool \<Rightarrow> pool cres" where
  "pool_write at bs p =
     cbind (memcpy_at (curl_memory_pool p) (unat at) bs 0 (length bs)) (\<lambda>m. Inr (p\<lparr>curl_memory_pool := m\<rparr>))"

text \<open>\<open>memcpy\<close> within the pool: undefined for two areas that overlap.\<close>

definition pool_copy :: "u64 \<Rightarrow> u64 \<Rightarrow> nat \<Rightarrow> pool \<Rightarrow> pool cres" where
  "pool_copy dst src n p =
     (if length (curl_memory_pool p) < unat src + n \<or> length (curl_memory_pool p) < unat dst + n then Inl OutOfBounds
      else if 0 < n \<and> unat src < unat dst + n \<and> unat dst < unat src + n then Inl Undefined
      else pool_write dst (take n (drop (unat src) (curl_memory_pool p))) p)"

definition static_realloc :: "u64 option \<Rightarrow> u64 \<Rightarrow> pool \<Rightarrow> (u64 option \<times> pool) cres" where
  "static_realloc ptr sz p =
     (case static_malloc sz p of (newptr, p) \<Rightarrow>
        case (newptr, ptr) of
          (Some new, Some old) \<Rightarrow> cbind (pool_copy new old (unat sz) p) (\<lambda>p. Inr (newptr, p))
        | _ \<Rightarrow> Inr (newptr, p))"

definition static_strup :: "bytes \<Rightarrow> pool \<Rightarrow> (u64 option \<times> pool) cres" where
  "static_strup str p =
     cbind (strlen str) (\<lambda>l. let len = of_nat l + 1 in
       case static_malloc len p of
         (None, p) \<Rightarrow> Inr (None, p)
       | (Some new, p) \<Rightarrow> cbind (pool_write new (take (unat len) str) p) (\<lambda>p. Inr (Some new, p)))"

definition static_calloc :: "u64 \<Rightarrow> u64 \<Rightarrow> pool \<Rightarrow> (u64 option \<times> pool) cres" where
  "static_calloc nmemb sz p =
     (let total_size = nmemb * sz
      in case static_malloc total_size p of
           (None, p) \<Rightarrow> Inr (None, p)
         | (Some new, p) \<Rightarrow> cbind (pool_write new (replicate (unat total_size) 0) p) (\<lambda>p. Inr (Some new, p)))"

text \<open>The callback copies every piece to the start of the buffer.\<close>

definition write_callback :: "bytes \<Rightarrow> u64 \<Rightarrow> u64 \<Rightarrow> bytes \<Rightarrow> (u64 \<times> bytes) cres" where
  "write_callback contents sz nmemb userp =
     (let real_size = sz * nmemb
      in cbind (memcpy_at userp 0 contents 0 (unat real_size)) (\<lambda>userp. Inr (real_size, userp)))"

definition curl_static_main :: "exchange \<Rightarrow> bytes option cres" where
  "curl_static_main x =
     (let response = replicate 1024 0
      in if \<not> handle_ok x then Inr None
         else cbind (deliver write_callback (pieces x) response) (\<lambda>(taken, response).
           if \<not> (taken \<and> perform_ok x) then Inr None
           else cbind (strlen response) (\<lambda>_. Inr (Some (c_str response)))))"

section \<open>The blocks of the pool\<close>

definition pool_ok :: "pool \<Rightarrow> bool" where
  "pool_ok p \<longleftrightarrow> length (curl_memory_pool p) = unat CURL_MEMORY_POOL_SIZE \<and> memory_pool_index p \<le> CURL_MEMORY_POOL_SIZE"

definition pool_kept :: "nat \<Rightarrow> pool \<Rightarrow> pool \<Rightarrow> bool" where
  "pool_kept n p q \<longleftrightarrow> take n (curl_memory_pool q) = take n (curl_memory_pool p)"

text \<open>Sizes for which no sum wraps around.\<close>

definition sane_size :: "nat \<Rightarrow> bool" where
  "sane_size n \<longleftrightarrow> n < 2 ^ 63"

text \<open>
  An allocation of \<open>n\<close> bytes: the block is cut off at the index, or the pool is left as it was when it has not enough
  bytes left. What lies before the index is never touched.
\<close>

locale carving =
  fixes alloc :: "pool \<Rightarrow> (u64 option \<times> pool) cres" and n :: nat
  assumes taken: "pool_ok p \<Longrightarrow> alloc p = Inr (Some at, q) \<Longrightarrow> sane_size n \<Longrightarrow>
      at = memory_pool_index p \<and> unat (memory_pool_index q) = unat at + n \<and> pool_ok q \<and> pool_kept (unat at) p q"
    and refused: "pool_ok p \<Longrightarrow> alloc p = Inr (None, q) \<Longrightarrow> sane_size n \<Longrightarrow>
      q = p \<and> unat CURL_MEMORY_POOL_SIZE < unat (memory_pool_index p) + n"
begin

lemma index_grows:
  "pool_ok p \<Longrightarrow> alloc p = Inr (r, q) \<Longrightarrow> sane_size n \<Longrightarrow>
     unat (memory_pool_index p) \<le> unat (memory_pool_index q) \<and> pool_ok q \<and> pool_kept (unat (memory_pool_index p)) p q"
proof (cases r)
  case None
  moreover assume "pool_ok p" "alloc p = Inr (r, q)" "sane_size n"
  ultimately show ?thesis
    using refused [of p q] by (simp add: pool_kept_def)
next
  case (Some at)
  moreover assume "pool_ok p" "alloc p = Inr (r, q)" "sane_size n"
  ultimately show ?thesis
    using taken [of p at q] by auto
qed

lemma block_inside:
  "pool_ok p \<Longrightarrow> alloc p = Inr (Some at, q) \<Longrightarrow> sane_size n \<Longrightarrow> unat at + n \<le> unat CURL_MEMORY_POOL_SIZE"
  using taken [of p at q] by (auto simp: pool_ok_def word_le_nat_alt)

end

lemma unat_index_plus:
  "i \<le> CURL_MEMORY_POOL_SIZE \<Longrightarrow> sane_size (unat n) \<Longrightarrow> unat (i + n) = unat i + unat n"
  unfolding sane_size_def CURL_MEMORY_POOL_SIZE_def
  by (simp add: word_le_nat_alt unat_word_ariths)

lemma strlen_terminated: "strlen (s @ [0]) = Inr (length (c_str s))"
  by (auto simp: strlen_def terminated_def c_str_def takeWhile_append takeWhile_eq_all_conv [THEN iffD2])

lemma static_malloc_cases:
  assumes "pool_ok p" "sane_size (unat n)"
  obtains (full) "static_malloc n p = (None, p)" "unat CURL_MEMORY_POOL_SIZE < unat (memory_pool_index p) + unat n"
  | (room) "static_malloc n p = (Some (memory_pool_index p), p\<lparr>memory_pool_index := memory_pool_index p + n\<rparr>)"
      "unat (memory_pool_index p + n) = unat (memory_pool_index p) + unat n"
      "unat (memory_pool_index p) + unat n \<le> unat CURL_MEMORY_POOL_SIZE"
proof -
  have "unat (memory_pool_index p + n) = unat (memory_pool_index p) + unat n"
    using assms by (intro unat_index_plus) (simp_all add: pool_ok_def)
  then show ?thesis
    using that by (cases "CURL_MEMORY_POOL_SIZE < memory_pool_index p + n")
      (simp_all add: static_malloc_def word_less_nat_alt)
qed

lemma pool_write_Inr:
  "pool_write at bs p = Inr q \<Longrightarrow> q = p\<lparr>curl_memory_pool := overlay (unat at) bs (curl_memory_pool p)\<rparr> \<and>
     unat at + length bs \<le> length (curl_memory_pool p)"
  by (auto simp: pool_write_def memcpy_at_def split: if_splits)

lemma pool_write_room:
  "unat at + length bs \<le> length (curl_memory_pool p) \<Longrightarrow>
     pool_write at bs p = Inr (p\<lparr>curl_memory_pool := overlay (unat at) bs (curl_memory_pool p)\<rparr>)"
  by (simp add: pool_write_def memcpy_at_def)

lemma pool_ok_written:
  "pool_ok p \<Longrightarrow> pool_write at bs p = Inr q \<Longrightarrow> pool_ok q \<and> pool_kept (unat at) p q \<and> memory_pool_index q = memory_pool_index p"
  by (auto dest!: pool_write_Inr simp: pool_ok_def pool_kept_def buf_simps)

lemma pool_ok_index:
  "pool_ok p \<Longrightarrow> unat i \<le> unat CURL_MEMORY_POOL_SIZE \<Longrightarrow> pool_ok (p\<lparr>memory_pool_index := i\<rparr>)"
  by (simp add: pool_ok_def word_le_nat_alt)

text \<open>Every allocation is a \<open>static_malloc\<close> whose block is then filled.\<close>

lemma carving_filled:
  assumes "\<And>p. alloc p = (case static_malloc m p of (None, p) \<Rightarrow> Inr (None, p)
      | (Some new, p) \<Rightarrow> cbind (fill new p) (\<lambda>p. Inr (Some new, p)))"
    and "sane_size n \<Longrightarrow> unat m = n"
    and "\<And>new p q. pool_ok p \<Longrightarrow> fill new p = Inr q \<Longrightarrow>
      pool_ok q \<and> pool_kept (unat new) p q \<and> memory_pool_index q = memory_pool_index p"
  shows "carving alloc n"
proof
  fix p at q assume *: "pool_ok p" "alloc p = Inr (Some at, q)" "sane_size n"
  with assms(2) have n: "unat m = n" "sane_size (unat m)" by simp_all
  from *(1) n(2) show "at = memory_pool_index p \<and> unat (memory_pool_index q) = unat at + n \<and> pool_ok q \<and> pool_kept (unat at) p q"
  proof (cases rule: static_malloc_cases)
    case full
    with * show ?thesis by (simp add: assms(1))
  next
    case room
    have "pool_ok (p\<lparr>memory_pool_index := memory_pool_index p + m\<rparr>)"
      using *(1) room by (intro pool_ok_index) simp_all
    moreover from *(2) room(1) have "at = memory_pool_index p"
      "fill at (p\<lparr>memory_pool_index := memory_pool_index p + m\<rparr>) = Inr q"
      by (auto simp: assms(1) cbind_eq_Inr)
    ultimately show ?thesis
      using assms(3) [of "p\<lparr>memory_pool_index := memory_pool_index p + m\<rparr>" at q] room(2) n(1) by (simp add: pool_kept_def)
  qed
next
  fix p q assume *: "pool_ok p" "alloc p = Inr (None, q)" "sane_size n"
  with assms(2) have n: "unat m = n" "sane_size (unat m)" by simp_all
  from *(1) n(2) show "q = p \<and> unat CURL_MEMORY_POOL_SIZE < unat (memory_pool_index p) + n"
  proof (cases rule: static_malloc_cases)
    case full
    with * n show ?thesis by (simp add: assms(1))
  next
    case room
    with * show ?thesis by (auto simp: assms(1) cbind_eq_Inr)
  qed
qed

interpretation malloc: carving "\<lambda>p. Inr (static_malloc m p)" "unat m" for m
  by (rule carving_filled [where fill = "\<lambda>_ p. Inr p" and m = m]) (auto simp: pool_kept_def split: prod.splits option.splits)

interpretation calloc: carving "static_calloc k m" "unat k * unat m" for k m
  by (rule carving_filled [where fill = "\<lambda>new. pool_write new (replicate (unat (k * m)) 0)" and m = "k * m"])
    (auto simp: static_calloc_def Let_def sane_size_def unat_word_ariths dest: pool_ok_written split: prod.splits option.splits)

interpretation strup: carving "static_strup (s @ [0])" "Suc (length (c_str s))" for s
proof (rule carving_filled [where m = "of_nat (length (c_str s)) + 1" and
      fill = "\<lambda>new. pool_write new (take (unat (of_nat (length (c_str s)) + 1 :: u64)) (s @ [0]))"])
  show "unat (of_nat (length (c_str s)) + 1 :: u64) = Suc (length (c_str s))" if "sane_size (Suc (length (c_str s)))"
    using that by (simp add: sane_size_def unat_word_ariths unat_of_nat)
qed (auto simp: static_strup_def strlen_terminated Let_def dest: pool_ok_written split: prod.splits option.splits)

interpretation realloc: carving "static_realloc ptr m" "unat m" for ptr m
proof (rule carving_filled [where m = m and fill = "\<lambda>new p. case ptr of None \<Rightarrow> Inr p | Some old \<Rightarrow> pool_copy new old (unat m) p"])
  show "static_realloc ptr m p = (case static_malloc m p of (None, p) \<Rightarrow> Inr (None, p)
      | (Some new, p) \<Rightarrow> cbind (case ptr of None \<Rightarrow> Inr p | Some old \<Rightarrow> pool_copy new old (unat m) p) (\<lambda>p. Inr (Some new, p)))" for p
    by (auto simp: static_realloc_def split: prod.splits option.splits)
  show "pool_ok q \<and> pool_kept (unat new) p q \<and> memory_pool_index q = memory_pool_index p"
    if "pool_ok p" "(case ptr of None \<Rightarrow> Inr p | Some old \<Rightarrow> pool_copy new old (unat m) p) = Inr q" for new p q
    using that by (cases ptr) (auto simp: pool_copy_def pool_kept_def dest: pool_ok_written split: if_splits)
qed simp

section \<open>Any number of requests\<close>

text \<open>\<open>libcurl\<close> calls the allocator; a string it duplicates ends with its terminator.\<close>

datatype request = Malloc u64 | Calloc u64 u64 | Strdup bytes | Realloc "u64 option" u64 | Free "u64 option"

fun serve :: "request \<Rightarrow> pool \<Rightarrow> (u64 option \<times> pool) cres" where
  "serve (Malloc n) p = Inr (static_malloc n p)"
| "serve (Calloc k n) p = static_calloc k n p"
| "serve (Strdup s) p = static_strup (s @ [0]) p"
| "serve (Realloc ptr n) p = static_realloc ptr n p"
| "serve (Free ptr) p = Inr (None, static_free ptr p)"

fun wanted :: "request \<Rightarrow> nat" where
  "wanted (Malloc n) = unat n"
| "wanted (Calloc k n) = unat k * unat n"
| "wanted (Strdup s) = Suc (length (c_str s))"
| "wanted (Realloc ptr n) = unat n"
| "wanted (Free ptr) = 0"

text \<open>The blocks that are handed out, with their sizes, and the pool in the end.\<close>

fun serve_all :: "request list \<Rightarrow> pool \<Rightarrow> ((nat \<times> nat) list \<times> pool) cres" where
  "serve_all [] p = Inr ([], p)"
| "serve_all (r # rs) p =
     cbind (serve r p) (\<lambda>(at, p). cbind (serve_all rs p) (\<lambda>(blocks, p).
       Inr (case at of None \<Rightarrow> blocks | Some a \<Rightarrow> (unat a, wanted r) # blocks, p)))"

text \<open>Blocks that lie one behind the other between two offsets.\<close>

fun stacked :: "nat \<Rightarrow> (nat \<times> nat) list \<Rightarrow> nat \<Rightarrow> bool" where
  "stacked lo [] hi \<longleftrightarrow> lo \<le> hi"
| "stacked lo ((a, n) # bs) hi \<longleftrightarrow> lo \<le> a \<and> stacked (a + n) bs hi"

lemma stacked_mono: "stacked lo' bs hi \<Longrightarrow> lo \<le> lo' \<Longrightarrow> stacked lo bs hi"
  by (cases bs) auto

lemma stacked_le: "stacked lo bs hi \<Longrightarrow> lo \<le> hi \<and> (\<forall>(a, n) \<in> set bs. lo \<le> a \<and> a + n \<le> hi)"
  by (induction lo bs hi rule: stacked.induct) fastforce+

lemma stacked_append: "stacked lo bs mid \<Longrightarrow> stacked mid cs hi \<Longrightarrow> stacked lo (bs @ cs) hi"
  by (induction lo bs mid rule: stacked.induct) (auto intro: stacked_mono)

lemma stacked_disjoint:
  assumes "stacked lo bs hi" "i < j" "j < length bs"
  shows "fst (bs ! i) + snd (bs ! i) \<le> fst (bs ! j)"
  using assms
proof (induction lo bs hi arbitrary: i j rule: stacked.induct)
  case (2 lo a n bs hi)
  show ?case
  proof (cases i)
    case 0
    then show ?thesis
      using 2(2-) stacked_le [of "a + n" bs hi] nth_mem [of "j - 1" bs] by (cases "bs ! (j - 1)") fastforce
  next
    case (Suc i')
    then show ?thesis
      using 2(1) [of i' "j - 1"] 2(2-) by (simp add: nth_Cons')
  qed
qed simp

lemma serve_index:
  assumes "pool_ok p" "serve r p = Inr (at, q)" "sane_size (wanted r)"
  shows "pool_ok q" "unat (memory_pool_index p) \<le> unat (memory_pool_index q)"
    and "at = Some a \<Longrightarrow> unat a = unat (memory_pool_index p) \<and> unat (memory_pool_index q) = unat a + wanted r"
    and "pool_kept (unat (memory_pool_index p)) p q"
proof -
  have "pool_ok q \<and> unat (memory_pool_index p) \<le> unat (memory_pool_index q) \<and> pool_kept (unat (memory_pool_index p)) p q \<and>
      (\<forall>a. at = Some a \<longrightarrow> unat a = unat (memory_pool_index p) \<and> unat (memory_pool_index q) = unat a + wanted r)"
  proof (cases r)
    case (Malloc n)
    with assms show ?thesis
      using malloc.index_grows [of p n at q] malloc.taken [of p n _ q] by auto
  next
    case (Calloc k n)
    with assms show ?thesis
      using calloc.index_grows [of p k n at q] calloc.taken [of p k n _ q] by auto
  next
    case (Strdup s)
    with assms show ?thesis
      using strup.index_grows [of p s at q] strup.taken [of p s _ q] by auto
  next
    case (Realloc ptr n)
    with assms show ?thesis
      using realloc.index_grows [of p ptr n at q] realloc.taken [of p ptr n _ q] by auto
  next
    case (Free ptr)
    with assms show ?thesis
      by (simp add: static_free_def pool_kept_def)
  qed
  then show "pool_ok q" "unat (memory_pool_index p) \<le> unat (memory_pool_index q)"
    "at = Some a \<Longrightarrow> unat a = unat (memory_pool_index p) \<and> unat (memory_pool_index q) = unat a + wanted r"
    "pool_kept (unat (memory_pool_index p)) p q"
    by blast+
qed

lemma pool_kept_slice:
  "pool_kept n p q \<Longrightarrow> a + l \<le> n \<Longrightarrow> take l (drop a (curl_memory_pool q)) = take l (drop a (curl_memory_pool p))"
proof -
  assume "pool_kept n p q" "a + l \<le> n"
  then have "take (a + l) (curl_memory_pool q) = take (a + l) (curl_memory_pool p)"
    unfolding pool_kept_def by (metis min.absorb1 take_take)
  then show ?thesis
    by (simp add: take_drop add.commute)
qed

lemma strup_filled:
  assumes "static_strup (s @ [0]) p = Inr (Some a, q)" "sane_size (Suc (length (c_str s)))"
  shows "take (Suc (length (c_str s))) (drop (unat a) (curl_memory_pool q)) = c_str s @ [0]"
proof -
  have len: "unat (of_nat (length (c_str s)) + 1 :: u64) = Suc (length (c_str s))"
    using assms(2) by (simp add: sane_size_def unat_word_ariths unat_of_nat)
  have str: "take (Suc (length (c_str s))) (s @ [0]) = c_str s @ [0]"
    by (induction s) (simp_all add: c_str_def)
  from assms(1) obtain p1 where "pool_write a (c_str s @ [0]) p1 = Inr q"
    by (auto simp: static_strup_def strlen_terminated Let_def len str cbind_eq_Inr simp del: take_append split: prod.splits option.splits)
  then show ?thesis
    using slice_overlay [of "unat a" "c_str s @ [0]" "curl_memory_pool p1"] by (auto dest!: pool_write_Inr)
qed

lemma pool_kept_trans: "pool_kept n p q \<Longrightarrow> pool_kept m q r \<Longrightarrow> n \<le> m \<Longrightarrow> pool_kept n p r"
  unfolding pool_kept_def by (metis min.absorb1 take_take)

lemma serve_all_stacked:
  "serve_all rs p = Inr (blocks, q) \<Longrightarrow> pool_ok p \<Longrightarrow> \<forall>r \<in> set rs. sane_size (wanted r) \<Longrightarrow>
     stacked (unat (memory_pool_index p)) blocks (unat (memory_pool_index q)) \<and> pool_ok q \<and>
     pool_kept (unat (memory_pool_index p)) p q"
proof (induction rs arbitrary: p blocks)
  case (Cons r rs)
  from Cons.prems(1) obtain at p1 bs where
    run: "serve r p = Inr (at, p1)" "serve_all rs p1 = Inr (bs, q)"
      "blocks = (case at of None \<Rightarrow> bs | Some a \<Rightarrow> (unat a, wanted r) # bs)"
    by (auto simp: cbind_eq_Inr)
  have sane: "sane_size (wanted r)" "\<forall>r \<in> set rs. sane_size (wanted r)"
    using Cons.prems(3) by simp_all
  note first = serve_index [OF Cons.prems(2) run(1) sane(1)]
  have rest: "stacked (unat (memory_pool_index p1)) bs (unat (memory_pool_index q))" "pool_ok q"
    "pool_kept (unat (memory_pool_index p1)) p1 q"
    using Cons.IH [OF run(2) first(1) sane(2)] by simp_all
  have "pool_kept (unat (memory_pool_index p)) p q"
    using first(4) rest(3) first(2) by (rule pool_kept_trans)
  moreover have "stacked (unat (memory_pool_index p)) blocks (unat (memory_pool_index q))"
    using rest(1) first(2,3) by (cases at) (auto simp: run(3) intro: stacked_mono)
  ultimately show ?case
    using rest(2) by simp
qed (simp add: pool_kept_def)

section \<open>Properties\<close>

lemma pool_ok_reset: "length (curl_memory_pool p) = unat CURL_MEMORY_POOL_SIZE \<Longrightarrow> pool_ok (reset_memory_pool p)"
  by (simp add: pool_ok_def reset_memory_pool_def)



text \<open>
  The checks add sizes that wrap around: after a request of 2^64 - 1 bytes, which is granted, the next block lies inside
  an earlier one. And growing the block that was handed out last copies between areas that overlap.
\<close>

lemma static_malloc_wraps:
  assumes "pool_ok p" "0 < memory_pool_index p"
  shows "static_malloc (- 1) p = (Some (memory_pool_index p), p\<lparr>memory_pool_index := memory_pool_index p - 1\<rparr>)"
proof -
  have "unat (memory_pool_index p - 1) = unat (memory_pool_index p) - 1"
    using assms(2) by (intro unat_minus_one) auto
  with assms show ?thesis
    by (auto simp: static_malloc_def pool_ok_def word_le_nat_alt word_less_nat_alt)
qed

lemma static_realloc_overlaps:
  assumes "pool_ok p" "unat a + n = unat (memory_pool_index p)" "n < unat m" "sane_size (unat m)"
    and "unat (memory_pool_index p) + unat m \<le> unat CURL_MEMORY_POOL_SIZE"
  shows "static_realloc (Some a) m p = Inl Undefined"
  using assms(1,4)
proof (cases rule: static_malloc_cases)
  case room
  with assms show ?thesis
    by (simp add: static_realloc_def pool_copy_def pool_ok_def)
qed (use assms in simp)

text \<open>The response buffer: every piece overwrites the one before, and one of more than 1024 bytes leaves the buffer.\<close>

lemma response_overwritten:
  assumes "length userp = 1024" "\<forall>d \<in> set ds. length d \<le> 1024"
  shows "deliver write_callback ds userp = Inr (True, fold (overlay 0) ds userp)"
  using assms
proof (induction ds arbitrary: userp)
  case (Cons d ds)
  have "unat (of_nat (length d) :: u64) = length d"
    using Cons.prems by (simp add: unat_of_nat)
  with Cons show ?case
    by (simp add: write_callback_def memcpy_at_def length_overlay)
qed simp

lemma response_overflow:
  assumes "1024 < length d" "length d < 2 ^ 64" "length userp = 1024"
  shows "deliver write_callback (d # ds) userp = Inl OutOfBounds"
proof -
  have "unat (of_nat (length d) :: u64) = length d"
    using assms by (simp add: unat_of_nat)
  with assms show ?thesis
    by (simp add: write_callback_def memcpy_at_def)
qed

text \<open>
  The block of the first client holds the pieces one behind the other and a terminator; with a reply of no pieces it is
  printed without ever having been written.
\<close>

definition collected :: "bytes \<Rightarrow> MemoryStruct \<Rightarrow> bool" where
  "collected s m \<longleftrightarrow> memory m = Some (map Some s @ [Some 0]) \<and> unat (msize m) = length s"

lemma WriteCallback_collects:
  assumes "collected s m \<or> s = [] \<and> msize m = 0 \<and> length (old_cells (memory m)) \<le> 1" "length s + length d < 2 ^ 63"
  shows "\<exists>m'. WriteCallback (\<lambda>_. True) d 1 (of_nat (length d)) m = Inr (of_nat (length d), m') \<and> collected (s @ d) m'"
proof -
  have "unat (msize m) = length s"
    using assms(1) by (auto simp: collected_def)
  then have sz: "unat (msize m) = length s" "unat (of_nat (length d) :: u64) = length d"
    "unat (msize m + of_nat (length d)) = length s + length d" "unat (msize m + of_nat (length d) + 1) = Suc (length s + length d)"
    using assms(2) by (simp_all add: unat_of_nat unat_word_ariths)
  let ?b = "resized (Suc (length s + length d)) (old_cells (memory m))"
  have block: "length ?b = Suc (length s + length d)" "take (length s) ?b = map Some s"
    using assms(1) by (auto simp: resized_def unset_def collected_def old_cells_def)
  then obtain c where "drop (length s + length d) ?b = [c]"
    by (metis Cons_nth_drop_Suc drop_all lessI order_refl)
  with block show ?thesis
    by (simp add: WriteCallback_def Let_def sz collected_def put_cells_def)
qed

lemma deliver_collects:
  "collected s m \<or> s = [] \<and> msize m = 0 \<and> length (old_cells (memory m)) \<le> 1 \<Longrightarrow> length s + length (concat ds) < 2 ^ 63 \<Longrightarrow> ds \<noteq> [] \<Longrightarrow>
     \<exists>m'. deliver (WriteCallback (\<lambda>_. True)) ds m = Inr (True, m') \<and> collected (s @ concat ds) m'"
proof (induction ds arbitrary: s m)
  case (Cons d ds)
  then obtain m1 where m1: "WriteCallback (\<lambda>_. True) d 1 (of_nat (length d)) m = Inr (of_nat (length d), m1)" "collected (s @ d) m1"
    using WriteCallback_collects [of s m d] by fastforce
  show ?case
  proof (cases "ds = []")
    case False
    with Cons.IH [of "s @ d" m1] Cons.prems m1 show ?thesis by simp
  qed (use m1 in simp)
qed simp

lemma curl_main_collects:
  assumes "handle_ok x" "perform_ok x" "http_code x = 200" "pieces x \<noteq> []" "length (concat (pieces x)) < 2 ^ 63"
  shows "curl_main malloc_ok (\<lambda>_. True) x = Inr (Some (c_str (concat (pieces x))))"
proof -
  let ?m = "\<lparr>memory = (if malloc_ok then Some [None] else None), msize = 0\<rparr>"
  have "\<exists>m'. deliver (WriteCallback (\<lambda>_. True)) (pieces x) ?m = Inr (True, m') \<and> collected ([] @ concat (pieces x)) m'"
    using assms(4,5) by (intro deliver_collects) (auto simp: old_cells_def)
  with assms show ?thesis
    by (auto simp: curl_main_def Let_def collected_def cell_string_set)
qed

lemma curl_main_empty_reply:
  "handle_ok x \<Longrightarrow> perform_ok x \<Longrightarrow> http_code x = 200 \<Longrightarrow> pieces x = [] \<Longrightarrow> curl_main True realloc_ok x = Inl Undefined"
  by (simp add: curl_main_def Let_def)

end
