(* ===== verification/SpinLock.thy ===== *)
theory SpinLock
  imports Prelude
begin

text \<open>
  \<open>spinLockTest/spinLockTest.c\<close>: a kernel module with two threads, both bound to CPU 0, that take the same spin lock; the
  first sleeps while it holds it. \<open>hello_init\<close> runs elsewhere. A state has the position of each of the three, what runs on
  CPU 0, whether its interrupts are off, and the lock; \<open>spin_step\<close> is one step of the code or of the kernel:
  \<open>spin_lock_irqsave\<close> turns the interrupts off and then waits for the lock, \<open>msleep\<close> gives the CPU away with the
  interrupts on again and ends with an interrupt, a thread is scheduled when CPU 0 has none. Messages are dropped. Without
  \<open>debug_flag\<close>, as the source is.
\<close>

section \<open>The module\<close>

datatype thread = Test0 | Test1

datatype position =
    Absent
  | Ready
  | Spinning
  | Locked
  | Asleep
  | Awake
  | Finished

datatype init_position = Create0 | Sleep10 | Create1 | Returned | Oops

record spin_machine =
  position_of :: "thread \<Rightarrow> position"
  init_at :: init_position
  running :: "thread option"
  irqs_off :: bool
  held_by :: "thread option"

definition module_start :: spin_machine where
  "module_start = \<lparr>position_of = \<lambda>_. Absent, init_at = Create0, running = None, irqs_off = False, held_by = None\<rparr>"

definition moves :: "thread \<Rightarrow> position \<Rightarrow> spin_machine \<Rightarrow> spin_machine" where
  "moves t c s = s\<lparr>position_of := (position_of s)(t := c)\<rparr>"

text \<open>
  \<open>hello_init\<close>. When \<open>kthread_create\<close> fails the pointer is set to NULL and handed to \<open>kthread_bind\<close>.
\<close>

fun hello_init :: "bool \<Rightarrow> spin_machine \<Rightarrow> spin_machine" where
  "hello_init created s =
     (case init_at s of
        Create0 \<Rightarrow> if created then (moves Test0 Ready s)\<lparr>init_at := Sleep10\<rparr> else s\<lparr>init_at := Oops\<rparr>
      | Sleep10 \<Rightarrow> s\<lparr>init_at := Create1\<rparr>
      | Create1 \<Rightarrow> if created then (moves Test1 Ready s)\<lparr>init_at := Returned\<rparr> else s\<lparr>init_at := Oops\<rparr>
      | _ \<Rightarrow> s)"

text \<open>The calls of the two threads, on CPU 0.\<close>

definition local_irq_save :: "thread \<Rightarrow> spin_machine \<Rightarrow> spin_machine" where
  "local_irq_save t s = (moves t Spinning s)\<lparr>irqs_off := True\<rparr>"

definition take_lock :: "thread \<Rightarrow> spin_machine \<Rightarrow> spin_machine" where
  "take_lock t s = (if held_by s = None then (moves t Locked s)\<lparr>held_by := Some t\<rparr> else s)"

definition spin_unlock_irqrestore :: "thread \<Rightarrow> spin_machine \<Rightarrow> spin_machine" where
  "spin_unlock_irqrestore t s = (moves t Finished s)\<lparr>held_by := None, irqs_off := False, running := None\<rparr>"

definition msleep :: "thread \<Rightarrow> spin_machine \<Rightarrow> spin_machine" where
  "msleep t s = (moves t Asleep s)\<lparr>irqs_off := False, running := None\<rparr>"

definition kthreadTest0 :: "spin_machine \<Rightarrow> spin_machine" where
  "kthreadTest0 s =
     (case position_of s Test0 of
        Ready \<Rightarrow> local_irq_save Test0 s
      | Spinning \<Rightarrow> take_lock Test0 s
      | Locked \<Rightarrow> msleep Test0 s
      | Awake \<Rightarrow> spin_unlock_irqrestore Test0 s
      | _ \<Rightarrow> s)"

definition kthreadTest1 :: "spin_machine \<Rightarrow> spin_machine" where
  "kthreadTest1 s =
     (case position_of s Test1 of
        Ready \<Rightarrow> local_irq_save Test1 s
      | Spinning \<Rightarrow> take_lock Test1 s
      | Locked \<Rightarrow> spin_unlock_irqrestore Test1 s
      | _ \<Rightarrow> s)"

text \<open>
  The kernel: a runnable thread gets the free CPU; a thread that has not yet taken the lock can lose it again; the timer of
  a sleeping thread is an interrupt on its CPU.
\<close>

inductive spin_step :: "spin_machine \<Rightarrow> spin_machine \<Rightarrow> bool" where
  init: "spin_step s (hello_init created s)"
| schedule: "running s = None \<Longrightarrow> position_of s t \<in> {Ready, Awake} \<Longrightarrow> spin_step s (s\<lparr>running := Some t\<rparr>)"
| preempt: "running s = Some t \<Longrightarrow> position_of s t = Ready \<Longrightarrow> spin_step s (s\<lparr>running := None\<rparr>)"
| timer: "position_of s t = Asleep \<Longrightarrow> \<not> irqs_off s \<Longrightarrow> spin_step s (moves t Awake s)"
| run0: "running s = Some Test0 \<Longrightarrow> spin_step s (kthreadTest0 s)"
| run1: "running s = Some Test1 \<Longrightarrow> spin_step s (kthreadTest1 s)"

inductive spin_reaches :: "spin_machine \<Rightarrow> spin_machine \<Rightarrow> bool" where
  here: "spin_reaches s s"
| further: "spin_reaches s t \<Longrightarrow> spin_step t u \<Longrightarrow> spin_reaches s u"

inductive_cases machine_stepE: "spin_step s s'"

section \<open>The invariant\<close>

text \<open>
  The second thread waits for the lock of the first, which waits for an interrupt that cannot come, or for the CPU.
\<close>

definition locked_up :: "spin_machine \<Rightarrow> bool" where
  "locked_up s \<longleftrightarrow> position_of s Test0 \<in> {Asleep, Awake} \<and> position_of s Test1 = Spinning \<and> running s = Some Test1 \<and> irqs_off s \<and>
     held_by s = Some Test0"

definition holds_lock :: "position \<Rightarrow> bool" where
  "holds_lock c \<longleftrightarrow> c \<in> {Locked, Asleep, Awake}"

definition spin_inv :: "spin_machine \<Rightarrow> bool" where
  "spin_inv s \<longleftrightarrow>
     (\<forall>t. holds_lock (position_of s t) \<longleftrightarrow> held_by s = Some t) \<and>
     (\<forall>t. position_of s t \<in> {Spinning, Locked} \<longrightarrow> running s = Some t) \<and>
     (irqs_off s \<longleftrightarrow> (\<exists>t. position_of s t \<in> {Spinning, Locked})) \<and>
     (\<forall>t. running s = Some t \<longrightarrow> position_of s t \<in> {Ready, Spinning, Locked, Awake}) \<and>
     position_of s Test1 \<notin> {Asleep, Awake} \<and>
     (init_at s = Create0 \<longrightarrow> position_of s Test0 = Absent) \<and>
     (position_of s Test0 = Absent \<longrightarrow> init_at s \<in> {Create0, Oops}) \<and>
     (position_of s Test1 = Absent \<longleftrightarrow> init_at s \<noteq> Returned)"

lemma all_threads: "(\<forall>t. P t) \<longleftrightarrow> P Test0 \<and> P Test1" and ex_threads: "(\<exists>t. P t) \<longleftrightarrow> P Test0 \<or> P Test1"
  by (metis thread.exhaust)+

lemmas spin_simps = spin_inv_def all_threads ex_threads holds_lock_def moves_def

lemma spin_inv_start: "spin_inv module_start"
  by (simp add: module_start_def spin_simps)

lemma spin_inv_init: "spin_inv s \<Longrightarrow> spin_inv (hello_init created s)"
  by (cases "init_at s"; cases created; clarsimp simp: spin_simps)

lemma spin_inv_run0: "spin_inv s \<Longrightarrow> running s = Some Test0 \<Longrightarrow> spin_inv (kthreadTest0 s)"
  by (cases "position_of s Test0")
    (auto simp: spin_simps kthreadTest0_def local_irq_save_def take_lock_def spin_unlock_irqrestore_def msleep_def)

lemma spin_inv_run1: "spin_inv s \<Longrightarrow> running s = Some Test1 \<Longrightarrow> spin_inv (kthreadTest1 s)"
  by (cases "position_of s Test1")
    (auto simp: spin_simps kthreadTest1_def local_irq_save_def take_lock_def spin_unlock_irqrestore_def)

lemma spin_inv_kernel:
  "spin_inv s \<Longrightarrow> running s = None \<Longrightarrow> position_of s t \<in> {Ready, Awake} \<Longrightarrow> spin_inv (s\<lparr>running := Some t\<rparr>)"
  "spin_inv s \<Longrightarrow> running s = Some t \<Longrightarrow> position_of s t = Ready \<Longrightarrow> spin_inv (s\<lparr>running := None\<rparr>)"
  "spin_inv s \<Longrightarrow> position_of s t = Asleep \<Longrightarrow> \<not> irqs_off s \<Longrightarrow> spin_inv (moves t Awake s)"
  by (cases t; force simp: spin_simps)+

lemma spin_inv_step: "spin_step s s' \<Longrightarrow> spin_inv s \<Longrightarrow> spin_inv s'"
  by (induction rule: spin_step.induct) (blast intro: spin_inv_init spin_inv_run0 spin_inv_run1 spin_inv_kernel)+

lemma spin_inv_reaches: "spin_reaches s t \<Longrightarrow> spin_inv s \<Longrightarrow> spin_inv t"
  by (induction rule: spin_reaches.induct) (auto intro: spin_inv_step)

lemma locked_up_step: "spin_step s s' \<Longrightarrow> spin_inv s \<Longrightarrow> locked_up s \<Longrightarrow> locked_up s'"
  by (induction rule: spin_step.induct)
    (auto simp: locked_up_def spin_inv_def moves_def kthreadTest1_def take_lock_def split: init_position.splits if_splits)

lemma locked_up_reaches: "spin_reaches s t \<Longrightarrow> spin_inv s \<Longrightarrow> locked_up s \<Longrightarrow> locked_up t"
  by (induction rule: spin_reaches.induct) (auto intro: locked_up_step spin_inv_reaches)

section \<open>Coming to an end\<close>

fun steps_left :: "position \<Rightarrow> nat" where
  "steps_left Absent = 6"
| "steps_left Ready = 5"
| "steps_left Spinning = 4"
| "steps_left Locked = 3"
| "steps_left Asleep = 2"
| "steps_left Awake = 1"
| "steps_left Finished = 0"

fun init_left :: "init_position \<Rightarrow> nat" where
  "init_left Create0 = 3"
| "init_left Sleep10 = 2"
| "init_left Create1 = 1"
| "init_left _ = 0"

text \<open>The CPU in use for the wrong thread, not in use, and in use for the right one.\<close>

definition cpu_left :: "spin_machine \<Rightarrow> nat" where
  "cpu_left s = (if running s = None then 1 else if running s = Some Test1 \<and> held_by s = Some Test0 then 2 else 0)"

definition work_left :: "spin_machine \<Rightarrow> nat" where
  "work_left s = 3 * (steps_left (position_of s Test0) + steps_left (position_of s Test1) + init_left (init_at s)) + cpu_left s"

definition ended :: "spin_machine \<Rightarrow> bool" where
  "ended s \<longleftrightarrow> position_of s Test0 = Finished \<and> position_of s Test1 = Finished"

lemmas progress_simps = spin_simps locked_up_def work_left_def cpu_left_def ended_def

lemma work_goes_on:
  assumes "spin_inv s" "\<not> locked_up s" "init_at s \<noteq> Oops" "\<not> ended s"
  shows "\<exists>t. spin_step s t \<and> \<not> locked_up t \<and> init_at t \<noteq> Oops \<and> work_left t < work_left s"
proof (cases "init_at s = Returned")
  case False
  with assms have "\<not> locked_up (hello_init True s) \<and> init_at (hello_init True s) \<noteq> Oops \<and> work_left (hello_init True s) < work_left s"
    by (cases "init_at s") (auto simp: progress_simps)
  then show ?thesis
    using spin_step.init by blast
next
  case returned: True
  consider (cpu0) "running s = Some Test0" | (cpu1) "running s = Some Test1" | (idle) "running s = None"
    by (metis not_None_eq thread.exhaust)
  then show ?thesis
  proof cases
    case cpu0
    with assms(1) have "position_of s Test0 \<in> {Ready, Spinning, Locked, Awake}"
      by (auto simp: spin_inv_def)
    with assms cpu0 returned have "\<not> locked_up (kthreadTest0 s) \<and> init_at (kthreadTest0 s) \<noteq> Oops \<and> work_left (kthreadTest0 s) < work_left s"
      by (cases "position_of s Test0")
        (clarsimp simp: progress_simps kthreadTest0_def local_irq_save_def take_lock_def spin_unlock_irqrestore_def msleep_def)+
    then show ?thesis
      using spin_step.run0 [OF cpu0] by blast
  next
    case cpu1
    show ?thesis
    proof (cases "position_of s Test1 = Ready \<and> held_by s = Some Test0")
      case True
      with cpu1 returned have "\<not> locked_up (s\<lparr>running := None\<rparr>) \<and> init_at (s\<lparr>running := None\<rparr>) \<noteq> Oops \<and>
          work_left (s\<lparr>running := None\<rparr>) < work_left s"
        by (simp add: progress_simps)
      then show ?thesis
        using spin_step.preempt [OF cpu1] True by blast
    next
      case False
      from assms(1) cpu1 have "position_of s Test1 \<in> {Ready, Spinning, Locked}"
        by (auto simp: spin_inv_def)
      with assms cpu1 returned False have "\<not> locked_up (kthreadTest1 s) \<and> init_at (kthreadTest1 s) \<noteq> Oops \<and> work_left (kthreadTest1 s) < work_left s"
        by (cases "position_of s Test1")
          (clarsimp simp: progress_simps kthreadTest1_def local_irq_save_def take_lock_def spin_unlock_irqrestore_def)+
      then show ?thesis
        using spin_step.run1 [OF cpu1] by blast
    qed
  next
    case idle
    show ?thesis
    proof (cases "position_of s Test0 = Asleep")
      case True
      with assms(1) idle have "\<not> irqs_off s"
        by (auto simp: spin_simps)
      moreover have "\<not> locked_up (moves Test0 Awake s) \<and> init_at (moves Test0 Awake s) \<noteq> Oops \<and> work_left (moves Test0 Awake s) < work_left s"
        using True idle returned by (simp add: progress_simps)
      ultimately show ?thesis
        using spin_step.timer [OF True] by blast
    next
      case False
      define t where "t = (if position_of s Test0 = Finished then Test1 else Test0)"
      have t: "position_of s t \<in> {Ready, Awake}"
        using assms idle returned False by (cases "position_of s Test0"; cases "position_of s Test1") (auto simp: progress_simps t_def)
      have "\<not> locked_up (s\<lparr>running := Some t\<rparr>) \<and> init_at (s\<lparr>running := Some t\<rparr>) \<noteq> Oops \<and>
          work_left (s\<lparr>running := Some t\<rparr>) < work_left s"
        using assms idle returned t by (auto simp: progress_simps t_def)
      then show ?thesis
        using spin_step.schedule [OF idle t] by blast
    qed
  qed
qed

lemma reaches_step: "spin_step s t \<Longrightarrow> spin_reaches t u \<Longrightarrow> spin_reaches s u"
  by (rotate_tac, induction rule: spin_reaches.induct) (blast intro: spin_reaches.intros)+

lemma work_ends:
  "spin_inv s \<Longrightarrow> \<not> locked_up s \<Longrightarrow> init_at s \<noteq> Oops \<Longrightarrow> \<exists>t. spin_reaches s t \<and> ended t"
proof (induction "work_left s" arbitrary: s rule: less_induct)
  case less
  show ?case
  proof (cases "ended s")
    case False
    with work_goes_on less.prems obtain t where t: "spin_step s t" "\<not> locked_up t" "init_at t \<noteq> Oops" "work_left t < work_left s"
      by blast
    with less.hyps [OF t(4)] less.prems(1) show ?thesis
      by (blast intro: spin_inv_step reaches_step)
  qed (blast intro: spin_reaches.here)
qed

section \<open>Properties\<close>

definition dead_end :: spin_machine where
  "dead_end = \<lparr>position_of = (\<lambda>_. Asleep)(Test1 := Spinning), init_at = Returned, running = Some Test1, irqs_off = True,
     held_by = Some Test0\<rparr>"

text \<open>The run that is meant to show it: the first thread goes to sleep with the lock before the second is there.\<close>

definition at_points :: "position \<Rightarrow> position \<Rightarrow> init_position \<Rightarrow> thread option \<Rightarrow> bool \<Rightarrow> thread option \<Rightarrow> spin_machine" where
  "at_points a b i r off l = \<lparr>position_of = (\<lambda>_. a)(Test1 := b), init_at = i, running = r, irqs_off = off, held_by = l\<rparr>"

lemma at_points_moves [simp]:
  "moves Test0 c (at_points a b i r off l) = at_points c b i r off l"
  "moves Test1 c (at_points a b i r off l) = at_points a c i r off l"
  "position_of (at_points a b i r off l) Test0 = a" "position_of (at_points a b i r off l) Test1 = b"
  "init_at (at_points a b i r off l) = i" "running (at_points a b i r off l) = r" "irqs_off (at_points a b i r off l) = off"
  "held_by (at_points a b i r off l) = l" "(at_points a b i r off l)\<lparr>init_at := i'\<rparr> = at_points a b i' r off l"
  "(at_points a b i r off l)\<lparr>running := r'\<rparr> = at_points a b i r' off l"
  "(at_points a b i r off l)\<lparr>irqs_off := off'\<rparr> = at_points a b i r off' l"
  "(at_points a b i r off l)\<lparr>held_by := l'\<rparr> = at_points a b i r off l'"
  by (auto simp: at_points_def moves_def fun_eq_iff split: thread.splits) (metis thread.exhaust)+

lemma dead_end_reached: "spin_reaches module_start dead_end"
proof -
  note calls = kthreadTest0_def kthreadTest1_def local_irq_save_def take_lock_def msleep_def
  let ?s0 = "at_points Absent Absent Create0 None False None"
  have "spin_reaches ?s0 (at_points Ready Absent Sleep10 None False None)"
    using spin_reaches.further [OF spin_reaches.here spin_step.init [of ?s0 True]] by simp
  from spin_reaches.further [OF this spin_step.schedule [of _ Test0]]
  have "spin_reaches ?s0 (at_points Ready Absent Sleep10 (Some Test0) False None)" by simp
  from spin_reaches.further [OF this spin_step.run0]
  have "spin_reaches ?s0 (at_points Spinning Absent Sleep10 (Some Test0) True None)" by (simp add: calls)
  from spin_reaches.further [OF this spin_step.run0]
  have "spin_reaches ?s0 (at_points Locked Absent Sleep10 (Some Test0) True (Some Test0))" by (simp add: calls)
  from spin_reaches.further [OF this spin_step.run0]
  have "spin_reaches ?s0 (at_points Asleep Absent Sleep10 None False (Some Test0))" by (simp add: calls)
  from spin_reaches.further [OF this spin_step.init [of _ True]]
  have "spin_reaches ?s0 (at_points Asleep Absent Create1 None False (Some Test0))" by simp
  from spin_reaches.further [OF this spin_step.init [of _ True]]
  have "spin_reaches ?s0 (at_points Asleep Ready Returned None False (Some Test0))" by simp
  from spin_reaches.further [OF this spin_step.schedule [of _ Test1]]
  have "spin_reaches ?s0 (at_points Asleep Ready Returned (Some Test1) False (Some Test0))" by simp
  from spin_reaches.further [OF this spin_step.run1]
  have "spin_reaches ?s0 (at_points Asleep Spinning Returned (Some Test1) True (Some Test0))" by (simp add: calls)
  moreover have "module_start = ?s0" "dead_end = at_points Asleep Spinning Returned (Some Test1) True (Some Test0)"
    by (auto simp: module_start_def dead_end_def at_points_def)
  ultimately show ?thesis by simp
qed

text \<open>
  C39: In every state the module can get into, the lock is held by at most one thread, as it should. From a state in which
  the second thread waits for the lock while the first one, which holds it, sleeps or has not got the CPU back, there is
  no way out, and such a state can be reached; from any other state (unless a thread could not be created) both threads
  can still end.
\<close>

theorem spin_lock_outcomes:
  assumes "spin_reaches module_start s"
  shows "(holds_lock (position_of s Test0) \<longrightarrow> \<not> holds_lock (position_of s Test1)) \<and>
    (locked_up s \<longrightarrow> (\<forall>t. spin_reaches s t \<longrightarrow> locked_up t)) \<and>
    (\<not> locked_up s \<and> init_at s \<noteq> Oops \<longrightarrow> (\<exists>t. spin_reaches s t \<and> ended t)) \<and>
    (\<exists>d. spin_reaches module_start d \<and> locked_up d)"
proof -
  have "spin_inv s"
    using spin_inv_reaches [OF assms spin_inv_start] .
  moreover from this have "holds_lock (position_of s Test0) \<longrightarrow> \<not> holds_lock (position_of s Test1)"
    by (simp add: spin_inv_def)
  moreover have "locked_up dead_end"
    by (simp add: locked_up_def dead_end_def)
  ultimately show ?thesis
    using locked_up_reaches work_ends dead_end_reached by blast
qed

theorem spin_lock_outcomes_witness:
  "{t. spin_reaches dead_end t} \<subseteq> {t. position_of t Test1 = Spinning} \<and> (\<exists>t. spin_reaches module_start t \<and> ended t)"
proof -
  have "locked_up dead_end"
    by (simp add: locked_up_def dead_end_def)
  with spin_lock_outcomes [OF dead_end_reached] have "\<forall>t. spin_reaches dead_end t \<longrightarrow> locked_up t"
    by blast
  then have "{t. spin_reaches dead_end t} \<subseteq> {t. position_of t Test1 = Spinning}"
    unfolding locked_up_def by blast
  moreover have "\<not> locked_up module_start \<and> init_at module_start \<noteq> Oops"
    by (simp add: locked_up_def module_start_def)
  with spin_lock_outcomes [OF spin_reaches.here] have "\<exists>t. spin_reaches module_start t \<and> ended t"
    by blast
  ultimately show ?thesis by blast
qed

end
