(* ===== verification/ExecShell.thy ===== *)
theory ExecShell
  imports Locals Numbers
begin

text \<open>
  \<open>execShell/execShell.c\<close>: running a shell command. \<open>caller\<close> is the state of the process the code changes: what it does on
  a signal, the signals it has blocked, and the children it has not waited for. What the kernel and the shell decide is in
  \<open>outcome\<close>: what \<open>vfork\<close> returns in the parent and the status \<open>waitpid\<close> gives, or \<open>None\<close> when it fails, as it does when a
  signal interrupts it. Messages on errors are dropped.
\<close>

section \<open>exec_shell\<close>

datatype signal = SIGINT | SIGQUIT | SIGCHLD | Other_Signal nat

datatype action = SIG_DFL | SIG_IGN | Handler nat

record caller =
  acts :: "signal \<Rightarrow> action"
  blocked :: "signal set"
  kids :: "int set"

record outcome =
  vfork_result :: int
  wait_status :: "int option"

text \<open>What a child is started with: its arguments, its actions and the signals it has blocked.\<close>

record started =
  argv :: "bytes list"
  sig_acts :: "signal \<Rightarrow> action"
  sig_blocked :: "signal set"

definition sh_args :: "bytes \<Rightarrow> bytes list" where
  "sh_args cmd = [map of_char ''sh'', [0x2D, 0x63], cmd]"

definition sigaction :: "signal \<Rightarrow> action \<Rightarrow> caller \<Rightarrow> action \<times> caller" where
  "sigaction g a c = (acts c g, c\<lparr>acts := (acts c)(g := a)\<rparr>)"

definition restored :: "action \<Rightarrow> action \<Rightarrow> signal set \<Rightarrow> caller \<Rightarrow> caller" where
  "restored sig_int sig_quit omask c =
     (snd (sigaction SIGQUIT sig_quit (snd (sigaction SIGINT sig_int c))))\<lparr>blocked := omask\<rparr>"

text \<open>
  The result: what is returned, what the child is started with, and the process while it waits and afterwards. The child
  starts with the actions and the mask of its parent.
\<close>

definition exec_shell :: "bytes option \<Rightarrow> outcome \<Rightarrow> caller \<Rightarrow> int \<times> started option \<times> caller \<times> caller" where
  "exec_shell cmd oc c =
     (case cmd of
        None \<Rightarrow> (0, None, c, c)
      | Some cmd \<Rightarrow>
          let (sig_int, c) = sigaction SIGINT SIG_IGN c;
              (sig_quit, c) = sigaction SIGQUIT SIG_IGN c;
              omask = blocked c;
              c = c\<lparr>blocked := insert SIGCHLD (blocked c)\<rparr>;
              pid = vfork_result oc
          in if pid < 0 then (- 1, None, c, restored sig_int sig_quit omask c)
             else let child = restored sig_int sig_quit omask c;
                      s = \<lparr>argv = sh_args cmd, sig_acts = acts child, sig_blocked = blocked child\<rparr>;
                      c = c\<lparr>kids := insert pid (kids c)\<rparr>
                  in case wait_status oc of
                       None \<Rightarrow> (- 1, Some s, c, restored sig_int sig_quit omask c)
                     | Some ret \<Rightarrow> (ret, Some s, c, restored sig_int sig_quit omask (c\<lparr>kids := kids c - {pid}\<rparr>)))"

section \<open>exec_shell_with_result\<close>

text \<open>\<open>popen\<close> gives the output of the command as a stream, or fails.\<close>

definition exec_shell_with_result :: "bytes option \<Rightarrow> cells \<Rightarrow> int \<Rightarrow> (int \<times> cells) cres" where
  "exec_shell_with_result fp buf n =
     (case fp of
        None \<Rightarrow> Inr (- 1, buf)
      | Some out \<Rightarrow> cbind (fgets (n - 1) buf out) (\<lambda>r.
          case r of None \<Rightarrow> Inr (- 1, buf) | Some (buf, _) \<Rightarrow> Inr (0, buf)))"

text \<open>The program: what it prints as the result, and its exit status.\<close>

definition copy_command :: bytes where
  "copy_command = map of_char ''cat /etc/passwd > ./passwd''"

definition shell_main :: "outcome \<Rightarrow> bytes option \<Rightarrow> caller \<Rightarrow> (int option \<times> int \<times> caller) cres" where
  "shell_main oc fp c =
     (case exec_shell (Some copy_command) oc c of (ret, _, _, c) \<Rightarrow>
        if ret < 0 then Inr (None, ret, c)
        else cbind (exec_shell_with_result fp (unset 10) 10) (\<lambda>(ret, buf).
          if ret < 0 then Inr (None, ret, c)
          else cbind (cell_string buf) (\<lambda>s. Inr (Some (atoi s), ret, c))))"

section \<open>Properties\<close>

text \<open>
  While the command runs, an interrupt or quit from the terminal does not end the caller and SIGCHLD is blocked; the command
  itself has the actions and the mask the caller had; afterwards the caller has them again, on every path. A command that
  was started is waited for, unless \<open>waitpid\<close> is interrupted: then the result is -1 and the child stays behind.
\<close>

lemma exec_shell_correct:
  assumes "exec_shell (Some cmd) oc c = (ret, child, during, after)" "vfork_result oc \<notin> kids c"
  shows "acts after = acts c \<and> blocked after = blocked c \<and>
    acts during = (acts c)(SIGINT := SIG_IGN, SIGQUIT := SIG_IGN) \<and> blocked during = insert SIGCHLD (blocked c) \<and>
    child = (if vfork_result oc < 0 then None else Some \<lparr>argv = sh_args cmd, sig_acts = acts c, sig_blocked = blocked c\<rparr>) \<and>
    (ret, kids after) =
      (if vfork_result oc < 0 then (- 1, kids c)
       else case wait_status oc of None \<Rightarrow> (- 1, insert (vfork_result oc) (kids c)) | Some st \<Rightarrow> (st, kids c))"
  using assms
  by (auto simp: exec_shell_def sigaction_def restored_def Let_def fun_eq_iff split: if_splits option.splits)

text \<open>The first line of the output, as far as it fits into the array less one, reaches the caller as a string.\<close>

lemma exec_shell_with_result_line:
  assumes "nul_free l" "0x0A \<notin> set l" "length l + 3 \<le> length buf"
  shows "exec_shell_with_result (Some (l @ 0x0A # rest)) buf (int (length buf)) =
      Inr (0, map Some (l @ [0x0A, 0]) @ drop (length l + 2) buf)"
    and "cell_string (map Some (l @ [0x0A, 0]) @ drop (length l + 2) buf) = Inr (l @ [0x0A])"
proof -
  have "length l < length buf - 2"
    using assms(3) by simp
  then have "line_of (length buf - 2) (l @ 0x0A # rest) = l @ [0x0A]"
    using assms(2) by (intro line_of_whole) auto
  moreover have "nat (int (length buf) - 1) - 1 = length buf - 2"
    by simp
  ultimately show "exec_shell_with_result (Some (l @ 0x0A # rest)) buf (int (length buf)) =
      Inr (0, map Some (l @ [0x0A, 0]) @ drop (length l + 2) buf)"
    using assms(3) by (simp add: exec_shell_with_result_def fgets_def put_cells_def Let_def)
  have "nul_free (l @ [0x0A])"
    using assms(1) by (simp add: nul_free_def)
  then show "cell_string (map Some (l @ [0x0A, 0]) @ drop (length l + 2) buf) = Inr (l @ [0x0A])"
    using cell_string_set [of "l @ [0x0A]"] by (simp add: c_str_nul_free_all)
qed

text \<open>Only a status below 0 stops the program, so a command that fails does not.\<close>

lemma shell_main_result:
  assumes "0 \<le> vfork_result oc" "wait_status oc = Some st" "0 \<le> st" "nul_free l" "0x0A \<notin> set l" "length l \<le> 7"
    and "vfork_result oc \<notin> kids c"
  shows "shell_main oc (Some (l @ 0x0A # rest)) c = Inr (Some (atoi (l @ [0x0A])), 0, c)"
proof -
  obtain ret child during after where run: "exec_shell (Some copy_command) oc c = (ret, child, during, after)"
    by (metis prod_cases4)
  from exec_shell_correct [OF run assms(7)] assms(1,2) have "ret = st" "after = c"
    by (auto intro!: caller.equality)
  moreover have "length l + 3 \<le> length (unset 10)"
    using assms(6) by (simp add: unset_def)
  note exec_shell_with_result_line [OF assms(4,5) this]
  moreover have "int (length (unset 10)) = 10"
    by (simp add: unset_def)
  ultimately show ?thesis
    using assms(3) by (simp add: shell_main_def run)
qed

end
