(* ===== verification/Sockets.thy ===== *)
theory Sockets
  imports Locals Posix
begin

text \<open>
  \<open>sockets_tcp/server.c\<close>, \<open>sockets_tcp/client.c\<close> and \<open>socks.h\<close>, as GCC compiles them: a server that takes one connection, a
  client, and one message in each direction. \<open>server_calls\<close> and \<open>client_calls\<close> say how the calls end; \<open>recv\<close> gives the bytes that have come, or
  \<open>None\<close> for -1. Messages on errors are dropped.
\<close>

section \<open>The programs\<close>

definition DEFAULT_PORT :: u16 where
  "DEFAULT_PORT = 7788"

definition INVALID_SOCKET :: int where
  "INVALID_SOCKET = - 1"

definition SOCKET_ERROR :: int where
  "SOCKET_ERROR = - 1"

record server_calls =
  setsockopt_ok :: bool
  port_free :: "u16 \<Rightarrow> bool"
  listen_ok :: bool
  accept_ok :: bool
  server_recv :: "bytes option"
  server_send :: bool

record client_calls =
  connect_ok :: "u32 \<Rightarrow> u16 \<Rightarrow> bool"
  client_recv :: "bytes option"
  client_send :: bool

text \<open>The address 127.0.0.1, as its bytes stand in the memory of a little-endian machine.\<close>

definition ip_addr :: u32 where
  "ip_addr = 0x0100007F"

definition server_create_socket :: "server_calls \<Rightarrow> kernel \<Rightarrow> int \<times> int \<times> kernel" where
  "server_create_socket oc k =
     (case fd_open k of (sock, k) \<Rightarrow>
        if sock = INVALID_SOCKET then (- 1, sock, k)
        else if \<not> setsockopt_ok oc then (- 1, sock, k)
        else if \<not> port_free oc DEFAULT_PORT then (- 1, sock, k)
        else if \<not> listen_ok oc then (- 1, sock, k)
        else (0, sock, k))"

definition client_create_socket :: "client_calls \<Rightarrow> kernel \<Rightarrow> int \<times> int \<times> kernel" where
  "client_create_socket oc k =
     (case fd_open k of (sock, k) \<Rightarrow>
        if sock = INVALID_SOCKET then (- 1, sock, k)
        else if \<not> connect_ok oc ip_addr DEFAULT_PORT then (- 1, sock, k)
        else (0, sock, k))"

text \<open>The end of both programs closes the sockets above 0.\<close>

definition closesocket :: "int \<Rightarrow> kernel \<Rightarrow> kernel" where
  "closesocket s k = (if 0 < s then fd_close s k else k)"

text \<open>\<open>strncpy(sendbuf, s, 63)\<close> and the bytes \<open>send\<close> gets.\<close>

definition greeting :: "bytes \<Rightarrow> bytes cres" where
  "greeting s =
     cbind (put_cells 0 (strncpy_bytes s 63) (unset 64)) (\<lambda>sendbuf.
     cbind (cell_string sendbuf) (\<lambda>t. Inr (t @ [0])))"

definition hello_client :: bytes where
  "hello_client = map of_char ''Hello client!''"

definition hello_server :: bytes where
  "hello_server = map of_char ''Hello server!''"

text \<open>The results: what is printed, what is sent, the exit status and the descriptors.\<close>

definition server_main :: "server_calls \<Rightarrow> kernel \<Rightarrow> (bytes option \<times> bytes option \<times> int \<times> kernel) cres" where
  "server_main oc k =
     (case server_create_socket oc k of (ret, sock, k) \<Rightarrow>
        if ret < 0 then Inr (None, None, 0, closesocket sock k)
        else case (if accept_ok oc then fd_open k else (- 1, k)) of (serv_sock, k) \<Rightarrow>
          if serv_sock = SOCKET_ERROR then Inr (None, None, 0, closesocket sock (closesocket serv_sock k))
          else case server_recv oc of
              None \<Rightarrow> Inr (None, None, 0, closesocket sock (closesocket serv_sock k))
            | Some msg \<Rightarrow>
                cbind (put_cells 0 (take 63 msg) (unset 64)) (\<lambda>recvbuf.
                cbind (cell_string recvbuf) (\<lambda>text.
                cbind (greeting hello_client) (\<lambda>answer.
                  Inr (Some text, if server_send oc then Some answer else None, 0, closesocket sock (closesocket serv_sock k))))))"

definition sockets_client_main :: "client_calls \<Rightarrow> kernel \<Rightarrow> (bytes option \<times> bytes option \<times> int \<times> kernel) cres" where
  "sockets_client_main oc k =
     (case client_create_socket oc k of (ret, sock, k) \<Rightarrow>
        if ret < 0 then Inr (None, None, ret, closesocket sock k)
        else cbind (greeting hello_server) (\<lambda>msg.
          if \<not> client_send oc then Inr (None, None, - 1, closesocket sock k)
          else case client_recv oc of
              None \<Rightarrow> Inr (None, Some msg, - 1, closesocket sock k)
            | Some ans \<Rightarrow>
                cbind (put_cells 0 (take 63 ans) (unset 64)) (\<lambda>recvbuf.
                cbind (cell_string recvbuf) (\<lambda>text.
                  Inr (Some text, Some msg, int (length (take 63 ans)), closesocket sock k)))))"

section \<open>Properties\<close>

lemma cell_string_received:
  "nul_free s \<Longrightarrow> length s < 63 \<Longrightarrow> put_cells 0 (take 63 (s @ [0])) (unset 64) = Inr (map Some (s @ [0]) @ drop (Suc (length s)) (unset 64))"
  "nul_free s \<Longrightarrow> cell_string (map Some (s @ [0]) @ cs) = Inr s"
  using cell_string_set [of s] by (simp_all add: put_cells_def unset_def c_str_nul_free_all)

lemma cell_string_partial:
  assumes "nul_free s" "length s < 64"
  shows "put_cells 0 s (unset 64) = Inr (map Some s @ unset (64 - length s))"
    and "cell_string (map Some s @ unset (64 - length s)) = Inl Undefined"
proof -
  show "put_cells 0 s (unset 64) = Inr (map Some s @ unset (64 - length s))"
    using assms(2) by (simp add: put_cells_def unset_def)
  have "unset (64 - length s) = None # unset (63 - length s)"
    using assms(2) by (simp add: unset_def flip: replicate_Suc)
  with cell_string_unset [OF assms(1)] show "cell_string (map Some s @ unset (64 - length s)) = Inl Undefined"
    by simp
qed

lemma greeting_string:
  assumes "nul_free s" "length s < 63"
  shows "greeting s = Inr (s @ [0])"
proof -
  have "strncpy_bytes s 63 = s @ 0 # replicate (62 - length s) 0"
    using assms by (simp add: strncpy_bytes_def c_str_nul_free_all flip: replicate_Suc)
  then show ?thesis
    using assms by (simp add: greeting_def put_cells_def unset_def cell_string_set c_str_nul_free_all)
qed

lemma hello_texts:
  "nul_free hello_client" "length hello_client = 13" "nul_free hello_server" "length hello_server = 13"
  by (simp_all add: hello_client_def hello_server_def nul_free_def)

text \<open>What the receiver of a greeting prints, when the first \<open>n\<close> bytes of it come in one piece.\<close>

lemma received_piece:
  assumes "nul_free s" "length s < 63" "n \<le> Suc (length s)"
  shows "cbind (put_cells 0 (take 63 (take n (s @ [0]))) (unset 64)) (\<lambda>buf. cbind (cell_string buf) f) =
    (if n = Suc (length s) then f s else Inl Undefined)"
proof (cases "n = Suc (length s)")
  case True
  then show ?thesis
    using cell_string_received assms(1,2) by simp
next
  case False
  with assms(3) have "n \<le> length s" by simp
  then have "take 63 (take n (s @ [0])) = take n s" "length (take n s) < 64"
    using assms(2) by simp_all
  then show ?thesis
    using cell_string_partial [of "take n s"] assms(1) False by (simp only: nul_free_take cbind_simps if_False)
qed

text \<open>
  C40: A session of the two programs, on hosts with descriptor 0 in use (so that every socket is above it) and with every
  call going well. When both messages arrive in one piece, each program prints the greeting of the other, answers as it
  should and gives all its descriptors back; when only a part of a message is there when \<open>recv\<close> is called, its
  terminator is missing and the receiver prints memory that was never set.
\<close>

theorem sockets_session:
  assumes "0 \<in> set (open_fds ks)" "length (open_fds ks) + 2 \<le> max_fds ks" "0 \<in> set (open_fds kc)" "length (open_fds kc) < max_fds kc"
    and "setsockopt_ok so" "port_free so 7788" "listen_ok so" "accept_ok so" "server_send so"
    and "connect_ok co 0x0100007F 7788" "client_send co"
    and "server_recv so = Some (take n (hello_server @ [0]))" "client_recv co = Some (take m (hello_client @ [0]))" "n \<le> 14" "m \<le> 14"
  shows "server_main so ks = (if n = 14 then Inr (Some hello_server, Some (hello_client @ [0]), 0, ks) else Inl Undefined) \<and>
    sockets_client_main co kc = (if m = 14 then Inr (Some hello_client, Some (hello_server @ [0]), 14, kc) else Inl Undefined)"
proof -
  obtain d ks1 where d: "fd_open ks = (d, ks1)" "0 < d" "ks1 = ks\<lparr>open_fds := d # open_fds ks\<rparr>"
    using assms(1,2) lowest_free_fresh [of "open_fds ks"] lowest_free_nonneg [of "open_fds ks"]
    by (force simp: fd_open_def Let_def order_less_le)
  moreover obtain e ks2 where e: "fd_open ks1 = (e, ks2)" "0 < e" "ks2 = ks1\<lparr>open_fds := e # open_fds ks1\<rparr>"
    using assms(1,2) d(3) lowest_free_fresh [of "open_fds ks1"] lowest_free_nonneg [of "open_fds ks1"]
    by (force simp: fd_open_def Let_def order_less_le)
  moreover obtain c kc1 where c: "fd_open kc = (c, kc1)" "0 < c" "kc1 = kc\<lparr>open_fds := c # open_fds kc\<rparr>"
    using assms(3,4) lowest_free_fresh [of "open_fds kc"] lowest_free_nonneg [of "open_fds kc"]
    by (force simp: fd_open_def Let_def order_less_le)
  moreover have "closesocket d (closesocket e ks2) = ks" "closesocket c kc1 = kc"
    using d e c by (simp_all add: closesocket_def)
  ultimately have server: "server_main so ks = cbind (put_cells 0 (take 63 (take n (hello_server @ [0]))) (unset 64)) (\<lambda>buf.
      cbind (cell_string buf) (\<lambda>text. Inr (Some text, Some (hello_client @ [0]), 0, ks)))"
    and client: "sockets_client_main co kc = cbind (put_cells 0 (take 63 (take m (hello_client @ [0]))) (unset 64)) (\<lambda>buf.
      cbind (cell_string buf) (\<lambda>text. Inr (Some text, Some (hello_server @ [0]), int (length (take 63 (take m (hello_client @ [0])))), kc)))"
    using assms(5-13) hello_texts
    by (simp_all add: server_main_def sockets_client_main_def server_create_socket_def client_create_socket_def INVALID_SOCKET_def
        SOCKET_ERROR_def DEFAULT_PORT_def ip_addr_def greeting_string)
  from server have "server_main so ks = (if n = 14 then Inr (Some hello_server, Some (hello_client @ [0]), 0, ks) else Inl Undefined)"
    using assms(14) hello_texts by (subst (asm) received_piece) simp_all
  moreover from client have "sockets_client_main co kc = (if m = 14 then Inr (Some hello_client, Some (hello_server @ [0]), 14, kc) else Inl Undefined)"
    using assms(15) hello_texts by (subst (asm) received_piece) simp_all
  ultimately show ?thesis ..
qed

definition demo_host :: kernel where
  "demo_host = \<lparr>open_fds = [2, 1, 0], max_fds = 16, ifaces = \<lambda>_. None, bind_ok = \<lambda>_. True\<rparr>"

theorem sockets_session_witness:
  "sockets_client_main \<lparr>connect_ok = \<lambda>_ _. True, client_recv = Some (take 14 (hello_client @ [0])), client_send = True\<rparr> demo_host =
     Inr (Some hello_client, Some (hello_server @ [0]), 14, demo_host)"
proof -
  let ?so = "\<lparr>setsockopt_ok = True, port_free = \<lambda>_. True, listen_ok = True, accept_ok = True,
     server_recv = Some (take 14 (hello_server @ [0])), server_send = True\<rparr>"
  let ?co = "\<lparr>connect_ok = \<lambda>_ _. True, client_recv = Some (take 14 (hello_client @ [0])), client_send = True\<rparr>"
  show ?thesis
    using sockets_session [of demo_host demo_host ?so ?co 14 14] by (simp add: demo_host_def)
qed

text \<open>In a process without descriptor 0 the socket gets this number, and is not closed in the end.\<close>

lemma socket_0_leaks:
  assumes "0 \<notin> set (open_fds k)" "length (open_fds k) < max_fds k" "\<not> connect_ok co 0x0100007F 7788"
  shows "sockets_client_main co k = Inr (None, None, - 1, k\<lparr>open_fds := 0 # open_fds k\<rparr>)"
proof -
  have "lowest_free (open_fds k) = 0"
    using assms(1) by (simp add: lowest_free_def upt_conv_Cons del: upt_Suc)
  then show ?thesis
    using assms by (simp add: sockets_client_main_def client_create_socket_def fd_open_def INVALID_SOCKET_def DEFAULT_PORT_def ip_addr_def
        closesocket_def Let_def)
qed

end
