(* ===== verification/EpollClient.thy ===== *)
theory EpollClient
  imports Locals
begin

text \<open>
  \<open>epollDemo/epoll_client.c\<close>: the client of the echo server, which waits for its standard input and for the connection. A
  \<open>turn\<close> is what one call of \<open>select\<close> and the calls after it give: nothing when it fails, else what \<open>read\<close> returns if the
  connection is ready (\<open>None\<close> for -1), and whether the input is ready. \<open>client\<close> has the input still to come, the bytes
  written to the standard output with \<open>write\<close>, and those sent. What \<open>printf\<close> writes is dropped.
\<close>

section \<open>The program\<close>

definition CLIENT_MAXLINE :: nat where
  "CLIENT_MAXLINE = 1024"

definition SERV_PORT :: u16 where
  "SERV_PORT = 6000"

definition EXIT_FAILURE :: int where
  "EXIT_FAILURE = 1"

record turn =
  from_server :: "bytes option option"
  input_ready :: bool

record client =
  input :: bytes
  shown :: bytes
  sent :: bytes

datatype ending = Returned | Exited int

text \<open>The part for the connection; \<open>True\<close> is the \<open>break\<close>.\<close>

definition take_reply :: "bytes option \<Rightarrow> client \<Rightarrow> (bool \<times> client) cres" where
  "take_reply r c =
     (case r of
        None \<Rightarrow> Inr (True, c)
      | Some d \<Rightarrow>
          if d = [] then Inr (True, c)
          else cbind (memcpy_at (replicate CLIENT_MAXLINE 0) 0 d 0 (length d)) (\<lambda>recv.
               cbind (strlen recv) (\<lambda>lens.
               cbind (put_byte recv lens 0) (\<lambda>recv.
                 Inr (False, c\<lparr>shown := shown c @ recv\<rparr>)))))"

text \<open>The part for the input. The array holds the zeros of \<open>memset\<close>, so all its cells are set.\<close>

definition text_of :: "cells \<Rightarrow> bytes" where
  "text_of cs = map (\<lambda>x. case x of None \<Rightarrow> 0 | Some b \<Rightarrow> b) cs"

definition send_line :: "client \<Rightarrow> (ending option \<times> client) cres" where
  "send_line c =
     cbind (fgets (int CLIENT_MAXLINE) (replicate CLIENT_MAXLINE (Some 0)) (input c)) (\<lambda>r.
       case r of
         None \<Rightarrow> Inr (Some (Exited EXIT_FAILURE), c)
       | Some (cs, rest) \<Rightarrow>
           let send = text_of cs; c = c\<lparr>input := rest\<rparr>
           in cbind (strlen send) (\<lambda>lens.
              if lens = 0 then Inl OutOfBounds
              else cbind (put_byte send (lens - 1) 0) (\<lambda>send.
                if c_str send = [0x71] then Inr (Some Returned, c)
                else Inr (None, c\<lparr>sent := sent c @ c_str send\<rparr>))))"

text \<open>The loop, for as many turns as there are.\<close>

fun send_and_recv :: "turn option list \<Rightarrow> client \<Rightarrow> (ending option \<times> client) cres" where
  "send_and_recv [] c = Inr (None, c)"
| "send_and_recv (None # ts) c = Inr (Some (Exited EXIT_FAILURE), c)"
| "send_and_recv (Some t # ts) c =
     cbind (case from_server t of None \<Rightarrow> Inr (False, c) | Some r \<Rightarrow> take_reply r c) (\<lambda>(stop, c).
       if stop then Inr (Some Returned, c)
       else cbind (if input_ready t then send_line c else Inr (None, c)) (\<lambda>(e, c).
         case e of None \<Rightarrow> send_and_recv ts c | Some _ \<Rightarrow> Inr (e, c)))"

text \<open>
  \<open>main\<close>: the exit status once the loop has ended. The result of \<open>inet_pton\<close> is dropped; \<open>connect_ok\<close> is told the address
  it gives, 0 for a text that is none, and the port.
\<close>

record network =
  socket_ok :: bool
  inet_pton :: "bytes \<Rightarrow> u32 option"
  connect_ok :: "u32 \<Rightarrow> u16 \<Rightarrow> bool"

definition epoll_client_main :: "bytes list \<Rightarrow> network \<Rightarrow> turn option list \<Rightarrow> bytes \<Rightarrow> (int option \<times> client) cres" where
  "epoll_client_main argv w ts inp =
     (let c = \<lparr>input = inp, shown = [], sent = []\<rparr>
      in if length argv \<noteq> 2 then Inr (Some EXIT_FAILURE, c)
         else if \<not> socket_ok w then Inr (Some EXIT_FAILURE, c)
         else if \<not> connect_ok w (case inet_pton w (argv ! 1) of None \<Rightarrow> 0 | Some a \<Rightarrow> a) SERV_PORT then Inr (Some EXIT_FAILURE, c)
         else cbind (send_and_recv ts c) (\<lambda>(e, c).
           Inr (case e of None \<Rightarrow> None | Some Returned \<Rightarrow> Some 0 | Some (Exited s) \<Rightarrow> Some s, c)))"

section \<open>A session\<close>

text \<open>Replies that the program can show: shorter than its array, or with a zero in it.\<close>

definition good_reply :: "bytes \<Rightarrow> bool" where
  "good_reply d \<longleftrightarrow> d \<noteq> [] \<and> length d \<le> CLIENT_MAXLINE \<and> (length d = CLIENT_MAXLINE \<longrightarrow> terminated d)"

definition padded :: "bytes \<Rightarrow> bytes" where
  "padded d = d @ replicate (CLIENT_MAXLINE - length d) 0"

definition good_turn :: "turn \<Rightarrow> bool" where
  "good_turn t \<longleftrightarrow> (case from_server t of None \<Rightarrow> True | Some r \<Rightarrow> (case r of None \<Rightarrow> False | Some d \<Rightarrow> good_reply d))"

definition reply_of :: "turn \<Rightarrow> bytes" where
  "reply_of t = (case from_server t of Some (Some d) \<Rightarrow> padded d | _ \<Rightarrow> [])"

definition good_line :: "bytes \<Rightarrow> bool" where
  "good_line l \<longleftrightarrow> nul_free l \<and> 0x0A \<notin> set l \<and> length l + 2 \<le> CLIENT_MAXLINE"

lemma take_reply_shown:
  assumes "good_reply d"
  shows "take_reply (Some d) c = Inr (False, c\<lparr>shown := shown c @ padded d\<rparr>)"
proof -
  have copied: "memcpy_at (replicate CLIENT_MAXLINE 0) 0 d 0 (length d) = Inr (padded d)"
    using assms by (simp add: good_reply_def memcpy_at_def overlay_def padded_def)
  have ends: "terminated (padded d)"
    using assms by (cases "length d = CLIENT_MAXLINE") (auto simp: good_reply_def padded_def terminated_def)
  then have "length (c_str (padded d)) < length (padded d)" "padded d ! length (c_str (padded d)) = 0"
    by (simp_all add: c_str_end)
  then have "put_byte (padded d) (length (c_str (padded d))) 0 = Inr (padded d)"
    by (simp add: put_byte_eq_Inr list_update_same_conv)
  with copied ends assms show ?thesis
    by (simp add: take_reply_def good_reply_def strlen_def)
qed

lemma text_of_simps [simp]:
  "text_of [] = []" "text_of (Some b # cs) = b # text_of cs" "text_of (cs @ ds) = text_of cs @ text_of ds"
  "text_of (map Some s) = s" "text_of (replicate n (Some b)) = replicate n b"
  by (simp_all add: text_of_def comp_def)

lemma send_line_sent:
  assumes "good_line l" "input c = l @ 0x0A # rest"
  shows "send_line c = Inr (if l = [0x71] then (Some Returned, c\<lparr>input := rest\<rparr>) else (None, c\<lparr>input := rest, sent := sent c @ l\<rparr>))"
proof -
  let ?zeros = "replicate (CLIENT_MAXLINE - (length l + 2)) 0"
  have l: "nul_free l" "0x0A \<notin> set l" "length l + 2 \<le> CLIENT_MAXLINE"
    using assms(1) by (simp_all add: good_line_def)
  have line: "line_of (nat (int CLIENT_MAXLINE) - 1) (l @ 0x0A # rest) = l @ [0x0A]"
    using l by (intro line_of_whole) auto
  have filled: "fgets (int CLIENT_MAXLINE) (replicate CLIENT_MAXLINE (Some 0)) (input c) = Inr (Some (map Some (l @ 0x0A # 0 # ?zeros), rest))"
    using l(3) unfolding fgets_def assms(2) line Let_def by (simp add: put_cells_def CLIENT_MAXLINE_def)
  have "nul_free (l @ [0x0A])"
    using l(1) by (simp add: nul_free_def)
  then have len: "strlen (l @ 0x0A # 0 # ?zeros) = Inr (Suc (length l))"
    using strlen_nul_free [of "l @ [0x0A]" ?zeros] by simp
  have cut: "put_byte (l @ 0x0A # 0 # ?zeros) (length l) 0 = Inr (l @ 0 # 0 # ?zeros)"
    by (simp add: put_byte_def)
  show ?thesis
    using len cut by (simp add: send_line_def filled Let_def c_str_nul_free [OF l(1)])
qed

lemma take_reply_turn:
  "good_turn t \<Longrightarrow> (case from_server t of None \<Rightarrow> Inr (False, c) | Some r \<Rightarrow> take_reply r c) = Inr (False, c\<lparr>shown := shown c @ reply_of t\<rparr>)"
  by (auto simp: good_turn_def reply_of_def take_reply_shown split: option.splits)

section \<open>Properties\<close>

text \<open>
  As long as the turns go well, the lines that are read are sent one after the other, without their newlines, and every
  reply is shown in 1024 bytes, filled with zeros.
\<close>

lemma send_and_recv_session:
  assumes "\<forall>t \<in> set ts. good_turn t" "\<forall>l \<in> set ls. good_line l \<and> l \<noteq> [0x71]" "length ls = length (filter input_ready ts)"
    and "input c = concat (map (\<lambda>l. l @ [0x0A]) ls) @ rest"
  shows "send_and_recv (map Some ts @ us) c =
    send_and_recv us (c\<lparr>input := rest, sent := sent c @ concat ls, shown := shown c @ concat (map reply_of ts)\<rparr>)"
  using assms
proof (induction ts arbitrary: ls c)
  case (Cons t ts)
  show ?case
  proof (cases "input_ready t")
    case False
    with Cons.prems Cons.IH [of ls "c\<lparr>shown := shown c @ reply_of t\<rparr>"] show ?thesis
      by (simp add: take_reply_turn)
  next
    case True
    with Cons.prems(3) obtain l ls' where ls: "ls = l # ls'" "length ls' = length (filter input_ready ts)"
      by (cases ls) auto
    let ?c = "c\<lparr>shown := shown c @ reply_of t\<rparr>"
    have "send_line ?c = Inr (None, ?c\<lparr>input := concat (map (\<lambda>l. l @ [0x0A]) ls') @ rest, sent := sent c @ l\<rparr>)"
      using Cons.prems ls by (subst send_line_sent [of l]) auto
    with True Cons.prems ls Cons.IH [of ls' "?c\<lparr>input := concat (map (\<lambda>l. l @ [0x0A]) ls') @ rest, sent := sent c @ l\<rparr>"]
    show ?thesis
      by (simp add: take_reply_turn)
  qed
next
  case Nil
  then show ?case by (cases c) simp
qed

text \<open>A line with a single q ends the program with 0; the end of the input, or of the connection, ends it too.\<close>

lemma epoll_client_main_quits:
  assumes "\<forall>t \<in> set ts. good_turn t" "\<forall>l \<in> set ls. good_line l \<and> l \<noteq> [0x71]" "length ls = length (filter input_ready ts)"
    and "socket_ok w" "inet_pton w ip = Some a" "connect_ok w a 6000" "good_turn t" "input_ready t"
  shows "epoll_client_main [prog, ip] w (map Some ts @ Some t # us) (concat (map (\<lambda>l. l @ [0x0A]) ls) @ 0x71 # 0x0A # rest) =
    Inr (Some 0, \<lparr>input = rest, shown = concat (map reply_of ts) @ reply_of t, sent = concat ls\<rparr>)"
proof -
  have q: "good_line [0x71]"
    by (simp add: good_line_def nul_free_def CLIENT_MAXLINE_def)
  let ?c = "\<lparr>input = concat (map (\<lambda>l. l @ [0x0A]) ls) @ 0x71 # 0x0A # rest, shown = [], sent = []\<rparr>"
  have "send_and_recv (map Some ts @ Some t # us) ?c =
      Inr (Some Returned, \<lparr>input = rest, shown = concat (map reply_of ts) @ reply_of t, sent = concat ls\<rparr>)"
    using assms(7,8) send_line_sent [OF q]
    by (subst send_and_recv_session [OF assms(1-3)]) (auto simp: take_reply_turn)
  then show ?thesis
    using assms(4-6) by (simp add: epoll_client_main_def SERV_PORT_def)
qed

lemma epoll_client_main_ends:
  assumes "\<forall>t \<in> set ts. good_turn t" "\<forall>l \<in> set ls. good_line l \<and> l \<noteq> [0x71]" "length ls = length (filter input_ready ts)"
    and "socket_ok w" "inet_pton w ip = Some a" "connect_ok w a 6000"
  shows "good_turn t \<Longrightarrow> input_ready t \<Longrightarrow>
      epoll_client_main [prog, ip] w (map Some ts @ Some t # us) (concat (map (\<lambda>l. l @ [0x0A]) ls)) =
        Inr (Some 1, \<lparr>input = [], shown = concat (map reply_of ts) @ reply_of t, sent = concat ls\<rparr>)"
    and "from_server t = Some r \<Longrightarrow> r = None \<or> r = Some [] \<Longrightarrow>
      epoll_client_main [prog, ip] w (map Some ts @ Some t # us) (concat (map (\<lambda>l. l @ [0x0A]) ls) @ rest) =
        Inr (Some 0, \<lparr>input = rest, shown = concat (map reply_of ts), sent = concat ls\<rparr>)"
proof -
  have eof: "send_line c = Inr (Some (Exited 1), c)" if "input c = []" for c
    using that by (simp add: send_line_def fgets_def CLIENT_MAXLINE_def EXIT_FAILURE_def)
  note run = send_and_recv_session [OF assms(1-3)]
  show "epoll_client_main [prog, ip] w (map Some ts @ Some t # us) (concat (map (\<lambda>l. l @ [0x0A]) ls)) =
      Inr (Some 1, \<lparr>input = [], shown = concat (map reply_of ts) @ reply_of t, sent = concat ls\<rparr>)"
    if "good_turn t" "input_ready t"
    using assms(4-6) that eof by (simp add: epoll_client_main_def SERV_PORT_def run [where rest = "[]"] take_reply_turn)
  show "epoll_client_main [prog, ip] w (map Some ts @ Some t # us) (concat (map (\<lambda>l. l @ [0x0A]) ls) @ rest) =
      Inr (Some 0, \<lparr>input = rest, shown = concat (map reply_of ts), sent = concat ls\<rparr>)"
    if "from_server t = Some r" "r = None \<or> r = Some []"
    using assms(4-6) that by (auto simp: epoll_client_main_def SERV_PORT_def run [where rest = rest] take_reply_def)
qed

text \<open>
  A full reply without a zero byte is read beyond its end; a line that starts with a zero byte is written before its start;
  and a line of more than 1022 bytes, or one that ends with the input, loses its last byte.
\<close>

lemma long_reply: "length d = CLIENT_MAXLINE \<Longrightarrow> nul_free d \<Longrightarrow> take_reply (Some d) c = Inl Unterminated"
  by (auto simp: take_reply_def memcpy_at_def overlay_def strlen_def terminated_def nul_free_def CLIENT_MAXLINE_def)

lemma zero_line:
  assumes "input c = 0 # 0x0A # rest"
  shows "send_line c = Inl OutOfBounds"
proof -
  have "line_of 1023 (0 # 0x0A # rest) = [0, 0x0A]"
    using line_of_whole [of "[0]" 1023 rest] by simp
  then show ?thesis
    using assms by (simp add: send_line_def fgets_def put_cells_def CLIENT_MAXLINE_def text_of_def strlen_def terminated_def c_str_def Let_def)
qed

lemma long_line:
  assumes "nul_free l" "0x0A \<notin> set l" "length l = 1022" "input c = l @ x # rest" "x \<noteq> 0" "x \<noteq> 0x0A" "l \<noteq> [0x71]"
  shows "\<exists>c'. send_line c = Inr (None, c') \<and> sent c' = sent c @ l \<and> input c' = rest"
proof -
  have "line_of (length (l @ [x])) ((l @ [x]) @ rest) = l @ [x]"
    using assms(2,6) by (intro line_of_cut) auto
  then have line: "line_of 1023 (l @ x # rest) = l @ [x]"
    using assms(3) by simp
  have filled: "fgets (int CLIENT_MAXLINE) (replicate CLIENT_MAXLINE (Some 0)) (input c) = Inr (Some (map Some (l @ [x, 0]), rest))"
    using assms(3) by (simp add: fgets_def assms(4) line Let_def put_cells_def CLIENT_MAXLINE_def)
  have "nul_free (l @ [x])"
    using assms(1,5) by (simp add: nul_free_def)
  then have len: "strlen (l @ [x, 0]) = Inr (Suc (length l))"
    using strlen_nul_free [of "l @ [x]" "[]"] by simp
  have cut: "put_byte (l @ [x, 0]) (length l) 0 = Inr (l @ [0, 0])"
    by (simp add: put_byte_def)
  show ?thesis
    using len cut by (simp add: send_line_def filled Let_def c_str_nul_free [OF assms(1)] assms(7))
qed

end
