(* ===== verification/Dispatch.thy ===== *)
theory Dispatch
  imports Prelude
begin

text \<open>
  \<open>dispatch/dispatch_test.c\<close>: a table of names and functions, and a program that calls the one it is told. An example is what it
  prints with its result.
\<close>

definition example1 :: "bytes list \<Rightarrow> bytes \<times> int" where "example1 argv = (map of_char ''example1!'', 0)"
definition example2 :: "bytes list \<Rightarrow> bytes \<times> int" where "example2 argv = (map of_char ''example2!'', 0)"
definition example3 :: "bytes list \<Rightarrow> bytes \<times> int" where "example3 argv = (map of_char ''example3!'', 0)"
definition example4 :: "bytes list \<Rightarrow> bytes \<times> int" where "example4 argv = (map of_char ''example4!'', 0)"
definition example5 :: "bytes list \<Rightarrow> bytes \<times> int" where "example5 argv = (map of_char ''example5!'', 0)"
definition example6 :: "bytes list \<Rightarrow> bytes \<times> int" where "example6 argv = (map of_char ''example6!'', 0)"

record test_dispatch_t =
  test_name :: bytes
  func :: "bytes list \<Rightarrow> bytes \<times> int"

text \<open>A name as its array of 10 bytes holds it.\<close>

definition name_array :: "string \<Rightarrow> bytes" where
  "name_array s = map of_char s @ replicate (10 - length s) 0"

definition test_dispatch :: "test_dispatch_t list" where
  "test_dispatch =
     [\<lparr>test_name = name_array ''test1'', func = example1\<rparr>,
      \<lparr>test_name = name_array ''test2'', func = example2\<rparr>,
      \<lparr>test_name = name_array ''test3'', func = example3\<rparr>,
      \<lparr>test_name = name_array ''test4'', func = example4\<rparr>,
      \<lparr>test_name = name_array ''test5'', func = example5\<rparr>,
      \<lparr>test_name = name_array ''test6'', func = example6\<rparr>]"

text \<open>Whether \<open>strncmp(a, b, n)\<close> is 0.\<close>

fun strncmp_0 :: "nat \<Rightarrow> bytes \<Rightarrow> bytes \<Rightarrow> bool cres" where
  "strncmp_0 0 a b = Inr True"
| "strncmp_0 (Suc n) (x # a) (y # b) = (if x \<noteq> y then Inr False else if x = 0 then Inr True else strncmp_0 n a b)"
| "strncmp_0 (Suc n) a b = Inl OutOfBounds"

text \<open>The loop over the table, and \<open>main\<close>: what is printed and the exit status.\<close>

fun dispatch_loop :: "test_dispatch_t list \<Rightarrow> bytes list \<Rightarrow> (bytes \<times> int) cres" where
  "dispatch_loop [] argv = Inr (map of_char ''invalid arguments!'', - 1)"
| "dispatch_loop (t # ts) argv =
     cbind (strncmp_0 9 (argv ! 1) (test_name t)) (\<lambda>eq.
       if eq then Inr (fst (func t (tl argv)), 0) else dispatch_loop ts argv)"

definition dispatch_main :: "bytes list \<Rightarrow> (bytes \<times> int) cres" where
  "dispatch_main argv =
     (if length argv < 2 then Inr (map of_char ''invalid arguments!'', - 1) else dispatch_loop test_dispatch argv)"

section \<open>What is called\<close>

lemma strncmp_0_strings:
  "nul_free s \<Longrightarrow> nul_free t \<Longrightarrow> length t < n \<Longrightarrow> strncmp_0 n (s @ [0]) (t @ 0 # rest) = Inr (s = t)"
proof (induction t arbitrary: s n)
  case Nil
  then show ?case by (cases s; cases n) auto
next
  case (Cons y t)
  then show ?case by (cases s; cases n) auto
qed

lemma dispatch_loop_finds:
  assumes "nul_free s" "argv ! 1 = s @ [0]" "\<forall>(nm, f) \<in> set tests. length nm < 9 \<and> nul_free (map of_char nm)"
  shows "dispatch_loop (map (\<lambda>(nm, f). \<lparr>test_name = name_array nm, func = f\<rparr>) tests) argv =
    Inr (case find (\<lambda>(nm, f). map of_char nm = s) tests of
           None \<Rightarrow> (map of_char ''invalid arguments!'', - 1) | Some (nm, f) \<Rightarrow> (fst (f (tl argv)), 0))"
  using assms(3)
proof (induction tests)
  case (Cons p tests)
  obtain nm f where p: "p = (nm, f)" by (cases p)
  have "name_array nm = map of_char nm @ 0 # replicate (9 - length nm) 0"
    using Cons.prems p by (auto simp: name_array_def Suc_diff_le simp flip: replicate_Suc)
  then have "strncmp_0 9 (argv ! 1) (name_array nm) = Inr (s = map of_char nm)"
    using Cons.prems p assms(1,2) by (auto intro!: strncmp_0_strings)
  then show ?case
    using Cons p by auto
qed simp

text \<open>The name of a test has to be given in full; any other word, and no word, ends with -1.\<close>

lemma dispatch_main_calls:
  assumes "nul_free s"
  shows "dispatch_main (prog # (s @ [0]) # rest) =
    Inr (if s = map of_char ''test1'' then (map of_char ''example1!'', 0)
         else if s = map of_char ''test2'' then (map of_char ''example2!'', 0)
         else if s = map of_char ''test3'' then (map of_char ''example3!'', 0)
         else if s = map of_char ''test4'' then (map of_char ''example4!'', 0)
         else if s = map of_char ''test5'' then (map of_char ''example5!'', 0)
         else if s = map of_char ''test6'' then (map of_char ''example6!'', 0)
         else (map of_char ''invalid arguments!'', - 1))"
proof -
  let ?tests = "[(''test1'', example1), (''test2'', example2), (''test3'', example3), (''test4'', example4),
    (''test5'', example5), (''test6'', example6)]"
  have "test_dispatch = map (\<lambda>(nm, f). \<lparr>test_name = name_array nm, func = f\<rparr>) ?tests"
    by (simp add: test_dispatch_def)
  moreover have "\<forall>(nm, f) \<in> set ?tests. length nm < 9 \<and> nul_free (map of_char nm)"
    by (simp add: nul_free_def)
  ultimately show ?thesis
    using dispatch_loop_finds [of s "prog # (s @ [0]) # rest" ?tests] assms
    by (simp add: dispatch_main_def example1_def example2_def example3_def example4_def example5_def example6_def eq_commute)
qed

end
