(* ===== verification/Realloc.thy ===== *)
theory Realloc
  imports Numbers
begin

text \<open>
  \<open>realloc/realloc_test.c\<close>: doubling a block through a pointer to a pointer. The pointer \<open>addr\<close> of \<open>main\<close> is a place: the
  variable \<open>p\<close> of \<open>main\<close>, or the variable \<open>np\<close> of a call of \<open>realloc_memory\<close>, which ends with the call. \<open>blocks\<close> are the live
  blocks with their sizes. The addresses that are printed are dropped.
\<close>

section \<open>The program\<close>

datatype place = Main_p | Frame_np

record store =
  blocks :: "nat \<rightharpoonup> u64"
  fresh_block :: nat
  main_p :: "nat option"
  frame_np :: "nat option option"

text \<open>What a place holds: that of an ended call holds nothing that may be read.\<close>

definition load_place :: "place \<Rightarrow> store \<Rightarrow> nat option cres" where
  "load_place l s =
     (case l of Main_p \<Rightarrow> Inr (main_p s)
      | Frame_np \<Rightarrow> (case frame_np s of None \<Rightarrow> Inl UseAfterFree | Some v \<Rightarrow> Inr v))"

definition new_block :: "bool \<Rightarrow> u64 \<Rightarrow> store \<Rightarrow> nat option \<times> store" where
  "new_block ok n s =
     (if ok then (Some (fresh_block s), s\<lparr>blocks := (blocks s)(fresh_block s \<mapsto> n), fresh_block := Suc (fresh_block s)\<rparr>)
      else (None, s))"

definition free_block :: "nat option \<Rightarrow> store \<Rightarrow> store cres" where
  "free_block b s =
     (case b of None \<Rightarrow> Inr s
      | Some a \<Rightarrow> if blocks s a = None then Inl UseAfterFree else Inr (s\<lparr>blocks := (blocks s)(a := None)\<rparr>))"

text \<open>\<open>realloc\<close> of the GNU library: with the size 0 the block is freed and the result is NULL.\<close>

definition realloc_block :: "bool \<Rightarrow> nat option \<Rightarrow> u64 \<Rightarrow> store \<Rightarrow> (nat option \<times> store) cres" where
  "realloc_block ok old n s =
     (case old of None \<Rightarrow> Inr (new_block ok n s)
      | Some a \<Rightarrow>
          if blocks s a = None then Inl UseAfterFree
          else if n = 0 then cbind (free_block old s) (\<lambda>s. Inr (None, s))
          else case new_block ok n s of
              (None, s) \<Rightarrow> Inr (None, s)
            | (Some b, s) \<Rightarrow> cbind (free_block old s) (\<lambda>s. Inr (Some b, s)))"

definition realloc_memory :: "bool \<Rightarrow> u64 \<Rightarrow> place \<Rightarrow> store \<Rightarrow> (int \<times> place \<times> store) cres" where
  "realloc_memory ok sz pointer s =
     cbind (load_place pointer s) (\<lambda>oldPointer.
     cbind (realloc_block ok oldPointer (sz * 2) s) (\<lambda>(np, s).
     case np of
       None \<Rightarrow> Inr (- 1, pointer, s\<lparr>frame_np := None\<rparr>)
     | Some b \<Rightarrow>
         let s = s\<lparr>frame_np := Some (Some b)\<rparr>; pointer = Frame_np
         in cbind (load_place pointer s) (\<lambda>_. Inr (0, pointer, s\<lparr>frame_np := None\<rparr>))))"

definition empty_store :: store where
  "empty_store = \<lparr>blocks = Map.empty, fresh_block = 0, main_p = None, frame_np = None\<rparr>"

definition realloc_main :: "bool \<Rightarrow> bool \<Rightarrow> bytes list \<Rightarrow> (int \<times> store) cres" where
  "realloc_main got_block realloc_ok argv =
     (let len = (if length argv < 2 then 128 else strtoul_10 (argv ! 1))
      in case new_block got_block len empty_store of (p, s) \<Rightarrow>
        let s = s\<lparr>main_p := p\<rparr>
        in if p = None then Inr (- 1, s)
           else let addr = Main_p
                in cbind (realloc_memory realloc_ok len addr s) (\<lambda>(ret, addr, s).
                   cbind (load_place addr s) (\<lambda>b.
                   cbind (free_block b s) (\<lambda>s. Inr (ret, s)))))"

section \<open>What becomes of the block\<close>

text \<open>
  When \<open>realloc\<close> succeeds, \<open>main\<close> reads the variable of the call that has ended, whatever the length. When it fails, the
  block is given back once and the result is -1, unless the doubled length is 0 modulo 2^64: then \<open>realloc\<close> has
  given it back already.
\<close>

lemma realloc_main_cases:
  assumes "len = (if length argv < 2 then 128 else strtoul_10 (argv ! 1))"
  shows "len * 2 \<noteq> 0 \<Longrightarrow> realloc_main True True argv = Inl UseAfterFree"
    and "len * 2 \<noteq> 0 \<Longrightarrow> \<exists>s. realloc_main True False argv = Inr (- 1, s) \<and> blocks s = Map.empty"
    and "len * 2 = 0 \<Longrightarrow> realloc_main True ok argv = Inl UseAfterFree"
    and "\<exists>s. realloc_main False ok argv = Inr (- 1, s) \<and> blocks s = Map.empty"
  by (auto simp: realloc_main_def realloc_memory_def new_block_def realloc_block_def free_block_def load_place_def
      empty_store_def Let_def assms [symmetric])

lemma realloc_main_default: "realloc_main True True [prog] = Inl UseAfterFree"
  by (rule realloc_main_cases(1) [OF refl]) simp

end
