(* ===== verification/BitField.thy ===== *)
theory BitField
  imports Prelude
begin

text \<open>
  \<open>bitField/bitField.c\<close>: a structure of bit fields in 64 bits, set through its members and read as a whole. The fields lie
  from the lowest bit on, as GCC lays them out on a little-endian machine; an object of the structure is its 64 bits.
\<close>

section \<open>The structure\<close>

type_synonym alpha_t = u64

text \<open>The fields with their first bit and their width; the rest is padding.\<close>

datatype alpha = A | B | C | D | E | F | G

fun first_bit :: "alpha \<Rightarrow> nat" where
  "first_bit A = 0"
| "first_bit B = 16"
| "first_bit C = 32"
| "first_bit D = 36"
| "first_bit E = 44"
| "first_bit F = 61"
| "first_bit G = 62"

fun width :: "alpha \<Rightarrow> nat" where
  "width A = 14"
| "width B = 14"
| "width C = 4"
| "width D = 4"
| "width E = 17"
| "width F = 1"
| "width G = 2"

definition get_field :: "alpha \<Rightarrow> alpha_t \<Rightarrow> u64" where
  "get_field f x = take_bit (width f) (drop_bit (first_bit f) x)"

definition set_field :: "alpha \<Rightarrow> u64 \<Rightarrow> alpha_t \<Rightarrow> alpha_t" where
  "set_field f v x =
     (x AND NOT (push_bit (first_bit f) (mask (width f)))) OR push_bit (first_bit f) (take_bit (width f) v)"

text \<open>The program: what is printed as \<open>tmp\<close>.\<close>

definition bitfield_main :: u64 where
  "bitfield_main =
     (let abcd = 0;
          abcd = set_field F 1 abcd;
          abcd = set_field G 2 abcd;
          abcd = set_field A 0x1234 abcd
      in abcd)"

section \<open>The fields\<close>

definition in_field :: "alpha \<Rightarrow> nat \<Rightarrow> bool" where
  "in_field f n \<longleftrightarrow> first_bit f \<le> n \<and> n < first_bit f + width f"

lemma field_in_word: "first_bit f + width f \<le> 64"
  by (cases f) simp_all

lemma fields_disjoint: "in_field f n \<Longrightarrow> in_field g n \<Longrightarrow> f = g"
  by (cases f; cases g) (auto simp: in_field_def)

lemma bit_set_field:
  "bit (set_field f v x) n \<longleftrightarrow> (if in_field f n then bit v (n - first_bit f) else bit x n)"
proof (cases "n < 64")
  case True
  then show ?thesis
    by (auto simp: set_field_def in_field_def bit_simps)
next
  case False
  then have "\<not> in_field f n"
    using field_in_word [of f] by (simp add: in_field_def)
  with False show ?thesis
    by (simp add: bit_word.rep_eq)
qed

lemma bit_get_field: "bit (get_field f x) n \<longleftrightarrow> n < width f \<and> bit x (first_bit f + n)"
  by (simp add: get_field_def bit_simps)

text \<open>A field reads as what was stored in it, cut to its width; no other field changes.\<close>

lemma get_set_field: "get_field f (set_field f v x) = take_bit (width f) v"
  by (rule bit_word_eqI) (simp add: bit_get_field bit_set_field in_field_def bit_simps)

lemma get_set_other:
  assumes "f \<noteq> g"
  shows "get_field g (set_field f v x) = get_field g x"
proof (rule bit_word_eqI)
  fix n
  have "n < width g \<Longrightarrow> \<not> in_field f (first_bit g + n)"
    using fields_disjoint [of f "first_bit g + n" g] assms by (auto simp: in_field_def)
  then show "bit (get_field g (set_field f v x)) n \<longleftrightarrow> bit (get_field g x) n"
    by (auto simp: bit_get_field bit_set_field)
qed

lemma set_fields_commute: "f \<noteq> g \<Longrightarrow> set_field f v (set_field g w x) = set_field g w (set_field f v x)"
  by (rule bit_word_eqI) (auto simp: bit_set_field dest: fields_disjoint)

lemma bitfield_main_value: "bitfield_main = 0xA000000000001234"
  by (simp add: bitfield_main_def set_field_def Let_def mask_eq_exp_minus_1)

end
