(* ===== verification/GetoptTest.thy ===== *)
theory GetoptTest
  imports Getopt Numbers
begin

text \<open>
  \<open>getopt4windows/getopt_test.c\<close>: the program that shows how \<open>getopt\<close> is used. Its result is what it prints, the three values or
  the usage text, and the exit status.
\<close>

section \<open>The program\<close>

record test_args =
  mode :: int
  arg_a :: int
  arg_b :: int

datatype test_shown = Usage | Values int int int

definition test_opts :: bytes where
  "test_opts = map of_char ''a:b:m''"

text \<open>The loop: \<open>None\<close> is the exit of the default case. The first argument is fuel.\<close>

fun test_loop :: "nat \<Rightarrow> bytes list \<Rightarrow> getopt_state \<Rightarrow> test_args \<Rightarrow> test_args option cres" where
  "test_loop 0 argv st v = Inl Diverged"
| "test_loop (Suc n) argv st v =
     cbind (getopt argv (z test_opts) st) (\<lambda>(opt, st).
       if opt = - 1 then Inr (Some v)
       else if opt = 0x6D then test_loop n argv st (v\<lparr>mode := 1\<rparr>)
       else if opt = 0x61 then
         (case arg_text argv st of None \<Rightarrow> Inl NullDeref | Some s \<Rightarrow> test_loop n argv st (v\<lparr>arg_a := atoi s\<rparr>))
       else if opt = 0x62 then
         (case arg_text argv st of None \<Rightarrow> Inl NullDeref | Some s \<Rightarrow> test_loop n argv st (v\<lparr>arg_b := atoi s\<rparr>))
       else Inr None)"

definition getopt_test_main :: "nat \<Rightarrow> bytes list \<Rightarrow> (test_shown \<times> int) cres" where
  "getopt_test_main fuel argv =
     cbind (test_loop fuel argv getopt_start \<lparr>mode = 0, arg_a = 0, arg_b = 0\<rparr>) (\<lambda>r.
       case r of
         None \<Rightarrow> Inr (Usage, - 1)
       | Some v \<Rightarrow>
           if mode v \<noteq> 0 \<and> (arg_a v = 0 \<or> arg_b v = 0) then Inr (Usage, - 1)
           else Inr (Values (mode v) (arg_a v) (arg_b v), 0))"

section \<open>What the grammar makes of it\<close>

text \<open>The program on the options a command line has, and the events that can come from its option string.\<close>

fun on_events :: "event list \<Rightarrow> test_args \<Rightarrow> test_args option cres" where
  "on_events [] v = Inr (Some v)"
| "on_events ((opt, _, txt) # es) v =
     (if opt = 0x6D then on_events es (v\<lparr>mode := 1\<rparr>)
      else if opt = 0x61 then (case txt of None \<Rightarrow> Inl NullDeref | Some s \<Rightarrow> on_events es (v\<lparr>arg_a := atoi s\<rparr>))
      else if opt = 0x62 then (case txt of None \<Rightarrow> Inl NullDeref | Some s \<Rightarrow> on_events es (v\<lparr>arg_b := atoi s\<rparr>))
      else Inr None)"

lemma test_loop_events:
  "getopt_loop n argv (z test_opts) st = Inr (es, st') \<Longrightarrow> test_loop n argv st v = on_events es v"
proof (induction n arbitrary: st es v)
  case (Suc n)
  obtain opt st1 where g: "getopt argv (z test_opts) st = Inr (opt, st1)"
    using Suc.prems by (cases "getopt argv (z test_opts) st") (auto simp: getopt_loop.simps)
  show ?case
  proof (cases "opt = - 1")
    case False
    with Suc.prems g obtain es1 where rest: "getopt_loop n argv (z test_opts) st1 = Inr (es1, st')"
      "es = (opt, optopt st1, arg_text argv st1) # es1"
      by (auto simp: getopt_loop.simps cbind_eq_Inr)
    from Suc.IH [OF rest(1)] False show ?thesis
      by (simp add: g rest(2) split: option.split)
  qed (use Suc.prems g in \<open>auto simp: getopt_loop.simps\<close>)
qed simp

lemma getopt_test_grammar:
  assumes "nul_free prog" "list_all nul_free args"
  shows "getopt_test_main (Suc (sum_list (map length args))) (map z (prog # args)) =
    cbind (on_events (fst (words test_opts None args)) \<lparr>mode = 0, arg_a = 0, arg_b = 0\<rparr>) (\<lambda>r.
      case r of
        None \<Rightarrow> Inr (Usage, - 1)
      | Some v \<Rightarrow>
          if mode v \<noteq> 0 \<and> (arg_a v = 0 \<or> arg_b v = 0) then Inr (Usage, - 1)
          else Inr (Values (mode v) (arg_a v) (arg_b v), 0))"
proof -
  have "nul_free test_opts" "0xFF \<notin> set test_opts"
    by (simp_all add: test_opts_def nul_free_def)
  with getopt_loop_delivers(1) [OF assms(1), of test_opts "map z args" getopt_start args None "sum_list (map length args)"] assms(2)
  obtain st where "getopt_loop (Suc (sum_list (map length args))) (map z (prog # args)) (z test_opts) getopt_start =
      Inr (fst (words test_opts None args), st)"
    by (auto simp: at_words_def getopt_start_def arg_text_def delivers_def)
  then show ?thesis
    by (simp only: getopt_test_main_def test_loop_events)
qed

text \<open>
  An option \<open>-m\<close> with a word behind it, as in all five samples of the usage text, ends the options there: nothing
  else is read, and the program shows its usage text.
\<close>

lemma mode_with_a_word:
  assumes "nul_free prog" "list_all nul_free (word # rest)" "take 1 word \<noteq> [0x2D]"
  shows "getopt_test_main (Suc (sum_list (map length ([0x2D, 0x6D] # word # rest)))) (map z (prog # [0x2D, 0x6D] # word # rest)) =
    Inr (Usage, - 1)"
proof -
  have "fst (words test_opts None ([0x2D, 0x6D] # word # rest)) = [(0x6D, 0x6D, None)]"
    using assms(3) by (simp add: opt_kind_def test_opts_def event_def)
  then show ?thesis
    using getopt_test_grammar [of prog "[0x2D, 0x6D] # word # rest"] assms(1,2) by (simp add: nul_free_def)
qed

lemma mode_alone:
  assumes "nul_free prog" "list_all nul_free [x, y]" "atoi x \<noteq> 0" "atoi y \<noteq> 0" "x \<noteq> []" "y \<noteq> []"
  shows "getopt_test_main (Suc (sum_list (map length [[0x2D, 0x6D], [0x2D, 0x61], x, [0x2D, 0x62], y])))
      (map z (prog # [[0x2D, 0x6D], [0x2D, 0x61], x, [0x2D, 0x62], y])) = Inr (Values 1 (atoi x) (atoi y), 0)"
proof -
  have "fst (words test_opts None [[0x2D, 0x6D], [0x2D, 0x61], x, [0x2D, 0x62], y]) =
      [(0x6D, 0x6D, None), (0x61, 0x61, Some x), (0x62, 0x62, Some y)]"
    by (simp add: opt_kind_def test_opts_def event_def)
  then show ?thesis
    using getopt_test_grammar [of prog "[[0x2D, 0x6D], [0x2D, 0x61], x, [0x2D, 0x62], y]"] assms by (simp add: nul_free_def)
qed

end
