(* ===== verification/Array2d.thy ===== *)
theory Array2d
  imports Prelude
begin

text \<open>
  \<open>2d_array/2d_array.c\<close>: two ways to allocate an array of eight rows, a block for every row and one block for all. An address is
  the number of a block with an offset; \<open>live\<close> holds the sizes of the blocks in use. What is printed are the addresses.
\<close>

record blocks =
  live :: "nat \<rightharpoonup> nat"
  next_block :: nat

type_synonym address = "nat \<times> nat"

definition malloc_block :: "bool \<Rightarrow> nat \<Rightarrow> blocks \<Rightarrow> address option \<times> blocks" where
  "malloc_block ok n b =
     (if ok then (Some (next_block b, 0), b\<lparr>live := (live b)(next_block b \<mapsto> n), next_block := Suc (next_block b)\<rparr>) else (None, b))"

definition free_block :: "address option \<Rightarrow> blocks \<Rightarrow> blocks cres" where
  "free_block a b =
     (case a of None \<Rightarrow> Inr b
      | Some (n, off) \<Rightarrow>
          if live b n = None then Inl UseAfterFree
          else if off \<noteq> 0 then Inl Undefined
          else Inr (b\<lparr>live := (live b)(n := None)\<rparr>))"

text \<open>The loops over the rows; \<open>ok i\<close> is whether the allocation of row \<open>i\<close> succeeds.\<close>

definition column :: nat where
  "column = 32"

fun alloc_rows :: "(nat \<Rightarrow> bool) \<Rightarrow> nat list \<Rightarrow> blocks \<Rightarrow> address option list \<times> blocks" where
  "alloc_rows ok [] b = ([], b)"
| "alloc_rows ok (i # is) b =
     (case malloc_block (ok i) column b of (a, b) \<Rightarrow> case alloc_rows ok is b of (as, b) \<Rightarrow> (a # as, b))"

fun free_rows :: "address option list \<Rightarrow> blocks \<Rightarrow> blocks cres" where
  "free_rows [] b = Inr b"
| "free_rows (a # as) b = cbind (free_block a b) (free_rows as)"

text \<open>
  \<open>word[i] = word[i - 1] + column\<close>: an address within or just behind the block. To add to a null pointer is undefined.
\<close>

fun word_rows :: "nat \<Rightarrow> address option \<Rightarrow> address option list cres" where
  "word_rows 0 a = Inr []"
| "word_rows (Suc n) None = (if n = 0 then Inr [None] else Inl Undefined)"
| "word_rows (Suc n) (Some (b, off)) =
     cbind (if n = 0 then Inr [] else word_rows n (Some (b, off + column))) (\<lambda>as. Inr (Some (b, off) # as))"

text \<open>The program: the addresses it prints, and the blocks in the end.\<close>

definition array_main :: "(nat \<Rightarrow> bool) \<Rightarrow> bool \<Rightarrow> blocks \<Rightarrow> (address option list \<times> address option list \<times> blocks) cres" where
  "array_main ok word_ok b =
     (case alloc_rows ok [0..<8] b of (key, b) \<Rightarrow>
        cbind (free_rows key b) (\<lambda>b.
        case malloc_block word_ok (8 * 1 * column) b of (word0, b) \<Rightarrow>
          cbind (word_rows 8 word0) (\<lambda>word.
          cbind (free_block (word ! 0) b) (\<lambda>b. Inr (key, word, b)))))"

section \<open>Properties\<close>

definition fresh_blocks :: "blocks \<Rightarrow> bool" where
  "fresh_blocks b \<longleftrightarrow> (\<forall>n \<ge> next_block b. live b n = None)"

text \<open>The rows take the numbers from one \<open>next_block\<close> to the other, and freeing them takes exactly these blocks away.\<close>

lemma alloc_rows_next: "alloc_rows ok is b = (as, b') \<Longrightarrow> next_block b \<le> next_block b'"
proof (induction "is" arbitrary: b as)
  case (Cons i "is")
  then show ?case
    by (cases "ok i") (fastforce simp: malloc_block_def split: prod.splits)+
qed simp

lemma alloc_rows_live:
  "alloc_rows ok is b = (as, b') \<Longrightarrow>
     live b' n = (if next_block b \<le> n \<and> n < next_block b' then Some column else live b n)"
proof (induction "is" arbitrary: b as)
  case (Cons i "is")
  show ?case
  proof (cases "ok i")
    case True
    define b1 where "b1 = b\<lparr>live := (live b)(next_block b \<mapsto> column), next_block := Suc (next_block b)\<rparr>"
    with Cons.prems True obtain as1 where "alloc_rows ok is b1 = (as1, b')"
      by (auto simp: malloc_block_def split: prod.splits)
    with Cons.IH [OF this] alloc_rows_next [OF this] show ?thesis
      by (auto simp: b1_def)
  next
    case False
    with Cons show ?thesis
      by (auto simp: malloc_block_def split: prod.splits)
  qed
qed auto

lemma free_rows_all:
  "alloc_rows ok is b = (as, b') \<Longrightarrow> (\<And>n. next_block b \<le> n \<Longrightarrow> n < next_block b' \<Longrightarrow> live c n \<noteq> None) \<Longrightarrow>
     free_rows as c = Inr (c\<lparr>live := \<lambda>n. if next_block b \<le> n \<and> n < next_block b' then None else live c n\<rparr>)"
proof (induction "is" arbitrary: b as c)
  case (Cons i "is")
  show ?case
  proof (cases "ok i")
    case True
    define b1 where "b1 = b\<lparr>live := (live b)(next_block b \<mapsto> column), next_block := Suc (next_block b)\<rparr>"
    define c1 where "c1 = c\<lparr>live := (live c)(next_block b := None)\<rparr>"
    from Cons.prems(1) True obtain as1 where as1: "alloc_rows ok is b1 = (as1, b')" "as = Some (next_block b, 0) # as1"
      by (auto simp: b1_def malloc_block_def split: prod.splits)
    have le_next: "Suc (next_block b) \<le> next_block b'"
      using alloc_rows_next [OF as1(1)] by (simp add: b1_def)
    have "free_rows as1 c1 = Inr (c1\<lparr>live := \<lambda>n. if next_block b1 \<le> n \<and> n < next_block b' then None else live c1 n\<rparr>)"
      using Cons.prems(2) by (intro Cons.IH [OF as1(1)]) (simp add: b1_def c1_def)
    moreover have "free_rows as c = free_rows as1 c1"
      using Cons.prems(2) [of "next_block b"] le_next by (auto simp: as1(2) free_block_def c1_def)
    ultimately show ?thesis
      using le_next by (auto simp: b1_def c1_def fun_eq_iff)
  next
    case False
    with Cons show ?thesis
      by (auto simp: malloc_block_def free_block_def split: prod.splits)
  qed
next
  case Nil
  then show ?case by (cases c) (auto simp: fun_eq_iff)
qed

lemma word_rows_at:
  "0 < n \<Longrightarrow> word_rows n (Some (b, off)) = Inr (map (\<lambda>i. Some (b, off + i * column)) [0..<n])"
proof (induction n arbitrary: off)
  case (Suc n)
  have "map (\<lambda>i. Some (b, off + i * column)) [0..<Suc n] = Some (b, off) # map (\<lambda>i. Some (b, off + column + i * column)) [0..<n]"
    by (simp add: upt_conv_Cons map_Suc_upt [symmetric] add.assoc del: upt_Suc)
  with Suc show ?case
    by (cases "n = 0") simp_all
qed simp

text \<open>
  Every block is given back, whichever of the rows could not be allocated; the rows of the single block lie one behind the
  other and fill it. Without memory for the single block the program adds to a null pointer.
\<close>

lemma array_main_result:
  assumes "\<forall>n \<ge> next_block b. live b n = None"
  shows "\<exists>key b' nb. array_main ok True b = Inr (key, map (\<lambda>i. Some (nb, i * 32)) [0..<8], b') \<and> live b' = live b \<and>
      length key = 8 \<and> live b nb = None"
    and "array_main ok False b = Inl Undefined"
proof -
  obtain key b1 where key: "alloc_rows ok [0..<8] b = (key, b1)"
    by (cases "alloc_rows ok [0..<8] b")
  define b2 where "b2 = b1\<lparr>live := \<lambda>n. if next_block b \<le> n \<and> n < next_block b1 then None else live b1 n\<rparr>"
  have freed: "free_rows key b1 = Inr b2"
    unfolding b2_def by (rule free_rows_all [OF key]) (simp add: alloc_rows_live [OF key])
  have live2: "live b2 = live b"
    using assms alloc_rows_live [OF key] by (auto simp: b2_def fun_eq_iff)
  have fresh: "live b (next_block b2) = None"
    using assms alloc_rows_next [OF key] by (simp add: b2_def)
  have len: "length as = length is" if "alloc_rows ok is b = (as, b')" for "is" as b b'
    using that by (induction "is" arbitrary: as b) (auto split: prod.splits)
  show "\<exists>key b' nb. array_main ok True b = Inr (key, map (\<lambda>i. Some (nb, i * 32)) [0..<8], b') \<and> live b' = live b \<and>
      length key = 8 \<and> live b nb = None"
    using len [OF key] fresh live2
    by (auto simp: array_main_def key freed malloc_block_def word_rows_at free_block_def column_def fun_eq_iff)
  show "array_main ok False b = Inl Undefined"
    using word_rows.simps(2) [of 7] by (simp add: array_main_def key freed malloc_block_def)
qed

end
