(* ===== verification/Spec2Isabelle.thy ===== *)
theory Spec2Isabelle
  imports Crc32 Str2Hex FileTransfer CJsonPrint CJsonObject CJsonCopy CJsonMinify Getopt MemPhyMain Walkthrough
    EpollServer CJsonRoundTrip Elf JsonRead FileOps Log Popen Mii EtherDemo CJsonCompare CJsonTyped Locals
    Numbers Curl SpinLock ExecShell Sockets EpollClient Dispatch Realloc BitField GetoptTest Array2d
begin

text \<open>
  BeEasy is a collection of small C tools for Linux (and one scanner of options for Windows), each in a directory of its
  own, and a JSON library, cJSON 1.7.10, with a program on top of it. This library models every tool that is written in C and proves what makes
  it correct; where the code does something else than it means to, the theorems say exactly what it does.

  \<^bold>\<open>How the code is modelled.\<close> A function of the source is a definition with the same name, translated statement by
  statement: every early return, \<open>goto\<close> and failing call is a branch. Structures are records, enumerations and unions
  datatypes, integers words of their width where the width can show. A read or write outside an object, of a null pointer, of freed
  memory or of memory that was never set is the result \<open>Inl\<close> of a \<open>fault\<close> (\<open>Prelude\<close>), so every theorem whose conclusion is an
  \<open>Inr\<close> also says that the run has no undefined behaviour of these kinds. State is passed explicitly; what the kernel or the
  user decides (which calls fail, what arrives) is an argument, and a theorem without a hypothesis about it holds whatever they do.
  Messages that are only for people are dropped, unless they are what the program is for.

  \<^bold>\<open>What the components share.\<close>
  \<^item> \<open>Prelude\<close>: faults, bounded buffers, C strings, byte order. \<open>Locals\<close>: memory that may be unset, \<open>fgets\<close>. \<open>Numbers\<close>:
    \<open>atoi\<close>, \<open>strtoul\<close>. \<open>Binary64\<close> and \<open>Decimal\<close>: doubles, \<open>strtod\<close> and \<open>printf("%.Pg")\<close>, both with exact rounding, and the proof that
    17 digits are enough to read a double back.
  \<^item> \<open>Stdio\<close>: the streams and the allocator of the C library on a map from paths to contents. \<open>Posix\<close>: file descriptors
    (the kernel gives the lowest free one) and network interfaces.

  \<^bold>\<open>jsonRead\<close> (\<open>cJSON.c\<close>, \<open>cJSON.h\<close>, \<open>jsonRead.c\<close>). The parser and the printer see an item as a value, and so they are
  modelled (\<open>CJsonBase\<close>, \<open>CJsonString\<close>, \<open>CJsonParse\<close>, \<open>CJsonPrint\<close>): the datatype \<open>cJSON\<close> has the members of the structure, with a list of children; the heap
  is the sequence of its allocations, which may fail one by one, and the number of blocks in use. The functions that change
  items work on pointers (\<open>CJsonStore\<close> to \<open>CJsonCopy\<close>): a store maps addresses to structures chained by \<open>next\<close>, \<open>prev\<close> and \<open>child\<close>,
  with their strings. \<open>JsonRead\<close> shows that a lookup is the same on both.
  \<^item> Safety of the parser for every text and every pattern of failing allocations; the type of its results (\<open>CJsonTyped\<close>); the printer as a
    refinement of \<open>item_text\<close>; the round trip of printing and parsing in both orders (\<open>CJsonRoundTrip\<close>, \<open>CJsonTyped\<close>); \<open>cJSON_Minify\<close> against the
    function it implements and against the two printers (\<open>CJsonMinify\<close>).
  \<^item> The chain of children refines lists: the locale \<open>child_list\<close> is the contract, \<open>chains\<close> its interpretation on the code. \<open>tree_ok\<close>, the
    ownership of blocks, is an invariant of every operation, and \<open>cJSON_Delete\<close> gives back exactly what an item owns (\<open>CJsonTree\<close>). Building, adding,
    duplicating and comparing items (\<open>CJsonBuild\<close>, \<open>CJsonObject\<close>, \<open>CJsonCopy\<close>, \<open>CJsonCompare\<close>) are refinements of the same
    operations on values.
  \<^item> \<open>JsonRead\<close>: the program, from the file to its exit status.

  \<^bold>\<open>Network.\<close>
  \<^item> \<open>EtherFrame\<close>, \<open>EtherAddr\<close> (\<open>fileTransmit/ethernet.c\<close>, \<open>.h\<close>), \<open>FileTransmit\<close>, \<open>FileTransfer\<close> (\<open>fileTransmit.c\<close>): a file sent in acknowledged
    frames. The sender is proved against the locale \<open>acked_peer\<close>; its interpretation \<open>rx\<close> is the receiver of the program, so the two together store the file.
  \<^item> \<open>EtherDemo\<close> (\<open>ethernetDemo\<close>), \<open>Mii\<close> (\<open>mii/mii.c\<close>), \<open>Sockets\<close> (\<open>sockets_tcp\<close>): one text in one frame, the registers of a PHY, a greeting
    in each direction.
  \<^item> \<open>EpollServer\<close>, \<open>EpollClient\<close> (\<open>epollDemo\<close>): the server as a step relation with its kernel and its peers, with an invariant
    by rule induction; the client as a loop over the turns of \<open>select\<close>.
  \<^item> \<open>Curl\<close> (\<open>curl\<close>): the callbacks and the static pool, whose functions all satisfy the contract \<open>carving\<close>.

  \<^bold>\<open>Files and processes.\<close>
  \<^item> \<open>Str2Hex\<close> (\<open>str2hex\<close>), \<open>Crc32\<close> (\<open>crc\<close>; the locale \<open>checksum_register\<close> for its three registers), \<open>FileOps\<close> (\<open>file_operation\<close>), \<open>Log\<close> (\<open>log\<close>),
    \<open>Elf\<close> (\<open>elfRead\<close>), \<open>Walkthrough\<close> (\<open>walkthrough\<close>).
  \<^item> \<open>Popen\<close> (\<open>pipe_open\<close>), \<open>ExecShell\<close> (\<open>execShell\<close>): descriptors, children and signals of a process and of what it starts.
  \<^item> \<open>MemPhy\<close>, \<open>MemPhyMain\<close> (\<open>memPhy2Virt\<close>): physical memory behind a page table. \<open>SpinLock\<close> (\<open>spinLockTest\<close>): a kernel module that locks a
    CPU up, as a step relation. \<open>Getopt\<close>, \<open>GetoptTest\<close> (\<open>getopt4windows\<close>): the scanner as a refinement of the grammar of command lines.
  \<^item> \<open>Dispatch\<close> (\<open>dispatch\<close>), \<open>Realloc\<close> (\<open>realloc\<close>), \<open>BitField\<close> (\<open>bitField\<close>), \<open>Array2d\<close> (\<open>2d_array\<close>).

  \<^bold>\<open>Interfaces.\<close> Besides \<open>child_list\<close>, \<open>acked_peer\<close>, \<open>carving\<close> and \<open>checksum_register\<close>: \<open>value_parser\<close> is what the loops over arrays and
  objects need of \<open>parse_value\<close> with less fuel, interpreted on it as \<open>parser\<close>, and \<open>typed_parser\<close> the same for types, interpreted as
  \<open>typed\<close>; \<open>element_maker\<close> is what \<open>cJSON_CreateIntArray\<close> and its relatives need of the function that makes an element, interpreted on doubles, ints
  and strings. The levels of \<open>log.c\<close> are an instance of \<open>linorder\<close>.

  \<^bold>\<open>Fuel.\<close> Recursions that are not structural take fuel, and its being enough is proved with the result: the parser
  takes the size of the text with its terminator, and one more (every level consumes a character, and the nesting limit stops it before); walks in
  the store \<open>brk + 1\<close>, as there are \<open>brk\<close> addresses; \<open>getopt\<close> as many calls as there are letters and one more; the walks over
  directories their height; the copying loops the number of blocks. Where a loop of the program may really run for
  ever, running out of every fuel is what the theorem says (\<open>copy_file\<close>, the lock-up of \<open>SpinLock\<close>).

  \<^bold>\<open>Not modelled.\<close> \<open>Makefile\<close> holds examples of make files. Of cJSON, \<open>cJSON_Version\<close> and \<open>cJSON_GetErrorPtr\<close> (the error position itself is a result of the parser), and the code for locales,
  which is compiled out. Of the sources with branches for Windows, those branches. The compilers' and the kernel's freedom is taken as the sources
  take it: GCC on a little-endian or big-endian Linux machine, IEEE doubles, the C locale; what libcurl does is given by the calls it makes.
  \<open>errno\<close>, time and the contents of messages on the error stream are not part of any state.
\<close>

end
